(* ===== verification/Prelude.thy ===== *)
theory Prelude
  imports Main "HOL-Library.Word"
begin

text \<open>
  What the component theories share: the faults a C program can run into, as values of a sum
  type; sequencing of fallible calls; a store of allocated blocks addressed by block and
  offset, which is how \<^verbatim>\<open>malloc\<close>, \<^verbatim>\<open>free\<close>, reads and writes appear in the models; C strings
  in that store; and generic lemmas on lists and maps.
\<close>

section \<open>Faults and fallible results\<close>

text \<open>
  A C function of the repository either returns or does something the language gives no
  meaning to (or stops the process). The model has one constructor for each way of not
  returning normally.
\<close>

datatype fault =
    AssertFailed    \<comment> \<open>a false \<^verbatim>\<open>assert\<close>\<close>
  | NullDeref       \<comment> \<open>a read or write through \<^verbatim>\<open>NULL\<close>\<close>
  | OutOfBounds     \<comment> \<open>an access outside its block\<close>
  | UseAfterFree    \<comment> \<open>an access to a block that was freed\<close>
  | BadFree         \<comment> \<open>a \<^verbatim>\<open>free\<close> of something that is not an allocated block: a double free\<close>
  | Uninitialised   \<comment> \<open>an indeterminate pointer value is used\<close>
  | DivByZero
  | Diverges        \<comment> \<open>the call never returns\<close>
  | ProcessExit nat \<comment> \<open>\<^verbatim>\<open>exit(n)\<close>\<close>

type_synonym 'a res = "fault + 'a"

definition bindE :: "'a res \<Rightarrow> ('a \<Rightarrow> 'b res) \<Rightarrow> 'b res" where
  "bindE m f = (case m of Inl e \<Rightarrow> Inl e | Inr x \<Rightarrow> f x)"

lemma bindE_Inl [simp]: "bindE (Inl e) f = Inl e"
  by (simp add: bindE_def)

lemma bindE_Inr [simp]: "bindE (Inr x) f = f x"
  by (simp add: bindE_def)

lemma bindE_eq_Inr_iff: "bindE m f = Inr y \<longleftrightarrow> (\<exists>x. m = Inr x \<and> f x = Inr y)"
  by (cases m) auto

lemma bindE_eq_Inl_iff: "bindE m f = Inl e \<longleftrightarrow> m = Inl e \<or> (\<exists>x. m = Inr x \<and> f x = Inl e)"
  by (cases m) auto

lemma bindE_assoc: "bindE (bindE m f) g = bindE m (\<lambda>x. bindE (f x) g)"
  by (cases m) auto

lemma bindE_cong [fundef_cong]:
  "m = m' \<Longrightarrow> (\<And>x. m' = Inr x \<Longrightarrow> f x = f' x) \<Longrightarrow> bindE m f = bindE m' f'"
  by (cases m') auto

definition guardE :: "bool \<Rightarrow> fault \<Rightarrow> unit res" where
  "guardE b e = (if b then Inr () else Inl e)"

lemma guardE_True [simp]: "guardE True e = Inr ()"
  by (simp add: guardE_def)

lemma guardE_False [simp]: "guardE False e = Inl e"
  by (simp add: guardE_def)

lemma guardE_eq_Inr_iff [simp]: "guardE b e = Inr u \<longleftrightarrow> b"
  by (simp add: guardE_def)

lemma guardE_eq_Inl_iff [simp]: "guardE b e = Inl e' \<longleftrightarrow> \<not> b \<and> e = e'"
  by (auto simp: guardE_def)

section \<open>The store\<close>

text \<open>
  A pointer is \<^verbatim>\<open>NULL\<close>, an offset into a block, or \<open>Wild\<close>: the indeterminate value of a
  pointer cell nothing was written to. The store maps the blocks that are
  allocated to their contents, an array of cells. \<open>junk b i\<close> is what the environment left in
  cell \<open>i\<close> of block \<open>b\<close> before it was handed out: the contents of memory that
  \<^verbatim>\<open>malloc\<close> returns are whatever they are, and a model that reads them depends on it.
  Allocation is taken to succeed.
\<close>

datatype ptr = Null | Ptr nat nat | Wild

record 'c heap =
  blocks :: "nat \<rightharpoonup> 'c list"
  next_block :: nat
  junk :: "nat \<Rightarrow> nat \<Rightarrow> 'c"

definition heap_ok :: "'c heap \<Rightarrow> bool" where
  "heap_ok h \<longleftrightarrow> (\<forall>b. blocks h b \<noteq> None \<longrightarrow> b < next_block h)"

definition halloc :: "'c list \<Rightarrow> 'c heap \<Rightarrow> ptr \<times> 'c heap" where
  "halloc cs h = (Ptr (next_block h) 0,
     h\<lparr>blocks := (blocks h)(next_block h \<mapsto> cs), next_block := Suc (next_block h)\<rparr>)"

definition hmalloc :: "nat \<Rightarrow> 'c heap \<Rightarrow> ptr \<times> 'c heap" where
  "hmalloc n h = halloc (map (junk h (next_block h)) [0..<n]) h"

fun hfree :: "ptr \<Rightarrow> 'c heap \<Rightarrow> 'c heap res" where
  "hfree Null h = Inr h"
| "hfree Wild h = Inl Uninitialised"
| "hfree (Ptr b i) h =
     (if i = 0 \<and> blocks h b \<noteq> None then Inr (h\<lparr>blocks := (blocks h)(b := None)\<rparr>)
      else Inl BadFree)"

fun hread :: "ptr \<Rightarrow> 'c heap \<Rightarrow> 'c res" where
  "hread Null h = Inl NullDeref"
| "hread Wild h = Inl Uninitialised"
| "hread (Ptr b i) h =
     (case blocks h b of None \<Rightarrow> Inl UseAfterFree
      | Some cs \<Rightarrow> if i < length cs then Inr (cs ! i) else Inl OutOfBounds)"

fun hwrite :: "ptr \<Rightarrow> 'c \<Rightarrow> 'c heap \<Rightarrow> 'c heap res" where
  "hwrite Null c h = Inl NullDeref"
| "hwrite Wild c h = Inl Uninitialised"
| "hwrite (Ptr b i) c h =
     (case blocks h b of None \<Rightarrow> Inl UseAfterFree
      | Some cs \<Rightarrow> if i < length cs then Inr (h\<lparr>blocks := (blocks h)(b \<mapsto> cs[i := c])\<rparr>)
                   else Inl OutOfBounds)"

fun padd :: "ptr \<Rightarrow> nat \<Rightarrow> ptr" where
  "padd Null n = Null"
| "padd Wild n = Wild"
| "padd (Ptr b i) n = Ptr b (i + n)"

definition empty_heap :: "'c \<Rightarrow> 'c heap" where
  "empty_heap c = \<lparr>blocks = Map.empty, next_block = 0, junk = (\<lambda>_ _. c)\<rparr>"

lemma heap_ok_empty [simp]: "heap_ok (empty_heap c)"
  by (simp add: heap_ok_def empty_heap_def)

lemma heap_ok_fresh: "heap_ok h \<Longrightarrow> blocks h (next_block h) = None"
  by (auto simp: heap_ok_def)

lemma halloc_simps [simp]:
  "fst (halloc cs h) = Ptr (next_block h) 0"
  "next_block (snd (halloc cs h)) = Suc (next_block h)"
  "blocks (snd (halloc cs h)) = (blocks h)(next_block h \<mapsto> cs)"
  "junk (snd (halloc cs h)) = junk h"
  by (simp_all add: halloc_def)

lemma heap_ok_halloc: "heap_ok h \<Longrightarrow> heap_ok (snd (halloc cs h))"
  by (auto simp: heap_ok_def halloc_def less_Suc_eq)

lemma heap_ok_hfree: "heap_ok h \<Longrightarrow> hfree p h = Inr h' \<Longrightarrow> heap_ok h'"
  by (cases p) (auto simp: heap_ok_def split: if_splits)

lemma heap_ok_update: "heap_ok h \<Longrightarrow> heap_ok (h\<lparr>blocks := (blocks h)(b := None)\<rparr>)"
  by (auto simp: heap_ok_def)

section \<open>C strings in the store\<close>

text \<open>
  The cells of a string are characters and \<open>NUL\<close> ends it. \<open>strlen\<close> walks the block
  from the pointer until it meets \<open>NUL\<close>; the walk faults when it leaves the block.
\<close>

definition NUL :: char where
  "NUL = CHR 0x00"

fun scan_nul :: "char list \<Rightarrow> nat res" where
  "scan_nul [] = Inl OutOfBounds"
| "scan_nul (c # cs) = (if c = NUL then Inr 0 else bindE (scan_nul cs) (\<lambda>n. Inr (Suc n)))"

fun hstrlen :: "ptr \<Rightarrow> char heap \<Rightarrow> nat res" where
  "hstrlen Null h = Inl NullDeref"
| "hstrlen Wild h = Inl Uninitialised"
| "hstrlen (Ptr b i) h =
     (case blocks h b of None \<Rightarrow> Inl UseAfterFree | Some cs \<Rightarrow> scan_nul (drop i cs))"

text \<open>The string a pointer denotes, when it denotes one.\<close>

fun cstr :: "char heap \<Rightarrow> ptr \<Rightarrow> string option" where
  "cstr h Null = None"
| "cstr h Wild = None"
| "cstr h (Ptr b i) =
     (case blocks h b of None \<Rightarrow> None
      | Some cs \<Rightarrow> (case scan_nul (drop i cs) of Inl _ \<Rightarrow> None
                   | Inr n \<Rightarrow> Some (take n (drop i cs))))"

definition enc_str :: "string \<Rightarrow> char list" where
  "enc_str s = s @ [NUL]"

lemma scan_nul_append_NUL [simp]: "NUL \<notin> set s \<Longrightarrow> scan_nul (s @ NUL # t) = Inr (length s)"
  by (induction s) auto

lemma scan_nul_no_NUL: "NUL \<notin> set s \<Longrightarrow> scan_nul s = Inl OutOfBounds"
  by (induction s) auto

lemma scan_nul_Inr: "scan_nul cs = Inr n \<Longrightarrow> n < length cs \<and> cs ! n = NUL \<and> NUL \<notin> set (take n cs)"
  by (induction cs arbitrary: n) (auto split: if_splits simp: bindE_eq_Inr_iff)

lemma cstr_no_NUL: "cstr h p = Some s \<Longrightarrow> NUL \<notin> set s"
  by (cases p) (auto split: option.splits sum.splits dest: scan_nul_Inr)

lemma hstrlen_cstr: "cstr h p = Some s \<Longrightarrow> hstrlen p h = Inr (length s)"
  by (cases p) (auto split: option.splits sum.splits dest!: scan_nul_Inr)

lemma hread_cstr:
  "cstr h p = Some s \<Longrightarrow> i < length s \<Longrightarrow> hread (padd p i) h = Inr (s ! i)"
  by (cases p) (auto split: option.splits sum.splits dest!: scan_nul_Inr)

lemma cstr_enc_str: "blocks h b = Some (enc_str s) \<Longrightarrow> NUL \<notin> set s \<Longrightarrow> cstr h (Ptr b 0) = Some s"
  by (simp add: enc_str_def)

text \<open>\<^verbatim>\<open>atoi\<close> in the C locale: white space, a sign, the digits; 0 without a digit.\<close>

definition is_digit :: "char \<Rightarrow> bool" where
  "is_digit c \<longleftrightarrow> c \<in> set ''0123456789''"

definition atoi :: "string \<Rightarrow> int" where
  "atoi s =
     (let t = dropWhile (\<lambda>c. c \<in> {CHR '' '', CHR 0x09, CHR 0x0A, CHR 0x0B, CHR 0x0C, CHR 0x0D}) s;
          num = (\<lambda>u. foldl (\<lambda>a c. 10 * a + (int (of_char c) - 48)) 0 (takeWhile is_digit u)) in
      case t of [] \<Rightarrow> 0 | c # u \<Rightarrow> if c = CHR ''-'' then - num u else if c = CHR ''+'' then num u else num t)"

section \<open>Lists and maps\<close>

lemma map_upd_None [simp]: "m b = None \<Longrightarrow> (m(b \<mapsto> x))(b := None) = m"
  by auto

lemma take_update_Suc: "i < length xs \<Longrightarrow> take (Suc i) (xs[i := x]) = take i xs @ [x]"
  by (simp add: take_Suc_conv_app_nth)

section \<open>Runs\<close>

text \<open>A run of a labelled step function; \<open>None\<close> when a label is not enabled.\<close>

fun run :: "('l \<Rightarrow> 's \<Rightarrow> 's option) \<Rightarrow> 'l list \<Rightarrow> 's \<Rightarrow> 's option" where
  "run f [] s = Some s"
| "run f (l # ls) s = (case f l s of None \<Rightarrow> None | Some s' \<Rightarrow> run f ls s')"

lemma run_append: "run f (ls @ ls') s = (case run f ls s of None \<Rightarrow> None | Some t \<Rightarrow> run f ls' t)"
  by (induction ls arbitrary: s) (auto split: option.splits)

lemma run_invariant:
  assumes "run f ls s = Some s'" and "I s" and "\<And>l s s'. l \<in> set ls \<Longrightarrow> I s \<Longrightarrow> f l s = Some s' \<Longrightarrow> I s'"
  shows "I s'"
  using assms
proof (induction ls arbitrary: s)
  case (Cons l ls)
  then obtain s1 where s1: "f l s = Some s1" "run f ls s1 = Some s'" by (auto split: option.splits)
  then have "I s1" using Cons.prems(2) Cons.prems(3) [of l s s1] by simp
  show ?case by (rule Cons.IH [OF s1(2) \<open>I s1\<close>]) (use Cons.prems(3) in \<open>auto\<close>)
qed simp

text \<open>
  The contract of a component whose calls are steps: the invariant holds of what it starts with and every step keeps
  it. Each component whose operations may come in any order interprets the locale on its own step function; the
  bounds, the orders and the absence of deadlock are read off the invariant of a reachable state.
\<close>

locale transition_system =
  fixes step :: "'l \<Rightarrow> 's \<Rightarrow> 's option" and starts :: "'s \<Rightarrow> bool" and inv :: "'s \<Rightarrow> bool"
  assumes inv_start: "starts s \<Longrightarrow> inv s"
    and inv_step: "inv s \<Longrightarrow> step l s = Some s' \<Longrightarrow> inv s'"
begin

lemma inv_run: "run step ls s = Some s' \<Longrightarrow> inv s \<Longrightarrow> inv s'"
  by (erule run_invariant) (auto intro: inv_step)

lemma reachable: "run step ls s = Some s' \<Longrightarrow> starts s \<Longrightarrow> inv s'"
  by (erule inv_run) (rule inv_start)

lemma reachable_prefix:
  assumes "run step (ls @ ls') s = Some s'" and "starts s"
  shows "\<exists>t. run step ls s = Some t \<and> inv t \<and> run step ls' t = Some s'"
  using assms reachable [of ls s] by (auto simp: run_append split: option.splits)

end

text \<open>
  A system that comes to its end under every schedule: each step uses up some of the work that is left, and unless it
  is over some step is possible.
\<close>

locale finishing_system = transition_system step starts inv
  for step :: "'l \<Rightarrow> 's \<Rightarrow> 's option" and starts inv +
  fixes work :: "'s \<Rightarrow> nat" and over :: "'s \<Rightarrow> bool"
  assumes step_works: "inv s \<Longrightarrow> step l s = Some s' \<Longrightarrow> work s' < work s"
    and not_stuck: "inv s \<Longrightarrow> \<not> over s \<Longrightarrow> \<exists>l s'. step l s = Some s'"
begin

lemma run_bounded: "run step ls s = Some s' \<Longrightarrow> inv s \<Longrightarrow> length ls + work s' \<le> work s"
proof (induction ls arbitrary: s)
  case (Cons l ls)
  then obtain s1 where s1: "step l s = Some s1" "run step ls s1 = Some s'" by (auto split: option.splits)
  from Cons.IH [OF s1(2) inv_step [OF Cons.prems(2) s1(1)]] step_works [OF Cons.prems(2) s1(1)] show ?case by simp
qed simp

lemma completes: "inv s \<Longrightarrow> \<exists>ls s'. run step ls s = Some s' \<and> inv s' \<and> over s'"
proof (induction s rule: measure_induct_rule [of work])
  case (less s)
  show ?case
  proof (cases "over s")
    case True
    then show ?thesis using less.prems by (intro exI [of _ "[]"]) simp
  next
    case False
    then obtain l s1 where s1: "step l s = Some s1" using not_stuck less.prems by blast
    from less.IH [OF step_works [OF less.prems s1] inv_step [OF less.prems s1]]
    obtain ls s' where "run step ls s1 = Some s' \<and> inv s' \<and> over s'" by blast
    then show ?thesis using s1 by (intro exI [of _ "l # ls"]) auto
  qed
qed

text \<open>Whatever has been run, the run can be completed, and its length is bounded from the start.\<close>

lemma can_complete:
  assumes "run step ls s = Some s'" and "starts s"
  shows "\<exists>ls' t. run step (ls @ ls') s = Some t \<and> inv t \<and> over t \<and> length (ls @ ls') \<le> work s"
proof -
  obtain ls' t where t: "run step ls' s' = Some t" "inv t" "over t"
    using completes [OF reachable [OF assms]] by blast
  have r: "run step (ls @ ls') s = Some t" using assms(1) t(1) by (simp add: run_append)
  have "length (ls @ ls') \<le> work s" using run_bounded [OF r inv_start [OF assms(2)]] by simp
  then show ?thesis using r t(2,3) by blast
qed

end

end
