(* ===== verification/Callbacks.thy ===== *)
theory Callbacks
  imports Prelude
begin

text \<open>
  The element callbacks the containers are given. Their bodies are not in the repository (a
  prebuilt library); \<^verbatim>\<open>parallel_make/includes/callbacks.h\<close> documents them. What a container
  may rely on is the locale \<open>owning_callbacks\<close>: the copy constructor allocates a fresh block
  holding a copy of the value it is pointed at, the destructor frees exactly that block, the
  default constructor allocates the default value. The documented string callbacks
  (\<^verbatim>\<open>strdup\<close>, \<^verbatim>\<open>free\<close>, an allocated empty string) and the analogous callbacks for one
  character are shown to meet it.
\<close>

section \<open>Types and the shallow callbacks\<close>

type_synonym 'c copy_fn = "ptr \<Rightarrow> 'c heap \<Rightarrow> (ptr \<times> 'c heap) res"
type_synonym 'c destr_fn = "ptr \<Rightarrow> 'c heap \<Rightarrow> 'c heap res"
type_synonym 'c dflt_fn = "'c heap \<Rightarrow> (ptr \<times> 'c heap) res"

text \<open>
  Documented: the shallow copy is the identity, the shallow destructor does nothing, the
  shallow default is \<^verbatim>\<open>NULL\<close>.
\<close>

definition shallow_copy_constructor :: "'c copy_fn" where
  "shallow_copy_constructor p h = Inr (p, h)"

definition shallow_destructor :: "'c destr_fn" where
  "shallow_destructor p h = Inr h"

definition shallow_default_constructor :: "'c dflt_fn" where
  "shallow_default_constructor h = Inr (Null, h)"

lemmas shallow_callbacks =
  shallow_copy_constructor_def shallow_destructor_def shallow_default_constructor_def

section \<open>The contract of owning callbacks\<close>

text \<open>
  \<open>enc\<close> lays a value out in a block, \<open>rd\<close> is the value a pointer denotes, \<open>valid\<close> says
  which values have a layout at all (a C string holds no \<open>NUL\<close>), \<open>dv\<close> is the default.
\<close>

locale owning_callbacks =
  fixes cc :: "'c copy_fn" and de :: "'c destr_fn" and dc :: "'c dflt_fn"
    and enc :: "'v \<Rightarrow> 'c list" and rd :: "'c heap \<Rightarrow> ptr \<Rightarrow> 'v option"
    and valid :: "'v \<Rightarrow> bool" and dv :: 'v
  assumes copy: "rd h p = Some x \<Longrightarrow> cc p h = Inr (halloc (enc x) h)"
    and copy_freed: "blocks h b = None \<Longrightarrow> cc (Ptr b i) h = Inl UseAfterFree"
    and destroy: "blocks h b \<noteq> None \<Longrightarrow>
      de (Ptr b 0) h = Inr (h\<lparr>blocks := (blocks h)(b := None)\<rparr>)"
    and destroy_freed: "blocks h b = None \<Longrightarrow> de (Ptr b i) h = Inl BadFree"
    and destroy_wild: "de Wild h = Inl Uninitialised"
    and default: "dc h = Inr (halloc (enc dv) h)"
    and read_valid: "rd h p = Some x \<Longrightarrow> valid x"
    and default_valid: "valid dv"
    and read_enc: "valid x \<Longrightarrow> blocks h b = Some (enc x) \<Longrightarrow> rd h (Ptr b 0) = Some x"
    and read_frame: "(\<And>b i. p = Ptr b i \<Longrightarrow> blocks h' b = blocks h b) \<Longrightarrow> rd h' p = rd h p"
begin

lemma read_same_blocks: "blocks h' = blocks h \<Longrightarrow> rd h' p = rd h p"
  by (rule read_frame) simp

lemma destroy_fresh:
  assumes "heap_ok h"
  shows "de (fst (halloc cs h)) (snd (halloc cs h))
           = Inr (h\<lparr>next_block := Suc (next_block h)\<rparr>)"
proof -
  have "blocks (snd (halloc cs h)) (next_block h) \<noteq> None" by simp
  from destroy [OF this] show ?thesis
    using heap_ok_fresh [OF assms] by (simp add: halloc_def fun_upd_idem)
qed

end

section \<open>The documented string and character callbacks\<close>

definition string_copy_constructor :: "char copy_fn" where
  "string_copy_constructor p h =
     bindE (hstrlen p h) (\<lambda>_. case cstr h p of
        Some s \<Rightarrow> Inr (halloc (enc_str s) h)
      | None \<Rightarrow> Inl OutOfBounds)"

definition string_default_constructor :: "char dflt_fn" where
  "string_default_constructor h = Inr (halloc (enc_str []) h)"

definition char_copy_constructor :: "char copy_fn" where
  "char_copy_constructor p h = bindE (hread p h) (\<lambda>c. Inr (halloc [c] h))"

text \<open>The header does not say which character the default is.\<close>

definition char_default_constructor :: "char \<Rightarrow> char dflt_fn" where
  "char_default_constructor c0 h = Inr (halloc [c0] h)"

definition enc_char :: "char \<Rightarrow> char list" where
  "enc_char c = [c]"

definition read_char :: "char heap \<Rightarrow> ptr \<Rightarrow> char option" where
  "read_char h p = (case hread p h of Inl _ \<Rightarrow> None | Inr c \<Rightarrow> Some c)"

definition valid_cstring :: "string \<Rightarrow> bool" where
  "valid_cstring s \<longleftrightarrow> NUL \<notin> set s"

lemma cstr_frame:
  "(\<And>b i. p = Ptr b i \<Longrightarrow> blocks h' b = blocks h b) \<Longrightarrow> cstr h' p = cstr h p"
  by (cases p) auto

lemma hread_frame:
  "(\<And>b i. p = Ptr b i \<Longrightarrow> blocks h' b = blocks h b) \<Longrightarrow> hread p h' = hread p h"
  by (cases p) auto

interpretation string_cb: owning_callbacks string_copy_constructor hfree
  string_default_constructor enc_str cstr valid_cstring "[]"
proof (unfold_locales, goal_cases)
  case (1 h p x)
  then show ?case by (simp add: string_copy_constructor_def hstrlen_cstr)
next
  case (10 p h' h)
  then show ?case by (rule cstr_frame)
qed (auto simp: string_copy_constructor_def string_default_constructor_def valid_cstring_def
    enc_str_def dest: cstr_no_NUL)

interpretation char_cb: owning_callbacks char_copy_constructor hfree
  "char_default_constructor c0" enc_char read_char "\<lambda>_. True" c0 for c0
proof (unfold_locales, goal_cases)
  case (1 h p x)
  then show ?case
    by (simp add: read_char_def char_copy_constructor_def enc_char_def split: sum.splits)
next
  case (2 h b i)
  then show ?case by (simp add: char_copy_constructor_def)
next
  case (6 h)
  then show ?case by (simp add: char_default_constructor_def enc_char_def)
next
  case (9 x h b)
  then show ?case by (simp add: read_char_def enc_char_def)
next
  case (10 p h' h)
  then have "hread p h' = hread p h" by (rule hread_frame)
  then show ?case by (simp add: read_char_def)
qed simp_all

end
