(* ===== verification/Vector.thy ===== *)
theory Vector
  imports Callbacks
begin

text \<open>
  The growable array of \<^verbatim>\<open>vector/vector.c\<close>: the struct as a record, every function of the
  file as a definition over the struct and the store of allocated objects. The element
  callbacks of \<^verbatim>\<open>callbacks.h\<close> are not in the repository; they are function-valued fields of
  the struct, as in the code, and what the proofs need of them is the locale
  \<open>owning_callbacks\<close>. In it, each operation is shown to refine the list operation it stands
  for, with exact ownership: which blocks the vector owns before and after, that nothing
  else in the store changes and that nothing leaks.
\<close>

section \<open>The struct\<close>

type_synonym size_t = "64 word"

text \<open>
  \<open>array\<close> is the allocated block of pointer cells, so its length is what was really
  allocated, while \<open>capacity\<close> is what the struct says. \<open>vsize\<close> is the field \<^verbatim>\<open>size\<close>.
\<close>

record 'c vector =
  copy_constructor :: "'c copy_fn"
  destructor :: "'c destr_fn"
  default_constructor :: "'c dflt_fn"
  array :: "ptr list"
  vsize :: nat
  capacity :: nat

definition INITIAL_CAPACITY :: nat where
  "INITIAL_CAPACITY = 8"

definition GROWTH_FACTOR :: size_t where
  "GROWTH_FACTOR = 2"

section \<open>Capacity\<close>

text \<open>
  The doubling loop on 64-bit words. It is not obvious that it ends, so it is a partial
  function: \<open>None\<close> is a call that does not return.
\<close>

partial_function (option) new_capacity_loop :: "size_t \<Rightarrow> size_t \<Rightarrow> size_t option" where
  "new_capacity_loop target new_capacity =
     (if new_capacity < target
      then new_capacity_loop target (new_capacity * GROWTH_FACTOR)
      else Some new_capacity)"

definition get_new_capacity :: "size_t \<Rightarrow> size_t option" where
  "get_new_capacity target = new_capacity_loop target 1"

section \<open>Creation and observers\<close>

definition vector_create ::
  "'c copy_fn option \<Rightarrow> 'c destr_fn option \<Rightarrow> 'c dflt_fn option \<Rightarrow> 'c vector" where
  "vector_create cc de dc =
     \<lparr>copy_constructor = (case cc of Some f \<Rightarrow> f | None \<Rightarrow> shallow_copy_constructor),
      destructor = (case de of Some f \<Rightarrow> f | None \<Rightarrow> shallow_destructor),
      default_constructor = (case dc of Some f \<Rightarrow> f | None \<Rightarrow> shallow_default_constructor),
      array = replicate INITIAL_CAPACITY Wild, vsize = 0, capacity = INITIAL_CAPACITY\<rparr>"

definition shallow_vector_create :: "'c vector" where
  "shallow_vector_create =
     vector_create (Some shallow_copy_constructor) (Some shallow_destructor)
       (Some shallow_default_constructor)"

text \<open>
  The eleven generated constructors differ only in the callbacks of the element type they
  pass on, which are arguments here.
\<close>

definition typed_vector_create :: "'c copy_fn \<Rightarrow> 'c destr_fn \<Rightarrow> 'c dflt_fn \<Rightarrow> 'c vector" where
  "typed_vector_create cc de dc = vector_create (Some cc) (Some de) (Some dc)"

text \<open>
  A \<^verbatim>\<open>void **\<close> into the array is the index of the cell; \<open>vector_back\<close> of an empty vector is
  one before the first cell.
\<close>

definition vector_begin :: "'c vector \<Rightarrow> int" where
  "vector_begin v = 0"

definition vector_size :: "'c vector \<Rightarrow> nat" where
  "vector_size v = vsize v"

definition vector_end :: "'c vector \<Rightarrow> int" where
  "vector_end v = vector_begin v + int (vector_size v)"

definition vector_capacity :: "'c vector \<Rightarrow> nat" where
  "vector_capacity v = capacity v"

definition vector_empty :: "'c vector \<Rightarrow> bool" where
  "vector_empty v \<longleftrightarrow> vector_size v = 0"

definition vector_at :: "'c vector \<Rightarrow> nat \<Rightarrow> int res" where
  "vector_at v position =
     bindE (guardE (position < vector_size v) AssertFailed) (\<lambda>_. Inr (int position))"

definition vector_front :: "'c vector \<Rightarrow> int" where
  "vector_front v = vector_begin v"

definition vector_back :: "'c vector \<Rightarrow> int" where
  "vector_back v = vector_end v - 1"

text \<open>Reading and writing a cell of the array through such a pointer.\<close>

definition cell_read :: "'c vector \<Rightarrow> int \<Rightarrow> ptr res" where
  "cell_read v i = (if 0 \<le> i \<and> i < int (length (array v)) then Inr (array v ! nat i)
                    else Inl OutOfBounds)"

definition cell_write :: "'c vector \<Rightarrow> int \<Rightarrow> ptr \<Rightarrow> 'c vector res" where
  "cell_write v i p = (if 0 \<le> i \<and> i < int (length (array v))
                       then Inr (v\<lparr>array := (array v)[nat i := p]\<rparr>) else Inl OutOfBounds)"

definition cell_copy :: "'c vector \<Rightarrow> int \<Rightarrow> int \<Rightarrow> 'c vector res" where
  "cell_copy v i j = bindE (cell_read v j) (cell_write v i)"

definition vector_get :: "'c vector \<Rightarrow> nat \<Rightarrow> ptr res" where
  "vector_get v position =
     bindE (guardE (position < vector_size v) AssertFailed) (\<lambda>_.
     bindE (vector_at v position) (cell_read v))"

section \<open>Resizing\<close>

text \<open>
  \<^verbatim>\<open>realloc\<close> keeps the cells both blocks have; new cells are indeterminate. The number of
  bytes asked for is computed in 64 bits.
\<close>

definition vector_reserve :: "'c vector \<Rightarrow> nat \<Rightarrow> 'c vector res" where
  "vector_reserve v n =
     (if n \<le> vector_capacity v then Inr v
      else case get_new_capacity (of_nat n) of
        None \<Rightarrow> Inl Diverges
      | Some c \<Rightarrow>
          let cells = unat (c * 8) div 8
          in Inr (v\<lparr>array := take cells (array v @ replicate (cells - length (array v)) Wild),
                   capacity := unat c\<rparr>))"

function destroy_from :: "'c vector \<Rightarrow> nat \<Rightarrow> 'c heap \<Rightarrow> 'c heap res" where
  "destroy_from v i h =
     (if i < vector_size v
      then bindE (vector_get v i) (\<lambda>p. bindE (destructor v p h) (destroy_from v (Suc i)))
      else Inr h)"
  by pat_completeness auto
termination
  by (relation "measure (\<lambda>(v, i, h). vector_size v - i)") auto

function default_fill :: "'c vector \<Rightarrow> nat \<Rightarrow> nat \<Rightarrow> 'c heap \<Rightarrow> ('c vector \<times> 'c heap) res" where
  "default_fill v i n h =
     (if i < n
      then bindE (default_constructor v h) (\<lambda>(p, h').
           bindE (cell_write v (int i) p) (\<lambda>v'. default_fill v' (Suc i) n h'))
      else Inr (v, h))"
  by pat_completeness auto
termination
  by (relation "measure (\<lambda>(v, i, n, h). n - i)") auto

declare destroy_from.simps [simp del] default_fill.simps [simp del]

definition vector_resize :: "'c vector \<Rightarrow> nat \<Rightarrow> 'c heap \<Rightarrow> ('c vector \<times> 'c heap) res" where
  "vector_resize v n h =
     (if n \<le> vector_size v
      then bindE (destroy_from v n h) (\<lambda>h'. Inr (v\<lparr>vsize := n\<rparr>, h'))
      else bindE (vector_reserve v n) (\<lambda>v'.
           bindE (default_fill v' (vector_size v') n h) (\<lambda>(v'', h'). Inr (v''\<lparr>vsize := n\<rparr>, h'))))"

section \<open>Element updates\<close>

definition vector_set :: "'c vector \<Rightarrow> nat \<Rightarrow> ptr \<Rightarrow> 'c heap \<Rightarrow> ('c vector \<times> 'c heap) res" where
  "vector_set v position element h =
     bindE (guardE (position < vector_size v) AssertFailed) (\<lambda>_.
     bindE (vector_get v position) (\<lambda>p.
     bindE (destructor v p h) (\<lambda>h1.
     bindE (copy_constructor v element h1) (\<lambda>(q, h2).
     bindE (cell_write v (int position) q) (\<lambda>v'. Inr (v', h2))))))"

definition vector_push_back :: "'c vector \<Rightarrow> ptr \<Rightarrow> 'c heap \<Rightarrow> ('c vector \<times> 'c heap) res" where
  "vector_push_back v element h =
     bindE (vector_resize v (vector_size v + 1) h) (\<lambda>(v1, h1).
     bindE (vector_get v1 (vector_size v1 - 1)) (\<lambda>p.
     bindE (destructor v1 p h1) (\<lambda>h2.
     bindE (copy_constructor v1 element h2) (\<lambda>(q, h3).
     bindE (cell_write v1 (int (vector_size v1) - 1) q) (\<lambda>v2. Inr (v2, h3))))))"

definition vector_pop_back :: "'c vector \<Rightarrow> 'c heap \<Rightarrow> ('c vector \<times> 'c heap) res" where
  "vector_pop_back v h =
     bindE (guardE (vector_size v \<noteq> 0) AssertFailed) (\<lambda>_.
     vector_resize v (vector_size v - 1) h)"

fun shift_up :: "'c vector \<Rightarrow> nat \<Rightarrow> nat \<Rightarrow> 'c vector res" where
  "shift_up v 0 position = Inr v"
| "shift_up v (Suc i) position =
     (if Suc i > position
      then bindE (cell_copy v (int (Suc i)) (int i)) (\<lambda>v'. shift_up v' i position)
      else Inr v)"

definition vector_insert ::
  "'c vector \<Rightarrow> nat \<Rightarrow> ptr \<Rightarrow> 'c heap \<Rightarrow> ('c vector \<times> 'c heap) res" where
  "vector_insert v position element h =
     bindE (guardE (position \<le> vector_size v) AssertFailed) (\<lambda>_.
     bindE (vector_resize v (vector_size v + 1) h) (\<lambda>(v1, h1).
     bindE (vector_get v1 (vector_size v1 - 1)) (\<lambda>p.
     bindE (destructor v1 p h1) (\<lambda>h2.
     bindE (shift_up v1 (vector_size v1 - 1) position) (\<lambda>v2.
     bindE (copy_constructor v2 element h2) (\<lambda>(q, h3).
     bindE (cell_write v2 (int position) q) (\<lambda>v3. Inr (v3, h3))))))))"

function shift_down :: "'c vector \<Rightarrow> nat \<Rightarrow> nat \<Rightarrow> 'c vector res" where
  "shift_down v i n =
     (if i < n
      then bindE (cell_copy v (int i) (int i + 1)) (\<lambda>v'. shift_down v' (Suc i) n)
      else Inr v)"
  by pat_completeness auto
termination
  by (relation "measure (\<lambda>(v, i, n). n - i)") auto

declare shift_down.simps [simp del]

definition vector_erase :: "'c vector \<Rightarrow> nat \<Rightarrow> 'c heap \<Rightarrow> ('c vector \<times> 'c heap) res" where
  "vector_erase v position h =
     bindE (guardE (position < vector_size v) AssertFailed) (\<lambda>_.
     bindE (cell_read v (int position)) (\<lambda>p.
     bindE (destructor v p h) (\<lambda>h1.
     bindE (shift_down v position (vector_size v)) (\<lambda>v1.
     vector_resize v1 (vector_size v1 - 1) h1))))"

definition vector_clear :: "'c vector \<Rightarrow> 'c heap \<Rightarrow> ('c vector \<times> 'c heap) res" where
  "vector_clear v h = vector_resize v 0 h"

text \<open>Destroying the vector gives its array and struct back, so only the store is left.\<close>

definition vector_destroy :: "'c vector \<Rightarrow> 'c heap \<Rightarrow> 'c heap res" where
  "vector_destroy v h = bindE (vector_clear v h) (\<lambda>(v', h'). Inr h')"

lemmas vector_observers =
  vector_begin_def vector_size_def vector_end_def vector_capacity_def vector_empty_def
  vector_front_def vector_back_def

section \<open>The capacity loop\<close>

lemma new_capacity_loop_ge:
  assumes "new_capacity_loop t c = Some r"
  shows "t \<le> r"
  by (rule new_capacity_loop.raw_induct [where P = "\<lambda>t c r. t \<le> r", OF _ assms])
    (auto split: if_splits)

definition doubling_value :: "size_t \<Rightarrow> bool" where
  "doubling_value c \<longleftrightarrow> c = 0 \<or> (\<exists>k<64. c = 2 ^ k)"

lemma doubling_value_step: "doubling_value c \<Longrightarrow> doubling_value (c * GROWTH_FACTOR)"
proof -
  assume "doubling_value c"
  then consider "c = 0" | k where "k < 63" "c = 2 ^ k" | "c = 2 ^ 63"
    unfolding doubling_value_def
    by (metis less_antisym numeral_eq_Suc pred_numeral_simps(2) semiring_norm(26,27))
  then show ?thesis
  proof cases
    case 2
    then have "c * GROWTH_FACTOR = 2 ^ Suc k" by (simp add: GROWTH_FACTOR_def mult.commute)
    with 2 show ?thesis by (auto simp: doubling_value_def intro!: exI [of _ "Suc k"])
  qed (simp_all add: doubling_value_def GROWTH_FACTOR_def)
qed

lemma new_capacity_loop_doubling:
  assumes "new_capacity_loop t c = Some r" and "doubling_value c"
  shows "doubling_value r"
proof -
  have "doubling_value c \<longrightarrow> doubling_value r"
    by (rule new_capacity_loop.raw_induct
          [where P = "\<lambda>t c r. doubling_value c \<longrightarrow> doubling_value r", OF _ assms(1)])
      (auto split: if_splits dest: doubling_value_step)
  with assms(2) show ?thesis by blast
qed

lemma unat_two_power: "k < 64 \<Longrightarrow> unat (2 ^ k :: size_t) = 2 ^ k"
proof -
  assume "k < 64"
  then have "(2::nat) ^ k < 2 ^ 64" by (intro power_strict_increasing) auto
  then have "unat (of_nat (2 ^ k) :: size_t) = 2 ^ k" by (subst unat_of_nat) simp
  then show ?thesis by (simp only: of_nat_power of_nat_numeral)
qed

lemma new_capacity_loop_returns:
  assumes "k < 64" and "unat t \<le> 2 ^ 63" and "k = 0 \<or> 2 ^ (k - 1) < unat t"
  shows "\<exists>j<64. new_capacity_loop t (2 ^ k) = Some (2 ^ j) \<and> unat t \<le> 2 ^ j
           \<and> (j = 0 \<or> 2 ^ (j - 1) < unat t)"
  using assms
proof (induction "63 - k" arbitrary: k)
  case 0
  then have k: "k = 63" by simp
  with 0 have "\<not> (2 ^ k :: size_t) < t"
    by (simp add: word_less_nat_alt unat_two_power)
  then have "new_capacity_loop t (2 ^ k) = Some (2 ^ k)" by (simp add: new_capacity_loop.simps)
  with 0 k show ?case by (intro exI [of _ k]) simp
next
  case (Suc d)
  show ?case
  proof (cases "(2 ^ k :: size_t) < t")
    case True
    then have lt: "2 ^ k < unat t"
      using Suc.prems(1) by (simp add: word_less_nat_alt unat_two_power)
    have "new_capacity_loop t (2 ^ k) = new_capacity_loop t (2 ^ Suc k)"
      using True by (subst new_capacity_loop.simps) (simp add: GROWTH_FACTOR_def mult.commute)
    then show ?thesis
      using Suc.hyps(1) [of "Suc k"] Suc.hyps(2) Suc.prems lt by simp
  next
    case False
    then have "unat t \<le> 2 ^ k"
      using Suc.prems(1) by (simp add: word_less_nat_alt unat_two_power not_less)
    moreover have "new_capacity_loop t (2 ^ k) = Some (2 ^ k)"
      using False by (simp add: new_capacity_loop.simps)
    ultimately show ?thesis using Suc.prems by (intro exI [of _ k]) simp
  qed
qed

lemma get_new_capacity_least_power:
  assumes "unat t \<le> 2 ^ 63"
  shows "\<exists>k<64. get_new_capacity t = Some (2 ^ k) \<and> unat t \<le> 2 ^ k
           \<and> (k = 0 \<or> 2 ^ (k - 1) < unat t)"
  using new_capacity_loop_returns [of 0 t] assms by (simp add: get_new_capacity_def)

lemma get_new_capacity_diverges:
  assumes "2 ^ 63 < unat t"
  shows "get_new_capacity t = None"
proof (rule ccontr)
  assume "get_new_capacity t \<noteq> None"
  then obtain r where r: "new_capacity_loop t 1 = Some r"
    by (auto simp: get_new_capacity_def)
  have "doubling_value 1" by (auto simp: doubling_value_def intro!: exI [of _ 0])
  with r have "r = 0 \<or> (\<exists>k<64. r = 2 ^ k)"
    unfolding doubling_value_def [symmetric] by (rule new_capacity_loop_doubling)
  moreover have "t \<le> r" using r by (rule new_capacity_loop_ge)
  then have "2 ^ 63 < unat r" using assms by (simp add: word_le_nat_alt)
  ultimately obtain k where "k < 64" "(2::nat) ^ 63 < 2 ^ k"
    by (auto simp: unat_two_power)
  moreover from this have "(2::nat) ^ k \<le> 2 ^ 63" by (intro power_increasing) auto
  ultimately show False by simp
qed

section \<open>What a vector owns\<close>

text \<open>
  The struct is well formed when its array has the length it says and holds its elements.
  The bound keeps the byte count of \<open>vector_reserve\<close> inside 64 bits.
\<close>

definition vec_ok :: "'c vector \<Rightarrow> bool" where
  "vec_ok v \<longleftrightarrow> length (array v) = capacity v \<and> vsize v \<le> capacity v \<and> capacity v \<le> 2 ^ 60"

definition vec_uses :: "'c vector \<Rightarrow> 'c copy_fn \<Rightarrow> 'c destr_fn \<Rightarrow> 'c dflt_fn \<Rightarrow> bool" where
  "vec_uses v cc de dc \<longleftrightarrow>
     copy_constructor v = cc \<and> destructor v = de \<and> default_constructor v = dc"

text \<open>
  \<open>vec_owns enc v h xs bs\<close>: the cells in use point at the pairwise distinct blocks \<open>bs\<close>,
  which hold the values \<open>xs\<close>.
\<close>

definition vec_owns :: "('v \<Rightarrow> 'c list) \<Rightarrow> 'c vector \<Rightarrow> 'c heap \<Rightarrow> 'v list \<Rightarrow> nat list \<Rightarrow> bool" where
  "vec_owns enc v h xs bs \<longleftrightarrow>
     vec_ok v \<and> take (vsize v) (array v) = map (\<lambda>b. Ptr b 0) bs
     \<and> map (blocks h) bs = map (\<lambda>x. Some (enc x)) xs \<and> distinct bs"

text \<open>
  The cells past the last element are never cleared: each is indeterminate or still holds the
  address of a block that was freed.
\<close>

definition spare_unusable :: "'c vector \<Rightarrow> 'c heap \<Rightarrow> bool" where
  "spare_unusable v h \<longleftrightarrow>
     (\<forall>i. vsize v \<le> i \<and> i < length (array v) \<longrightarrow>
        (case array v ! i of Wild \<Rightarrow> True | Null \<Rightarrow> False
         | Ptr b j \<Rightarrow> blocks h b = None \<and> b < next_block h))"

lemma spare_unusable_create: "spare_unusable (vector_create cc de dc) h"
  by (simp add: spare_unusable_def vector_create_def)

text \<open>Freed blocks stay freed: what later states of the store look like.\<close>

definition freed_stay_freed :: "'c heap \<Rightarrow> 'c heap \<Rightarrow> bool" where
  "freed_stay_freed h h' \<longleftrightarrow> next_block h \<le> next_block h'
     \<and> (\<forall>b. blocks h b = None \<and> b < next_block h \<longrightarrow> blocks h' b = None)"

lemma spare_unusable_later:
  assumes "spare_unusable v h" and "freed_stay_freed h h'"
    and "vsize v \<le> vsize v'"
    and "\<And>i. vsize v' \<le> i \<Longrightarrow> i < length (array v') \<Longrightarrow>
           array v' ! i = Wild \<or> i < length (array v) \<and> array v' ! i = array v ! i"
  shows "spare_unusable v' h'"
  unfolding spare_unusable_def
proof (intro allI impI, elim conjE)
  fix i assume i: "vsize v' \<le> i" "i < length (array v')"
  from assms(4) [OF i] show "case array v' ! i of Wild \<Rightarrow> True | Null \<Rightarrow> False
      | Ptr b j \<Rightarrow> blocks h' b = None \<and> b < next_block h'"
  proof
    assume "i < length (array v) \<and> array v' ! i = array v ! i"
    moreover from this assms(1,3) i have "case array v ! i of Wild \<Rightarrow> True | Null \<Rightarrow> False
        | Ptr b j \<Rightarrow> blocks h b = None \<and> b < next_block h"
      by (simp add: spare_unusable_def)
    ultimately show ?thesis using assms(2)
      by (auto simp: freed_stay_freed_def split: ptr.splits)
  qed simp
qed

lemma vec_owns_lengths:
  assumes "vec_owns enc v h xs bs"
  shows "length bs = vsize v" and "length xs = vsize v"
proof -
  from assms have "length (take (vsize v) (array v)) = length bs"
    and "length (map (blocks h) bs) = length xs" and "vsize v \<le> length (array v)"
    by (simp_all add: vec_owns_def vec_ok_def)
  then show "length bs = vsize v" and "length xs = vsize v" by simp_all
qed

lemma vec_owns_nth:
  assumes "vec_owns enc v h xs bs" and "i < vsize v"
  shows "array v ! i = Ptr (bs ! i) 0" and "blocks h (bs ! i) = Some (enc (xs ! i))"
    and "bs ! i \<in> set bs"
proof -
  note len = vec_owns_lengths [OF assms(1)]
  have "take (vsize v) (array v) ! i = map (\<lambda>b. Ptr b 0) bs ! i"
    and "map (blocks h) bs ! i = map (\<lambda>x. Some (enc x)) xs ! i"
    using assms(1) by (simp_all add: vec_owns_def)
  with assms(2) len show "array v ! i = Ptr (bs ! i) 0"
    and "blocks h (bs ! i) = Some (enc (xs ! i))" and "bs ! i \<in> set bs"
    by simp_all
qed

lemma vec_owns_live:
  assumes "vec_owns enc v h xs bs" and "b \<in> set bs"
  shows "blocks h b \<noteq> None"
proof -
  from assms(2) obtain i where "i < length bs" "b = bs ! i" by (auto simp: in_set_conv_nth)
  with vec_owns_nth(2) [OF assms(1), of i] vec_owns_lengths [OF assms(1)] show ?thesis by simp
qed

lemma vec_owns_blocks_cong:
  "(\<And>b. b \<in> set bs \<Longrightarrow> blocks h' b = blocks h b) \<Longrightarrow> vec_owns enc v h xs bs \<Longrightarrow> vec_owns enc v h' xs bs"
  by (auto simp: vec_owns_def cong: map_cong)

lemma vec_owns_create: "vec_owns enc (vector_create cc de dc) h [] []"
  by (simp add: vec_owns_def vec_ok_def vector_create_def INITIAL_CAPACITY_def)

lemma vector_get_owned:
  assumes "vec_owns enc v h xs bs" and "i < vsize v"
  shows "vector_get v i = Inr (Ptr (bs ! i) 0)"
  using assms vec_owns_nth(1) [OF assms]
  by (simp add: vector_get_def vector_at_def vector_observers cell_read_def vec_owns_def vec_ok_def)

lemma vector_get_assert: "vsize v \<le> i \<Longrightarrow> vector_get v i = Inl AssertFailed"
  by (simp add: vector_get_def vector_observers)

lemma vector_reserve_ok:
  assumes "vec_ok v" and "n \<le> 2 ^ 60"
  shows "\<exists>k. vector_reserve v n
             = Inr (v\<lparr>array := array v @ replicate k Wild, capacity := capacity v + k\<rparr>)
           \<and> n \<le> capacity v + k \<and> capacity v + k \<le> 2 ^ 60 \<and> (n \<le> capacity v \<longrightarrow> k = 0)"
proof (cases "n \<le> capacity v")
  case True
  then show ?thesis using assms
    by (intro exI [of _ 0]) (simp add: vector_reserve_def vector_observers vec_ok_def)
next
  case False
  have un: "unat (of_nat n :: size_t) = n"
    using assms(2) by (subst unat_of_nat) simp
  obtain j where j: "j < 64" "get_new_capacity (of_nat n) = Some (2 ^ j)" "n \<le> 2 ^ j"
      "j = 0 \<or> 2 ^ (j - 1) < n"
    using get_new_capacity_least_power [of "of_nat n"] assms(2) un by auto
  have j60: "j \<le> 60"
  proof (rule ccontr)
    assume "\<not> j \<le> 60"
    then have "j \<noteq> 0" and "60 \<le> j - 1" by auto
    then have "(2::nat) ^ 60 \<le> 2 ^ (j - 1)" by (intro power_increasing) auto
    with j(4) assms(2) \<open>j \<noteq> 0\<close> show False by simp
  qed
  have "(2 ^ j * 8 :: size_t) = 2 ^ (j + 3)" by (simp add: power_add)
  then have "unat (2 ^ j * 8 :: size_t) = 2 ^ (j + 3)"
    using j60 unat_two_power [of "j + 3"] by simp
  then have cells: "unat (2 ^ j * 8 :: size_t) div 8 = 2 ^ j" by (simp add: power_add)
  have lim: "(2::nat) ^ j \<le> 2 ^ 60" using j60 by (intro power_increasing) auto
  have len: "length (array v) = capacity v" and "capacity v \<le> 2 ^ j"
    using assms(1) False j(3) by (auto simp: vec_ok_def)
  then show ?thesis
    using False j lim
    by (intro exI [of _ "2 ^ j - capacity v"])
      (simp add: vector_reserve_def vector_observers cells unat_two_power Let_def)
qed

text \<open>The store after \<open>k\<close> allocations of the same contents, and without some blocks.\<close>

definition alloc_n :: "nat \<Rightarrow> 'c list \<Rightarrow> 'c heap \<Rightarrow> 'c heap" where
  "alloc_n k cs h = h\<lparr>blocks := (\<lambda>b. if next_block h \<le> b \<and> b < next_block h + k then Some cs
                                  else blocks h b), next_block := next_block h + k\<rparr>"

definition hdrop :: "nat set \<Rightarrow> 'c heap \<Rightarrow> 'c heap" where
  "hdrop S h = h\<lparr>blocks := (\<lambda>b. if b \<in> S then None else blocks h b)\<rparr>"

lemma hdrop_empty [simp]: "hdrop {} h = h"
  by (simp add: hdrop_def)

lemma blocks_hdrop [simp]: "blocks (hdrop S h) b = (if b \<in> S then None else blocks h b)"
  by (simp add: hdrop_def)

lemma next_block_hdrop [simp]: "next_block (hdrop S h) = next_block h"
  by (simp add: hdrop_def)

lemma hdrop_insert:
  "hdrop S (h\<lparr>blocks := (blocks h)(b := None)\<rparr>) = hdrop (insert b S) h"
  by (rule heap.equality) (auto simp: hdrop_def fun_eq_iff)

lemma heap_ok_hdrop [simp]: "heap_ok h \<Longrightarrow> heap_ok (hdrop S h)"
  by (auto simp: heap_ok_def)

lemma alloc_n_0 [simp]: "alloc_n 0 cs h = h"
  by (rule heap.equality) (auto simp: alloc_n_def fun_eq_iff)

lemma alloc_n_halloc: "alloc_n k cs (snd (halloc cs h)) = alloc_n (Suc k) cs h"
  by (rule heap.equality) (auto simp: alloc_n_def halloc_def fun_eq_iff)

lemma heap_ok_alloc_n: "heap_ok h \<Longrightarrow> heap_ok (alloc_n k cs h)"
  by (fastforce simp: heap_ok_def alloc_n_def split: if_splits)

lemma freed_alloc_n [simp]: "freed_stay_freed h (alloc_n k cs h)"
  by (auto simp: freed_stay_freed_def alloc_n_def)

lemma freed_hdrop [simp]: "freed_stay_freed h (hdrop S h)"
  by (auto simp: freed_stay_freed_def)

lemma freed_halloc [simp]: "freed_stay_freed h (snd (halloc cs h))"
  by (auto simp: freed_stay_freed_def)

lemma freed_trans: "freed_stay_freed h h1 \<Longrightarrow> freed_stay_freed h1 h2 \<Longrightarrow> freed_stay_freed h h2"
  by (auto simp: freed_stay_freed_def)

lemma default_fill_ok:
  assumes "\<And>h. default_constructor v h = Inr (halloc cs h)" and "i \<le> n" and "n \<le> length (array v)"
  shows "default_fill v i n h
    = Inr (v\<lparr>array := take i (array v) @ map (\<lambda>j. Ptr (next_block h + j) 0) [0..<n - i]
                      @ drop n (array v)\<rparr>, alloc_n (n - i) cs h)"
  using assms
proof (induction "n - i" arbitrary: v i h)
  case 0
  then show ?case by (subst default_fill.simps) simp
next
  case (Suc d)
  let ?v = "v\<lparr>array := (array v)[i := Ptr (next_block h) 0]\<rparr>"
  have il: "i < n" "i < length (array v)" using Suc.hyps(2) Suc.prems by auto
  have "default_fill v i n h = default_fill ?v (Suc i) n (snd (halloc cs h))"
    using il Suc.prems(1) [of h]
    by (subst default_fill.simps) (simp add: cell_write_def halloc_def)
  also have "\<dots> = Inr (?v\<lparr>array := take (Suc i) (array ?v)
        @ map (\<lambda>j. Ptr (next_block (snd (halloc cs h)) + j) 0) [0..<n - Suc i] @ drop n (array ?v)\<rparr>,
      alloc_n (n - Suc i) cs (snd (halloc cs h)))"
    using Suc.hyps(2) Suc.prems il by (intro Suc.hyps(1)) auto
  finally have eq: "default_fill v i n h = \<dots>" .
  have "take (Suc i) (array ?v) = take i (array v) @ [Ptr (next_block h) 0]"
    using il by (simp add: take_Suc_conv_app_nth)
  moreover have "[0..<n - i] = 0 # map Suc [0..<n - Suc i]"
    using il by (simp add: map_Suc_upt upt_conv_Cons Suc_diff_Suc)
  moreover have "alloc_n (n - Suc i) cs (snd (halloc cs h)) = alloc_n (n - i) cs h"
    using il by (simp add: alloc_n_halloc Suc_diff_Suc)
  ultimately show ?case
    using il by (simp add: eq)
qed

lemma destroy_from_ok:
  assumes "\<And>h b. blocks h b \<noteq> None \<Longrightarrow>
             destructor v (Ptr b 0) h = Inr (h\<lparr>blocks := (blocks h)(b := None)\<rparr>)"
    and "\<And>j. i \<le> j \<Longrightarrow> j < vsize v \<Longrightarrow> vector_get v j = Inr (Ptr (bs ! j) 0)"
    and "\<And>b. b \<in> set (drop i bs) \<Longrightarrow> blocks h b \<noteq> None"
    and "distinct bs" and "length bs = vsize v"
  shows "destroy_from v i h = Inr (hdrop (set (drop i bs)) h)"
  using assms
proof (induction "vsize v - i" arbitrary: i h)
  case 0
  then show ?case by (subst destroy_from.simps) (simp add: vector_observers)
next
  case (Suc d)
  let ?h = "h\<lparr>blocks := (blocks h)(bs ! i := None)\<rparr>"
  have il: "i < vsize v" "i < length bs" using Suc.hyps(2) Suc.prems(5) by auto
  have di: "drop i bs = bs ! i # drop (Suc i) bs" using il by (simp add: Cons_nth_drop_Suc)
  have notin: "bs ! i \<notin> set (drop (Suc i) bs)"
    using Suc.prems(4) di by (metis distinct_drop distinct.simps(2))
  have "destroy_from v i h = destroy_from v (Suc i) ?h"
    using il Suc.prems(1) [of h "bs ! i"] Suc.prems(2) [of i] Suc.prems(3) [of "bs ! i"] di
    by (subst destroy_from.simps) (simp add: vector_observers)
  also have "\<dots> = Inr (hdrop (set (drop (Suc i) bs)) ?h)"
    using Suc.hyps(2) Suc.prems notin di by (intro Suc.hyps(1)) auto
  finally show ?case using di by (simp add: hdrop_insert)
qed

text \<open>The two shifting loops, on the cells they touch.\<close>

lemma shift_up_ok:
  assumes "position \<le> i" and "i < length (array v)"
  shows "shift_up v i position
    = Inr (v\<lparr>array := take (Suc position) (array v) @ drop position (take i (array v))
                      @ drop (Suc i) (array v)\<rparr>)"
  using assms
proof (induction v i position rule: shift_up.induct)
  case (1 v position)
  then show ?case by (simp add: id_take_nth_drop [symmetric] del: take_Suc)
next
  case (2 v i position)
  show ?case
  proof (cases "Suc i > position")
    case True
    let ?v = "v\<lparr>array := (array v)[Suc i := array v ! i]\<rparr>"
    have step: "cell_copy v (int (Suc i)) (int i) = Inr ?v"
      using 2(3) by (simp add: cell_copy_def cell_read_def cell_write_def nat_add_distrib)
    have "shift_up ?v i position
        = Inr (?v\<lparr>array := take (Suc position) (array ?v) @ drop position (take i (array ?v))
                           @ drop (Suc i) (array ?v)\<rparr>)"
      using 2(1) [of ?v] True 2(3) step by simp
    moreover have "drop (Suc i) (array ?v) = array v ! i # drop (Suc (Suc i)) (array v)"
      using 2(3) by (simp add: drop_update_swap Cons_nth_drop_Suc [symmetric])
    moreover have "drop position (take (Suc i) (array v)) = drop position (take i (array v)) @ [array v ! i]"
      using True 2(3) by (simp add: take_Suc_conv_app_nth)
    ultimately show ?thesis using True step by simp
  next
    case False
    with 2(2) have "position = Suc i" by simp
    then show ?thesis using 2(3) by simp
  qed
qed

lemma shift_down_ok:
  assumes "i \<le> n" and "n < length (array v)"
  shows "shift_down v i n
    = Inr (v\<lparr>array := take i (array v) @ drop (Suc i) (take (Suc n) (array v)) @ drop n (array v)\<rparr>)"
  using assms
proof (induction "n - i" arbitrary: v i)
  case 0
  then show ?case by (subst shift_down.simps) simp
next
  case (Suc d)
  let ?v = "v\<lparr>array := (array v)[i := array v ! Suc i]\<rparr>"
  have il: "i < n" using Suc.hyps(2) by simp
  have "cell_copy v (int i) (int i + 1) = Inr ?v"
    using il Suc.prems by (simp add: cell_copy_def cell_read_def cell_write_def nat_add_distrib)
  then have "shift_down v i n = shift_down ?v (Suc i) n"
    using il by (subst shift_down.simps) simp
  also have "\<dots> = Inr (?v\<lparr>array := take (Suc i) (array ?v)
       @ drop (Suc (Suc i)) (take (Suc n) (array ?v)) @ drop n (array ?v)\<rparr>)"
    using Suc.hyps(2) Suc.prems il by (intro Suc.hyps(1)) auto
  finally have "shift_down v i n = \<dots>" .
  moreover have "take (Suc i) (array ?v) = take i (array v) @ [array v ! Suc i]"
    using il Suc.prems by (simp add: take_Suc_conv_app_nth)
  moreover have "drop (Suc i) (take (Suc n) (array v))
      = array v ! Suc i # drop (Suc (Suc i)) (take (Suc n) (array v))"
    using il Suc.prems by (simp add: Cons_nth_drop_Suc [symmetric])
  ultimately show ?case using il by (simp add: take_update_swap)
qed

text \<open>With no spare cell the loop of \<open>vector_erase\<close> reads past the end of the array.\<close>

lemma shift_down_full:
  assumes "i < n" and "n = length (array v)"
  shows "shift_down v i n = Inl OutOfBounds"
  using assms
proof (induction "n - i" arbitrary: v i)
  case 0
  then show ?case by simp
next
  case (Suc d)
  show ?case
  proof (cases "Suc i = n")
    case True
    with Suc.prems have "cell_copy v (int i) (int i + 1) = Inl OutOfBounds"
      by (simp add: cell_copy_def cell_read_def)
    with Suc.prems show ?thesis by (subst shift_down.simps) simp
  next
    case False
    let ?v = "v\<lparr>array := (array v)[i := array v ! Suc i]\<rparr>"
    have "cell_copy v (int i) (int i + 1) = Inr ?v"
      using False Suc.prems by (simp add: cell_copy_def cell_read_def cell_write_def nat_add_distrib)
    then have "shift_down v i n = shift_down ?v (Suc i) n"
      using Suc.prems by (subst shift_down.simps) simp
    also have "\<dots> = Inl OutOfBounds"
      using False Suc.hyps(2) Suc.prems by (intro Suc.hyps(1)) auto
    finally show ?thesis .
  qed
qed

section \<open>Refinement of the list operations\<close>

text \<open>
  Appending and inserting first make room with a default element and then replace it, so
  the tail of \<open>vector_push_back\<close> is \<open>vector_set\<close> on the last position.
\<close>

lemma push_back_alt:
  "vector_push_back v e h =
     bindE (vector_resize v (vsize v + 1) h) (\<lambda>(v1, h1).
       bindE (guardE (vsize v1 \<noteq> 0) AssertFailed) (\<lambda>_. vector_set v1 (vsize v1 - 1) e h1))"
proof -
  have eq: "bindE (vector_get w (vsize w - 1)) (\<lambda>p.
          bindE (destructor w p h1) (\<lambda>h2.
          bindE (copy_constructor w e h2) (\<lambda>(q, h3).
          bindE (cell_write w (int (vsize w) - 1) q) (\<lambda>v2. Inr (v2, h3)))))
      = bindE (guardE (vsize w \<noteq> 0) AssertFailed) (\<lambda>_. vector_set w (vsize w - 1) e h1)"
    for w h1
    by (cases "vsize w = 0")
      (simp_all add: vector_get_def vector_set_def vector_observers of_nat_diff)
  show ?thesis
    unfolding vector_push_back_def vector_observers
    by (rule arg_cong [where f = "bindE _"]) (simp only: eq)
qed

context owning_callbacks
begin

lemma resize_shrink:
  assumes uses: "vec_uses v cc de dc" and own: "vec_owns enc v h xs bs" and n: "n \<le> vsize v"
  shows "vector_resize v n h = Inr (v\<lparr>vsize := n\<rparr>, hdrop (set (drop n bs)) h)"
    and "vec_owns enc (v\<lparr>vsize := n\<rparr>) (hdrop (set (drop n bs)) h) (take n xs) (take n bs)"
    and "heap_ok h \<Longrightarrow> spare_unusable v h \<Longrightarrow>
           spare_unusable (v\<lparr>vsize := n\<rparr>) (hdrop (set (drop n bs)) h)"
proof -
  note len = vec_owns_lengths [OF own]
  have live: "blocks h b \<noteq> None" if "b \<in> set (drop n bs)" for b
    using vec_owns_live [OF own in_set_dropD [OF that]] .
  have "destroy_from v n h = Inr (hdrop (set (drop n bs)) h)"
  proof (rule destroy_from_ok)
    show "destructor v (Ptr b 0) h' = Inr (h'\<lparr>blocks := (blocks h')(b := None)\<rparr>)"
      if "blocks h' b \<noteq> None" for h' b
      using destroy [OF that] uses by (simp add: vec_uses_def)
  qed (use own live len vector_get_owned [OF own] in \<open>auto simp: vec_owns_def\<close>)
  with n show "vector_resize v n h = Inr (v\<lparr>vsize := n\<rparr>, hdrop (set (drop n bs)) h)"
    by (simp add: vector_resize_def vector_observers)
  have "take n (take (vsize v) (array v)) = take n (map (\<lambda>b. Ptr b 0) bs)"
    and "take n (map (blocks h) bs) = take n (map (\<lambda>x. Some (enc x)) xs)"
    using own by (simp_all add: vec_owns_def)
  moreover have "set (take n bs) \<inter> set (drop n bs) = {}"
    using own by (simp add: vec_owns_def set_take_disj_set_drop_if_distinct)
  then have "map (blocks (hdrop (set (drop n bs)) h)) (take n bs) = map (blocks h) (take n bs)"
    by (auto simp del: set_take_disj_set_drop_if_distinct)
  ultimately show "vec_owns enc (v\<lparr>vsize := n\<rparr>) (hdrop (set (drop n bs)) h) (take n xs) (take n bs)"
    using own n by (simp add: vec_owns_def vec_ok_def take_map min_def)
  show "spare_unusable (v\<lparr>vsize := n\<rparr>) (hdrop (set (drop n bs)) h)"
    if ok: "heap_ok h" and spare: "spare_unusable v h"
    unfolding spare_unusable_def
  proof (intro allI impI, elim conjE)
    fix i assume i: "vsize (v\<lparr>vsize := n\<rparr>) \<le> i" "i < length (array (v\<lparr>vsize := n\<rparr>))"
    show "case array (v\<lparr>vsize := n\<rparr>) ! i of Wild \<Rightarrow> True | Null \<Rightarrow> False
      | Ptr b j \<Rightarrow> blocks (hdrop (set (drop n bs)) h) b = None
          \<and> b < next_block (hdrop (set (drop n bs)) h)"
    proof (cases "i < vsize v")
      case True
      then have "bs ! i \<in> set (drop n bs)"
        using i len by (auto simp: in_set_conv_nth intro!: exI [of _ "i - n"])
      then show ?thesis
        using vec_owns_nth [OF own True] ok by (auto simp: heap_ok_def)
    next
      case False
      then show ?thesis using spare i by (auto simp: spare_unusable_def split: ptr.splits)
    qed
  qed
qed

lemma resize_grow:
  assumes uses: "vec_uses v cc de dc" and own: "vec_owns enc v h xs bs" and ok: "heap_ok h"
    and n: "vsize v < n" "n \<le> 2 ^ 60"
  shows "\<exists>v'. vector_resize v n h = Inr (v', alloc_n (n - vsize v) (enc dv) h)
    \<and> vec_owns enc v' (alloc_n (n - vsize v) (enc dv) h)
        (xs @ replicate (n - vsize v) dv) (bs @ map ((+) (next_block h)) [0..<n - vsize v])
    \<and> vec_uses v' cc de dc \<and> vsize v' = n
    \<and> (spare_unusable v h \<longrightarrow> spare_unusable v' (alloc_n (n - vsize v) (enc dv) h))"
proof -
  note len = vec_owns_lengths [OF own]
  have okv: "vec_ok v" using own by (simp add: vec_owns_def)
  obtain k where k: "vector_reserve v n
        = Inr (v\<lparr>array := array v @ replicate k Wild, capacity := capacity v + k\<rparr>)"
      "n \<le> capacity v + k" "capacity v + k \<le> 2 ^ 60"
    using vector_reserve_ok [OF okv n(2)] by blast
  let ?v = "v\<lparr>array := array v @ replicate k Wild, capacity := capacity v + k\<rparr>"
  let ?a = "take (vsize v) (array v) @ map (\<lambda>j. Ptr (next_block h + j) 0) [0..<n - vsize v]
              @ drop n (array ?v)"
  let ?v' = "?v\<lparr>array := ?a, vsize := n\<rparr>"
  let ?h = "alloc_n (n - vsize v) (enc dv) h"
  have "default_fill ?v (vsize v) n h = Inr (?v\<lparr>array := take (vsize v) (array ?v)
      @ map (\<lambda>j. Ptr (next_block h + j) 0) [0..<n - vsize v] @ drop n (array ?v)\<rparr>, ?h)"
    using uses default n k(2) okv by (intro default_fill_ok) (auto simp: vec_uses_def vec_ok_def)
  moreover have "take (vsize v) (array ?v) = take (vsize v) (array v)"
    using okv by (simp add: vec_ok_def)
  ultimately have res: "vector_resize v n h = Inr (?v', ?h)"
    using n k(1) by (simp add: vector_resize_def vector_observers)
  have fresh: "b < next_block h" if "b \<in> set bs" for b
    using vec_owns_live [OF own that] ok by (simp add: heap_ok_def)
  then have old: "blocks ?h b = blocks h b" if "b \<in> set bs" for b
    using fresh [OF that] by (simp add: alloc_n_def)
  have "vec_owns enc ?v' ?h (xs @ replicate (n - vsize v) dv)
          (bs @ map ((+) (next_block h)) [0..<n - vsize v])"
  proof -
    have "vec_ok ?v'" using okv n k(2,3) by (simp add: vec_ok_def)
    moreover have "take n ?a = map (\<lambda>b. Ptr b 0) (bs @ map ((+) (next_block h)) [0..<n - vsize v])"
      using own n okv len(1) by (simp add: vec_owns_def vec_ok_def o_def)
    moreover have "map (blocks ?h) bs = map (\<lambda>x. Some (enc x)) xs"
      using own old by (simp add: vec_owns_def cong: map_cong)
    moreover have "map (blocks ?h) (map ((+) (next_block h)) [0..<n - vsize v])
        = map (\<lambda>x. Some (enc x)) (replicate (n - vsize v) dv)"
      by (rule nth_equalityI) (auto simp: alloc_n_def)
    moreover have "distinct (bs @ map ((+) (next_block h)) [0..<n - vsize v])"
      using own fresh by (fastforce simp: vec_owns_def distinct_map)
    ultimately show ?thesis by (simp add: vec_owns_def del: map_map)
  qed
  moreover have "spare_unusable v h \<longrightarrow> spare_unusable ?v' ?h"
  proof
    assume "spare_unusable v h"
    then show "spare_unusable ?v' ?h"
    proof (rule spare_unusable_later [OF _ freed_alloc_n])
      fix i assume i: "vsize ?v' \<le> i" "i < length (array ?v')"
      let ?p = "take (vsize v) (array v) @ map (\<lambda>j. Ptr (next_block h + j) 0) [0..<n - vsize v]"
      have lp: "length ?p = n" using n okv by (simp add: vec_ok_def)
      have il: "i < length (array v) + k" using i n okv k(2) by (simp add: vec_ok_def)
      have "(?p @ drop n (array ?v)) ! i = drop n (array ?v) ! (i - n)"
        using lp i(1) by (subst nth_append) (simp only: lp, simp)
      also have "\<dots> = (array v @ replicate k Wild) ! i"
        using i(1) il n okv k(2) by (subst nth_drop) (auto simp: vec_ok_def)
      finally have "?a ! i = (array v @ replicate k Wild) ! i" by simp
      with il show "array ?v' ! i = Wild \<or> i < length (array v) \<and> array ?v' ! i = array v ! i"
        by (cases "i < length (array v)") (simp_all add: nth_append)
    qed (use n in simp)
  qed
  ultimately show ?thesis using res uses
    by (intro exI [of _ ?v']) (simp add: vec_uses_def)
qed

lemma set_ok:
  assumes uses: "vec_uses v cc de dc" and own: "vec_owns enc v h xs bs" and ok: "heap_ok h"
    and pos: "pos < vsize v" and rd: "rd (hdrop {bs ! pos} h) e = Some x"
  shows "\<exists>v'. vector_set v pos e h = Inr (v', snd (halloc (enc x) (hdrop {bs ! pos} h)))
    \<and> vec_owns enc v' (snd (halloc (enc x) (hdrop {bs ! pos} h)))
         (xs[pos := x]) (bs[pos := next_block h])
    \<and> vec_uses v' cc de dc \<and> vsize v' = vsize v
    \<and> (spare_unusable v h \<longrightarrow> spare_unusable v' (snd (halloc (enc x) (hdrop {bs ! pos} h))))"
proof -
  let ?h = "hdrop {bs ! pos} h" and ?v = "v\<lparr>array := (array v)[pos := Ptr (next_block h) 0]\<rparr>"
  note len = vec_owns_lengths [OF own]
  have dest: "destructor v (Ptr (bs ! pos) 0) h = Inr ?h"
    using destroy [of h "bs ! pos"] vec_owns_nth(2) [OF own pos] uses
      hdrop_insert [of "{}" h "bs ! pos"] by (simp add: vec_uses_def)
  have wr: "cell_write v (int pos) (Ptr (next_block h) 0) = Inr ?v"
    using own pos by (simp add: cell_write_def vec_owns_def vec_ok_def)
  have run: "vector_set v pos e h = Inr (?v, snd (halloc (enc x) ?h))"
    using pos dest wr copy [OF rd] uses vector_get_owned [OF own pos]
    by (simp add: vector_set_def vector_observers vec_uses_def halloc_def)
  have fresh: "next_block h \<notin> set bs"
    using vec_owns_live [OF own, of "next_block h"] ok by (auto simp: heap_ok_def)
  have "vec_owns enc ?v (snd (halloc (enc x) ?h)) (xs[pos := x]) (bs[pos := next_block h])"
  proof -
    have "take (vsize v) (array ?v) = map (\<lambda>b. Ptr b 0) (bs[pos := next_block h])"
      using own by (simp add: vec_owns_def take_update_swap map_update)
    moreover have "map (blocks (snd (halloc (enc x) ?h))) (bs[pos := next_block h])
        = map (\<lambda>x. Some (enc x)) (xs[pos := x])"
    proof (rule nth_equalityI)
      fix i assume "i < length (map (blocks (snd (halloc (enc x) ?h))) (bs[pos := next_block h]))"
      then have i: "i < length bs" by simp
      have "i \<noteq> pos \<Longrightarrow> bs ! i \<noteq> bs ! pos"
        using own i pos len by (auto simp: vec_owns_def nth_eq_iff_index_eq)
      moreover have "bs ! i \<noteq> next_block h" using fresh i by (metis nth_mem)
      ultimately show "map (blocks (snd (halloc (enc x) ?h))) (bs[pos := next_block h]) ! i
          = map (\<lambda>x. Some (enc x)) (xs[pos := x]) ! i"
        using i pos len vec_owns_nth(2) [OF own, of i] by (auto simp: nth_list_update)
    qed (use len in simp)
    moreover have "distinct (bs[pos := next_block h])"
      using own fresh by (intro distinct_list_update) (auto simp: vec_owns_def)
    ultimately show ?thesis using own by (simp add: vec_owns_def vec_ok_def)
  qed
  moreover have "spare_unusable v h \<longrightarrow> spare_unusable ?v (snd (halloc (enc x) ?h))"
    using pos freed_trans [OF freed_hdrop [of h "{bs ! pos}"] freed_halloc [of _ "enc x"]]
    by (auto elim!: spare_unusable_later)
  ultimately show ?thesis using run uses by (intro exI [of _ ?v]) (simp add: vec_uses_def)
qed

lemma push_back_ok:
  assumes uses: "vec_uses v cc de dc" and own: "vec_owns enc v h xs bs" and ok: "heap_ok h"
    and cap: "vsize v < 2 ^ 60" and rd: "rd h e = Some x"
  shows "\<exists>v' h' b. vector_push_back v e h = Inr (v', h') \<and> vec_owns enc v' h' (xs @ [x]) (bs @ [b])
    \<and> vec_uses v' cc de dc \<and> heap_ok h'
    \<and> blocks h b = None \<and> blocks h' = (blocks h)(b \<mapsto> enc x)
    \<and> (spare_unusable v h \<longrightarrow> spare_unusable v' h') \<and> junk h' = junk h"
proof -
  let ?h1 = "alloc_n 1 (enc dv) h" and ?b1 = "next_block h"
  let ?h2 = "hdrop {?b1} ?h1"
  note len = vec_owns_lengths [OF own]
  obtain v1 where v1: "vector_resize v (vsize v + 1) h = Inr (v1, ?h1)"
      "vec_owns enc v1 ?h1 (xs @ [dv]) (bs @ [?b1])" "vec_uses v1 cc de dc" "vsize v1 = vsize v + 1"
      "spare_unusable v h \<longrightarrow> spare_unusable v1 ?h1"
    using resize_grow [OF uses own ok, of "vsize v + 1"] cap by auto
  have same: "blocks ?h2 = blocks h"
    using heap_ok_fresh [OF ok] by (auto simp: alloc_n_def hdrop_def fun_eq_iff)
  then have "rd ?h2 e = Some x" using read_same_blocks [of ?h2 h e] rd by simp
  moreover have "(bs @ [?b1]) ! vsize v = ?b1" "(xs @ [dv])[vsize v := x] = xs @ [x]"
    "\<And>c. (bs @ [?b1])[vsize v := c] = bs @ [c]"
    using len by (metis nth_append_length list_update_length)+
  ultimately obtain v2 where v2: "vector_set v1 (vsize v) e ?h1 = Inr (v2, snd (halloc (enc x) ?h2))"
      "vec_owns enc v2 (snd (halloc (enc x) ?h2)) (xs @ [x]) (bs @ [next_block ?h1])"
      "vec_uses v2 cc de dc"
      "spare_unusable v1 ?h1 \<longrightarrow> spare_unusable v2 (snd (halloc (enc x) ?h2))"
    using set_ok [OF v1(3,2) heap_ok_alloc_n [OF ok], of "vsize v" e x] v1(4) by auto
  have "vector_push_back v e h = Inr (v2, snd (halloc (enc x) ?h2))"
    using v1(1,4) v2(1) by (simp add: push_back_alt)
  moreover have "blocks (snd (halloc (enc x) ?h2)) = (blocks h)(next_block ?h1 \<mapsto> enc x)"
    by (simp add: same del: One_nat_def)
  moreover have "blocks h (next_block ?h1) = None"
    using ok by (auto simp: heap_ok_def alloc_n_def)
  moreover have "heap_ok (snd (halloc (enc x) ?h2))"
    by (intro heap_ok_halloc heap_ok_hdrop heap_ok_alloc_n ok)
  moreover have "junk (snd (halloc (enc x) ?h2)) = junk h" by (simp add: alloc_n_def hdrop_def)
  ultimately show ?thesis using v2(2,3,4) v1(5) by blast
qed

lemma insert_ok:
  assumes uses: "vec_uses v cc de dc" and own: "vec_owns enc v h xs bs" and ok: "heap_ok h"
    and cap: "vsize v < 2 ^ 60" and pos: "pos \<le> vsize v" and rd: "rd h e = Some x"
  shows "\<exists>v' h' b. vector_insert v pos e h = Inr (v', h')
    \<and> vec_owns enc v' h' (take pos xs @ x # drop pos xs) (take pos bs @ b # drop pos bs)
    \<and> vec_uses v' cc de dc \<and> heap_ok h'
    \<and> blocks h b = None \<and> blocks h' = (blocks h)(b \<mapsto> enc x)
    \<and> (spare_unusable v h \<longrightarrow> spare_unusable v' h')"
proof -
  let ?h1 = "alloc_n 1 (enc dv) h" and ?b1 = "next_block h"
  let ?h2 = "hdrop {?b1} ?h1" and ?b = "Suc (next_block h)" and ?n = "vsize v"
  let ?h3 = "snd (halloc (enc x) ?h2)"
  note len = vec_owns_lengths [OF own]
  obtain v1 where v1: "vector_resize v (?n + 1) h = Inr (v1, ?h1)"
      "vec_owns enc v1 ?h1 (xs @ [dv]) (bs @ [?b1])" "vec_uses v1 cc de dc" "vsize v1 = ?n + 1"
      "spare_unusable v h \<longrightarrow> spare_unusable v1 ?h1"
    using resize_grow [OF uses own ok, of "?n + 1"] cap by auto
  let ?a1 = "array v1"
  let ?a2 = "take (Suc pos) ?a1 @ drop pos (take ?n ?a1) @ drop (Suc ?n) ?a1"
  let ?a3 = "take pos ?a1 @ Ptr ?b 0 # drop pos (take ?n ?a1) @ drop (Suc ?n) ?a1"
  let ?v3 = "v1\<lparr>array := ?a3\<rparr>"
  have okv1: "vec_ok v1" using v1(2) by (simp add: vec_owns_def)
  then have la: "?n < length ?a1" using v1(4) by (simp add: vec_ok_def)
  have get: "vector_get v1 ?n = Inr (Ptr ?b1 0)"
    using vector_get_owned [OF v1(2), of ?n] v1(4) len(1) by (metis less_add_one nth_append_length)
  have "blocks ?h1 ?b1 \<noteq> None" by (simp add: alloc_n_def)
  from destroy [OF this] have dest: "destructor v1 (Ptr ?b1 0) ?h1 = Inr ?h2"
    using v1(3) hdrop_insert [of "{}" ?h1 ?b1] by (simp add: vec_uses_def)
  have shift: "shift_up v1 ?n pos = Inr (v1\<lparr>array := ?a2\<rparr>)"
    using pos la by (rule shift_up_ok)
  have same: "blocks ?h2 = blocks h"
    using heap_ok_fresh [OF ok] by (auto simp: alloc_n_def hdrop_def fun_eq_iff)
  then have "rd ?h2 e = Some x" using read_same_blocks [of ?h2 h e] rd by simp
  from copy [OF this] have cp: "copy_constructor v1 e ?h2 = Inr (Ptr ?b 0, ?h3)"
    using v1(3) by (simp add: vec_uses_def halloc_def alloc_n_def)
  have "?a2[pos := Ptr ?b 0] = ?a3"
    using pos la by (simp add: list_update_append take_Suc_conv_app_nth)
  then have wr: "cell_write (v1\<lparr>array := ?a2\<rparr>) (int pos) (Ptr ?b 0) = Inr ?v3"
    using pos la by (simp add: cell_write_def)
  have run: "vector_insert v pos e h = Inr (?v3, ?h3)"
    using pos v1(1,3,4) get dest shift cp wr
    by (simp add: vector_insert_def vector_observers vec_uses_def del: One_nat_def)
  have t: "take (Suc ?n) ?a1 = map (\<lambda>b. Ptr b 0) (bs @ [?b1])"
    using v1(2,4) by (simp add: vec_owns_def)
  then have "take ?n (take (Suc ?n) ?a1) = take ?n (map (\<lambda>b. Ptr b 0) (bs @ [?b1]))" by simp
  then have tn: "take ?n ?a1 = map (\<lambda>b. Ptr b 0) bs" using len(1) by (simp add: min_def)
  then have "take pos (take ?n ?a1) = map (\<lambda>b. Ptr b 0) (take pos bs)" by (simp add: take_map)
  with pos have tp: "take pos ?a1 = map (\<lambda>b. Ptr b 0) (take pos bs)" by (simp add: min_def)
  have "next_block ?h2 = ?b" by (simp add: alloc_n_def)
  then have bl: "blocks ?h3 = (blocks h)(?b \<mapsto> enc x)"
    by (simp only: halloc_simps same)
  have "vec_owns enc ?v3 ?h3 (take pos xs @ x # drop pos xs) (take pos bs @ ?b # drop pos bs)"
  proof -
    have "length ?a3 = length ?a1" using la pos by simp
    then have "vec_ok ?v3" using okv1 by (simp add: vec_ok_def)
    moreover have "take (vsize ?v3) ?a3 = map (\<lambda>b. Ptr b 0) (take pos bs @ ?b # drop pos bs)"
      using len(1) pos v1(4) by (simp add: tp tn drop_map Suc_diff_le)
    moreover have nb: "b \<noteq> ?b" if "b \<in> set bs" for b
      using vec_owns_live [OF own that] ok by (auto simp: heap_ok_def)
    moreover have "map (blocks ?h3) bs = map (blocks h) bs"
      by (intro map_cong refl) (simp only: bl fun_upd_other [OF nb])
    then have "map (blocks ?h3) bs = map (\<lambda>x. Some (enc x)) xs"
      by (rule trans) (use own in \<open>simp add: vec_owns_def\<close>)
    then have "map (blocks ?h3) (take pos bs) = map (\<lambda>x. Some (enc x)) (take pos xs)"
      and "map (blocks ?h3) (drop pos bs) = map (\<lambda>x. Some (enc x)) (drop pos xs)"
      by (metis take_map, metis drop_map)
    then have "map (blocks ?h3) (take pos bs @ ?b # drop pos bs)
        = map (\<lambda>x. Some (enc x)) (take pos xs @ x # drop pos xs)"
      by (simp only: map_append list.map bl fun_upd_same)
    moreover have "distinct (take pos bs @ ?b # drop pos bs)"
      using own nb by (auto simp: vec_owns_def set_take_disj_set_drop_if_distinct
          dest: in_set_takeD in_set_dropD)
    ultimately show ?thesis by (simp add: vec_owns_def)
  qed
  moreover have "heap_ok ?h3" by (intro heap_ok_halloc heap_ok_hdrop heap_ok_alloc_n ok)
  moreover have "blocks h ?b = None" using ok by (auto simp: heap_ok_def)
  moreover note bl
  moreover have "vec_uses ?v3 cc de dc" using v1(3) by (simp add: vec_uses_def)
  moreover have "spare_unusable v h \<longrightarrow> spare_unusable ?v3 ?h3"
  proof
    assume "spare_unusable v h"
    with v1(5) have "spare_unusable v1 ?h1" by blast
    then show "spare_unusable ?v3 ?h3"
    proof (rule spare_unusable_later)
      show "freed_stay_freed ?h1 ?h3" by (rule freed_trans [OF freed_hdrop freed_halloc])
    qed (use la pos v1(4) in \<open>auto simp: nth_append nth_Cons'\<close>)
  qed
  ultimately show ?thesis using run by blast
qed

lemma pop_back_ok:
  assumes uses: "vec_uses v cc de dc" and own: "vec_owns enc v h xs bs" and ne: "xs \<noteq> []"
  shows "vector_pop_back v h = Inr (v\<lparr>vsize := vsize v - 1\<rparr>, hdrop {last bs} h)"
    and "vec_owns enc (v\<lparr>vsize := vsize v - 1\<rparr>) (hdrop {last bs} h) (butlast xs) (butlast bs)"
proof -
  note len = vec_owns_lengths [OF own]
  have "length xs \<noteq> 0" using ne by simp
  then have ne': "vsize v \<noteq> 0" "bs \<noteq> []" using len by auto
  have "set (drop (vsize v - 1) bs) = {last bs}"
    using ne' by (cases bs rule: rev_cases) (simp_all add: len(1) [symmetric])
  then show "vector_pop_back v h = Inr (v\<lparr>vsize := vsize v - 1\<rparr>, hdrop {last bs} h)"
    and "vec_owns enc (v\<lparr>vsize := vsize v - 1\<rparr>) (hdrop {last bs} h) (butlast xs) (butlast bs)"
    using resize_shrink(1,2) [OF uses own, of "vsize v - 1"] ne' len
    by (simp_all add: vector_pop_back_def vector_observers butlast_conv_take)
qed

lemma destroy_ok:
  assumes uses: "vec_uses v cc de dc" and own: "vec_owns enc v h xs bs"
  shows "vector_destroy v h = Inr (hdrop (set bs) h)"
  using resize_shrink(1) [OF uses own, of 0] by (simp add: vector_destroy_def vector_clear_def)

text \<open>Storing an element of the vector into its own cell: it is freed before it is copied.\<close>

lemma set_self:
  assumes uses: "vec_uses v cc de dc" and own: "vec_owns enc v h xs bs" and pos: "pos < vsize v"
  shows "vector_set v pos (Ptr (bs ! pos) i) h = Inl UseAfterFree"
proof -
  have "destructor v (Ptr (bs ! pos) 0) h = Inr (hdrop {bs ! pos} h)"
    using destroy [of h "bs ! pos"] vec_owns_nth(2) [OF own pos] uses
      hdrop_insert [of "{}" h "bs ! pos"] by (simp add: vec_uses_def)
  then show ?thesis
    using pos uses vector_get_owned [OF own pos] copy_freed [of "hdrop {bs ! pos} h" "bs ! pos"]
    by (simp add: vector_set_def vector_observers vec_uses_def)
qed

text \<open>
  Erasing: after the shift the cell at the new end holds what was past the old end, and
  shrinking runs the destructor on it.
\<close>

lemma erase_faults:
  assumes uses: "vec_uses v cc de dc" and own: "vec_owns enc v h xs bs" and pos: "pos < vsize v"
    and spare: "spare_unusable v h"
  shows "vector_erase v pos h
     = Inl (if vsize v = capacity v then OutOfBounds
            else if array v ! vsize v = Wild then Uninitialised else BadFree)"
proof -
  note len = vec_owns_lengths [OF own]
  let ?h = "hdrop {bs ! pos} h" and ?n = "vsize v"
  have okv: "vec_ok v" using own by (simp add: vec_owns_def)
  have rd: "cell_read v (int pos) = Inr (Ptr (bs ! pos) 0)"
    using vec_owns_nth(1) [OF own pos] okv pos by (simp add: cell_read_def vec_ok_def)
  have dest: "destructor v (Ptr (bs ! pos) 0) h = Inr ?h"
    using destroy [of h "bs ! pos"] vec_owns_nth(2) [OF own pos] uses
      hdrop_insert [of "{}" h "bs ! pos"] by (simp add: vec_uses_def)
  show ?thesis
  proof (cases "?n = capacity v")
    case True
    then have "shift_down v pos ?n = Inl OutOfBounds"
      using pos okv by (intro shift_down_full) (simp_all add: vec_ok_def)
    with True rd dest pos show ?thesis by (simp add: vector_erase_def vector_observers)
  next
    case False
    then have lt: "?n < length (array v)" using okv by (simp add: vec_ok_def)
    let ?a = "take pos (array v) @ drop (Suc pos) (take (Suc ?n) (array v)) @ drop ?n (array v)"
    let ?v = "v\<lparr>array := ?a\<rparr>"
    have shift: "shift_down v pos ?n = Inr ?v"
      using pos lt by (intro shift_down_ok) simp_all
    have "drop (Suc pos) (take (Suc ?n) (array v)) ! (?n - 1 - pos) = array v ! ?n"
      using pos lt by simp
    moreover have "\<not> ?n - 1 < pos" "?n - 1 - pos < ?n - pos" using pos by arith+
    ultimately have nth: "?a ! (?n - 1) = array v ! ?n"
      using pos lt by (simp add: nth_append)
    have "length ?a = length (array v)" using pos lt by simp
    then have get: "vector_get ?v (?n - 1) = Inr (array v ! ?n)"
      using pos lt nth nat_diff_distrib [of 1 "int ?n"]
      by (simp add: vector_get_def vector_at_def vector_observers cell_read_def del: length_append)
    have "case array v ! ?n of Wild \<Rightarrow> True | Null \<Rightarrow> False
        | Ptr b j \<Rightarrow> blocks h b = None \<and> b < next_block h"
      using spare lt by (simp add: spare_unusable_def)
    then have bad: "destructor ?v (array v ! ?n) ?h
        = Inl (if array v ! ?n = Wild then Uninitialised else BadFree)"
      using uses destroy_wild [of ?h] destroy_freed [of ?h]
      by (cases "array v ! ?n") (simp_all add: vec_uses_def)
    have "vector_resize ?v (?n - 1) ?h = Inl (if array v ! ?n = Wild then Uninitialised else BadFree)"
      using pos get bad
      by (simp add: vector_resize_def vector_observers destroy_from.simps [of ?v])
    with False rd dest pos shift show ?thesis by (simp add: vector_erase_def vector_observers)
  qed
qed

end

section \<open>Sequences of operations\<close>

text \<open>
  A client's use of a vector is a list of operations. The specification runs them on a list
  of values; it is undefined where the caller breaks a documented precondition: removing
  from an empty vector, a position out of range, an element pointer that denotes no value,
  more than \<open>2 ^ 60\<close> elements.
\<close>

datatype vec_op =
    PushBack ptr
  | PopBack
  | Insert nat ptr
  | SetAt nat ptr
  | Resize nat
  | Clear

fun vec_step :: "'c vector \<times> 'c heap \<Rightarrow> vec_op \<Rightarrow> ('c vector \<times> 'c heap) res" where
  "vec_step (v, h) (PushBack e) = vector_push_back v e h"
| "vec_step (v, h) PopBack = vector_pop_back v h"
| "vec_step (v, h) (Insert i e) = vector_insert v i e h"
| "vec_step (v, h) (SetAt i e) = vector_set v i e h"
| "vec_step (v, h) (Resize n) = vector_resize v n h"
| "vec_step (v, h) Clear = vector_clear v h"

fun vec_run :: "'c vector \<times> 'c heap \<Rightarrow> vec_op list \<Rightarrow> ('c vector \<times> 'c heap) res" where
  "vec_run s [] = Inr s"
| "vec_run s (x # ops) = bindE (vec_step s x) (\<lambda>s'. vec_run s' ops)"

fun list_step :: "'v \<Rightarrow> (ptr \<Rightarrow> 'v option) \<Rightarrow> 'v list \<Rightarrow> vec_op \<Rightarrow> 'v list option" where
  "list_step d val xs (PushBack e) =
     (if length xs < 2 ^ 60 then map_option (\<lambda>x. xs @ [x]) (val e) else None)"
| "list_step d val xs PopBack = (if xs = [] then None else Some (butlast xs))"
| "list_step d val xs (Insert i e) =
     (if length xs < 2 ^ 60 \<and> i \<le> length xs
      then map_option (\<lambda>x. take i xs @ x # drop i xs) (val e) else None)"
| "list_step d val xs (SetAt i e) =
     (if i < length xs then map_option (\<lambda>x. xs[i := x]) (val e) else None)"
| "list_step d val xs (Resize n) =
     (if n \<le> 2 ^ 60 then Some (take n xs @ replicate (n - length xs) d) else None)"
| "list_step d val xs Clear = Some []"

fun list_run :: "'v \<Rightarrow> (ptr \<Rightarrow> 'v option) \<Rightarrow> 'v list \<Rightarrow> vec_op list \<Rightarrow> 'v list option" where
  "list_run d val xs [] = Some xs"
| "list_run d val xs (x # ops) =
     (case list_step d val xs x of None \<Rightarrow> None | Some ys \<Rightarrow> list_run d val ys ops)"

text \<open>
  The invariant of such a run: the vector holds the list's values in blocks of its own, and
  the rest of the store is as it was at the start.
\<close>

definition vec_inv ::
  "('v \<Rightarrow> 'c list) \<Rightarrow> 'c heap \<Rightarrow> 'c vector \<Rightarrow> 'c heap \<Rightarrow> 'v list \<Rightarrow> nat list \<Rightarrow> bool" where
  "vec_inv enc h0 v h xs bs \<longleftrightarrow>
     vec_owns enc v h xs bs \<and> heap_ok h \<and> spare_unusable v h
     \<and> (\<forall>b. b \<notin> set bs \<longrightarrow> blocks h b = blocks h0 b) \<and> (\<forall>b \<in> set bs. blocks h0 b = None)"

context owning_callbacks
begin

lemma read_live: "rd h (Ptr b i) = Some x \<Longrightarrow> blocks h b \<noteq> None"
  using copy [of h "Ptr b i" x] copy_freed [of h b i] by auto

lemma vec_inv_read:
  assumes "vec_inv enc h0 v h xs bs" and "rd h0 e = Some x"
  shows "rd h e = Some x"
proof -
  have "rd h e = rd h0 e"
  proof (rule read_frame)
    fix b i assume "e = Ptr b i"
    with assms(2) have "blocks h0 b \<noteq> None" by (auto dest: read_live)
    with assms(1) show "blocks h b = blocks h0 b" unfolding vec_inv_def by (metis option.distinct(1))
  qed
  with assms(2) show ?thesis by simp
qed

lemma vec_inv_extend:
  assumes "vec_inv enc h0 v h xs bs" and "blocks h b = None"
    and "vec_owns enc v' h' xs' (take i bs @ b # drop i bs)" and "heap_ok h'"
    and "blocks h' = (blocks h)(b \<mapsto> c)" and "spare_unusable v h \<longrightarrow> spare_unusable v' h'"
  shows "vec_inv enc h0 v' h' xs' (take i bs @ b # drop i bs)"
proof -
  have "set (take i bs @ b # drop i bs) = insert b (set bs)"
    by (metis Un_insert_right append_take_drop_id list.simps(15) set_append)
  moreover have "b \<notin> set bs" using assms(1,2) vec_owns_live by (fastforce simp: vec_inv_def)
  ultimately show ?thesis using assms by (auto simp: vec_inv_def)
qed

lemma vec_inv_shrink:
  assumes "vec_uses v cc de dc" and "vec_inv enc h0 v h xs bs" and "n \<le> vsize v"
  shows "vector_resize v n h = Inr (v\<lparr>vsize := n\<rparr>, hdrop (set (drop n bs)) h)"
    and "vec_inv enc h0 (v\<lparr>vsize := n\<rparr>) (hdrop (set (drop n bs)) h) (take n xs) (take n bs)"
proof -
  have own: "vec_owns enc v h xs bs" and ok: "heap_ok h" "spare_unusable v h"
    using assms(2) by (simp_all add: vec_inv_def)
  note r = resize_shrink [OF assms(1) own assms(3)]
  show "vector_resize v n h = Inr (v\<lparr>vsize := n\<rparr>, hdrop (set (drop n bs)) h)" by (rule r(1))
  have "set bs = set (take n bs) \<union> set (drop n bs)"
    by (metis append_take_drop_id set_append)
  then show "vec_inv enc h0 (v\<lparr>vsize := n\<rparr>) (hdrop (set (drop n bs)) h) (take n xs) (take n bs)"
    using assms(2) r(2) r(3) [OF ok] ok by (auto simp: vec_inv_def)
qed

lemma vec_inv_grow:
  assumes "vec_uses v cc de dc" and inv: "vec_inv enc h0 v h xs bs"
    and n: "vsize v < n" "n \<le> 2 ^ 60"
  shows "\<exists>v' h' bs'. vector_resize v n h = Inr (v', h') \<and> vec_uses v' cc de dc
    \<and> vec_inv enc h0 v' h' (xs @ replicate (n - vsize v) dv) bs'"
proof -
  have own: "vec_owns enc v h xs bs" and ok: "heap_ok h" using inv by (simp_all add: vec_inv_def)
  let ?k = "n - vsize v"
  obtain v' where v': "vector_resize v n h = Inr (v', alloc_n ?k (enc dv) h)"
      "vec_owns enc v' (alloc_n ?k (enc dv) h) (xs @ replicate ?k dv)
        (bs @ map ((+) (next_block h)) [0..<?k])"
      "vec_uses v' cc de dc" "spare_unusable v h \<longrightarrow> spare_unusable v' (alloc_n ?k (enc dv) h)"
    using resize_grow [OF assms(1) own ok n] by blast
  have fresh: "blocks h0 b = None" if "next_block h \<le> b" for b
  proof -
    have "blocks h b = None" using ok that by (force simp: heap_ok_def)
    moreover from this have "b \<notin> set bs" using vec_owns_live [OF own] by blast
    ultimately show ?thesis using inv by (auto simp: vec_inv_def)
  qed
  have mem: "next_block h \<le> b \<and> b < next_block h + ?k \<Longrightarrow> b \<in> (+) (next_block h) ` {0..<?k}" for b
    by (rule image_eqI [of _ _ "b - next_block h"]) auto
  have "vec_inv enc h0 v' (alloc_n ?k (enc dv) h) (xs @ replicate ?k dv)
          (bs @ map ((+) (next_block h)) [0..<?k])"
    unfolding vec_inv_def
  proof (intro conjI allI impI ballI)
    fix b assume "b \<notin> set (bs @ map ((+) (next_block h)) [0..<?k])"
    then have "b \<notin> set bs" and "\<not> (next_block h \<le> b \<and> b < next_block h + ?k)"
      using mem [of b] by auto
    then show "blocks (alloc_n ?k (enc dv) h) b = blocks h0 b"
      using inv by (auto simp: alloc_n_def vec_inv_def)
  next
    fix b assume "b \<in> set (bs @ map ((+) (next_block h)) [0..<?k])"
    then show "blocks h0 b = None" using inv fresh by (auto simp: vec_inv_def)
  qed (use v' inv ok in \<open>auto simp: vec_inv_def heap_ok_alloc_n\<close>)
  with v' show ?thesis by blast
qed

lemma step_refines:
  assumes uses: "vec_uses v cc de dc" and inv: "vec_inv enc h0 v h xs bs"
    and spec: "list_step dv (rd h0) xs x = Some ys"
  shows "\<exists>v' h' bs'. vec_step (v, h) x = Inr (v', h') \<and> vec_uses v' cc de dc
    \<and> vec_inv enc h0 v' h' ys bs'"
proof -
  have own: "vec_owns enc v h xs bs" and ok: "heap_ok h" using inv by (simp_all add: vec_inv_def)
  note len = vec_owns_lengths [OF own]
  show ?thesis
  proof (cases x)
    case (PushBack e)
    with spec len obtain y where y: "rd h e = Some y" "ys = xs @ [y]" "vsize v < 2 ^ 60"
      by (auto simp: vec_inv_read [OF inv] split: if_splits)
    with push_back_ok [OF uses own ok y(3,1)] obtain v' h' b
      where "vector_push_back v e h = Inr (v', h')" "vec_owns enc v' h' ys (bs @ [b])"
        "vec_uses v' cc de dc" "heap_ok h'" "blocks h b = None" "blocks h' = (blocks h)(b \<mapsto> enc y)"
        "spare_unusable v h \<longrightarrow> spare_unusable v' h'" by blast
    with vec_inv_extend [OF inv, of b v' h' ys "length bs" "enc y"] PushBack show ?thesis by auto
  next
    case PopBack
    with spec have ne: "xs \<noteq> []" "ys = butlast xs" by (auto split: if_splits)
    then have "vsize v \<noteq> 0" using len(2) by (metis length_0_conv)
    with vec_inv_shrink [OF uses inv, of "vsize v - 1"] uses PopBack ne len show ?thesis
      by (auto simp: vector_pop_back_def vector_observers vec_uses_def butlast_conv_take)
  next
    case (Insert i e)
    with spec len obtain y where y: "rd h e = Some y" "ys = take i xs @ y # drop i xs"
        "vsize v < 2 ^ 60" "i \<le> vsize v"
      by (auto simp: vec_inv_read [OF inv] split: if_splits)
    with insert_ok [OF uses own ok y(3,4,1)] obtain v' h' b
      where "vector_insert v i e h = Inr (v', h')" "vec_owns enc v' h' ys (take i bs @ b # drop i bs)"
        "vec_uses v' cc de dc" "heap_ok h'" "blocks h b = None" "blocks h' = (blocks h)(b \<mapsto> enc y)"
        "spare_unusable v h \<longrightarrow> spare_unusable v' h'" by blast
    with vec_inv_extend [OF inv, of b v' h' ys i "enc y"] Insert show ?thesis by auto
  next
    case (SetAt i e)
    with spec len obtain y where y: "rd h0 e = Some y" "ys = xs[i := y]" "i < vsize v"
      by (auto split: if_splits)
    let ?h = "hdrop {bs ! i} h" and ?b = "next_block h"
    have bi: "bs ! i \<in> set bs" using y(3) len by simp
    have "rd ?h e = rd h0 e"
    proof (rule read_frame)
      fix b j assume e: "e = Ptr b j"
      then have "blocks h0 b \<noteq> None" using y(1) by (auto dest: read_live)
      then have "b \<notin> set bs" using inv by (auto simp: vec_inv_def)
      then show "blocks ?h b = blocks h0 b" using inv bi by (auto simp: vec_inv_def)
    qed
    with y(1) have "rd ?h e = Some y" by simp
    from set_ok [OF uses own ok y(3) this] obtain v' where v':
        "vector_set v i e h = Inr (v', snd (halloc (enc y) ?h))"
        "vec_owns enc v' (snd (halloc (enc y) ?h)) ys (bs[i := ?b])" "vec_uses v' cc de dc"
        "spare_unusable v h \<longrightarrow> spare_unusable v' (snd (halloc (enc y) ?h))" using y(2) by blast
    have nb: "?b \<notin> set bs" using vec_owns_live [OF own, of ?b] ok by (auto simp: heap_ok_def)
    have sb: "set (bs[i := ?b]) = insert ?b (set bs - {bs ! i})"
      using own y(3) len by (intro set_update_distinct) (auto simp: vec_owns_def)
    have "blocks h0 ?b = None"
      using inv nb heap_ok_fresh [OF ok] by (auto simp: vec_inv_def)
    then have "vec_inv enc h0 v' (snd (halloc (enc y) ?h)) ys (bs[i := ?b])"
      using v' inv bi sb by (auto simp: vec_inv_def heap_ok_halloc)
    with v' SetAt show ?thesis by auto
  next
    case (Resize n)
    show ?thesis
    proof (cases "n \<le> vsize v")
      case True
      with vec_inv_shrink [OF uses inv True] uses Resize spec len show ?thesis
        by (auto simp: vec_uses_def split: if_splits)
    next
      case False
      with Resize spec len have "vsize v < n" "n \<le> 2 ^ 60" "ys = xs @ replicate (n - vsize v) dv"
        by (auto split: if_splits)
      with vec_inv_grow [OF uses inv] Resize show ?thesis by auto
    qed
  next
    case Clear
    with vec_inv_shrink [OF uses inv, of 0] uses spec show ?thesis
      by (auto simp: vector_clear_def vec_uses_def)
  qed
qed

lemma run_refines:
  assumes "vec_uses v cc de dc" and "vec_inv enc h0 v h xs bs"
    and "list_run dv (rd h0) xs ops = Some ys"
  shows "\<exists>v' h' bs'. vec_run (v, h) ops = Inr (v', h') \<and> vec_uses v' cc de dc
    \<and> vec_inv enc h0 v' h' ys bs'"
  using assms
proof (induction ops arbitrary: v h xs bs)
  case Nil
  then show ?case by auto
next
  case (Cons x ops)
  from Cons.prems(3) obtain zs where zs: "list_step dv (rd h0) xs x = Some zs"
      "list_run dv (rd h0) zs ops = Some ys" by (auto split: option.splits)
  from step_refines [OF Cons.prems(1,2) zs(1)] obtain v' h' bs' where
    "vec_step (v, h) x = Inr (v', h')" "vec_uses v' cc de dc" "vec_inv enc h0 v' h' zs bs'" by blast
  with Cons.IH [OF _ _ zs(2)] show ?case by simp
qed

lemma created_inv: "heap_ok h0 \<Longrightarrow> vec_inv enc h0 (typed_vector_create cc de dc) h0 [] []"
  and created_uses: "vec_uses (typed_vector_create cc de dc) cc de dc"
  using vec_owns_create [of enc "Some cc" "Some de" "Some dc" h0]
    spare_unusable_create [of "Some cc" "Some de" "Some dc" h0]
  by (simp_all add: vec_inv_def typed_vector_create_def vec_uses_def)
    (simp_all add: vector_create_def)

lemma destroy_restores:
  assumes "vec_uses v cc de dc" and "vec_inv enc h0 v h xs bs"
  shows "\<exists>h'. vector_destroy v h = Inr h' \<and> blocks h' = blocks h0"
proof -
  have "vector_destroy v h = Inr (hdrop (set bs) h)"
    using destroy_ok [OF assms(1)] assms(2) by (auto simp: vec_inv_def)
  moreover have "blocks (hdrop (set bs) h) = blocks h0"
    using assms(2) by (auto simp: vec_inv_def fun_eq_iff)
  ultimately show ?thesis by blast
qed

end

section \<open>Properties\<close>


definition sample_heap :: "char heap" where
  "sample_heap = snd (halloc (enc_str ''two'') (snd (halloc (enc_str ''one'') (empty_heap NUL))))"

lemma sample_heap_ok: "heap_ok sample_heap"
  unfolding sample_heap_def by (intro heap_ok_halloc heap_ok_empty)

lemma sample_heap_blocks:
  "blocks sample_heap 0 = Some (enc_str ''one'')" "blocks sample_heap 1 = Some (enc_str ''two'')"
  by (simp_all add: sample_heap_def empty_heap_def)

lemma sample_heap_strings:
  "cstr sample_heap (Ptr 0 0) = Some ''one''" "cstr sample_heap (Ptr 1 0) = Some ''two''"
  by (rule cstr_enc_str, rule sample_heap_blocks, simp add: NUL_def)+


text \<open>
  \<open>vector_erase\<close> never works on a vector that owns its elements: after any run of the
  other operations, erasing any position reads past the array, frees an indeterminate
  pointer or frees a block for the second time.
\<close>

theorem vector_erase_always_faults:
  assumes "owning_callbacks cc de dc enc rd valid dv" and "heap_ok h0"
    and "list_run dv (rd h0) [] ops = Some xs" and "pos < length xs"
  shows "\<exists>v h. vec_run (typed_vector_create cc de dc, h0) ops = Inr (v, h)
           \<and> vector_erase v pos h \<in> {Inl OutOfBounds, Inl Uninitialised, Inl BadFree}"
proof -
  note c = owning_callbacks.created_uses [OF assms(1)] owning_callbacks.created_inv [OF assms(1,2)]
  obtain v h bs where r: "vec_run (typed_vector_create cc de dc, h0) ops = Inr (v, h)"
      "vec_uses v cc de dc" "vec_inv enc h0 v h xs bs"
    using owning_callbacks.run_refines [OF assms(1) c assms(3)] by blast
  then have own: "vec_owns enc v h xs bs" "spare_unusable v h" by (simp_all add: vec_inv_def)
  then have "pos < vsize v" using vec_owns_lengths(2) assms(4) by metis
  from owning_callbacks.erase_faults [OF assms(1) r(2) own(1) this own(2)] r(1)
  show ?thesis by auto
qed

theorem vector_erase_always_faults_witness:
  "\<exists>v h. vec_run (typed_vector_create string_copy_constructor hfree string_default_constructor,
        sample_heap) [PushBack (Ptr 0 0), PushBack (Ptr 1 0), PopBack] = Inr (v, h)
      \<and> vector_erase v 0 h \<in> {Inl OutOfBounds, Inl Uninitialised, Inl BadFree}"
proof -
  have "list_run [] (cstr sample_heap) [] [PushBack (Ptr 0 0), PushBack (Ptr 1 0), PopBack]
    = Some [''one'']"
    by (simp add: sample_heap_strings del: cstr.simps One_nat_def)
  from vector_erase_always_faults [OF string_cb.owning_callbacks_axioms sample_heap_ok this, of 0]
  show ?thesis by simp
qed

text \<open>
  C32: The growth loop returns exactly when the target is at most \<open>2 ^ 63\<close>, and then gives the
  least power of two that is large enough; for a larger target the doubled capacity wraps
  to 0 and the loop runs forever.
\<close>

theorem get_new_capacity_correct:
  "get_new_capacity target =
     (if unat target \<le> 2 ^ 63 then Some (2 ^ (LEAST k. unat target \<le> 2 ^ k)) else None)"
proof (cases "unat target \<le> 2 ^ 63")
  case True
  from get_new_capacity_least_power [OF True] obtain k where k:
    "get_new_capacity target = Some (2 ^ k)" "unat target \<le> 2 ^ k" "k = 0 \<or> 2 ^ (k - 1) < unat target"
    by blast
  have "(LEAST j. unat target \<le> 2 ^ j) = k"
  proof (rule Least_equality)
    fix j assume j: "unat target \<le> 2 ^ j"
    show "k \<le> j"
    proof (rule ccontr)
      assume "\<not> k \<le> j"
      then have "k \<noteq> 0" and "j \<le> k - 1" by auto
      then have "(2::nat) ^ j \<le> 2 ^ (k - 1)" by (intro power_increasing) auto
      with j have "unat target \<le> 2 ^ (k - 1)" by (rule le_trans)
      with \<open>k \<noteq> 0\<close> k(3) show False by simp
    qed
  qed (rule k(2))
  with True k(1) show ?thesis by simp
next
  case False
  then show ?thesis by (simp add: get_new_capacity_diverges)
qed

text \<open>
  Storing an element of an owning vector back into its own cell, as in
  \<^verbatim>\<open>vector_set(v, i, vector_get(v, i))\<close>, copies it after it was freed.
\<close>

theorem vector_set_own_element:
  assumes "owning_callbacks cc de dc enc rd valid dv" and "vec_uses v cc de dc"
    and "vec_owns enc v h xs bs" and "pos < vector_size v"
  shows "bindE (vector_get v pos) (\<lambda>e. vector_set v pos e h) = Inl UseAfterFree"
  using owning_callbacks.set_self [OF assms(1-3)] vector_get_owned [OF assms(3)] assms(4)
  by (simp add: vector_size_def)

definition one_string_vector :: "char vector" where
  "one_string_vector =
     (typed_vector_create string_copy_constructor hfree string_default_constructor)
       \<lparr>array := Ptr 0 0 # replicate 7 Wild, vsize := 1\<rparr>"

lemma one_string_vector_owns:
  "vec_owns enc_str one_string_vector sample_heap [''one''] [0]"
  "vec_uses one_string_vector string_copy_constructor hfree string_default_constructor"
  by (simp_all add: vec_owns_def vec_ok_def vec_uses_def one_string_vector_def
      typed_vector_create_def vector_create_def INITIAL_CAPACITY_def sample_heap_blocks)

theorem vector_set_own_element_witness:
  "bindE (vector_get one_string_vector 0) (\<lambda>e. vector_set one_string_vector 0 e sample_heap)
     = Inl UseAfterFree"
  by (rule vector_set_own_element [OF string_cb.owning_callbacks_axioms
        one_string_vector_owns(2,1)])
    (simp add: vector_size_def one_string_vector_def)

text \<open>
  The positions the assertions reject are exactly the ones out of range: a get, set or
  erase at or past the size, an insertion past the size and a pop of the empty vector.
\<close>

theorem vector_positions_checked:
  "(vector_get v pos = Inl AssertFailed \<longleftrightarrow> vector_size v \<le> pos)
   \<and> (vector_at v pos = (if pos < vector_size v then Inr (int pos) else Inl AssertFailed))
   \<and> (vector_size v \<le> pos \<longrightarrow> vector_set v pos e h = Inl AssertFailed
        \<and> vector_erase v pos h = Inl AssertFailed)
   \<and> (vector_size v < pos \<longrightarrow> vector_insert v pos e h = Inl AssertFailed)
   \<and> (vector_size v = 0 \<longrightarrow> vector_pop_back v h = Inl AssertFailed)"
  by (auto simp: vector_get_def vector_at_def cell_read_def vector_set_def vector_erase_def
      vector_insert_def vector_pop_back_def bindE_eq_Inl_iff)

theorem vector_positions_checked_witness:
  "vector_set one_string_vector 1 Null sample_heap = Inl AssertFailed
   \<and> vector_erase one_string_vector 1 sample_heap = Inl AssertFailed
   \<and> vector_insert one_string_vector 2 Null sample_heap = Inl AssertFailed
   \<and> vector_pop_back (shallow_vector_create :: char vector) sample_heap = Inl AssertFailed"
  using vector_positions_checked [of one_string_vector 1 Null sample_heap]
    vector_positions_checked [of one_string_vector 2 Null sample_heap]
    vector_positions_checked [of "shallow_vector_create :: char vector" 0 Null sample_heap]
  by (simp add: vector_size_def one_string_vector_def shallow_vector_create_def vector_create_def)

text \<open>
  On a vector with the shallow callbacks \<open>vector_erase\<close> removes the element when a spare
  cell is left and reads past the end of the array when the vector is full.
\<close>

theorem vector_erase_shallow:
  assumes "vec_ok v"
    and "vec_uses v shallow_copy_constructor shallow_destructor shallow_default_constructor"
    and "pos < vector_size v"
  shows "if vector_size v < vector_capacity v
         then \<exists>v'. vector_erase v pos h = Inr (v', h) \<and> vsize v' = vsize v - 1
              \<and> take (vsize v') (array v') = take pos (array v) @ drop (Suc pos) (take (vsize v) (array v))
         else vector_erase v pos h = Inl OutOfBounds"
proof -
  let ?n = "vsize v"
  have pos: "pos < ?n" and le: "?n \<le> length (array v)" "length (array v) = capacity v"
    using assms by (simp_all add: vector_size_def vec_ok_def)
  have rd: "cell_read v (int pos) = Inr (array v ! pos)" using pos le by (simp add: cell_read_def)
  have de: "destructor v p h' = Inr h'" for p h'
    using assms(2) by (simp add: vec_uses_def shallow_callbacks)
  show ?thesis
  proof (cases "?n = capacity v")
    case True
    then have "shift_down v pos ?n = Inl OutOfBounds" using pos le by (intro shift_down_full) simp_all
    with True pos rd de show ?thesis by (simp add: vector_erase_def vector_observers)
  next
    case False
    then have lt: "?n < length (array v)" using le by simp
    let ?a = "take pos (array v) @ drop (Suc pos) (take (Suc ?n) (array v)) @ drop ?n (array v)"
    let ?v = "v\<lparr>array := ?a\<rparr>"
    have shift: "shift_down v pos ?n = Inr ?v" using pos lt by (intro shift_down_ok) simp_all
    have "length ?a = length (array v)" using pos lt by simp
    then obtain p where get: "vector_get ?v (?n - 1) = Inr p"
      using pos lt
      by (simp add: vector_get_def vector_at_def vector_observers cell_read_def del: length_append)
    have "vector_resize ?v (?n - 1) h = Inr (?v\<lparr>vsize := ?n - 1\<rparr>, h)"
      using pos get de
      by (simp add: vector_resize_def vector_observers destroy_from.simps [of ?v])
    with pos rd de shift have "vector_erase v pos h = Inr (?v\<lparr>vsize := ?n - 1\<rparr>, h)"
      by (simp add: vector_erase_def vector_observers)
    moreover have "take (?n - 1) ?a = take pos (array v) @ drop (Suc pos) (take ?n (array v))"
    proof -
      have "drop (Suc pos) (take (Suc ?n) (array v))
          = drop (Suc pos) (take ?n (array v)) @ [array v ! ?n]"
        using pos lt by (simp add: take_Suc_conv_app_nth)
      with pos lt show ?thesis by simp
    qed
    ultimately show ?thesis using False le lt by (simp add: vector_observers)
  qed
qed

theorem vector_erase_shallow_witness:
  "\<exists>v'. vector_erase (shallow_vector_create\<lparr>array := map (\<lambda>i. Ptr i 0) [0..<8], vsize := 3\<rparr>) 1
          sample_heap = Inr (v', sample_heap) \<and> vsize v' = 2
        \<and> take (vsize v') (array v') = [Ptr 0 0, Ptr 2 0]"
proof -
  let ?v = "shallow_vector_create\<lparr>array := map (\<lambda>i. Ptr i 0) [0..<8], vsize := 3\<rparr> :: char vector"
  have "vec_ok ?v" and "vec_uses ?v shallow_copy_constructor shallow_destructor shallow_default_constructor"
    and "1 < vector_size ?v"
    by (simp_all add: vec_ok_def vec_uses_def shallow_vector_create_def vector_create_def
        INITIAL_CAPACITY_def vector_size_def)
  from vector_erase_shallow [OF this, of sample_heap] show ?thesis
    by (simp add: vector_size_def vector_capacity_def shallow_vector_create_def vector_create_def
        INITIAL_CAPACITY_def numeral_eq_Suc upt_rec)
qed

end
