(* ===== verification/SString.thy ===== *)
theory SString
  imports Vector
begin

text \<open>
  The string type of \<^verbatim>\<open>vector/sstring.c\<close>, a vector of one-character objects. The functions
  are translated over the same store as the vector, so the terminator that
  \<open>sstring_to_cstr\<close> does not write, and the string \<open>strlen\<close> finds instead, are visible.
  The character and string callbacks are arguments (\<open>char_ops\<close>, \<open>str_ops\<close>).
\<close>

section \<open>The functions\<close>

record 'c element_ops =
  ops_copy :: "'c copy_fn"
  ops_destroy :: "'c destr_fn"
  ops_default :: "'c dflt_fn"

definition vector_of_ops :: "'c element_ops \<Rightarrow> 'c vector" where
  "vector_of_ops ops = typed_vector_create (ops_copy ops) (ops_destroy ops) (ops_default ops)"

record sstring =
  chars :: "char vector"   \<comment> \<open>the field \<^verbatim>\<open>string\<close>\<close>

definition sstring_create :: "char element_ops \<Rightarrow> sstring" where
  "sstring_create char_ops = \<lparr>chars = vector_of_ops char_ops\<rparr>"

text \<open>\<^verbatim>\<open>strlen(input)\<close> is evaluated in every round of the loop.\<close>

fun push_cstr :: "nat \<Rightarrow> sstring \<Rightarrow> ptr \<Rightarrow> nat \<Rightarrow> char heap \<Rightarrow> (sstring \<times> char heap) res" where
  "push_cstr 0 sstr input i h = Inl Diverges"
| "push_cstr (Suc fuel) sstr input i h =
     bindE (hstrlen input h) (\<lambda>n.
       if i < n
       then bindE (vector_push_back (chars sstr) (padd input i) h) (\<lambda>(v, h').
              push_cstr fuel \<lparr>chars = v\<rparr> input (Suc i) h')
       else Inr (sstr, h))"

definition cstr_to_sstring :: "char element_ops \<Rightarrow> ptr \<Rightarrow> char heap \<Rightarrow> (sstring \<times> char heap) res" where
  "cstr_to_sstring char_ops input h =
     bindE (hstrlen input h) (\<lambda>n. push_cstr (Suc n) (sstring_create char_ops) input 0 h)"

fun copy_out :: "char vector \<Rightarrow> ptr \<Rightarrow> nat \<Rightarrow> nat \<Rightarrow> char heap \<Rightarrow> char heap res" where
  "copy_out v cs i 0 h = Inr h"
| "copy_out v cs i (Suc k) h =
     bindE (vector_get v i) (\<lambda>p.
     bindE (hread p h) (\<lambda>c.
     bindE (hwrite (padd cs i) c h) (\<lambda>h'. copy_out v cs (Suc i) k h')))"

text \<open>
  The buffer comes from \<^verbatim>\<open>malloc\<close>. The terminator is written at \<^verbatim>\<open>strlen(cstr)\<close>, that is,
  where the buffer already has one.
\<close>

definition sstring_to_cstr :: "sstring \<Rightarrow> char heap \<Rightarrow> (ptr \<times> char heap) res" where
  "sstring_to_cstr input h =
     (let n = vector_size (chars input); (cs, h1) = hmalloc (n + 1) h in
      bindE (copy_out (chars input) cs 0 n h1) (\<lambda>h2.
      bindE (hstrlen cs h2) (\<lambda>len.
      bindE (hwrite (padd cs len) NUL h2) (\<lambda>h3. Inr (cs, h3)))))"

fun append_from :: "char vector \<Rightarrow> char vector \<Rightarrow> nat \<Rightarrow> nat \<Rightarrow> char heap \<Rightarrow> (char vector \<times> char heap) res" where
  "append_from v src i 0 h = Inr (v, h)"
| "append_from v src i (Suc k) h =
     bindE (vector_get src i) (\<lambda>p.
     bindE (vector_push_back v p h) (\<lambda>(v', h'). append_from v' src (Suc i) k h'))"

text \<open>The result is the new length, an \<^verbatim>\<open>int\<close>. \<open>this\<close> and \<open>addition\<close> are different strings.\<close>

definition sstring_append ::
  "sstring \<Rightarrow> sstring \<Rightarrow> char heap \<Rightarrow> (int \<times> sstring \<times> char heap) res" where
  "sstring_append this addition h =
     bindE (append_from (chars this) (chars addition) 0 (vector_size (chars addition)) h) (\<lambda>(v, h').
       Inr (sint (of_nat (vector_size v) :: 32 word), \<lparr>chars = v\<rparr>, h'))"

text \<open>\<open>sstring_destroy\<close> gives back the vector and the struct.\<close>

definition sstring_destroy :: "sstring \<Rightarrow> char heap \<Rightarrow> char heap res" where
  "sstring_destroy this h = vector_destroy (chars this) h"

text \<open>One finished piece is turned into a C string, copied into the result and freed.\<close>

definition push_piece ::
  "sstring \<Rightarrow> char vector \<Rightarrow> char heap \<Rightarrow> (ptr \<times> char vector \<times> char heap) res" where
  "push_piece sstr pieces h =
     bindE (sstring_to_cstr sstr h) (\<lambda>(cs, h1).
     bindE (vector_push_back pieces cs h1) (\<lambda>(pieces', h2). Inr (cs, pieces', h2)))"

fun split_loop :: "char vector \<Rightarrow> char \<Rightarrow> nat \<Rightarrow> nat \<Rightarrow> sstring \<Rightarrow> char vector \<Rightarrow> char heap
    \<Rightarrow> (sstring \<times> char vector \<times> char heap) res" where
  "split_loop v delimiter i 0 sstr pieces h = Inr (sstr, pieces, h)"
| "split_loop v delimiter i (Suc k) sstr pieces h =
     bindE (vector_get v i) (\<lambda>p.
     bindE (hread p h) (\<lambda>c.
       if c = delimiter
       then bindE (push_piece sstr pieces h) (\<lambda>(cs, pieces', h1).
            bindE (vector_clear (chars sstr) h1) (\<lambda>(v', h2).
            bindE (hfree cs h2) (\<lambda>h3. split_loop v delimiter (Suc i) k \<lparr>chars = v'\<rparr> pieces' h3)))
       else bindE (vector_push_back (chars sstr) p h) (\<lambda>(v', h1).
            split_loop v delimiter (Suc i) k \<lparr>chars = v'\<rparr> pieces h1)))"

definition sstring_split :: "char element_ops \<Rightarrow> char element_ops \<Rightarrow> sstring \<Rightarrow> char \<Rightarrow> char heap
    \<Rightarrow> (char vector \<times> char heap) res" where
  "sstring_split char_ops str_ops this delimiter h =
     bindE (split_loop (chars this) delimiter 0 (vector_size (chars this)) (sstring_create char_ops)
              (vector_of_ops str_ops) h) (\<lambda>(sstr, pieces, h1).
     bindE (push_piece sstr pieces h1) (\<lambda>(cs, pieces', h2).
     bindE (sstring_destroy sstr h2) (\<lambda>h3.
     bindE (hfree cs h3) (\<lambda>h4. Inr (pieces', h4)))))"

text \<open>The function is a stub: it changes nothing and reports that nothing was found.\<close>

definition sstring_substitute :: "sstring \<Rightarrow> nat \<Rightarrow> ptr \<Rightarrow> ptr \<Rightarrow> int \<times> sstring" where
  "sstring_substitute this offset target substitution =
     (let count = (0::int) in (if count = 0 then -1 else 0, this))"

text \<open>The bounds are \<^verbatim>\<open>int\<close>s; a negative index becomes a huge \<^verbatim>\<open>size_t\<close>.\<close>

function slice_loop :: "char vector \<Rightarrow> int \<Rightarrow> int \<Rightarrow> char vector \<Rightarrow> char heap
    \<Rightarrow> (char vector \<times> char heap) res" where
  "slice_loop src i stop v h =
     (if i < stop
      then bindE (vector_get src (unat (of_int i :: size_t))) (\<lambda>p.
           bindE (vector_push_back v p h) (\<lambda>(v', h'). slice_loop src (i + 1) stop v' h'))
      else Inr (v, h))"
  by pat_completeness auto
termination
  by (relation "measure (\<lambda>(src, i, stop, v, h). nat (stop - i))") auto

declare slice_loop.simps [simp del]

definition sstring_slice :: "char element_ops \<Rightarrow> sstring \<Rightarrow> int \<Rightarrow> int \<Rightarrow> char heap
    \<Rightarrow> (ptr \<times> char heap) res" where
  "sstring_slice char_ops this start stop h =
     bindE (slice_loop (chars this) start stop (chars (sstring_create char_ops)) h) (\<lambda>(v, h1).
     bindE (sstring_to_cstr \<lparr>chars = v\<rparr> h1) (\<lambda>(cs, h2).
     bindE (sstring_destroy \<lparr>chars = v\<rparr> h2) (\<lambda>h3. Inr (cs, h3))))"

section \<open>What the callbacks must do\<close>

definition char_contract :: "char element_ops \<Rightarrow> bool" where
  "char_contract ops \<longleftrightarrow> (\<exists>dv. owning_callbacks (ops_copy ops) (ops_destroy ops) (ops_default ops)
     enc_char read_char (\<lambda>_. True) dv)"

definition string_contract :: "char element_ops \<Rightarrow> bool" where
  "string_contract ops \<longleftrightarrow> (\<exists>dv. owning_callbacks (ops_copy ops) (ops_destroy ops) (ops_default ops)
     enc_str cstr valid_cstring dv)"

definition plain_char_ops :: "char element_ops" where
  "plain_char_ops = \<lparr>ops_copy = char_copy_constructor, ops_destroy = hfree,
     ops_default = char_default_constructor NUL\<rparr>"

definition plain_string_ops :: "char element_ops" where
  "plain_string_ops = \<lparr>ops_copy = string_copy_constructor, ops_destroy = hfree,
     ops_default = string_default_constructor\<rparr>"

lemma plain_contracts: "char_contract plain_char_ops" "string_contract plain_string_ops"
  using char_cb.owning_callbacks_axioms string_cb.owning_callbacks_axioms
  by (auto simp: char_contract_def string_contract_def plain_char_ops_def plain_string_ops_def)

text \<open>
  \<open>vec_for ops enc h0 v h xs\<close>: the vector uses the callbacks, holds \<open>xs\<close> in blocks of its
  own, and apart from them the store is \<open>h0\<close>.
\<close>

definition vec_for :: "'c element_ops \<Rightarrow> ('v \<Rightarrow> 'c list) \<Rightarrow> 'c heap \<Rightarrow> 'c vector \<Rightarrow> 'c heap
    \<Rightarrow> 'v list \<Rightarrow> bool" where
  "vec_for ops enc h0 v h xs \<longleftrightarrow>
     vec_uses v (ops_copy ops) (ops_destroy ops) (ops_default ops)
     \<and> (\<exists>bs. vec_inv enc h0 v h xs bs)"

lemma vec_for_size: "vec_for ops enc h0 v h xs \<Longrightarrow> vector_size v = length xs"
  unfolding vec_for_def vec_inv_def vector_size_def using vec_owns_lengths(2) by metis

lemma vec_for_created: "heap_ok h \<Longrightarrow> vec_for ops enc h (vector_of_ops ops) h []"
  using vec_owns_create [of enc "Some (ops_copy ops)" "Some (ops_destroy ops)" "Some (ops_default ops)" h]
    spare_unusable_create [of "Some (ops_copy ops)" "Some (ops_destroy ops)" "Some (ops_default ops)" h]
  unfolding vec_for_def vec_inv_def vector_of_ops_def typed_vector_create_def vec_uses_def
  by (auto simp: vector_create_def)

lemma vec_for_heap_ok: "vec_for ops enc h0 v h xs \<Longrightarrow> heap_ok h"
  by (auto simp: vec_for_def vec_inv_def)

lemma vec_for_frame:
  "vec_for ops enc h0 v h xs \<Longrightarrow> blocks h0 b = Some c \<Longrightarrow> blocks h b = Some c"
  unfolding vec_for_def vec_inv_def by (metis option.distinct(1))

lemma cstr_frame_Some:
  assumes "cstr h0 p = Some s" and "\<And>b c. blocks h0 b = Some c \<Longrightarrow> blocks h b = Some c"
  shows "cstr h p = Some s"
  using assms by (cases p) (auto split: option.splits)

lemma vec_for_cstr: "vec_for ops enc h0 v h xs \<Longrightarrow> cstr h0 p = Some s \<Longrightarrow> cstr h p = Some s"
  using cstr_frame_Some [of h0 p s h] vec_for_frame [of ops enc h0 v h xs] by blast

lemma vec_for_step:
  assumes "owning_callbacks (ops_copy ops) (ops_destroy ops) (ops_default ops) enc rd valid dv"
    and "vec_for ops enc h0 v h xs" and "list_step dv (rd h0) xs x = Some ys"
  shows "\<exists>v' h'. vec_step (v, h) x = Inr (v', h') \<and> vec_for ops enc h0 v' h' ys"
proof -
  from assms(2) obtain bs where "vec_uses v (ops_copy ops) (ops_destroy ops) (ops_default ops)"
      "vec_inv enc h0 v h xs bs" by (auto simp: vec_for_def)
  from owning_callbacks.step_refines [OF assms(1) this assms(3)] show ?thesis
    by (auto simp: vec_for_def)
qed

lemma vec_for_step_char:
  assumes "char_contract ops" and "vec_for ops enc_char h0 v h xs"
    and "\<And>d. list_step d (read_char h0) xs x = Some ys"
  shows "\<exists>v' h'. vec_step (v, h) x = Inr (v', h') \<and> vec_for ops enc_char h0 v' h' ys"
  using assms(1,3) vec_for_step [OF _ assms(2)] unfolding char_contract_def by blast

lemma vec_for_step_string:
  assumes "string_contract ops" and "vec_for ops enc_str h0 v h xs"
    and "\<And>d. list_step d (cstr h0) xs x = Some ys"
  shows "\<exists>v' h'. vec_step (v, h) x = Inr (v', h') \<and> vec_for ops enc_str h0 v' h' ys"
  using assms(1,3) vec_for_step [OF _ assms(2)] unfolding string_contract_def by blast

lemma vec_for_destroy_char:
  assumes "char_contract ops" and "vec_for ops enc_char h0 v h xs"
  shows "\<exists>h'. vector_destroy v h = Inr h' \<and> blocks h' = blocks h0 \<and> heap_ok h'"
proof -
  from assms obtain dv bs where *: "owning_callbacks (ops_copy ops) (ops_destroy ops) (ops_default ops)
      enc_char read_char (\<lambda>_. True) dv" "vec_uses v (ops_copy ops) (ops_destroy ops) (ops_default ops)"
      "vec_inv enc_char h0 v h xs bs" by (auto simp: char_contract_def vec_for_def)
  then have "vector_destroy v h = Inr (hdrop (set bs) h)"
    using owning_callbacks.destroy_ok by (fastforce simp: vec_inv_def)
  moreover have "blocks (hdrop (set bs) h) = blocks h0" "heap_ok (hdrop (set bs) h)"
    using *(3) by (auto simp: vec_inv_def fun_eq_iff)
  ultimately show ?thesis by blast
qed

section \<open>From C strings and back\<close>

lemma push_cstr_ok:
  assumes ops: "char_contract ops" and str: "cstr h0 p = Some s" and len: "length s \<le> 2 ^ 60"
    and "vec_for ops enc_char h0 v h (take i s)" and "i \<le> length s" and "length s - i < fuel"
  shows "\<exists>v' h'. push_cstr fuel \<lparr>chars = v\<rparr> p i h = Inr (\<lparr>chars = v'\<rparr>, h')
    \<and> vec_for ops enc_char h0 v' h' s"
  using assms(4-6)
proof (induction fuel arbitrary: v i h)
  case 0
  then show ?case by simp
next
  case (Suc fuel)
  have strlen: "hstrlen p h = Inr (length s)"
    using vec_for_cstr [OF Suc.prems(1) str] by (rule hstrlen_cstr)
  show ?case
  proof (cases "i < length s")
    case True
    then have "read_char h0 (padd p i) = Some (s ! i)"
      using hread_cstr [OF str] by (simp add: read_char_def)
    then have "list_step d (read_char h0) (take i s) (PushBack (padd p i)) = Some (take (Suc i) s)" for d
      using True len by (simp add: take_Suc_conv_app_nth)
    from vec_for_step_char [OF ops Suc.prems(1) this] obtain v' h' where
      "vector_push_back v (padd p i) h = Inr (v', h')" "vec_for ops enc_char h0 v' h' (take (Suc i) s)"
      by auto
    with Suc.IH [of v' h' "Suc i"] Suc.prems True strlen show ?thesis by auto
  next
    case False
    with Suc.prems strlen show ?thesis by auto
  qed
qed

lemma cstr_to_sstring_ok:
  assumes "char_contract ops" and "heap_ok h" and "cstr h p = Some s" and "length s \<le> 2 ^ 60"
  shows "\<exists>v' h'. cstr_to_sstring ops p h = Inr (\<lparr>chars = v'\<rparr>, h') \<and> vec_for ops enc_char h v' h' s"
  using push_cstr_ok [OF assms(1,3,4), of "vector_of_ops ops" h 0 "Suc (length s)"]
    vec_for_created [OF assms(2), of ops enc_char] hstrlen_cstr [OF assms(3)]
  by (simp add: cstr_to_sstring_def sstring_create_def)

lemma copy_out_ok:
  assumes "vec_owns enc_char v h xs bs" and "b \<notin> set bs" and "blocks h b = Some buf"
    and "i + k = length xs" and "length xs \<le> length buf"
  shows "copy_out v (Ptr b 0) i k h
    = Inr (h\<lparr>blocks := (blocks h)(b \<mapsto> take i buf @ drop i xs @ drop (length xs) buf)\<rparr>)"
  using assms
proof (induction k arbitrary: i h buf)
  case 0
  then show ?case by (simp add: fun_upd_idem)
next
  case (Suc k)
  note len = vec_owns_lengths [OF Suc.prems(1)]
  have il: "i < vsize v" "i < length xs" using Suc.prems(4) len by simp_all
  let ?buf = "buf[i := xs ! i]"
  let ?h = "h\<lparr>blocks := (blocks h)(b \<mapsto> ?buf)\<rparr>"
  have "copy_out v (Ptr b 0) i (Suc k) h = copy_out v (Ptr b 0) (Suc i) k ?h"
    using vector_get_owned [OF Suc.prems(1) il(1)] vec_owns_nth(2) [OF Suc.prems(1) il(1)]
      Suc.prems(3,5) il by (simp add: enc_char_def)
  also have "\<dots> = Inr (?h\<lparr>blocks := (blocks ?h)(b \<mapsto>
      take (Suc i) ?buf @ drop (Suc i) xs @ drop (length xs) ?buf)\<rparr>)"
  proof (rule Suc.IH)
    show "vec_owns enc_char v ?h xs bs"
      using Suc.prems(1,2) by (rule_tac vec_owns_blocks_cong [where h = h]) auto
  qed (use Suc.prems in auto)
  also have "take (Suc i) ?buf @ drop (Suc i) xs = take i buf @ drop i xs"
    using il Suc.prems(5) by (simp add: take_Suc_conv_app_nth Cons_nth_drop_Suc)
  then have "take (Suc i) ?buf @ drop (Suc i) xs @ drop (length xs) ?buf
      = take i buf @ drop i xs @ drop (length xs) buf"
    using il by (metis append.assoc drop_update_cancel)
  finally show ?case by (simp del: copy_out.simps cong: if_cong)
qed

text \<open>
  The result of \<open>sstring_to_cstr\<close> depends on the byte \<^verbatim>\<open>malloc\<close> left behind the copied
  characters.
\<close>

lemma sstring_to_cstr_exact:
  assumes "vec_owns enc_char v h s bs" and "heap_ok h" and "NUL \<notin> set s"
  shows "sstring_to_cstr \<lparr>chars = v\<rparr> h =
    (if junk h (next_block h) (length s) = NUL then Inr (halloc (enc_str s) h) else Inl OutOfBounds)"
proof -
  let ?n = "length s" and ?b = "next_block h"
  let ?buf = "map (junk h ?b) [0..<?n + 1]"
  let ?h1 = "snd (halloc ?buf h)"
  let ?c = "junk h ?b ?n"
  have size: "vector_size v = ?n" using vec_owns_lengths(2) [OF assms(1)] by (simp add: vector_size_def)
  have nb: "?b \<notin> set bs"
    using vec_owns_live [OF assms(1), of ?b] assms(2) by (auto simp: heap_ok_def)
  have own: "vec_owns enc_char v ?h1 s bs"
    using assms(1) nb by (rule_tac vec_owns_blocks_cong [where h = h]) auto
  let ?h2 = "?h1\<lparr>blocks := (blocks ?h1)(?b \<mapsto> s @ [?c])\<rparr>"
  have "copy_out v (Ptr ?b 0) 0 ?n ?h1
      = Inr (?h1\<lparr>blocks := (blocks ?h1)(?b \<mapsto> take 0 ?buf @ drop 0 s @ drop ?n ?buf)\<rparr>)"
    by (rule copy_out_ok [OF own nb]) simp_all
  then have co: "copy_out v (Ptr ?b 0) 0 ?n ?h1 = Inr ?h2" by simp
  have mal: "hmalloc (?n + 1) h = (Ptr ?b 0, ?h1)" by (simp add: hmalloc_def halloc_def)
  show ?thesis
  proof (cases "?c = NUL")
    case True
    then have "?h2 = snd (halloc (enc_str s) h)" by (simp add: halloc_def enc_str_def)
    moreover have "hstrlen (Ptr ?b 0) ?h2 = Inr ?n" using True assms(3) by simp
    moreover have "hwrite (Ptr ?b ?n) NUL ?h2 = Inr ?h2" using True by (simp add: list_update_append)
    ultimately show ?thesis
      using True size co mal by (simp add: sstring_to_cstr_def halloc_def enc_str_def)
  next
    case False
    then have "hstrlen (Ptr ?b 0) ?h2 = Inl OutOfBounds"
      using assms(3) by (simp add: scan_nul_no_NUL)
    then show ?thesis using False size co mal by (simp add: sstring_to_cstr_def)
  qed
qed

section \<open>Splitting\<close>

text \<open>
  What splitting at a delimiter means: the pieces between the delimiters, empty ones
  included. \<open>split_acc\<close> is the same with the current piece as an accumulator.
\<close>

fun split_on :: "char \<Rightarrow> string \<Rightarrow> string list" where
  "split_on d [] = [[]]"
| "split_on d (c # cs) =
     (if c = d then [] # split_on d cs
      else (case split_on d cs of [] \<Rightarrow> [[c]] | p # ps \<Rightarrow> (c # p) # ps))"

fun split_acc :: "char \<Rightarrow> string list \<Rightarrow> string \<Rightarrow> string \<Rightarrow> string list \<times> string" where
  "split_acc d ps cur [] = (ps, cur)"
| "split_acc d ps cur (c # cs) =
     (if c = d then split_acc d (ps @ [cur]) [] cs else split_acc d ps (cur @ [c]) cs)"

fun join_with :: "char \<Rightarrow> string list \<Rightarrow> string" where
  "join_with d [] = []"
| "join_with d [p] = p"
| "join_with d (p # ps) = p @ d # join_with d ps"

lemma split_on_nonempty [simp]: "split_on d s \<noteq> []"
  by (cases s) (auto split: list.splits)

lemma split_acc_split_on:
  "split_acc d ps cur s = (qs, r) \<Longrightarrow>
     qs @ [r] = ps @ (cur @ hd (split_on d s)) # tl (split_on d s)"
  by (induction s arbitrary: ps cur) (auto split: list.splits)

lemma join_split_on: "join_with d (split_on d s) = s"
proof (induction s)
  case (Cons c s)
  then show ?case
    by (cases "split_on d s"; cases "tl (split_on d s)") (auto split: list.splits)
qed simp

lemma split_on_no_delimiter: "p \<in> set (split_on d s) \<Longrightarrow> d \<notin> set p"
proof (induction s arbitrary: p)
  case (Cons c s)
  then show ?case by (cases "split_on d s") (auto split: if_splits)
qed simp

lemma length_split_acc: "split_acc d ps cur s = (qs, r) \<Longrightarrow> length qs \<le> length ps + length s"
  by (induction s arbitrary: ps cur) (fastforce split: if_splits)+

text \<open>
  The loop keeps two vectors in one store: the current piece and the pieces so far. The rest
  of the store is \<open>h0\<close>. \<open>junk_zero\<close> is memory that \<^verbatim>\<open>malloc\<close> hands out zeroed, which is what
  \<open>sstring_to_cstr\<close> needs.
\<close>

definition junk_zero :: "char heap \<Rightarrow> bool" where
  "junk_zero h \<longleftrightarrow> (\<forall>b i. junk h b i = NUL)"

definition split_inv :: "char element_ops \<Rightarrow> char element_ops \<Rightarrow> char heap \<Rightarrow> char vector \<Rightarrow> string
    \<Rightarrow> nat list \<Rightarrow> char vector \<Rightarrow> string list \<Rightarrow> nat list \<Rightarrow> char heap \<Rightarrow> bool" where
  "split_inv co so h0 sv cur bs pv ps cs h \<longleftrightarrow>
     vec_uses sv (ops_copy co) (ops_destroy co) (ops_default co) \<and> vec_owns enc_char sv h cur bs
     \<and> vec_uses pv (ops_copy so) (ops_destroy so) (ops_default so) \<and> vec_owns enc_str pv h ps cs
     \<and> set bs \<inter> set cs = {} \<and> heap_ok h \<and> junk_zero h
     \<and> (\<forall>b. b \<notin> set bs \<union> set cs \<longrightarrow> blocks h b = blocks h0 b)
     \<and> (\<forall>b \<in> set bs \<union> set cs. blocks h0 b = None)"

lemma vec_owns_add_block:
  "vec_owns enc v h xs bs \<Longrightarrow> blocks h b = None \<Longrightarrow> blocks h' = (blocks h)(b \<mapsto> c) \<Longrightarrow>
     vec_owns enc v h' xs bs"
  using vec_owns_live [of enc v h xs bs b] by (rule_tac vec_owns_blocks_cong [where h = h]) auto

lemma split_inv_push_char:
  assumes co: "char_contract co" and inv: "split_inv co so h0 sv cur bs pv ps cs h"
    and len: "length cur < 2 ^ 60" and rd: "hread e h = Inr c"
  shows "\<exists>sv' h' b. vector_push_back sv e h = Inr (sv', h')
    \<and> split_inv co so h0 sv' (cur @ [c]) (bs @ [b]) pv ps cs h'"
proof -
  from co obtain dv where ob: "owning_callbacks (ops_copy co) (ops_destroy co) (ops_default co)
      enc_char read_char (\<lambda>_. True) dv" by (auto simp: char_contract_def)
  have i: "vec_uses sv (ops_copy co) (ops_destroy co) (ops_default co)"
      "vec_owns enc_char sv h cur bs" "heap_ok h" using inv by (simp_all add: split_inv_def)
  have "vsize sv < 2 ^ 60" "read_char h e = Some c"
    using vec_owns_lengths(2) [OF i(2)] len rd by (simp_all add: read_char_def)
  from owning_callbacks.push_back_ok [OF ob i this] obtain sv' h' b where r:
    "vector_push_back sv e h = Inr (sv', h')" "vec_owns enc_char sv' h' (cur @ [c]) (bs @ [b])"
    "vec_uses sv' (ops_copy co) (ops_destroy co) (ops_default co)" "heap_ok h'" "blocks h b = None"
    "blocks h' = (blocks h)(b \<mapsto> enc_char c)" "junk h' = junk h" by blast
  have "b \<notin> set cs" using inv r(5) vec_owns_live [of enc_str pv h ps cs b] by (auto simp: split_inv_def)
  moreover have "b \<notin> set bs" using r(5) vec_owns_live [OF i(2), of b] by auto
  moreover have "vec_owns enc_str pv h' ps cs"
    using inv r(5,6) by (auto simp: split_inv_def intro: vec_owns_add_block)
  ultimately have "split_inv co so h0 sv' (cur @ [c]) (bs @ [b]) pv ps cs h'"
    using inv r by (auto simp: split_inv_def junk_zero_def)
  with r(1) show ?thesis by blast
qed

lemma split_inv_piece:
  assumes co: "char_contract co" and so: "string_contract so"
    and inv: "split_inv co so h0 sv cur bs pv ps cs h"
    and len: "length ps < 2 ^ 60" and nul: "NUL \<notin> set cur"
  shows "\<exists>c pv' h1 h2 h3 b. push_piece \<lparr>chars = sv\<rparr> pv h = Inr (Ptr c 0, pv', h1)
    \<and> vector_clear sv h1 = Inr (sv\<lparr>vsize := 0\<rparr>, h2) \<and> hfree (Ptr c 0) h2 = Inr h3
    \<and> split_inv co so h0 (sv\<lparr>vsize := 0\<rparr>) [] [] pv' (ps @ [cur]) (cs @ [b]) h3"
proof -
  from co obtain d1 where oc: "owning_callbacks (ops_copy co) (ops_destroy co) (ops_default co)
      enc_char read_char (\<lambda>_. True) d1" by (auto simp: char_contract_def)
  from so obtain d2 where os: "owning_callbacks (ops_copy so) (ops_destroy so) (ops_default so)
      enc_str cstr valid_cstring d2" by (auto simp: string_contract_def)
  have i: "vec_uses sv (ops_copy co) (ops_destroy co) (ops_default co)" "vec_owns enc_char sv h cur bs"
      "vec_uses pv (ops_copy so) (ops_destroy so) (ops_default so)" "vec_owns enc_str pv h ps cs"
      "set bs \<inter> set cs = {}" "heap_ok h" "junk_zero h"
    using inv by (simp_all add: split_inv_def)
  let ?c = "next_block h" and ?ha = "snd (halloc (enc_str cur) h)"
  have c: "blocks h ?c = None" "?c \<notin> set bs" "?c \<notin> set cs"
    using heap_ok_fresh [OF i(6)] vec_owns_live [OF i(2), of ?c] vec_owns_live [OF i(4), of ?c] by auto
  have tc: "sstring_to_cstr \<lparr>chars = sv\<rparr> h = Inr (Ptr ?c 0, ?ha)"
    using sstring_to_cstr_exact [OF i(2,6) nul] i(7) by (simp add: junk_zero_def halloc_def)
  have owns_a: "vec_owns enc_str pv ?ha ps cs" "vec_owns enc_char sv ?ha cur bs"
    using i(2,4) c(1) by (auto intro: vec_owns_add_block)
  have ok_a: "heap_ok ?ha" by (rule heap_ok_halloc [OF i(6)])
  have rd: "cstr ?ha (Ptr ?c 0) = Some cur"
    by (rule cstr_enc_str) (simp_all add: nul)
  have "vsize pv < 2 ^ 60" using vec_owns_lengths(2) [OF i(4)] len by simp
  from owning_callbacks.push_back_ok [OF os i(3) owns_a(1) ok_a this rd] obtain pv' h1 b where r:
    "vector_push_back pv (Ptr ?c 0) ?ha = Inr (pv', h1)" "vec_owns enc_str pv' h1 (ps @ [cur]) (cs @ [b])"
    "vec_uses pv' (ops_copy so) (ops_destroy so) (ops_default so)" "heap_ok h1" "blocks ?ha b = None"
    "blocks h1 = (blocks ?ha)(b \<mapsto> enc_str cur)" "junk h1 = junk ?ha" by blast
  have b: "b \<noteq> ?c" "b \<notin> set bs"
    using r(5) vec_owns_live [OF owns_a(2), of b] by auto
  have own1: "vec_owns enc_char sv h1 cur bs" using owns_a(2) r(5,6) by (rule vec_owns_add_block)
  let ?h2 = "hdrop (set bs) h1" and ?h3 = "hdrop (insert ?c (set bs)) h1"
  have clear: "vector_clear sv h1 = Inr (sv\<lparr>vsize := 0\<rparr>, ?h2)"
      "vec_owns enc_char (sv\<lparr>vsize := 0\<rparr>) ?h2 [] []"
    using owning_callbacks.resize_shrink [OF oc i(1) own1, of 0] by (simp_all add: vector_clear_def)
  have "blocks ?h2 ?c \<noteq> None" using b(1) c(2) r(6) by simp
  then have fr: "hfree (Ptr ?c 0) ?h2 = Inr ?h3"
    by (auto simp: hdrop_def fun_eq_iff intro!: heap.equality)
  have push: "push_piece \<lparr>chars = sv\<rparr> pv h = Inr (Ptr ?c 0, pv', h1)"
    using tc r(1) by (simp add: push_piece_def)
  have "split_inv co so h0 (sv\<lparr>vsize := 0\<rparr>) [] [] pv' (ps @ [cur]) (cs @ [b]) ?h3"
    unfolding split_inv_def
  proof (intro conjI)
    show "vec_owns enc_str pv' ?h3 (ps @ [cur]) (cs @ [b])"
      using r(2) i(5) b c(3) by (rule_tac vec_owns_blocks_cong [where h = h1]) auto
    show "vec_owns enc_char (sv\<lparr>vsize := 0\<rparr>) ?h3 [] []"
      using clear(2) by (simp add: vec_owns_def)
    show "\<forall>x. x \<notin> set [] \<union> set (cs @ [b]) \<longrightarrow> blocks ?h3 x = blocks h0 x"
      using inv r(6) c by (auto simp: split_inv_def)
    show "\<forall>x \<in> set [] \<union> set (cs @ [b]). blocks h0 x = None"
      using inv r(5) b by (auto simp: split_inv_def)
    show "junk_zero ?h3" using i(7) r(7) by (simp add: junk_zero_def hdrop_def)
  qed (use i r in \<open>auto simp: vec_uses_def\<close>)
  with push clear(1) fr show ?thesis by blast
qed

lemma split_loop_ok:
  assumes co: "char_contract co" and so: "string_contract so"
    and own: "vec_owns enc_char v h0 s ts" and nul: "NUL \<notin> set s"
    and "split_inv co so h0 sv cur bs pv ps cs h" and "NUL \<notin> set cur"
    and "i + k = length s" and "length cur + k \<le> 2 ^ 60" and "length ps + k < 2 ^ 60"
  shows "\<exists>sv' bs' pv' cs' h'. split_loop v d i k \<lparr>chars = sv\<rparr> pv h = Inr (\<lparr>chars = sv'\<rparr>, pv', h')
    \<and> split_inv co so h0 sv' (snd (split_acc d ps cur (drop i s))) bs'
        pv' (fst (split_acc d ps cur (drop i s))) cs' h'
    \<and> NUL \<notin> set (snd (split_acc d ps cur (drop i s)))"
  using assms(5-)
proof (induction k arbitrary: i sv cur bs pv ps cs h)
  case 0
  then show ?case by auto
next
  case (Suc k)
  have il: "i < length s" using Suc.prems(3) by simp
  then have iv: "i < vsize v" using vec_owns_lengths(2) [OF own] by simp
  have d: "drop i s = s ! i # drop (Suc i) s" using il by (simp add: Cons_nth_drop_Suc)
  have get: "vector_get v i = Inr (Ptr (ts ! i) 0)" by (rule vector_get_owned [OF own iv])
  have "blocks h0 (ts ! i) = Some [s ! i]" using vec_owns_nth(2) [OF own iv] by (simp add: enc_char_def)
  moreover from this have "ts ! i \<notin> set bs \<union> set cs"
    using Suc.prems(1) by (auto simp: split_inv_def)
  ultimately have blk: "blocks h (ts ! i) = Some [s ! i]"
    using Suc.prems(1) by (simp add: split_inv_def)
  then have rd: "hread (Ptr (ts ! i) 0) h = Inr (s ! i)" by simp
  show ?case
  proof (cases "s ! i = d")
    case True
    have "length ps < 2 ^ 60" using Suc.prems(5) by simp
    from split_inv_piece [OF co so Suc.prems(1) this Suc.prems(2)] obtain c pv' h1 h2 h3 b where r:
      "push_piece \<lparr>chars = sv\<rparr> pv h = Inr (Ptr c 0, pv', h1)"
      "vector_clear sv h1 = Inr (sv\<lparr>vsize := 0\<rparr>, h2)" "hfree (Ptr c 0) h2 = Inr h3"
      "split_inv co so h0 (sv\<lparr>vsize := 0\<rparr>) [] [] pv' (ps @ [cur]) (cs @ [b]) h3" by blast
    have "split_loop v d i (Suc k) \<lparr>chars = sv\<rparr> pv h
        = split_loop v d (Suc i) k \<lparr>chars = sv\<lparr>vsize := 0\<rparr>\<rparr> pv' h3"
      using get rd True r(1-3) by (simp del: hread.simps hfree.simps)
    moreover have "split_acc d ps cur (drop i s) = split_acc d (ps @ [cur]) [] (drop (Suc i) s)"
      using d True by simp
    ultimately show ?thesis
      using Suc.IH [OF r(4), of "Suc i"] Suc.prems(3-5) by simp
  next
    case False
    have "length cur < 2 ^ 60" using Suc.prems(4) by simp
    from split_inv_push_char [OF co Suc.prems(1) this rd] obtain sv' h' b where r:
      "vector_push_back sv (Ptr (ts ! i) 0) h = Inr (sv', h')"
      "split_inv co so h0 sv' (cur @ [s ! i]) (bs @ [b]) pv ps cs h'" by blast
    have "split_loop v d i (Suc k) \<lparr>chars = sv\<rparr> pv h = split_loop v d (Suc i) k \<lparr>chars = sv'\<rparr> pv h'"
      using get rd False r(1) by (simp del: hread.simps)
    moreover have "split_acc d ps cur (drop i s) = split_acc d ps (cur @ [s ! i]) (drop (Suc i) s)"
      using d False by simp
    moreover have "NUL \<notin> set (cur @ [s ! i])" using Suc.prems(2) nul il by (auto simp: in_set_conv_nth)
    ultimately show ?thesis
      using Suc.IH [OF r(2), of "Suc i"] Suc.prems(3-5) by simp
  qed
qed

section \<open>Appending and slicing\<close>

lemma append_from_ok:
  assumes co: "char_contract co" and src: "vec_owns enc_char src h0 ys ts"
    and "vec_for co enc_char h0 v h xs" and "i + k = length ys" and "length xs + k \<le> 2 ^ 60"
  shows "\<exists>v' h'. append_from v src i k h = Inr (v', h') \<and> vec_for co enc_char h0 v' h' (xs @ drop i ys)"
  using assms(3-)
proof (induction k arbitrary: i v h xs)
  case 0
  then show ?case by auto
next
  case (Suc k)
  have il: "i < length ys" "i < vsize src" using Suc.prems(2) vec_owns_lengths(2) [OF src] by simp_all
  have "read_char h0 (Ptr (ts ! i) 0) = Some (ys ! i)"
    using vec_owns_nth(2) [OF src il(2)] by (simp add: read_char_def enc_char_def)
  then have "list_step d (read_char h0) xs (PushBack (Ptr (ts ! i) 0)) = Some (xs @ [ys ! i])" for d
    using Suc.prems(3) by simp
  from vec_for_step_char [OF co Suc.prems(1) this] obtain v' h' where r:
    "vector_push_back v (Ptr (ts ! i) 0) h = Inr (v', h')" "vec_for co enc_char h0 v' h' (xs @ [ys ! i])"
    by auto
  have "drop i ys = ys ! i # drop (Suc i) ys" using il by (simp add: Cons_nth_drop_Suc)
  then show ?case
    using Suc.IH [OF r(2), of "Suc i"] Suc.prems(2,3) r(1) vector_get_owned [OF src il(2)] by simp
qed

lemma vec_for_push_char:
  assumes co: "char_contract co" and inv: "vec_for co enc_char h0 v h xs"
    and rd: "read_char h0 e = Some c" and len: "length xs < 2 ^ 60"
  shows "\<exists>v' h'. vector_push_back v e h = Inr (v', h')
    \<and> vec_for co enc_char h0 v' h' (xs @ [c]) \<and> junk h' = junk h"
proof -
  have "list_step d (read_char h0) xs (PushBack e) = Some (xs @ [c])" for d
    using rd len by simp
  from vec_for_step_char [OF co inv this] obtain v' h' where r:
    "vector_push_back v e h = Inr (v', h')" "vec_for co enc_char h0 v' h' (xs @ [c])" by auto
  from co obtain dv where oc: "owning_callbacks (ops_copy co) (ops_destroy co) (ops_default co)
      enc_char read_char (\<lambda>_. True) dv" by (auto simp: char_contract_def)
  from inv obtain bs where i: "vec_uses v (ops_copy co) (ops_destroy co) (ops_default co)"
      "vec_owns enc_char v h xs bs" "heap_ok h" by (auto simp: vec_for_def vec_inv_def)
  have sz: "vsize v < 2 ^ 60" using vec_owns_lengths(2) [OF i(2)] len by simp
  have "hread e h0 = Inr c" using rd by (simp add: read_char_def split: sum.splits)
  then have "hread e h = Inr c"
    using vec_for_frame [OF inv] by (cases e) (auto split: option.splits if_splits)
  then have "read_char h e = Some c" by (simp add: read_char_def)
  from owning_callbacks.push_back_ok [OF oc i sz this] r(1) have "junk h' = junk h" by auto
  with r show ?thesis by blast
qed

lemma slice_loop_ok:
  assumes co: "char_contract co" and src: "vec_owns enc_char src h0 ys ts" and "length ys \<le> 2 ^ 60"
    and "vec_for co enc_char h0 v h xs" and "int i + int k = stop" and "i + k \<le> length ys"
    and "length xs + k \<le> 2 ^ 60"
  shows "\<exists>v' h'. slice_loop src (int i) stop v h = Inr (v', h')
    \<and> vec_for co enc_char h0 v' h' (xs @ take k (drop i ys)) \<and> junk h' = junk h"
  using assms(4-)
proof (induction k arbitrary: i v h xs)
  case 0
  then show ?case by (subst slice_loop.simps) auto
next
  case (Suc k)
  have il: "i < length ys" "i < vsize src" "i < 2 ^ 60"
    using Suc.prems(3) assms(3) vec_owns_lengths(2) [OF src] by simp_all
  have "unat (of_nat i :: size_t) = i" using il(3) by (subst unat_of_nat) simp
  then have idx: "unat (of_int (int i) :: size_t) = i" by simp
  have "read_char h0 (Ptr (ts ! i) 0) = Some (ys ! i)"
    using vec_owns_nth(2) [OF src il(2)] by (simp add: read_char_def enc_char_def)
  from vec_for_push_char [OF co Suc.prems(1) this] Suc.prems(4) obtain v' h' where r:
    "vector_push_back v (Ptr (ts ! i) 0) h = Inr (v', h')" "vec_for co enc_char h0 v' h' (xs @ [ys ! i])"
    "junk h' = junk h" by auto
  have "slice_loop src (int i) stop v h = slice_loop src (int (Suc i)) stop v' h'"
    using Suc.prems(2) r(1) vector_get_owned [OF src il(2)] idx
    by (subst slice_loop.simps) (simp add: add.commute)
  moreover have "take (Suc k) (drop i ys) = ys ! i # take k (drop (Suc i) ys)"
    using il by (metis Cons_nth_drop_Suc take_Suc_Cons)
  ultimately show ?case
    using Suc.IH [OF r(2), of "Suc i"] Suc.prems(2-4) r(3) by simp
qed

section \<open>Properties\<close>

text \<open>
  A C string turned into an \<open>sstring\<close> and back is the same string in a fresh block when
  the byte \<^verbatim>\<open>malloc\<close> left after the copied characters is 0; when it is not, the missing
  terminator makes \<^verbatim>\<open>strlen\<close> run past the block.
\<close>

theorem sstring_roundtrip:
  assumes "char_contract ops" and "heap_ok h" and "cstr h p = Some s" and "length s \<le> 2 ^ 60"
  shows "\<exists>str h1. cstr_to_sstring ops p h = Inr (str, h1)
           \<and> vec_for ops enc_char h (chars str) h1 s
           \<and> sstring_to_cstr str h1 =
               (if junk h1 (next_block h1) (length s) = NUL
                then Inr (halloc (enc_str s) h1) else Inl OutOfBounds)"
proof -
  from cstr_to_sstring_ok [OF assms] obtain v h1 where r:
    "cstr_to_sstring ops p h = Inr (\<lparr>chars = v\<rparr>, h1)" "vec_for ops enc_char h v h1 s" by blast
  then obtain bs where "vec_owns enc_char v h1 s bs" "heap_ok h1"
    by (auto simp: vec_for_def vec_inv_def)
  from sstring_to_cstr_exact [OF this cstr_no_NUL [OF assms(3)]] r show ?thesis by auto
qed

theorem sstring_roundtrip_witness:
  "\<exists>str h1. cstr_to_sstring plain_char_ops (Ptr 1 0) sample_heap = Inr (str, h1)
     \<and> vec_for plain_char_ops enc_char sample_heap (chars str) h1 ''two''
     \<and> sstring_to_cstr str h1 = (if junk h1 (next_block h1) (length ''two'') = NUL
          then Inr (halloc (enc_str ''two'') h1) else Inl OutOfBounds)"
  using sstring_roundtrip [OF plain_contracts(1) sample_heap_ok sample_heap_strings(2)]
  by simp


definition sample_sstring :: "sstring \<times> char heap" where
  "sample_sstring =
     (\<lparr>chars = (vector_of_ops plain_char_ops)\<lparr>array := Ptr 0 0 # Ptr 1 0 # Ptr 2 0 # replicate 5 Wild,
        vsize := 3\<rparr>\<rparr>,
      snd (halloc ''b'' (snd (halloc '' '' (snd (halloc ''a'' (empty_heap NUL)))))))"

lemma sample_sstring_ok:
  "vec_owns enc_char (chars (fst sample_sstring)) (snd sample_sstring) ''a b'' [0, 1, 2]"
  "heap_ok (snd sample_sstring)" "junk_zero (snd sample_sstring)"
proof -
  show "heap_ok (snd sample_sstring)"
    unfolding sample_sstring_def snd_conv by (intro heap_ok_halloc heap_ok_empty)
qed (simp_all add: sample_sstring_def vec_owns_def vec_ok_def vector_of_ops_def typed_vector_create_def
    vector_create_def INITIAL_CAPACITY_def enc_char_def empty_heap_def junk_zero_def)


text \<open>
  On zeroed memory a slice inside the string is the substring in a fresh block; everything
  else in the store is as it was.
\<close>

theorem sstring_slice_correct:
  assumes "char_contract co" and "heap_ok h" and "junk_zero h"
    and "vec_owns enc_char (chars str) h s ts" and "NUL \<notin> set s" and "length s \<le> 2 ^ 60"
    and "i \<le> j" and "j \<le> length s"
  shows "\<exists>b h'. sstring_slice co str (int i) (int j) h = Inr (Ptr b 0, h') \<and> blocks h b = None
           \<and> blocks h' = (blocks h)(b \<mapsto> enc_str (take (j - i) (drop i s)))"
proof -
  let ?t = "take (j - i) (drop i s)"
  have "j - i \<le> 2 ^ 60" using assms(6-8) by simp
  then obtain v h1 where l: "slice_loop (chars str) (int i) (int j) (vector_of_ops co) h = Inr (v, h1)"
      "vec_for co enc_char h v h1 ?t" "junk h1 = junk h"
    using slice_loop_ok [OF assms(1,4,6) vec_for_created [OF assms(2)], of i "j - i" "int j"] assms(7,8)
    by auto
  then obtain bs where bs: "vec_owns enc_char v h1 ?t bs" "heap_ok h1" "vec_inv enc_char h v h1 ?t bs"
    "vec_uses v (ops_copy co) (ops_destroy co) (ops_default co)"
    by (auto simp: vec_for_def vec_inv_def)
  have nul: "NUL \<notin> set ?t" using assms(5) by (meson in_set_takeD in_set_dropD)
  let ?b = "next_block h1" and ?h2 = "snd (halloc (enc_str ?t) h1)"
  from assms(1) obtain dv where oc: "owning_callbacks (ops_copy co) (ops_destroy co) (ops_default co)
      enc_char read_char (\<lambda>_. True) dv" by (auto simp: char_contract_def)
  have fresh: "blocks h1 ?b = None" by (rule heap_ok_fresh [OF bs(2)])
  then have nb: "?b \<notin> set bs" using vec_owns_live [OF bs(1), of ?b] by auto
  have "junk h1 ?b (length ?t) = NUL" using assms(3) l(3) by (simp add: junk_zero_def)
  then have tc: "sstring_to_cstr \<lparr>chars = v\<rparr> h1 = Inr (Ptr ?b 0, ?h2)"
    using sstring_to_cstr_exact [OF bs(1,2) nul] by (simp add: halloc_def)
  have "vec_owns enc_char v ?h2 ?t bs" using bs(1) fresh by (auto intro: vec_owns_add_block)
  then have "vector_destroy v ?h2 = Inr (hdrop (set bs) ?h2)"
    by (rule owning_callbacks.destroy_ok [OF oc bs(4)])
  then have run: "sstring_slice co str (int i) (int j) h = Inr (Ptr ?b 0, hdrop (set bs) ?h2)"
    using l(1) tc by (simp add: sstring_slice_def sstring_create_def sstring_destroy_def)
  have "blocks h ?b = None" "blocks (hdrop (set bs) ?h2) = (blocks h)(?b \<mapsto> enc_str ?t)"
    using bs(3) fresh nb by (auto simp: vec_inv_def fun_eq_iff)
  with run show ?thesis by blast
qed

theorem sstring_slice_correct_witness:
  "\<exists>b h'. sstring_slice plain_char_ops (fst sample_sstring) 1 3 (snd sample_sstring) = Inr (Ptr b 0, h')
     \<and> blocks h' b = Some (enc_str '' b'')"
proof -
  have "NUL \<notin> set ''a b''" and "length ''a b'' \<le> 2 ^ 60" and "(1::nat) \<le> 3" and "3 \<le> length ''a b''"
    by (simp_all add: NUL_def)
  from sstring_slice_correct [OF plain_contracts(1) sample_sstring_ok(2,3,1) this] show ?thesis
    by auto
qed

text \<open>
  Appending another string's characters puts them at the end and returns the new length;
  what the other string owns, like the rest of the store, is not touched.
\<close>

theorem sstring_append_correct:
  assumes "char_contract co" and "vec_for co enc_char h0 (chars this) h xs"
    and "vec_owns enc_char (chars addition) h0 ys ts" and "length xs + length ys < 2 ^ 31"
  shows "\<exists>this' h'. sstring_append this addition h = Inr (int (length xs + length ys), this', h')
           \<and> vec_for co enc_char h0 (chars this') h' (xs @ ys)"
proof -
  have sz: "vector_size (chars addition) = length ys"
    using vec_owns_lengths(2) [OF assms(3)] by (simp add: vector_size_def)
  have "length xs + length ys \<le> 2 ^ 60" using assms(4) by simp
  then obtain v h' where r: "append_from (chars this) (chars addition) 0 (length ys) h = Inr (v, h')"
      "vec_for co enc_char h0 v h' (xs @ ys)"
    using append_from_ok [OF assms(1,3,2), of 0 "length ys"] by auto
  have "sint (of_nat (length (xs @ ys)) :: 32 word) = int (length xs + length ys)"
    using assms(4) by (simp only: signed_of_nat length_append) (simp add: signed_take_bit_int_eq_self)
  then have "sstring_append this addition h = Inr (int (length xs + length ys), \<lparr>chars = v\<rparr>, h')"
    using r(1) vec_for_size [OF r(2)] by (simp add: sstring_append_def sz)
  with r(2) show ?thesis by auto
qed

theorem sstring_append_correct_witness:
  "\<exists>this' h'. sstring_append (sstring_create plain_char_ops) (fst sample_sstring) (snd sample_sstring)
     = Inr (3, this', h') \<and> vec_for plain_char_ops enc_char (snd sample_sstring) (chars this') h' ''a b''"
proof -
  have "vec_for plain_char_ops enc_char (snd sample_sstring) (chars (sstring_create plain_char_ops))
      (snd sample_sstring) []"
    using vec_for_created [OF sample_sstring_ok(2)] by (simp add: sstring_create_def)
  from sstring_append_correct [OF plain_contracts(1) this sample_sstring_ok(1)] show ?thesis by simp
qed

end
