(* ===== verification/CamelCaser.thy ===== *)
theory CamelCaser
  imports Prelude
begin

text \<open>
  \<^verbatim>\<open>extreme_edge_cases/camelCaser.c\<close>: the sentences of a text, camel-cased. The scanner is
  translated with its indices, flags and growing buffers; every buffer access is checked, so a
  result \<open>Inr\<close> says that no access left its buffer. The specification splits the text into
  sentences and words. A character outside ASCII is in no class (the C locale).
  Indices are \<^verbatim>\<open>int\<close>s of the C code and taken not to wrap (texts below \<open>2^30\<close> characters).
\<close>

section \<open>The character classes of the C locale\<close>

definition code :: "char \<Rightarrow> nat" where
  "code c = of_char c"

definition isupper :: "char \<Rightarrow> bool" where
  "isupper c \<longleftrightarrow> 65 \<le> code c \<and> code c \<le> 90"

definition islower :: "char \<Rightarrow> bool" where
  "islower c \<longleftrightarrow> 97 \<le> code c \<and> code c \<le> 122"

definition isalpha :: "char \<Rightarrow> bool" where
  "isalpha c \<longleftrightarrow> isupper c \<or> islower c"

definition isdigit :: "char \<Rightarrow> bool" where
  "isdigit c \<longleftrightarrow> 48 \<le> code c \<and> code c \<le> 57"

definition isspace :: "char \<Rightarrow> bool" where
  "isspace c \<longleftrightarrow> code c = 32 \<or> 9 \<le> code c \<and> code c \<le> 13"

definition ispunct :: "char \<Rightarrow> bool" where
  "ispunct c \<longleftrightarrow> 33 \<le> code c \<and> code c \<le> 126 \<and> \<not> isalpha c \<and> \<not> isdigit c"

definition toupper :: "char \<Rightarrow> char" where
  "toupper c = (if islower c then char_of (code c - 32) else c)"

definition tolower :: "char \<Rightarrow> char" where
  "tolower c = (if isupper c then char_of (code c + 32) else c)"

lemmas char_class_defs = code_def isupper_def islower_def isalpha_def isdigit_def isspace_def ispunct_def

lemma space_not_punct: "isspace c \<Longrightarrow> \<not> ispunct c"
  by (auto simp: char_class_defs)

lemma tolower_nonalpha: "\<not> isalpha c \<Longrightarrow> tolower c = c"
  by (simp add: tolower_def isalpha_def)

section \<open>The scanner\<close>

text \<open>An access to an array, and \<^verbatim>\<open>realloc\<close> to a larger one whose new cells hold \<open>junk\<close>.\<close>

definition put :: "'a list \<Rightarrow> nat \<Rightarrow> 'a \<Rightarrow> 'a list res" where
  "put buf i x = (if i < length buf then Inr (buf[i := x]) else Inl OutOfBounds)"

definition grow :: "(nat \<Rightarrow> 'a) \<Rightarrow> 'a list \<Rightarrow> nat \<Rightarrow> 'a list" where
  "grow jk buf n = buf @ map jk [length buf..<n]"

function skip_spaces :: "string \<Rightarrow> nat \<Rightarrow> nat" where
  "skip_spaces s i = (if i < length s \<and> isspace (s ! i) then skip_spaces s (Suc i) else i)"
  by pat_completeness auto
termination
  by (relation "measure (\<lambda>(s, i). length s - i)") auto

declare skip_spaces.simps [simp del]

lemma skip_spaces_ge: "i \<le> skip_spaces s i"
  by (induction s i rule: skip_spaces.induct) (subst skip_spaces.simps, auto)

lemma skip_spaces_le: "i \<le> length s \<Longrightarrow> skip_spaces s i \<le> length s"
  by (induction s i rule: skip_spaces.induct) (subst skip_spaces.simps, auto)

lemma skip_spaces_gt: "i < length s \<Longrightarrow> isspace (s ! i) \<Longrightarrow> i < skip_spaces s i"
  using skip_spaces_ge [of "Suc i" s] by (subst skip_spaces.simps) simp

text \<open>The loop over the characters of one sentence.\<close>

function word_loop :: "(nat \<Rightarrow> char) \<Rightarrow> string \<Rightarrow> nat \<Rightarrow> char list \<Rightarrow> nat \<Rightarrow> bool \<Rightarrow> bool
    \<Rightarrow> (nat \<times> char list \<times> nat) res" where
  "word_loop jk s i word word_spot upper alpha =
     (if i < length s \<and> \<not> ispunct (s ! i)
      then if isspace (s ! i)
           then word_loop jk s (skip_spaces s i) word word_spot (upper \<or> alpha) alpha
           else bindE (put word word_spot
                   (if isalpha (s ! i) then if upper then toupper (s ! i) else tolower (s ! i) else s ! i))
                (\<lambda>word'. word_loop jk s (Suc i)
                   (if Suc word_spot = length word' then grow jk word' (2 * length word') else word')
                   (Suc word_spot) (upper \<and> \<not> isalpha (s ! i)) True)
      else Inr (i, word, word_spot))"
  by pat_completeness auto
termination
  using skip_spaces_gt
  by (relation "measure (\<lambda>(jk, s, i, word, word_spot, upper, alpha). length s - i)") fastforce+

declare word_loop.simps [simp del]

text \<open>
  A cell of the result array is indeterminate, \<^verbatim>\<open>NULL\<close> or a word's buffer. The outer loop
  makes one word for every sentence and one for what follows the last of them.
\<close>

datatype slot = Indet | NullSlot | WordBuf "char list"

lemma word_loop_ge: "word_loop jk s i w ws u a = Inr (i', w', ws') \<Longrightarrow> i \<le> i'"
proof (induction jk s i w ws u a rule: word_loop.induct)
  case (1 jk s i w ws u a)
  show ?case
  proof (cases "i < length s \<and> \<not> ispunct (s ! i)")
    case inside: True
    show ?thesis
    proof (cases "isspace (s ! i)")
      case True
      then have "word_loop jk s (skip_spaces s i) w ws (u \<or> a) a = Inr (i', w', ws')"
        using "1.prems" inside by (simp add: word_loop.simps [of jk s i])
      then show ?thesis using "1.IH"(1) [OF inside True] skip_spaces_ge [of i s] by simp
    next
      case False
      then show ?thesis using "1.prems" inside "1.IH"(2) [OF inside False]
        by (subst (asm) word_loop.simps) (fastforce simp: bindE_eq_Inr_iff)
    qed
  next
    case False
    then show ?thesis using "1.prems" by (subst (asm) word_loop.simps) auto
  qed
qed

function sentence_loop :: "(nat \<Rightarrow> char) \<Rightarrow> (nat \<Rightarrow> slot) \<Rightarrow> string \<Rightarrow> nat \<Rightarrow> slot list \<Rightarrow> nat
    \<Rightarrow> (slot list \<times> nat) res" where
  "sentence_loop jk js s i camel camel_spot =
     (if i < length s
      then bindE (word_loop jk s i (replicate 10 NUL) 0 False False) (\<lambda>(i', word, word_spot).
           bindE (put word word_spot NUL) (\<lambda>word'.
           bindE (put camel camel_spot (WordBuf word')) (\<lambda>camel'.
             sentence_loop jk js s (Suc i')
               (if Suc camel_spot = length camel' then grow js camel' (2 * length camel') else camel')
               (Suc camel_spot))))
      else Inr (camel, camel_spot))"
  by pat_completeness auto
termination
  by (relation "measure (\<lambda>(jk, js, s, i, camel, camel_spot). length s - i)")
    (auto dest!: word_loop_ge)

declare sentence_loop.simps [simp del]

text \<open>
  \<open>jk\<close> and \<open>js\<close> are the contents of fresh memory. The last step reads the last character of
  the text, which an empty text does not have.
\<close>

definition camel_caser :: "(nat \<Rightarrow> char) \<Rightarrow> (nat \<Rightarrow> slot) \<Rightarrow> string option \<Rightarrow> slot list option res" where
  "camel_caser jk js input =
     (case input of None \<Rightarrow> Inr None
      | Some s \<Rightarrow>
          bindE (sentence_loop jk js s 0 (map js [0..<10]) 0) (\<lambda>(camel, camel_spot).
          bindE (put camel camel_spot NullSlot) (\<lambda>camel'.
          if s = [] then Inl OutOfBounds
          else if \<not> ispunct (s ! (length s - 1))
          then if camel_spot = 0 then Inl OutOfBounds
               else bindE (put camel' (camel_spot - 1) NullSlot) (\<lambda>camel''. Inr (Some camel''))
          else Inr (Some camel'))))"

text \<open>\<open>destroy\<close> frees the words up to the first \<^verbatim>\<open>NULL\<close>; the result lists what it frees.\<close>

fun destroy :: "slot list \<Rightarrow> char list list res" where
  "destroy [] = Inl OutOfBounds"
| "destroy (Indet # cs) = Inl Uninitialised"
| "destroy (NullSlot # cs) = Inr []"
| "destroy (WordBuf w # cs) = bindE (destroy cs) (\<lambda>ws. Inr (w # ws))"

section \<open>The specification\<close>

text \<open>The parts between separators, and the same without empty parts.\<close>

fun parts :: "('a \<Rightarrow> bool) \<Rightarrow> 'a list \<Rightarrow> 'a list list" where
  "parts sep [] = [[]]"
| "parts sep (c # cs) =
     (if sep c then [] # parts sep cs
      else (case parts sep cs of [] \<Rightarrow> [[c]] | p # ps \<Rightarrow> (c # p) # ps))"

definition words_of :: "string \<Rightarrow> string list" where
  "words_of s = [w \<leftarrow> parts isspace s. w \<noteq> []]"

text \<open>A later word has its first letter in upper case, all others in lower case.\<close>

fun capitalise :: "string \<Rightarrow> string" where
  "capitalise [] = []"
| "capitalise (c # cs) = (if isalpha c then toupper c # map tolower cs else c # capitalise cs)"

definition camel_sentence :: "string \<Rightarrow> string" where
  "camel_sentence s = (case words_of s of [] \<Rightarrow> [] | w # ws \<Rightarrow> map tolower w @ concat (map capitalise ws))"

text \<open>Every sentence ends with a punctuation character; what follows the last one is dropped.\<close>

definition camel_spec :: "string \<Rightarrow> string list" where
  "camel_spec s = map camel_sentence (butlast (parts ispunct s))"

text \<open>What a result array holds: the words as C strings, then \<^verbatim>\<open>NULL\<close>.\<close>

fun slot_string :: "slot \<Rightarrow> string option" where
  "slot_string (WordBuf w) = (case scan_nul w of Inl _ \<Rightarrow> None | Inr n \<Rightarrow> Some (take n w))"
| "slot_string _ = None"

definition holds_words :: "slot list \<Rightarrow> string list \<Rightarrow> bool" where
  "holds_words camel ws \<longleftrightarrow> length ws < length camel \<and> camel ! length ws = NullSlot
     \<and> (\<forall>k < length ws. slot_string (camel ! k) = Some (ws ! k))"

section \<open>The scanner on lists\<close>

text \<open>The characters the inner loop emits for a sentence, from the flags \<open>upper\<close> and \<open>alpha\<close>.\<close>

fun scan :: "bool \<Rightarrow> bool \<Rightarrow> string \<Rightarrow> string" where
  "scan u a [] = []"
| "scan u a (c # cs) =
     (if isspace c then scan (u \<or> a) a cs
      else if isalpha c then (if u then toupper c else tolower c) # scan False True cs
      else c # scan u True cs)"

lemma parts_nonempty [simp]: "parts sep s \<noteq> []"
  by (cases s) (auto split: list.splits)

lemma capitalise_words: "concat (map capitalise [w \<leftarrow> ps. w \<noteq> []]) = concat (map capitalise ps)"
  by (induction ps) auto

lemma scan_in_word:
  "scan False True s = map tolower (hd (parts isspace s)) @ concat (map capitalise (tl (parts isspace s)))"
  "scan True a s = concat (map capitalise (parts isspace s))"
proof (induction s arbitrary: a)
  case (Cons c s)
  { case 1 then show ?case
      using Cons.IH by (cases "parts isspace s") (auto simp: tolower_nonalpha) }
  { case 2 then show ?case
      using Cons.IH by (cases "parts isspace s") auto }
qed auto

lemma scan_camel_sentence: "scan False False s = camel_sentence s"
proof (induction s)
  case (Cons c s)
  then show ?case
    by (cases "parts isspace s")
      (auto simp: camel_sentence_def words_of_def scan_in_word(1) capitalise_words tolower_nonalpha)
qed (simp add: camel_sentence_def words_of_def)

lemma code_char_of: "n < 256 \<Longrightarrow> code (char_of n) = n"
  by (simp add: code_def)

lemma lower_upper_not_NUL: "c \<noteq> NUL \<Longrightarrow> tolower c \<noteq> NUL" "c \<noteq> NUL \<Longrightarrow> toupper c \<noteq> NUL"
proof -
  have n: "code NUL = 0" by (simp add: code_def NUL_def)
  have "code (char_of (code c + 32)) \<noteq> 0" if "isupper c"
    using that by (subst code_char_of) (simp_all add: isupper_def)
  then show "c \<noteq> NUL \<Longrightarrow> tolower c \<noteq> NUL" using n by (auto simp: tolower_def)
  have "code (char_of (code c - 32)) \<noteq> 0" if "islower c"
    using that by (subst code_char_of) (auto simp: islower_def)
  then show "c \<noteq> NUL \<Longrightarrow> toupper c \<noteq> NUL" using n by (auto simp: toupper_def)
qed

lemma scan_no_NUL: "NUL \<notin> set s \<Longrightarrow> NUL \<notin> set (scan u a s)"
proof (induction u a s rule: scan.induct)
  case (2 u a c cs)
  have "NUL \<noteq> c" using "2.prems" by simp
  then have "NUL \<noteq> tolower c" "NUL \<noteq> toupper c" using lower_upper_not_NUL [of c] by metis+
  then show ?case using 2 by auto
qed simp

text \<open>Spaces in a row change nothing after the first one.\<close>

lemma drop_nth: "i < length s \<Longrightarrow> drop i s = s ! i # drop (Suc i) s"
  by (simp add: Cons_nth_drop_Suc)

definition sentence_at :: "string \<Rightarrow> nat \<Rightarrow> string" where
  "sentence_at s i = takeWhile (\<lambda>c. \<not> ispunct c) (drop i s)"

lemma sentence_at_step:
  "i < length s \<Longrightarrow> \<not> ispunct (s ! i) \<Longrightarrow> sentence_at s i = s ! i # sentence_at s (Suc i)"
  by (simp add: sentence_at_def drop_nth)

lemma sentence_at_done: "\<not> (i < length s \<and> \<not> ispunct (s ! i)) \<Longrightarrow> sentence_at s i = []"
  by (cases "i < length s") (simp_all add: sentence_at_def drop_nth)

lemma scan_skip_spaces:
  "i + length (sentence_at s i) = skip_spaces s i + length (sentence_at s (skip_spaces s i))
   \<and> scan (u \<or> a) a (sentence_at s i) = scan (u \<or> a) a (sentence_at s (skip_spaces s i))"
proof (induction s i rule: skip_spaces.induct)
  case (1 s i)
  show ?case
  proof (cases "i < length s \<and> isspace (s ! i)")
    case True
    then have "skip_spaces s i = skip_spaces s (Suc i)" by (simp add: skip_spaces.simps [of s i])
    then show ?thesis
      using 1 [OF True] True space_not_punct [of "s ! i"] by (simp add: sentence_at_step)
  qed (subst (1 2) skip_spaces.simps, auto simp: skip_spaces.simps [of s i])
qed

lemma word_loop_ok:
  assumes "word_spot < length word"
  shows "\<exists>word' spot'. word_loop jk s i word word_spot u a
           = Inr (i + length (sentence_at s i), word', spot')
         \<and> spot' < length word'
         \<and> take spot' word' = take word_spot word @ scan u a (sentence_at s i)"
  using assms
proof (induction jk s i word word_spot u a rule: word_loop.induct)
  case (1 jk s i w ws u a)
  show ?case
  proof (cases "i < length s \<and> \<not> ispunct (s ! i)")
    case inside: True
    then have sent: "sentence_at s i = s ! i # sentence_at s (Suc i)" by (simp add: sentence_at_step)
    show ?thesis
    proof (cases "isspace (s ! i)")
      case True
      then have "scan u a (sentence_at s i) = scan (u \<or> a) a (sentence_at s i)"
        using sent by simp
      then show ?thesis
        using "1.IH"(1) [OF inside True "1.prems"] inside True scan_skip_spaces [of i s u a]
        by (subst word_loop.simps) auto
    next
      case False
      let ?c = "if isalpha (s ! i) then if u then toupper (s ! i) else tolower (s ! i) else s ! i"
      let ?w = "w[ws := ?c]"
      let ?g = "if Suc ws = length ?w then grow jk ?w (2 * length ?w) else ?w"
      have p: "put w ws ?c = Inr ?w" using "1.prems" by (simp add: put_def)
      have "take (Suc ws) ?g = take (Suc ws) ?w" using "1.prems" by (simp add: grow_def)
      then have g: "Suc ws < length ?g" "take (Suc ws) ?g = take ws w @ [?c]"
        using "1.prems" by (auto simp: grow_def take_update_Suc simp del: take_all)
      have "scan u a (sentence_at s i) = ?c # scan (u \<and> \<not> isalpha (s ! i)) True (sentence_at s (Suc i))"
        using sent False by simp
      then show ?thesis
        using "1.IH"(2) [OF inside False p g(1)] inside False p g(2) sent
        by (subst word_loop.simps) auto
    qed
  next
    case False
    then show ?thesis using "1.prems" by (subst word_loop.simps) (auto simp: sentence_at_done)
  qed
qed

section \<open>The sentences\<close>

text \<open>The sentences of a text, an unterminated last one included; the outer loop makes a word of each.\<close>

definition chunks :: "string \<Rightarrow> string list" where
  "chunks s = (if s = [] \<or> ispunct (last s) then butlast (parts ispunct s) else parts ispunct s)"

lemma parts_takeWhile:
  "parts sep s = takeWhile (\<lambda>c. \<not> sep c) s #
     (case dropWhile (\<lambda>c. \<not> sep c) s of [] \<Rightarrow> [] | c # cs \<Rightarrow> parts sep cs)"
  by (induction s) (auto split: list.splits)

lemma chunks_at:
  assumes "i < length s"
  shows "chunks (drop i s) = sentence_at s i # chunks (drop (Suc (i + length (sentence_at s i))) s)"
proof -
  let ?t = "drop i s" and ?n = "length (sentence_at s i)"
  have tw: "takeWhile (\<lambda>c. \<not> ispunct c) ?t = sentence_at s i" by (simp add: sentence_at_def)
  have dw: "dropWhile (\<lambda>c. \<not> ispunct c) ?t = drop (i + ?n) s"
    unfolding sentence_at_def by (simp add: dropWhile_eq_drop add.commute)
  show ?thesis
  proof (cases "i + ?n < length s")
    case True
    then have d: "drop (i + ?n) s = s ! (i + ?n) # drop (Suc (i + ?n)) s" by (simp add: drop_nth)
    have punct: "ispunct (s ! (i + ?n))"
      using dw d hd_dropWhile [of "\<lambda>c. \<not> ispunct c" ?t] by simp
    have ps: "parts ispunct ?t = sentence_at s i # parts ispunct (drop (Suc (i + ?n)) s)"
      using parts_takeWhile [of ispunct ?t] unfolding tw dw d by simp
    have lt: "?t \<noteq> []" "last ?t = last s" using assms by (simp_all add: last_drop)
    show ?thesis
    proof (cases "Suc (i + ?n) < length s")
      case True
      then have "drop (Suc (i + ?n)) s \<noteq> []" "last (drop (Suc (i + ?n)) s) = last s"
        by (simp_all add: last_drop)
      then show ?thesis using lt ps by (simp add: chunks_def)
    next
      case False
      then have e: "drop (Suc (i + ?n)) s = []" "i + ?n = length s - 1" using True by simp_all
      then have "ispunct (last s)" using punct assms by (metis gr_implies_not0 last_conv_nth list.size(3))
      then show ?thesis using lt ps e(1) by (simp add: chunks_def)
    qed
  next
    case False
    then have e: "dropWhile (\<lambda>c. \<not> ispunct c) ?t = []" using dw by simp
    then have "parts ispunct ?t = [sentence_at s i]"
      using parts_takeWhile [of ispunct ?t] unfolding tw e by simp
    moreover from e have "\<not> ispunct (last ?t)"
      using assms by (metis dropWhile_eq_Nil_conv drop_eq_Nil last_in_set not_less)
    ultimately show ?thesis
      using False assms by (simp add: chunks_def)
  qed
qed

lemma slot_string_terminated:
  assumes "spot < length w" and "NUL \<notin> set (take spot w)"
  shows "slot_string (WordBuf (w[spot := NUL])) = Some (take spot w)"
proof -
  have "w[spot := NUL] = take spot w @ NUL # drop (Suc spot) w"
    using assms(1) by (simp add: upd_conv_take_nth_drop)
  then show ?thesis using assms by simp
qed

lemma sentence_loop_ok:
  assumes "NUL \<notin> set s" and "spot < length camel" and "length ws = spot"
    and "\<forall>k < spot. slot_string (camel ! k) = Some (ws ! k)"
  shows "\<exists>camel'. sentence_loop jk js s i camel spot
             = Inr (camel', length (ws @ map camel_sentence (chunks (drop i s))))
         \<and> length (ws @ map camel_sentence (chunks (drop i s))) < length camel'
         \<and> (\<forall>k < length (ws @ map camel_sentence (chunks (drop i s))).
              slot_string (camel' ! k) = Some ((ws @ map camel_sentence (chunks (drop i s))) ! k))"
  using assms
proof (induction jk js s i camel spot arbitrary: ws rule: sentence_loop.induct)
  case (1 jk js s i camel spot)
  show ?case
  proof (cases "i < length s")
    case True
    let ?n = "length (sentence_at s i)" and ?c = "camel_sentence (sentence_at s i)"
    obtain w k where w: "word_loop jk s i (replicate 10 NUL) 0 False False = Inr (i + ?n, w, k)"
        "k < length w" "take k w = ?c"
      using word_loop_ok [of 0 "replicate 10 NUL" jk s i False False] scan_camel_sentence by auto
    have "NUL \<notin> set (sentence_at s i)"
      using "1.prems"(1) by (auto simp: sentence_at_def dest: set_takeWhileD in_set_dropD)
    then have nul: "NUL \<notin> set ?c" using scan_no_NUL [of "sentence_at s i" False False] scan_camel_sentence by simp
    let ?w = "w[k := NUL]"
    let ?camel = "camel[spot := WordBuf ?w]"
    let ?g = "if Suc spot = length ?camel then grow js ?camel (2 * length ?camel) else ?camel"
    have put1: "put w k NUL = Inr ?w" using w(2) by (simp add: put_def)
    have put2: "put camel spot (WordBuf ?w) = Inr ?camel" using "1.prems"(2) by (simp add: put_def)
    have len: "Suc spot < length ?g" using "1.prems"(2) by (auto simp: grow_def)
    have cells: "\<forall>j < Suc spot. slot_string (?g ! j) = Some ((ws @ [?c]) ! j)"
      using "1.prems"(2-4) slot_string_terminated [of k w] w(2,3) nul
      by (auto simp: grow_def nth_append less_Suc_eq)
    have step: "sentence_loop jk js s i camel spot
        = sentence_loop jk js s (Suc (i + ?n)) ?g (Suc spot)"
      using True w(1) put1 put2 by (subst sentence_loop.simps) simp
    have "ws @ map camel_sentence (chunks (drop i s))
        = (ws @ [?c]) @ map camel_sentence (chunks (drop (Suc (i + ?n)) s))"
      by (simp add: chunks_at [OF True])
    moreover have "length (ws @ [?c]) = Suc spot" using "1.prems"(3) by simp
    ultimately show ?thesis
      using "1.IH" [OF True w(1) refl refl put1 put2, of "ws @ [?c]"] "1.prems"(1) len cells step
      by simp
  next
    case False
    then show ?thesis using "1.prems"
      by (subst sentence_loop.simps) (auto simp: chunks_def)
  qed
qed

lemma destroy_holds_words:
  "holds_words camel ws \<Longrightarrow> \<exists>freed. destroy camel = Inr freed \<and> length freed = length ws"
proof (induction ws arbitrary: camel)
  case Nil
  then show ?case by (cases camel) (auto simp: holds_words_def)
next
  case (Cons w ws)
  then obtain c cs where camel: "camel = c # cs" by (cases camel) (auto simp: holds_words_def)
  have "slot_string (camel ! 0) = Some w" using Cons.prems by (auto simp: holds_words_def)
  then obtain b where "c = WordBuf b" using camel by (cases c) auto
  moreover have "holds_words cs ws" using Cons.prems camel by (auto simp: holds_words_def)
  ultimately show ?case using Cons.IH [of cs] camel by auto
qed

lemma camel_caser_ok:
  assumes "s \<noteq> []" and "NUL \<notin> set s"
  shows "\<exists>camel freed. camel_caser jk js (Some s) = Inr (Some camel)
           \<and> holds_words camel (camel_spec s)
           \<and> destroy camel = Inr freed \<and> length freed = length (camel_spec s)"
proof -
  let ?ws = "map camel_sentence (chunks s)"
  have "0 < length (map js [0..<10])" by simp
  from sentence_loop_ok [OF assms(2) this, of "[]" jk js 0] obtain camel where l:
    "sentence_loop jk js s 0 (map js [0..<10]) 0 = Inr (camel, length ?ws)"
    "length ?ws < length camel" "\<forall>k < length ?ws. slot_string (camel ! k) = Some (?ws ! k)"
    by auto
  have put1: "put camel (length ?ws) NullSlot = Inr (camel[length ?ws := NullSlot])"
    using l(2) by (simp add: put_def)
  have last: "s ! (length s - 1) = last s" using assms(1) by (simp add: last_conv_nth)
  have "\<exists>c. camel_caser jk js (Some s) = Inr (Some c) \<and> holds_words c (camel_spec s)"
  proof (cases "ispunct (last s)")
    case True
    then have "camel_spec s = ?ws" by (simp add: camel_spec_def chunks_def)
    then show ?thesis
      using True l put1 assms(1) last by (simp add: camel_caser_def holds_words_def)
  next
    case False
    then have ch: "chunks s = parts ispunct s" using assms(1) by (simp add: chunks_def)
    then have n: "length ?ws \<noteq> 0" by simp
    have "camel_spec s = butlast ?ws" by (simp add: camel_spec_def ch map_butlast)
    then show ?thesis
      using False l put1 assms(1) last n
      by (simp add: camel_caser_def holds_words_def put_def nth_butlast nth_list_update)
  qed
  then show ?thesis using destroy_holds_words by blast
qed

section \<open>Properties\<close>

text \<open>
  C26: for every text but the empty one the result is the camel-cased sentences, each a
  terminated string, followed by \<^verbatim>\<open>NULL\<close>; no access leaves its buffer, and \<open>destroy\<close> frees
  exactly these words.
\<close>

theorem camel_caser_correct:
  assumes "s \<noteq> []" and "NUL \<notin> set s"
  shows "\<exists>camel freed. camel_caser jk js (Some s) = Inr (Some camel)
           \<and> holds_words camel (camel_spec s)
           \<and> destroy camel = Inr freed \<and> length freed = length (camel_spec s)"
  by (rule camel_caser_ok [OF assms])

theorem camel_caser_correct_witness:
  "\<exists>camel freed. camel_caser (\<lambda>_. NUL) (\<lambda>_. Indet) (Some ''Hi  big WORLD! x'') = Inr (Some camel)
     \<and> holds_words camel [''hiBigWorld''] \<and> destroy camel = Inr freed \<and> length freed = 1"
proof -
  have "''Hi  big WORLD! x'' \<noteq> []" and "NUL \<notin> set ''Hi  big WORLD! x''" by (simp_all add: NUL_def)
  moreover have "camel_spec ''Hi  big WORLD! x'' = [''hiBigWorld'']" by code_simp
  ultimately show ?thesis using camel_caser_correct [of "''Hi  big WORLD! x''"] by simp
qed

text \<open>
  The empty text is not handled: the last step reads the character before its first one.
\<close>

theorem camel_caser_empty_faults:
  "camel_caser jk js (Some []) = Inl OutOfBounds \<and> camel_caser jk js None = Inr None"
  by (simp add: camel_caser_def sentence_loop.simps put_def)

end
