(* ===== verification/Memcheck.thy ===== *)
theory Memcheck
  imports Prelude
begin

text \<open>
  \<^verbatim>\<open>mini_memcheck/mini_memcheck.c\<close>: the wrappers around the allocator that keep a linked list
  of metadata and three counters. The list is kept as the code keeps it, by \<open>next\<close>
  pointers through the live blocks, so a pointer to a block the system moved is followed into
  freed memory. Addresses, sizes and counters are 64-bit words.

  Outside the repository: \<^verbatim>\<open>sizeof(meta_data)\<close> is the argument \<open>M\<close> (the struct is in a header
  that is not there), and the system's allocator is represented by the address it returns, an
  argument of each operation; an address that is not 0 is that of a block no live block has.
\<close>

type_synonym addr = "64 word"
type_synonym byte = "8 word"

section \<open>Blocks and the state\<close>

text \<open>A live block: the metadata, and the bytes behind it.\<close>

record block =
  request_size :: addr
  filename :: string
  instruction :: addr
  next_meta :: addr
  payload :: "byte list"

record memcheck =
  mem :: "addr \<rightharpoonup> block"
  head :: addr
  total_memory_requested :: addr
  total_memory_freed :: addr
  invalid_addresses :: addr

definition memcheck_init :: memcheck where
  "memcheck_init = \<lparr>mem = Map.empty, head = 0, total_memory_requested = 0,
     total_memory_freed = 0, invalid_addresses = 0\<rparr>"

definition fit :: "(nat \<Rightarrow> byte) \<Rightarrow> byte list \<Rightarrow> nat \<Rightarrow> byte list" where
  "fit jk bs n = take n bs @ map jk [length bs..<n]"

lemma length_fit [simp]: "length (fit jk bs n) = n"
  by (simp add: fit_def)

section \<open>The wrappers\<close>

text \<open>
  \<open>a\<close> is the address \<^verbatim>\<open>malloc\<close> returns, \<open>jk\<close> the bytes the block held. The wrappers
  return the payload's address. For a size so large that adding \<open>M\<close> wraps around, the block is
  too small for the metadata.
\<close>

definition mini_malloc :: "addr \<Rightarrow> (nat \<Rightarrow> byte) \<Rightarrow> addr \<Rightarrow> addr \<Rightarrow> string \<Rightarrow> addr \<Rightarrow> memcheck
    \<Rightarrow> (addr \<times> memcheck) res" where
  "mini_malloc M jk a request file instr s =
     (if request = 0 then Inr (0, s)
      else if a = 0 then Inr (0, s)
      else if unat (M + request) < unat M then Inl OutOfBounds
      else let ptr = \<lparr>request_size = request, filename = file, instruction = instr,
                      next_meta = (if head s = 0 then 0 else head s),
                      payload = fit jk [] (unat (M + request) - unat M)\<rparr>
           in Inr (a + M, s\<lparr>mem := (mem s)(a \<mapsto> ptr), head := a,
                 total_memory_requested := total_memory_requested s + request\<rparr>))"

text \<open>\<^verbatim>\<open>memset\<close> of the payload; the product of the two sizes wraps around.\<close>

definition zero_payload :: "addr \<Rightarrow> addr \<Rightarrow> addr \<Rightarrow> memcheck \<Rightarrow> memcheck res" where
  "zero_payload M p n s =
     (case mem s (p - M) of None \<Rightarrow> Inl UseAfterFree
      | Some b \<Rightarrow>
          if unat n \<le> length (payload b)
          then Inr (s\<lparr>mem := (mem s)(p - M \<mapsto>
                 b\<lparr>payload := replicate (unat n) 0 @ drop (unat n) (payload b)\<rparr>)\<rparr>)
          else Inl OutOfBounds)"

definition mini_calloc :: "addr \<Rightarrow> (nat \<Rightarrow> byte) \<Rightarrow> addr \<Rightarrow> addr \<Rightarrow> addr \<Rightarrow> string \<Rightarrow> addr \<Rightarrow> memcheck
    \<Rightarrow> (addr \<times> memcheck) res" where
  "mini_calloc M jk a num_elements element_size file instr s =
     bindE (mini_malloc M jk a (num_elements * element_size) file instr s) (\<lambda>(ptr, s').
      if ptr = 0 then Inr (0, s')
      else bindE (zero_payload M ptr (element_size * num_elements) s') (\<lambda>s''. Inr (ptr, s'')))"

text \<open>
  The walk both \<open>mini_free\<close> and \<open>mini_realloc\<close> make, with the previous node (0 when there is
  none). It reads each node it meets; it never ends on a cyclic list.
\<close>

partial_function (option) walk :: "(addr \<rightharpoonup> block) \<Rightarrow> addr \<Rightarrow> addr \<Rightarrow> addr
    \<Rightarrow> (addr \<times> addr) option res option" where
  "walk m target prev cur =
     (if cur = 0 then Some (Inr None)
      else if cur = target then Some (Inr (Some (prev, cur)))
      else (case m cur of None \<Rightarrow> Some (Inl UseAfterFree)
            | Some b \<Rightarrow> walk m target cur (next_meta b)))"

definition find_node :: "memcheck \<Rightarrow> addr \<Rightarrow> (addr \<times> addr) option res" where
  "find_node s target =
     (case walk (mem s) target 0 (head s) of None \<Rightarrow> Inl Diverges | Some r \<Rightarrow> r)"

definition load :: "memcheck \<Rightarrow> addr \<Rightarrow> block res" where
  "load s a = (if a = 0 then Inl NullDeref else case mem s a of None \<Rightarrow> Inl UseAfterFree | Some b \<Rightarrow> Inr b)"

definition mini_free :: "addr \<Rightarrow> addr \<Rightarrow> memcheck \<Rightarrow> memcheck res" where
  "mini_free M pl s =
     (if pl = 0 then Inr s
      else bindE (find_node s (pl - M)) (\<lambda>found.
        case found of
          None \<Rightarrow> Inr (s\<lparr>invalid_addresses := invalid_addresses s + 1\<rparr>)
        | Some (prev, cur) \<Rightarrow>
            bindE (load s cur) (\<lambda>c.
            bindE (if prev \<noteq> 0
                   then bindE (load s prev) (\<lambda>p. Inr (s\<lparr>mem := (mem s)(prev \<mapsto> p\<lparr>next_meta := next_meta c\<rparr>)\<rparr>))
                   else Inr (s\<lparr>head := next_meta c\<rparr>)) (\<lambda>s'.
            Inr (s'\<lparr>total_memory_freed := total_memory_freed s' + request_size c,
                    mem := (mem s')(cur := None)\<rparr>)))))"

text \<open>
  \<open>q\<close> is the address \<^verbatim>\<open>realloc\<close> returns. The new block has \<^verbatim>\<open>request_size * sizeof(meta_data)\<close>
  bytes, metadata included (the code asks for that product, not for the sum). When the sizes
  are equal the address of the metadata is returned.
\<close>

definition mini_realloc :: "addr \<Rightarrow> (nat \<Rightarrow> byte) \<Rightarrow> addr \<Rightarrow> addr \<Rightarrow> addr \<Rightarrow> addr \<Rightarrow> string \<Rightarrow> addr
    \<Rightarrow> memcheck \<Rightarrow> (addr \<times> memcheck) res" where
  "mini_realloc M jk a q pl request file instr s =
     (if pl = 0 \<and> request = 0 then Inr (0, s)
      else if pl = 0 then mini_malloc M jk a request file instr s
      else if request = 0 then bindE (mini_free M pl s) (\<lambda>s'. Inr (0, s'))
      else bindE (find_node s (pl - M)) (\<lambda>found.
        case found of
          None \<Rightarrow> Inr (0, s\<lparr>invalid_addresses := invalid_addresses s + 1\<rparr>)
        | Some (prev, cur) \<Rightarrow>
            bindE (load s cur) (\<lambda>c.
              if request = request_size c
              then Inr (cur, s\<lparr>mem := (mem s)(cur \<mapsto> c\<lparr>filename := file, instruction := instr\<rparr>)\<rparr>)
              else let s' = (if request > request_size c
                             then s\<lparr>total_memory_requested := total_memory_requested s + (request - request_size c)\<rparr>
                             else s\<lparr>total_memory_freed := total_memory_freed s + (request_size c - request)\<rparr>);
                       bytes = unat (request * M)
                   in if q = 0 then Inl NullDeref
                      else if bytes < unat M then Inl OutOfBounds
                      else Inr (q + M, s'\<lparr>mem := ((mem s')(cur := None))(q \<mapsto>
                             c\<lparr>request_size := request, filename := file, instruction := instr,
                               payload := fit jk (payload c) (bytes - unat M)\<rparr>)\<rparr>))))"

section \<open>Runs\<close>

datatype event =
    Malloc "nat \<Rightarrow> byte" addr addr string addr
  | Calloc "nat \<Rightarrow> byte" addr addr addr string addr
  | Realloc "nat \<Rightarrow> byte" addr addr addr addr string addr
  | Free addr

fun mc_step :: "addr \<Rightarrow> event \<Rightarrow> memcheck \<Rightarrow> memcheck res" where
  "mc_step M (Malloc jk a n file instr) s =
     bindE (mini_malloc M jk a n file instr s) (\<lambda>(p, s'). Inr s')"
| "mc_step M (Calloc jk a num el file instr) s =
     bindE (mini_calloc M jk a num el file instr s) (\<lambda>(p, s'). Inr s')"
| "mc_step M (Realloc jk a q pl n file instr) s =
     bindE (mini_realloc M jk a q pl n file instr s) (\<lambda>(p, s'). Inr s')"
| "mc_step M (Free pl) s = mini_free M pl s"

fun mc_run :: "addr \<Rightarrow> event list \<Rightarrow> memcheck \<Rightarrow> memcheck res" where
  "mc_run M [] s = Inr s"
| "mc_run M (e # es) s = bindE (mc_step M e s) (mc_run M es)"

section \<open>The specification: a ledger\<close>

text \<open>What the wrappers promise: the live blocks with their sizes, newest first, and the counters.\<close>

record ledger =
  live :: "(addr \<times> addr) list"
  requested :: addr
  freed :: addr
  invalid :: addr

definition ledger_init :: ledger where
  "ledger_init = \<lparr>live = [], requested = 0, freed = 0, invalid = 0\<rparr>"

definition ledger_malloc :: "addr \<Rightarrow> addr \<Rightarrow> ledger \<Rightarrow> ledger" where
  "ledger_malloc a n L =
     (if n = 0 \<or> a = 0 then L else L\<lparr>live := (a, n) # live L, requested := requested L + n\<rparr>)"

definition ledger_free :: "addr \<Rightarrow> ledger \<Rightarrow> ledger" where
  "ledger_free a L = (case map_of (live L) a of
      None \<Rightarrow> L\<lparr>invalid := invalid L + 1\<rparr>
    | Some n \<Rightarrow> L\<lparr>live := [x \<leftarrow> live L. fst x \<noteq> a], freed := freed L + n\<rparr>)"

definition ledger_resize :: "addr \<Rightarrow> addr \<Rightarrow> ledger \<Rightarrow> ledger" where
  "ledger_resize a n L = (case map_of (live L) a of
      None \<Rightarrow> L\<lparr>invalid := invalid L + 1\<rparr>
    | Some k \<Rightarrow> L\<lparr>live := map (\<lambda>x. if fst x = a then (a, n) else x) (live L),
        requested := requested L + (if n > k then n - k else 0),
        freed := freed L + (if n < k then k - n else 0)\<rparr>)"

fun ledger_step :: "addr \<Rightarrow> event \<Rightarrow> ledger \<Rightarrow> ledger" where
  "ledger_step M (Malloc jk a n file instr) L = ledger_malloc a n L"
| "ledger_step M (Calloc jk a num el file instr) L = ledger_malloc a (num * el) L"
| "ledger_step M (Realloc jk a q pl n file instr) L =
     (if pl = 0 then ledger_malloc a n L
      else if n = 0 then ledger_free (pl - M) L
      else ledger_resize (pl - M) n L)"
| "ledger_step M (Free pl) L = (if pl = 0 then L else ledger_free (pl - M) L)"

text \<open>
  What the system's allocator gives: a new block is not one of the live blocks; the sizes do
  not wrap around. A block that \<^verbatim>\<open>realloc\<close> resizes stays where it is: the code is wrong otherwise.
\<close>

definition fresh_block :: "addr \<Rightarrow> addr \<Rightarrow> addr \<Rightarrow> ledger \<Rightarrow> bool" where
  "fresh_block M a n L \<longleftrightarrow>
     n = 0 \<or> a = 0 \<or> (a \<notin> fst ` set (live L) \<and> unat M + unat n < 2 ^ 64 \<and> a + M \<noteq> 0)"

fun system_ok :: "addr \<Rightarrow> event \<Rightarrow> ledger \<Rightarrow> bool" where
  "system_ok M (Malloc jk a n file instr) L = fresh_block M a n L"
| "system_ok M (Calloc jk a num el file instr) L = fresh_block M a (num * el) L"
| "system_ok M (Realloc jk a q pl n file instr) L =
     (if pl = 0 then fresh_block M a n L
      else n = 0 \<or> (q = pl - M \<and> unat M \<le> unat (n * M)))"
| "system_ok M (Free pl) L = True"

fun ledger_run :: "addr \<Rightarrow> event list \<Rightarrow> ledger \<Rightarrow> ledger option" where
  "ledger_run M [] L = Some L"
| "ledger_run M (e # es) L = (if system_ok M e L then ledger_run M es (ledger_step M e L) else None)"

section \<open>The list in memory\<close>

fun linked :: "(addr \<rightharpoonup> block) \<Rightarrow> addr \<Rightarrow> addr list \<Rightarrow> bool" where
  "linked m p [] = (p = 0)"
| "linked m p (x # xs) = (p = x \<and> x \<noteq> 0 \<and>
     (case m x of None \<Rightarrow> False | Some b \<Rightarrow> linked m (next_meta b) xs))"

definition mc_rel :: "memcheck \<Rightarrow> ledger \<Rightarrow> bool" where
  "mc_rel s L \<longleftrightarrow> linked (mem s) (head s) (map fst (live L)) \<and> distinct (map fst (live L))
     \<and> (\<forall>a. map_option request_size (mem s a) = map_of (live L) a)
     \<and> total_memory_requested s = requested L \<and> total_memory_freed s = freed L
     \<and> invalid_addresses s = invalid L"

definition balanced :: "ledger \<Rightarrow> bool" where
  "balanced L \<longleftrightarrow> distinct (map fst (live L)) \<and> requested L - freed L = sum_list (map snd (live L))"

lemma linked_cong: "(\<And>x. x \<in> set xs \<Longrightarrow> map_option next_meta (m' x) = map_option next_meta (m x))
    \<Longrightarrow> linked m' p xs = linked m p xs"
proof (induction xs arbitrary: p)
  case (Cons x xs)
  have x: "map_option next_meta (m' x) = map_option next_meta (m x)" using Cons.prems by simp
  have "\<And>p. linked m' p xs = linked m p xs" using Cons by simp
  then show ?case using x by (cases "m x"; cases "m' x") auto
qed simp

lemma linked_nonzero: "linked m p xs \<Longrightarrow> x \<in> set xs \<Longrightarrow> x \<noteq> 0 \<and> m x \<noteq> None"
  by (induction xs arbitrary: p) (auto split: option.splits)

lemma walk_linked:
  "linked m p xs \<Longrightarrow> walk m t prev p =
     Some (Inr (if t \<in> set xs then Some (last (prev # takeWhile (\<lambda>x. x \<noteq> t) xs), t) else None))"
proof (induction xs arbitrary: p prev)
  case Nil
  then show ?case by (simp add: walk.simps)
next
  case (Cons x xs)
  then obtain b where b: "p = x" "x \<noteq> 0" "m x = Some b" "linked m (next_meta b) xs"
    by (auto split: option.splits)
  show ?case
  proof (cases "x = t")
    case True
    then show ?thesis using b by (subst walk.simps) simp
  next
    case False
    then show ?thesis using b Cons.IH [OF b(4), of x] by (subst walk.simps) simp
  qed
qed

lemma linked_append:
  "linked m p (ys @ x # zs) \<Longrightarrow> \<exists>b. m x = Some b \<and> linked m (next_meta b) zs \<and> (ys = [] \<longrightarrow> p = x)"
  by (induction ys arbitrary: p) (auto split: option.splits)

lemma linked_unlink:
  assumes "linked m p (ys @ y # t # zs)" and "distinct (ys @ y # t # zs)"
    and "m y = Some b" and "m t = Some c"
  shows "linked (m(y \<mapsto> b\<lparr>next_meta := next_meta c\<rparr>)) p (ys @ y # zs)"
  using assms(1,2)
proof (induction ys arbitrary: p)
  case Nil
  then have "linked m (next_meta c) zs" "y \<notin> set zs" using assms(3,4) by auto
  then have "linked (m(y \<mapsto> b\<lparr>next_meta := next_meta c\<rparr>)) (next_meta c) zs"
    by (subst linked_cong [where m = m]) auto
  then show ?case using Nil by (simp add: fun_upd_def)
next
  case (Cons x ys)
  then show ?case by (auto split: option.splits)
qed

lemma mc_rel_facts:
  assumes "mc_rel s L"
  shows "linked (mem s) (head s) (map fst (live L))" "distinct (map fst (live L))"
    "map_of (live L) a = map_option request_size (mem s a)"
    "a \<in> fst ` set (live L) \<longleftrightarrow> mem s a \<noteq> None"
    "a \<in> fst ` set (live L) \<Longrightarrow> a \<noteq> 0"
proof -
  show l: "linked (mem s) (head s) (map fst (live L))" and d: "distinct (map fst (live L))"
    and m: "map_of (live L) a = map_option request_size (mem s a)"
    using assms by (simp_all add: mc_rel_def)
  show "a \<in> fst ` set (live L) \<longleftrightarrow> mem s a \<noteq> None"
    using m map_of_eq_None_iff [of "live L" a] by auto
  show "a \<in> fst ` set (live L) \<Longrightarrow> a \<noteq> 0" using linked_nonzero [OF l] by auto
qed

lemma fit_Nil: "fit jk [] n = map jk [0..<n]"
  by (simp add: fit_def)

lemma unat_plus_small: "unat (M :: addr) + unat n < 2 ^ 64 \<Longrightarrow> unat (M + n) = unat M + unat n"
  by (simp add: unat_word_ariths)

lemma mini_malloc_ok:
  assumes rel: "mc_rel s L" and sys: "fresh_block M a n L"
  shows "\<exists>p s'. mini_malloc M jk a n file instr s = Inr (p, s') \<and> mc_rel s' (ledger_malloc a n L)
    \<and> (p = 0 \<longleftrightarrow> n = 0 \<or> a = 0)
    \<and> (p \<noteq> 0 \<longrightarrow> p - M = a \<and> (\<exists>b. mem s' a = Some b \<and> length (payload b) = unat n))"
proof (cases "n = 0 \<or> a = 0")
  case True
  then show ?thesis using rel by (auto simp: mini_malloc_def ledger_malloc_def)
next
  case False
  note f = mc_rel_facts [OF rel]
  have new: "a \<notin> fst ` set (live L)" "a + M \<noteq> 0" and u: "unat (M + n) = unat M + unat n"
    using sys False unat_plus_small by (auto simp: fresh_block_def)
  let ?b = "\<lparr>request_size = n, filename = file, instruction = instr, next_meta = head s,
      payload = fit jk [] (unat (M + n) - unat M)\<rparr>"
  let ?s = "s\<lparr>mem := (mem s)(a \<mapsto> ?b), head := a, total_memory_requested := total_memory_requested s + n\<rparr>"
  have "mini_malloc M jk a n file instr s = Inr (a + M, ?s)"
    using False u by (simp add: mini_malloc_def)
  moreover have "linked (mem ?s) (head s) (map fst (live L))"
    using f(1) new(1) by (subst linked_cong [where m = "mem s"]) auto
  then have "mc_rel ?s (ledger_malloc a n L)"
    using rel False new(1) by (simp add: mc_rel_def ledger_malloc_def)
  ultimately show ?thesis using False new(2) u by auto
qed

lemma mini_calloc_ok:
  assumes rel: "mc_rel s L" and sys: "fresh_block M a (num * el) L"
  shows "\<exists>p s'. mini_calloc M jk a num el file instr s = Inr (p, s')
    \<and> mc_rel s' (ledger_malloc a (num * el) L)
    \<and> (p \<noteq> 0 \<longrightarrow> (\<exists>b. mem s' (p - M) = Some b \<and> payload b = replicate (unat (num * el)) 0))"
proof -
  from mini_malloc_ok [OF assms] obtain p s' where m:
    "mini_malloc M jk a (num * el) file instr s = Inr (p, s')" "mc_rel s' (ledger_malloc a (num * el) L)"
    "p \<noteq> 0 \<Longrightarrow> p - M = a \<and> (\<exists>b. mem s' a = Some b \<and> length (payload b) = unat (num * el))"
    by blast
  show ?thesis
  proof (cases "p = 0")
    case True
    then show ?thesis using m by (simp add: mini_calloc_def)
  next
    case False
    then obtain b where b: "p - M = a" "mem s' a = Some b" "length (payload b) = unat (num * el)"
      using m(3) by auto
    let ?b = "b\<lparr>payload := replicate (unat (num * el)) 0 @ drop (unat (num * el)) (payload b)\<rparr>"
    let ?s = "s'\<lparr>mem := (mem s')(a \<mapsto> ?b)\<rparr>"
    have "mini_calloc M jk a num el file instr s = Inr (p, ?s)"
      using m(1) False b by (simp add: mini_calloc_def zero_payload_def mult.commute)
    moreover have "linked (mem ?s) (head s') (map fst (live (ledger_malloc a (num * el) L)))"
      using mc_rel_facts(1) [OF m(2)] b(2) by (subst linked_cong [where m = "mem s'"]) auto
    then have "mc_rel ?s (ledger_malloc a (num * el) L)"
      using m(2) b(2) mc_rel_facts(3) [OF m(2), of a] by (simp add: mc_rel_def)
    ultimately show ?thesis using b by auto
  qed
qed

lemma find_node_ok:
  assumes "mc_rel s L"
  shows "find_node s t = Inr (if t \<in> fst ` set (live L)
    then Some (last (0 # takeWhile (\<lambda>x. x \<noteq> t) (map fst (live L))), t) else None)"
  using walk_linked [OF mc_rel_facts(1) [OF assms], of t 0] by (simp add: find_node_def)

lemma map_of_remove: "map_of [x \<leftarrow> xs. fst x \<noteq> t] a = (if a = t then None else map_of xs a)"
  by (induction xs) auto

lemma map_of_resize:
  "map_of (map (\<lambda>x. if fst x = t then (t, n) else x) xs) a =
     (if a = t then map_option (\<lambda>_. n) (map_of xs t) else map_of xs a)"
  by (induction xs) auto

lemma mc_rel_remove:
  assumes rel: "mc_rel s L" and keys: "map fst [x \<leftarrow> live L. fst x \<noteq> t] = ks"
    and "linked (mem s') (head s') ks"
    and "\<And>a. map_option request_size (mem s' a) = (if a = t then None else map_option request_size (mem s a))"
    and "total_memory_requested s' = total_memory_requested s"
    and "total_memory_freed s' = total_memory_freed s + n" and "invalid_addresses s' = invalid_addresses s"
  shows "mc_rel s' (L\<lparr>live := [x \<leftarrow> live L. fst x \<noteq> t], freed := freed L + n\<rparr>)"
  using assms by (auto simp: mc_rel_def map_of_remove distinct_map_filter)

lemma mini_free_ok:
  assumes rel: "mc_rel s L"
  shows "\<exists>s'. mini_free M pl s = Inr s' \<and> mc_rel s' (if pl = 0 then L else ledger_free (pl - M) L)"
proof (cases "pl = 0")
  case True
  then show ?thesis using rel by (simp add: mini_free_def)
next
  case pl: False
  define t where "t = pl - M"
  note f = mc_rel_facts [OF rel]
  show ?thesis
  proof (cases "t \<in> fst ` set (live L)")
    case False
    then have "mini_free M pl s = Inr (s\<lparr>invalid_addresses := invalid_addresses s + 1\<rparr>)"
      using pl find_node_ok [OF rel, of t] by (simp add: mini_free_def t_def)
    moreover have "ledger_free t L = L\<lparr>invalid := invalid L + 1\<rparr>"
      using False f(3,4) [of t] by (auto simp: ledger_free_def)
    ultimately show ?thesis using rel pl by (simp add: t_def mc_rel_def)
  next
    case True
    then obtain c where c: "mem s t = Some c" using f(4) by blast
    have t0: "t \<noteq> 0" by (rule f(5) [OF True])
    obtain ys zs where split: "map fst (live L) = ys @ t # zs" "t \<notin> set ys"
      using True split_list_first [of t "map fst (live L)"] by auto
    then have tz: "t \<notin> set zs" and tw: "takeWhile (\<lambda>x. x \<noteq> t) (map fst (live L)) = ys"
      using f(2) by (auto simp: takeWhile_tail takeWhile_append2)
    have "map fst [x \<leftarrow> live L. fst x \<noteq> t] = [a \<leftarrow> map fst (live L). a \<noteq> t]"
      by (simp add: filter_map comp_def)
    moreover have "[a \<leftarrow> ys. a \<noteq> t] = ys" "[a \<leftarrow> zs. a \<noteq> t] = zs"
      using split(2) tz by (auto simp: filter_id_conv)
    ultimately have keys: "map fst [x \<leftarrow> live L. fst x \<noteq> t] = ys @ zs"
      using split(1) by simp
    have found: "find_node s t = Inr (Some (last (0 # ys), t))"
      using find_node_ok [OF rel, of t] True tw by simp
    have led: "ledger_free t L
        = L\<lparr>live := [x \<leftarrow> live L. fst x \<noteq> t], freed := freed L + request_size c\<rparr>"
      using f(3) [of t] c by (simp add: ledger_free_def)
    let ?drop = "\<lambda>s'. s'\<lparr>total_memory_freed := total_memory_freed s' + request_size c, mem := (mem s')(t := None)\<rparr>"
    show ?thesis
    proof (cases ys rule: rev_cases)
      case Nil
      let ?s = "?drop (s\<lparr>head := next_meta c\<rparr>)"
      have "mini_free M pl s = Inr ?s"
        using pl found c t0 Nil by (simp add: mini_free_def t_def load_def)
      moreover have "linked (mem s) (next_meta c) zs" using f(1) split c Nil by simp
      then have "linked (mem ?s) (next_meta c) zs" using tz by (subst linked_cong [where m = "mem s"]) auto
      then have "mc_rel ?s (ledger_free t L)"
        unfolding led using keys Nil c by (intro mc_rel_remove [OF rel]) auto
      ultimately show ?thesis using pl by (simp add: t_def)
    next
      case (snoc us y)
      have y: "y \<in> fst ` set (live L)" using split snoc by (metis in_set_conv_decomp image_set append.assoc append_Cons)
      then obtain b where b: "mem s y = Some b" using f(4) by blast
      have y0: "y \<noteq> 0" by (rule f(5) [OF y])
      have yt: "y \<noteq> t" using split(2) snoc by auto
      let ?m = "(mem s)(y \<mapsto> b\<lparr>next_meta := next_meta c\<rparr>)"
      let ?s = "?drop (s\<lparr>mem := ?m\<rparr>)"
      have "mini_free M pl s = Inr ?s"
        using pl found c t0 snoc b y0 by (simp add: mini_free_def t_def load_def)
      moreover have "linked ?m (head s) (us @ y # zs)"
        using f(1,2) split snoc b c by (intro linked_unlink [where t = t]) auto
      then have "linked (mem ?s) (head s) (us @ y # zs)"
        using split(2) tz snoc by (subst linked_cong [where m = ?m]) auto
      then have "mc_rel ?s (ledger_free t L)"
        unfolding led using keys snoc b c yt by (intro mc_rel_remove [OF rel]) auto
      ultimately show ?thesis using pl by (simp add: t_def)
    qed
  qed
qed

lemma mini_resize_ok:
  assumes rel: "mc_rel s L" and pl: "pl \<noteq> 0" and n: "n \<noteq> 0"
    and sys: "q = pl - M" "unat M \<le> unat (n * M)"
  shows "\<exists>p s'. mini_realloc M jk a q pl n file instr s = Inr (p, s') \<and> mc_rel s' (ledger_resize (pl - M) n L)"
proof -
  note f = mc_rel_facts [OF rel]
  show ?thesis
  proof (cases "q \<in> fst ` set (live L)")
    case False
    then have "mini_realloc M jk a q pl n file instr s
        = Inr (0, s\<lparr>invalid_addresses := invalid_addresses s + 1\<rparr>)"
      using pl n find_node_ok [OF rel, of q] sys(1) by (simp add: mini_realloc_def)
    moreover have "ledger_resize q n L = L\<lparr>invalid := invalid L + 1\<rparr>"
      using False f(3,4) [of q] by (auto simp: ledger_resize_def)
    ultimately show ?thesis using rel sys(1) by (simp add: mc_rel_def)
  next
    case True
    then obtain c where c: "mem s q = Some c" using f(4) by blast
    have q0: "q \<noteq> 0" by (rule f(5) [OF True])
    have found: "\<exists>prev. find_node s q = Inr (Some (prev, q))"
      using find_node_ok [OF rel, of q] True by simp
    have mo: "map_of (live L) q = Some (request_size c)" using f(3) [of q] c by simp
    have upd: "mc_rel (s\<lparr>mem := m, total_memory_requested := r, total_memory_freed := fr\<rparr>) (ledger_resize q n L)"
      if "m = (mem s)(q \<mapsto> c')" "next_meta c' = next_meta c" "request_size c' = n"
        "r = total_memory_requested s + (if n > request_size c then n - request_size c else 0)"
        "fr = total_memory_freed s + (if n < request_size c then request_size c - n else 0)" for m c' r fr
    proof -
      have "linked m (head s) (map fst (live L))"
        using f(1) c that(1,2) by (subst linked_cong [where m = "mem s"]) auto
      moreover have keys: "map fst (live (ledger_resize q n L)) = map fst (live L)"
        using mo by (auto simp: ledger_resize_def)
      moreover have "\<forall>a. map_option request_size (m a) = map_of (live (ledger_resize q n L)) a"
        using rel that mo by (simp add: mc_rel_def ledger_resize_def map_of_resize)
      ultimately show ?thesis
        using rel that mo unfolding mc_rel_def keys by (simp add: ledger_resize_def)
    qed
    show ?thesis
    proof (cases "n = request_size c")
      case True
      let ?m = "(mem s)(q \<mapsto> c\<lparr>filename := file, instruction := instr\<rparr>)"
      have "mini_realloc M jk a q pl n file instr s = Inr (q, s\<lparr>mem := ?m\<rparr>)"
        using pl n found sys(1) c q0 True by (auto simp: mini_realloc_def load_def)
      moreover have "mc_rel (s\<lparr>mem := ?m, total_memory_requested := total_memory_requested s,
          total_memory_freed := total_memory_freed s\<rparr>) (ledger_resize q n L)"
        using True by (intro upd [OF refl]) auto
      ultimately show ?thesis using sys(1) by simp
    next
      case False
      let ?c = "c\<lparr>request_size := n, filename := file, instruction := instr,
          payload := fit jk (payload c) (unat (n * M) - unat M)\<rparr>"
      let ?m = "(mem s)(q \<mapsto> ?c)"
      let ?r = "total_memory_requested s + (if n > request_size c then n - request_size c else 0)"
      let ?f = "total_memory_freed s + (if n < request_size c then request_size c - n else 0)"
      have "mini_realloc M jk a q pl n file instr s
          = Inr (q + M, s\<lparr>mem := ?m, total_memory_requested := ?r, total_memory_freed := ?f\<rparr>)"
        using pl n found sys c q0 False by (auto simp: mini_realloc_def load_def not_less Let_def)
      moreover have "mc_rel (s\<lparr>mem := ?m, total_memory_requested := ?r, total_memory_freed := ?f\<rparr>)
          (ledger_resize q n L)"
        by (intro upd [OF refl]) auto
      ultimately show ?thesis using sys(1) by blast
    qed
  qed
qed

section \<open>Steps refine the ledger\<close>

lemma mini_realloc_ok:
  assumes rel: "mc_rel s L" and sys: "system_ok M (Realloc jk a q pl n file instr) L"
  shows "\<exists>p s'. mini_realloc M jk a q pl n file instr s = Inr (p, s')
    \<and> mc_rel s' (ledger_step M (Realloc jk a q pl n file instr) L)"
proof (cases "pl = 0")
  case True
  then show ?thesis
    using rel sys mini_malloc_ok [OF rel, of M a n jk "file" instr]
    by (auto simp: mini_realloc_def ledger_malloc_def)
next
  case pl: False
  show ?thesis
  proof (cases "n = 0")
    case True
    then show ?thesis
      using pl mini_free_ok [OF rel, of M pl] by (auto simp: mini_realloc_def)
  next
    case False
    then show ?thesis using pl sys mini_resize_ok [OF rel pl False, of q M jk a "file" instr] by simp
  qed
qed

lemma mc_step_ok:
  "mc_rel s L \<Longrightarrow> system_ok M e L \<Longrightarrow> \<exists>s'. mc_step M e s = Inr s' \<and> mc_rel s' (ledger_step M e L)"
proof (cases e)
  case (Malloc jk a n fn instr)
  assume "mc_rel s L" "system_ok M e L"
  then show ?thesis using mini_malloc_ok [of s L M a n jk fn instr] Malloc by auto
next
  case (Calloc jk a num el fn instr)
  assume "mc_rel s L" "system_ok M e L"
  then show ?thesis using mini_calloc_ok [of s L M a num el jk fn instr] Calloc by auto
next
  case (Realloc jk a q pl n fn instr)
  assume "mc_rel s L" "system_ok M e L"
  then show ?thesis using mini_realloc_ok [of s L M jk a q pl n fn instr] Realloc by auto
next
  case (Free pl)
  assume "mc_rel s L"
  then show ?thesis using mini_free_ok [of s L M pl] Free by simp
qed

lemma sum_remove:
  "distinct (map fst xs) \<Longrightarrow> map_of xs a = Some n \<Longrightarrow>
     sum_list (map snd [x \<leftarrow> xs. fst x \<noteq> a]) = sum_list (map snd xs) - (n :: addr)"
proof (induction xs)
  case (Cons x xs)
  show ?case
  proof (cases "fst x = a")
    case True
    then have "[y \<leftarrow> xs. fst y \<noteq> a] = xs"
      using Cons.prems(1) by (auto simp: filter_id_conv rev_image_eqI)
    then show ?thesis using True Cons.prems by (cases x) simp
  next
    case False
    then show ?thesis using Cons by (cases x) simp
  qed
qed simp

lemma sum_resize:
  "distinct (map fst xs) \<Longrightarrow> map_of xs a = Some k \<Longrightarrow>
     sum_list (map snd (map (\<lambda>x. if fst x = a then (a, n) else x) xs)) = sum_list (map snd xs) - k + (n :: addr)"
proof (induction xs)
  case (Cons x xs)
  show ?case
  proof (cases "fst x = a")
    case True
    then have "map (\<lambda>x. if fst x = a then (a, n) else x) xs = xs"
      using Cons.prems(1) by (intro map_idI) (auto simp: rev_image_eqI)
    then show ?thesis using True Cons.prems by (cases x) simp
  next
    case False
    then show ?thesis using Cons by (cases x) simp
  qed
qed simp

lemma balanced_malloc: "balanced L \<Longrightarrow> fresh_block M a n L \<Longrightarrow> balanced (ledger_malloc a n L)"
  by (auto simp: balanced_def ledger_malloc_def fresh_block_def algebra_simps)

lemma balanced_free: "balanced L \<Longrightarrow> balanced (ledger_free a L)"
  by (auto simp: balanced_def ledger_free_def sum_remove distinct_map_filter split: option.splits)

lemma balanced_resize: "balanced L \<Longrightarrow> balanced (ledger_resize a n L)"
proof (cases "map_of (live L) a")
  case None
  then show "balanced L \<Longrightarrow> ?thesis" by (simp add: balanced_def ledger_resize_def)
next
  case (Some k)
  assume b: "balanced L"
  have keys: "map fst (map (\<lambda>x. if fst x = a then (a, n) else x) (live L)) = map fst (live L)"
    by auto
  have live: "live (ledger_resize a n L) = map (\<lambda>x. if fst x = a then (a, n) else x) (live L)"
    using Some by (simp add: ledger_resize_def)
  have "distinct (map fst (live (ledger_resize a n L)))"
    using b by (simp only: live keys balanced_def)
  moreover have "requested (ledger_resize a n L) - freed (ledger_resize a n L) = sum_list (map snd (live L)) - k + n"
    using b Some by (auto simp: balanced_def ledger_resize_def algebra_simps)
  ultimately show ?thesis
    using b Some sum_resize [of "live L" a k n] unfolding balanced_def live by simp
qed

lemma balanced_step: "balanced L \<Longrightarrow> system_ok M e L \<Longrightarrow> balanced (ledger_step M e L)"
  by (cases e) (auto intro: balanced_malloc balanced_free balanced_resize)

lemma mc_run_ok:
  "mc_rel s L \<Longrightarrow> balanced L \<Longrightarrow> ledger_run M es L = Some L' \<Longrightarrow>
     \<exists>s'. mc_run M es s = Inr s' \<and> mc_rel s' L' \<and> balanced L'"
proof (induction es arbitrary: s L)
  case (Cons e es)
  then have ok: "system_ok M e L" "ledger_run M es (ledger_step M e L) = Some L'"
    by (auto split: if_splits)
  from mc_step_ok [OF Cons.prems(1) ok(1)] obtain s' where
    "mc_step M e s = Inr s'" "mc_rel s' (ledger_step M e L)" by blast
  with Cons.IH [OF this(2) balanced_step [OF Cons.prems(2) ok(1)] ok(2)] show ?case by simp
qed simp

lemma walk_dangling:
  assumes "linked m p (ys @ a # zs)" and "t \<notin> set ys" and "t \<noteq> a"
    and "\<And>y. y \<in> set ys \<Longrightarrow> m' y = m y" and "m' a = None"
  shows "walk m' t prev p = Some (Inl UseAfterFree)"
  using assms
proof (induction ys arbitrary: p prev)
  case Nil
  then show ?case by (subst walk.simps) simp
next
  case (Cons y ys)
  then show ?case by (subst walk.simps) (auto split: option.splits)
qed

section \<open>Properties\<close>



definition one_block :: memcheck where
  "one_block = \<lparr>mem = [1000 \<mapsto> \<lparr>request_size = 10, filename = ''a.c'', instruction = 1, next_meta = 0,
     payload = replicate 10 7\<rparr>], head = 1000, total_memory_requested = 10, total_memory_freed = 0,
     invalid_addresses = 0\<rparr>"

definition one_block_ledger :: ledger where
  "one_block_ledger = \<lparr>live = [(1000, 10)], requested = 10, freed = 0, invalid = 0\<rparr>"

lemma one_block_rel: "mc_rel one_block one_block_ledger"
  by (simp add: mc_rel_def one_block_def one_block_ledger_def)

text \<open>
  \<open>mini_free\<close> gives back exactly the block whose payload it is handed and adds its size;
  a second free of the same payload, like any other address, only counts as invalid.
\<close>

theorem mini_free_correct:
  assumes "mc_rel s L" and "pl \<noteq> 0"
  shows "case map_of (live L) (pl - M) of
      None \<Rightarrow> mini_free M pl s = Inr (s\<lparr>invalid_addresses := invalid_addresses s + 1\<rparr>)
    | Some n \<Rightarrow> \<exists>s'. mini_free M pl s = Inr s' \<and> mem s' (pl - M) = None
        \<and> (\<forall>a. a \<noteq> pl - M \<longrightarrow> map_option request_size (mem s' a) = map_option request_size (mem s a))
        \<and> total_memory_freed s' = total_memory_freed s + n
        \<and> total_memory_requested s' = total_memory_requested s
        \<and> mini_free M pl s' = Inr (s'\<lparr>invalid_addresses := invalid_addresses s' + 1\<rparr>)"
proof -
  have miss: "mini_free M pl s0 = Inr (s0\<lparr>invalid_addresses := invalid_addresses s0 + 1\<rparr>)"
    if "mc_rel s0 L0" "map_of (live L0) (pl - M) = None" for s0 L0
  proof -
    have "pl - M \<notin> fst ` set (live L0)" using that(2) by (simp add: map_of_eq_None_iff)
    then show ?thesis using find_node_ok [OF that(1), of "pl - M"] assms(2) by (simp add: mini_free_def)
  qed
  show ?thesis
  proof (cases "map_of (live L) (pl - M)")
    case None
    then show ?thesis using miss [OF assms(1)] by simp
  next
    case (Some n)
    from mini_free_ok [OF assms(1), of M pl] assms(2) obtain s' where r:
      "mini_free M pl s = Inr s'" "mc_rel s' (ledger_free (pl - M) L)" by auto
    have led: "ledger_free (pl - M) L
        = L\<lparr>live := [x \<leftarrow> live L. fst x \<noteq> pl - M], freed := freed L + n\<rparr>"
      using Some by (simp add: ledger_free_def)
    then have none: "map_of (live (ledger_free (pl - M) L)) (pl - M) = None" by (simp add: map_of_remove)
    have sizes: "map_option request_size (mem s' a) = (if a = pl - M then None else map_option request_size (mem s a))"
      for a using mc_rel_facts(3) [OF r(2), of a] mc_rel_facts(3) [OF assms(1), of a] led
      by (cases "a = pl - M") (auto simp: map_of_remove)
    have "mem s' (pl - M) = None" using sizes [of "pl - M"] by simp
    moreover have "\<forall>a. a \<noteq> pl - M \<longrightarrow>
        map_option request_size (mem s' a) = map_option request_size (mem s a)"
      using sizes by simp
    moreover have "total_memory_freed s' = total_memory_freed s + n"
        "total_memory_requested s' = total_memory_requested s"
      using r(2) assms(1) led by (simp_all add: mc_rel_def)
    ultimately show ?thesis using Some r(1) miss [OF r(2) none] by simp
  qed
qed

theorem mini_free_correct_witness:
  "\<exists>s'. mini_free 32 1032 one_block = Inr s' \<and> mem s' 1000 = None \<and> total_memory_freed s' = 10"
  using mini_free_correct [OF one_block_rel, of 1032 32]
  by (auto simp: one_block_ledger_def) (simp add: one_block_def)

text \<open>
  When \<^verbatim>\<open>realloc\<close> moves a block, the list still points to the old one: the payload
  that \<open>mini_realloc\<close> returned cannot be freed, the walk reads memory that was freed.
\<close>

theorem mini_realloc_moved_dangles:
  assumes "mc_rel s L" and "map_of (live L) (pl - M) = Some k" and "pl \<noteq> 0"
    and "n \<noteq> 0" and "n \<noteq> k" and "unat M \<le> unat (n * M)"
    and "q \<noteq> 0" and "q + M \<noteq> 0" and "q \<notin> fst ` set (live L)"
  shows "\<exists>s'. mini_realloc M jk a q pl n fn instr s = Inr (q + M, s')
           \<and> mini_free M (q + M) s' = Inl UseAfterFree"
proof -
  let ?t = "pl - M"
  note f = mc_rel_facts [OF assms(1)]
  obtain c where c: "mem s ?t = Some c" "request_size c = k"
    using f(3) [of ?t] assms(2) by (cases "mem s ?t") auto
  then have t: "?t \<in> fst ` set (live L)" using f(4) by blast
  then have t0: "?t \<noteq> 0" by (rule f(5))
  have found: "\<exists>prev. find_node s ?t = Inr (Some (prev, ?t))"
    using find_node_ok [OF assms(1), of ?t] t by simp
  define c' where "c' = c\<lparr>request_size := n, filename := fn, instruction := instr,
      payload := fit jk (payload c) (unat (n * M) - unat M)\<rparr>"
  define s' where "s' = (if n > request_size c
      then s\<lparr>total_memory_requested := total_memory_requested s + (n - request_size c)\<rparr>
      else s\<lparr>total_memory_freed := total_memory_freed s + (request_size c - n)\<rparr>)
      \<lparr>mem := ((mem s)(?t := None))(q \<mapsto> c')\<rparr>"
  have "mini_realloc M jk a q pl n fn instr s = Inr (q + M, s')"
    using found c t0 assms(3-7) by (auto simp: mini_realloc_def load_def not_less Let_def s'_def c'_def)
  moreover have "find_node s' q = Inl UseAfterFree"
  proof -
    obtain ys zs where split: "map fst (live L) = ys @ ?t # zs"
      using t split_list_first [of ?t "map fst (live L)"] by auto
    have "q \<notin> set ys" "q \<noteq> ?t" using assms(9) split t by (metis UnCI image_set set_append)+
    moreover have "?t \<notin> set ys" using f(2) split by simp
    ultimately have "walk (mem s') q 0 (head s') = Some (Inl UseAfterFree)"
      using f(1) split by (intro walk_dangling [of "mem s" _ ys ?t zs]) (auto simp: s'_def)
    then show ?thesis by (simp add: find_node_def)
  qed
  ultimately show ?thesis using assms(8) by (auto simp: mini_free_def)
qed

theorem mini_realloc_moved_dangles_witness:
  "\<exists>s'. mini_realloc 32 (\<lambda>_. 7) 0 2000 1032 20 ''a.c'' 2 one_block = Inr (2032, s')
     \<and> mini_free 32 2032 s' = Inl UseAfterFree"
  using mini_realloc_moved_dangles [OF one_block_rel, of 1032 32 10 20 2000]
  by (simp add: one_block_ledger_def)

text \<open>
  Two results of \<open>mini_realloc\<close> that are not the payload asked for: with an unchanged size
  the address of the metadata, and with the new size 1 a block with no payload byte at all.
\<close>

theorem mini_realloc_bad_results:
  assumes "mc_rel s L" and "map_of (live L) (pl - M) = Some k" and "pl \<noteq> 0" and "k \<noteq> 0"
    and "k \<noteq> 1" and "q \<noteq> 0"
  shows "(\<exists>s'. mini_realloc M jk a q pl k fn instr s = Inr (pl - M, s'))
    \<and> (\<exists>s' b. mini_realloc M jk a q pl 1 fn instr s = Inr (q + M, s')
           \<and> mem s' q = Some b \<and> request_size b = 1 \<and> payload b = [])"
proof -
  note f = mc_rel_facts [OF assms(1)]
  obtain c where c: "mem s (pl - M) = Some c" "request_size c = k"
    using f(3) [of "pl - M"] assms(2) by (cases "mem s (pl - M)") auto
  then have t: "pl - M \<in> fst ` set (live L)" using f(4) by blast
  then have "pl - M \<noteq> 0" by (rule f(5))
  then have l: "load s (pl - M) = Inr c" using c by (simp add: load_def)
  have found: "\<exists>prev. find_node s (pl - M) = Inr (Some (prev, pl - M))"
    using find_node_ok [OF assms(1), of "pl - M"] t by simp
  have "\<exists>s'. mini_realloc M jk a q pl k fn instr s = Inr (pl - M, s')"
    using found l c assms(3,4) by (auto simp: mini_realloc_def)
  moreover have "\<exists>s' b. mini_realloc M jk a q pl 1 fn instr s = Inr (q + M, s')
      \<and> mem s' q = Some b \<and> request_size b = 1 \<and> payload b = []"
    using found l c assms(3-6) by (auto simp: mini_realloc_def fit_def Let_def)
  ultimately show ?thesis by blast
qed

theorem mini_realloc_bad_results_witness:
  "(\<exists>s'. mini_realloc 32 (\<lambda>_. 7) 0 1000 1032 10 ''a.c'' 2 one_block = Inr (1000, s'))
   \<and> (\<exists>s' b. mini_realloc 32 (\<lambda>_. 7) 0 1000 1032 1 ''a.c'' 2 one_block = Inr (1032, s')
        \<and> mem s' 1000 = Some b \<and> payload b = [])"
  using mini_realloc_bad_results [OF one_block_rel, of 1032 32 10 1000 "\<lambda>_. 7" 0 "''a.c''" 2]
  by (simp add: one_block_ledger_def) blast

end
