(* ===== verification/Malloc.thy ===== *)
theory Malloc
  imports Prelude
begin

text \<open>
  \<^verbatim>\<open>malloc/alloc.c\<close>: an allocator over one growing region of bytes. A block starts with its size in eight bytes; a
  freed block carries a list node (\<^verbatim>\<open>size\<close>, \<^verbatim>\<open>next\<close>, \<^verbatim>\<open>prev\<close>) in its last 24 bytes. Addresses and sizes are the
  natural numbers below \<open>2 ^ 64\<close>, numbers in memory are little endian, and the arithmetic of \<^verbatim>\<open>size_t\<close> is written
  modulo \<open>2 ^ 64\<close>. \<^verbatim>\<open>sbrk\<close> moves the end of the region by its argument read as a signed number, up to a limit; an
  access outside the region is a fault. What the region holds before it is written is arbitrary.
\<close>

type_synonym byte = "8 word"

section \<open>Memory\<close>

record arena =
  bytes :: "nat \<Rightarrow> byte"
  base :: nat
  brk :: nat
  limit :: nat
  head :: nat
  tail :: nat

fun enc :: "nat \<Rightarrow> nat \<Rightarrow> byte list" where
  "enc 0 v = []"
| "enc (Suc k) v = of_nat v # enc k (v div 256)"

fun dec :: "byte list \<Rightarrow> nat" where
  "dec [] = 0"
| "dec (b # bs) = unat b + 256 * dec bs"

definition accessible :: "arena \<Rightarrow> nat \<Rightarrow> nat \<Rightarrow> bool" where
  "accessible s a n \<longleftrightarrow> base s \<le> a \<and> a + n \<le> brk s"

definition put_bytes :: "arena \<Rightarrow> nat \<Rightarrow> byte list \<Rightarrow> arena" where
  "put_bytes s a bs = s\<lparr>bytes := (\<lambda>x. if a \<le> x \<and> x < a + length bs then bs ! (x - a) else bytes s x)\<rparr>"

definition write_bytes :: "nat \<Rightarrow> byte list \<Rightarrow> arena \<Rightarrow> arena res" where
  "write_bytes a bs s = (if accessible s a (length bs) then Inr (put_bytes s a bs) else Inl OutOfBounds)"

definition read_bytes :: "nat \<Rightarrow> nat \<Rightarrow> arena \<Rightarrow> byte list res" where
  "read_bytes a n s = (if accessible s a n then Inr (map (bytes s) [a..<a + n]) else Inl OutOfBounds)"

text \<open>The eight bytes at an address as a number; reading and writing them.\<close>

definition word_at :: "arena \<Rightarrow> nat \<Rightarrow> nat" where
  "word_at s a = dec (map (bytes s) [a..<a + 8])"

definition load :: "nat \<Rightarrow> arena \<Rightarrow> nat res" where
  "load a s = (if accessible s a 8 then Inr (word_at s a) else Inl OutOfBounds)"

definition store :: "nat \<Rightarrow> nat \<Rightarrow> arena \<Rightarrow> arena res" where
  "store a v s = write_bytes a (enc 8 v) s"

text \<open>The result is the old end of the region, or \<open>2 ^ 64 - 1\<close> (\<^verbatim>\<open>(void*) -1\<close>).\<close>

definition sbrk :: "nat \<Rightarrow> arena \<Rightarrow> nat \<times> arena" where
  "sbrk n s =
     (if n < 2 ^ 63
      then if brk s + n \<le> limit s then (brk s, s\<lparr>brk := brk s + n\<rparr>) else (2 ^ 64 - 1, s)
      else if base s + (2 ^ 64 - n) \<le> brk s then (brk s, s\<lparr>brk := brk s - (2 ^ 64 - n)\<rparr>) else (2 ^ 64 - 1, s))"

section \<open>The list of free blocks\<close>

definition get_size :: "nat \<Rightarrow> arena \<Rightarrow> nat res" where
  "get_size p s = load (p - 8) s"

definition get_size_ptr :: "nat \<Rightarrow> nat" where
  "get_size_ptr p = p - 8"

definition get_ptr :: "nat \<Rightarrow> nat" where
  "get_ptr p = p + 8"

text \<open>
  \<^verbatim>\<open>*(ptr->size)--\<close> and \<^verbatim>\<open>*(this->size)++\<close> read what the field points to and move the field by one \<^verbatim>\<open>size_t\<close>.
\<close>

definition step_size :: "nat \<Rightarrow> (nat \<Rightarrow> nat) \<Rightarrow> arena \<Rightarrow> arena res" where
  "step_size p f s = bindE (load p s) (\<lambda>v. bindE (load v s) (\<lambda>_. store p (f v) s))"

definition remove_node :: "nat \<Rightarrow> arena \<Rightarrow> arena res" where
  "remove_node p s =
     (if p = 0 then Inr s
      else bindE (load (p + 16) s) (\<lambda>prv. bindE (load (p + 8) s) (\<lambda>nxt.
        bindE (if prv \<noteq> 0 \<and> nxt \<noteq> 0
               then bindE (store (prv + 8) nxt s) (\<lambda>s. bindE (load (p + 8) s) (\<lambda>nxt. bindE (load (p + 16) s) (\<lambda>prv.
                    store (nxt + 16) prv s)))
               else if prv \<noteq> 0 then store (prv + 8) 0 s
               else if nxt \<noteq> 0 then bindE (store (nxt + 16) 0 (s\<lparr>head := nxt\<rparr>)) (store (p + 8) 0)
               else Inr (s\<lparr>head := 0\<rparr>))
          (step_size p (\<lambda>v. v - 8)))))"

text \<open>Nothing calls \<^verbatim>\<open>coalesce\<close>.\<close>

definition coalesce :: "nat \<Rightarrow> arena \<Rightarrow> arena res" where
  "coalesce p s =
     (if p = 0 then Inr s
      else bindE (load p s) (\<lambda>n. bindE (load (p + n - 1) s) (\<lambda>len. store p len s)))"

section \<open>The four functions\<close>

function round_up :: "nat \<Rightarrow> nat" where
  "round_up space = (if space mod 8 \<noteq> 0 then round_up ((space + 1) mod 2 ^ 64) else space)"
  by pat_completeness auto
termination
proof (relation "measure (\<lambda>n. (8 - n mod 8) mod 8)")
  fix n :: nat
  assume n: "n mod 8 \<noteq> 0"
  define r where "r = n mod 8"
  have "8 dvd (2 ^ 64 :: nat)" by simp
  then have "(n + 1) mod 2 ^ 64 mod 8 = (r + 1) mod 8" unfolding r_def by (simp only: mod_mod_cancel mod_add_left_eq)
  moreover have "r \<in> {1, 2, 3, 4, 5, 6, 7}" using n unfolding r_def by auto
  then have "(8 - (r + 1) mod 8) mod 8 < (8 - r) mod 8" by auto
  ultimately show "((n + 1) mod 2 ^ 64, n) \<in> measure (\<lambda>n. (8 - n mod 8) mod 8)" unfolding r_def by (simp only: in_measure)
qed (rule wf_measure)

declare round_up.simps [simp del]

definition space_for :: "nat \<Rightarrow> nat" where
  "space_for sz = round_up (((if sz < 24 then 24 else sz) + 8) mod 2 ^ 64)"

text \<open>The first node of the list that is taken to be large enough, or 0. A list that is circular is searched for ever.\<close>

partial_function (option) find_fit :: "arena \<Rightarrow> nat \<Rightarrow> nat \<Rightarrow> nat res option" where
  "find_fit s space cur =
     (if cur = 0 then Some (Inr 0)
      else case bindE (load cur s) (\<lambda>header. load header s) of
        Inl e \<Rightarrow> Some (Inl e)
      | Inr n \<Rightarrow>
          if n \<ge> space then Some (Inr cur)
          else case load (cur + 8) s of Inl e \<Rightarrow> Some (Inl e) | Inr nxt \<Rightarrow> find_fit s space nxt)"

definition malloc :: "nat \<Rightarrow> arena \<Rightarrow> (nat \<times> arena) res" where
  "malloc sz s =
     (let space = space_for sz in
      case find_fit s space (head s) of
        None \<Rightarrow> Inl Diverges
      | Some r \<Rightarrow> bindE r (\<lambda>cur.
          if cur \<noteq> 0
          then bindE (remove_node cur s) (\<lambda>s. bindE (load cur s) (\<lambda>header. Inr (get_ptr header, s)))
          else let (block, s) = sbrk space s in
               bindE (store block space s) (\<lambda>s. Inr (get_ptr block, s))))"

definition free :: "nat \<Rightarrow> arena \<Rightarrow> arena res" where
  "free p s =
     (if p = 0 then Inr s
      else bindE (get_size p s) (\<lambda>n.
        let this = p - 8 + n - 24 in
        bindE (store this (get_size_ptr p) s) (\<lambda>s.
        bindE (step_size this (\<lambda>v. v + 8) s) (\<lambda>s.
        if head s = 0
        then bindE (store (this + 16) 0 s) (\<lambda>s. bindE (store (this + 8) 0 s) (\<lambda>s.
             Inr (s\<lparr>head := this, tail := this\<rparr>)))
        else bindE (store (this + 16) 0 s) (\<lambda>s. bindE (store (this + 8) (head s) s) (\<lambda>s.
             bindE (store (head s + 16) this s) (\<lambda>s. Inr (s\<lparr>head := this\<rparr>))))))))"

definition calloc :: "nat \<Rightarrow> nat \<Rightarrow> arena \<Rightarrow> (nat \<times> arena) res" where
  "calloc num sz s =
     bindE (malloc (num * sz mod 2 ^ 64) s) (\<lambda>(p, s).
     bindE (write_bytes p (replicate (num * sz mod 2 ^ 64) 0) s) (\<lambda>s. Inr (p, s)))"

text \<open>The code goes on after \<^verbatim>\<open>free(ptr)\<close> when the size is 0.\<close>

definition realloc :: "nat \<Rightarrow> nat \<Rightarrow> arena \<Rightarrow> (nat \<times> arena) res" where
  "realloc p sz s =
     (if p = 0 then Inr (0, s)
      else bindE (if sz = 0 then free p s else Inr s) (\<lambda>s.
        bindE (get_size p s) (\<lambda>n.
        if sz \<le> n then Inr (p, s)
        else bindE (malloc sz s) (\<lambda>(q, s).
             bindE (get_size p s) (\<lambda>n. bindE (read_bytes p n s) (\<lambda>bs. bindE (write_bytes q bs s) (\<lambda>s.
             bindE (free p s) (\<lambda>s. Inr (q, s)))))))))"

section \<open>Reading what was written\<close>

lemma length_enc [simp]: "length (enc k v) = k"
  by (induction k v rule: enc.induct) auto

lemma dec_enc: "v < 256 ^ k \<Longrightarrow> dec (enc k v) = v"
proof (induction k v rule: enc.induct)
  case (2 k v)
  then have "v div 256 < 256 ^ k" by (simp add: less_mult_imp_div_less)
  with 2 show ?case by (simp add: unat_of_nat)
qed simp

lemma put_bytes_simps [simp]:
  "base (put_bytes s a bs) = base s" "brk (put_bytes s a bs) = brk s" "limit (put_bytes s a bs) = limit s"
  "head (put_bytes s a bs) = head s" "tail (put_bytes s a bs) = tail s"
  by (simp_all add: put_bytes_def)

lemma bytes_put_bytes: "x < a \<or> a + length bs \<le> x \<Longrightarrow> bytes (put_bytes s a bs) x = bytes s x"
  by (auto simp: put_bytes_def)

abbreviation upd :: "arena \<Rightarrow> nat \<Rightarrow> nat \<Rightarrow> arena" where
  "upd s a v \<equiv> put_bytes s a (enc 8 v)"

lemma word_at_cong: "(\<And>i. i < 8 \<Longrightarrow> bytes s' (a + i) = bytes s (a + i)) \<Longrightarrow> word_at s' a = word_at s a"
proof -
  assume e: "\<And>i. i < 8 \<Longrightarrow> bytes s' (a + i) = bytes s (a + i)"
  have "map (bytes s') [a..<a + 8] = map (bytes s) [a..<a + 8]"
  proof (rule map_cong [OF refl])
    fix x
    assume "x \<in> set [a..<a + 8]"
    then have "x - a < 8" "a + (x - a) = x" by auto
    then show "bytes s' x = bytes s x" using e [of "x - a"] by simp
  qed
  then show ?thesis by (simp only: word_at_def)
qed

lemma word_at_upd: "v < 2 ^ 64 \<Longrightarrow> word_at (upd s a v) a = v"
proof -
  assume v: "v < 2 ^ 64"
  have "map (bytes (upd s a v)) [a..<a + 8] = enc 8 v"
    by (rule nth_equalityI) (simp_all add: put_bytes_def del: upt_Suc)
  with v show ?thesis by (simp add: word_at_def dec_enc del: upt_Suc)
qed

lemma word_at_upd_other [simp]: "a + 8 \<le> b \<or> b + 8 \<le> a \<Longrightarrow> word_at (upd s a v) b = word_at s b"
  by (rule word_at_cong) (auto intro: bytes_put_bytes)

lemma word_at_head [simp]: "word_at (s\<lparr>head := h\<rparr>) a = word_at s a" "word_at (s\<lparr>tail := h\<rparr>) a = word_at s a"
  "word_at (s\<lparr>brk := h\<rparr>) a = word_at s a"
  by (simp_all add: word_at_def)

lemma accessible_simps [simp]:
  "accessible (put_bytes s b bs) a n = accessible s a n" "accessible (s\<lparr>head := h\<rparr>) a n = accessible s a n"
  "accessible (s\<lparr>tail := h\<rparr>) a n = accessible s a n"
  by (simp_all add: accessible_def)

lemma store_upd: "accessible s a 8 \<Longrightarrow> store a v s = Inr (upd s a v)"
  by (simp add: store_def write_bytes_def)

lemma load_word: "accessible s a 8 \<Longrightarrow> load a s = Inr (word_at s a)"
  by (simp add: load_def)

lemmas access = load_word store_upd

section \<open>The free list as a doubly linked segment\<close>

text \<open>A block is its address and its size.\<close>

definition node :: "nat \<times> nat \<Rightarrow> nat" where
  "node x = fst x + snd x - 24"

text \<open>
  A segment of the list from the pointer \<open>h\<close>, whose first node has the predecessor \<open>p\<close>, up to the pointer \<open>m\<close>; its last
  node is \<open>q\<close>. The field \<^verbatim>\<open>size\<close> of a node points to the block's payload.
\<close>

fun seg :: "arena \<Rightarrow> nat \<Rightarrow> (nat \<times> nat) list \<Rightarrow> nat \<Rightarrow> nat \<Rightarrow> nat \<Rightarrow> bool" where
  "seg s p [] h m q \<longleftrightarrow> h = m \<and> p = q"
| "seg s p (x # xs) h m q \<longleftrightarrow> h = node x \<and> word_at s (node x) = fst x + 8 \<and> word_at s (node x + 16) = p
     \<and> seg s (node x) xs (word_at s (node x + 8)) m q"

lemma seg_append: "seg s p (xs @ ys) h m q \<longleftrightarrow> (\<exists>m' q'. seg s p xs h m' q' \<and> seg s q' ys m' m q)"
  by (induction xs arbitrary: p h) auto

lemma seg_cong:
  assumes "\<And>x k. x \<in> set xs \<Longrightarrow> k < 24 \<Longrightarrow> bytes s' (node x + k) = bytes s (node x + k)"
  shows "seg s' p xs h m q = seg s p xs h m q"
  using assms
proof (induction xs arbitrary: p h)
  case (Cons x xs)
  have "word_at s' (node x) = word_at s (node x)" "word_at s' (node x + 8) = word_at s (node x + 8)"
    "word_at s' (node x + 16) = word_at s (node x + 16)"
    using Cons.prems [of x] by (auto intro!: word_at_cong simp: add.assoc)
  with Cons show ?case by simp
qed simp

lemma seg_head [simp]: "seg (s\<lparr>head := a\<rparr>) p xs h m q = seg s p xs h m q" "seg (s\<lparr>tail := a\<rparr>) p xs h m q = seg s p xs h m q"
  "seg (s\<lparr>brk := a\<rparr>) p xs h m q = seg s p xs h m q"
  by (induction xs arbitrary: p h) auto

lemma seg_ends: "seg s p xs h m q \<Longrightarrow> h = (if xs = [] then m else node (hd xs)) \<and> q = (if xs = [] then p else node (last xs))"
  by (induction xs arbitrary: p h) (auto split: if_splits)

definition apart :: "(nat \<times> nat) list \<Rightarrow> bool" where
  "apart xs \<longleftrightarrow> distinct xs \<and> (\<forall>x \<in> set xs. \<forall>y \<in> set xs. x \<noteq> y \<longrightarrow> node x + 24 \<le> node y \<or> node y + 24 \<le> node x)"

lemma seg_upd_other:
  assumes "\<And>x. x \<in> set xs \<Longrightarrow> node x + 24 \<le> a \<or> a + 8 \<le> node x"
  shows "seg (upd s a v) p xs h m q = seg s p xs h m q"
proof (rule seg_cong)
  fix x k :: nat and y
  assume "y \<in> set xs" "k < 24"
  then show "bytes (upd s a v) (node y + k) = bytes s (node y + k)" using assms [of y] by (intro bytes_put_bytes) auto
qed

lemma seg_set_next:
  assumes "seg s p (xs @ [y]) h m q" and "apart (xs @ [y])" and "v < 2 ^ 64"
  shows "seg (upd s (node y + 8) v) p (xs @ [y]) h v q"
proof -
  from assms(1) obtain m' q' where "seg s p xs h m' q'" "seg s q' [y] m' m q" unfolding seg_append by blast
  moreover have "seg (upd s (node y + 8) v) p xs h m' q' = seg s p xs h m' q'"
    using assms(2) by (intro seg_upd_other) (fastforce simp: apart_def)
  ultimately have "seg (upd s (node y + 8) v) p xs h m' q' \<and> seg (upd s (node y + 8) v) q' [y] m' v q"
    by (auto simp: word_at_upd [OF assms(3)])
  then show ?thesis unfolding seg_append by blast
qed

lemma seg_set_prev:
  assumes "seg s p (y # ys) h m q" and "apart (y # ys)" and "v < 2 ^ 64"
  shows "seg (upd s (node y + 16) v) v (y # ys) h m q"
proof -
  have "seg (upd s (node y + 16) v) (node y) ys (word_at s (node y + 8)) m q = seg s (node y) ys (word_at s (node y + 8)) m q"
    using assms(2) by (intro seg_upd_other) (fastforce simp: apart_def)
  then show ?thesis using assms(1) by (simp add: word_at_upd [OF assms(3)])
qed

section \<open>The invariant\<close>

text \<open>
  \<open>B\<close> are the blocks of the region, \<open>F\<close> those on the free list. The blocks lie apart in the region, each starts with its
  size and has room for a node behind it.
\<close>

definition arena_ok :: "arena \<Rightarrow> (nat \<times> nat) set \<Rightarrow> (nat \<times> nat) list \<Rightarrow> bool" where
  "arena_ok s B F \<longleftrightarrow> 0 < base s \<and> base s \<le> brk s \<and> brk s \<le> limit s \<and> limit s < 2 ^ 63
     \<and> (\<forall>x \<in> B. base s \<le> fst x \<and> fst x + snd x \<le> brk s \<and> 32 \<le> snd x \<and> word_at s (fst x) = snd x)
     \<and> (\<forall>x \<in> B. \<forall>y \<in> B. x \<noteq> y \<longrightarrow> fst x + snd x \<le> fst y \<or> fst y + snd y \<le> fst x)
     \<and> set F \<subseteq> B \<and> distinct F \<and> (\<exists>q. seg s 0 F (head s) 0 q)"

lemma arena_block:
  assumes "arena_ok s B F" and "x \<in> B"
  shows "0 < fst x" "fst x + 8 \<le> node x" "node x + 24 = fst x + snd x" "fst x + snd x \<le> brk s" "brk s < 2 ^ 63"
    "word_at s (fst x) = snd x" "base s \<le> fst x" "32 \<le> snd x"
  using assms by (fastforce simp: arena_ok_def node_def)+

lemma arena_access:
  assumes "arena_ok s B F" and "x \<in> B" and "fst x \<le> a" and "a + 8 \<le> fst x + snd x"
  shows "accessible s a 8"
  using arena_block [OF assms(1,2)] assms(3,4) by (simp add: accessible_def)

lemma arena_disjoint:
  "arena_ok s B F \<Longrightarrow> x \<in> B \<Longrightarrow> y \<in> B \<Longrightarrow> x \<noteq> y \<Longrightarrow> fst x + snd x \<le> fst y \<or> fst y + snd y \<le> fst x"
  unfolding arena_ok_def by blast

lemma arena_apart: "arena_ok s B F \<Longrightarrow> apart F"
proof -
  assume ok: "arena_ok s B F"
  have "node x + 24 \<le> node y \<or> node y + 24 \<le> node x" if "x \<in> set F" "y \<in> set F" "x \<noteq> y" for x y
  proof -
    have "x \<in> B" "y \<in> B" using ok that unfolding arena_ok_def by auto
    then show ?thesis using arena_disjoint [OF ok _ _ that(3)] arena_block(2,3) [OF ok, of x] arena_block(2,3) [OF ok, of y] by fastforce
  qed
  moreover have "distinct F" using ok by (simp add: arena_ok_def)
  ultimately show ?thesis by (simp add: apart_def)
qed

text \<open>A change that keeps the headers of the blocks and the nodes of the free list keeps the invariant.\<close>

definition keeps :: "arena \<Rightarrow> arena \<Rightarrow> nat set \<Rightarrow> bool" where
  "keeps s s' A \<longleftrightarrow> base s' = base s \<and> brk s' = brk s \<and> limit s' = limit s \<and> (\<forall>a. a \<notin> A \<longrightarrow> bytes s' a = bytes s a)"

lemma keeps_refl: "keeps s s A"
  by (simp add: keeps_def)

lemma keeps_mono: "keeps s s' A \<Longrightarrow> A \<subseteq> A' \<Longrightarrow> keeps s s' A'"
  by (auto simp: keeps_def subset_iff)

lemma keeps_put: "keeps s s' A \<Longrightarrow> {a..<a + length bs} \<subseteq> A \<Longrightarrow> keeps s (put_bytes s' a bs) A"
proof -
  assume k: "keeps s s' A" and a: "{a..<a + length bs} \<subseteq> A"
  have "bytes (put_bytes s' a bs) x = bytes s x" if "x \<notin> A" for x
  proof -
    have "x < a \<or> a + length bs \<le> x" using a that by (meson atLeastLessThan_iff not_le subsetD)
    then show ?thesis using bytes_put_bytes [of x a bs s'] k that by (simp add: keeps_def)
  qed
  then show ?thesis using k by (simp add: keeps_def)
qed

lemma keeps_head: "keeps s (s'\<lparr>head := h\<rparr>) A = keeps s s' A" "keeps s (s'\<lparr>tail := h\<rparr>) A = keeps s s' A"
  by (auto simp: keeps_def)

lemma keeps_word: "keeps s s' A \<Longrightarrow> {a..<a + 8} \<inter> A = {} \<Longrightarrow> word_at s' a = word_at s a"
  by (rule word_at_cong) (fastforce simp: keeps_def disjoint_iff)

lemma keeps_seg:
  assumes "keeps s s' A" and "\<And>x. x \<in> set xs \<Longrightarrow> {node x..<node x + 24} \<inter> A = {}"
  shows "seg s' p xs h m q = seg s p xs h m q"
proof (rule seg_cong)
  fix x and k :: nat
  assume "x \<in> set xs" "k < 24"
  then have "node x + k \<notin> A" using assms(2) [of x] by (auto simp: disjoint_iff)
  then show "bytes s' (node x + k) = bytes s (node x + k)" using assms(1) by (simp add: keeps_def)
qed

lemma arena_okI:
  assumes "arena_ok s B F" and "keeps s s' A" and "\<And>x. x \<in> B \<Longrightarrow> {fst x..<fst x + 8} \<inter> A = {}"
    and "seg s' 0 F' (head s') 0 q" and "set F' \<subseteq> B" and "distinct F'"
  shows "arena_ok s' B F'"
proof -
  have "word_at s' (fst x) = word_at s (fst x)" if "x \<in> B" for x
    by (rule keeps_word [OF assms(2) assms(3) [OF that]])
  then show ?thesis using assms(1,2,4-6) unfolding arena_ok_def keeps_def by auto
qed

text \<open>The bytes of the nodes of some blocks.\<close>

definition nodes :: "(nat \<times> nat) set \<Rightarrow> nat set" where
  "nodes X = (\<Union>x \<in> X. {node x..<node x + 24})"

lemma nodes_headers: "arena_ok s B F \<Longrightarrow> X \<subseteq> B \<Longrightarrow> x \<in> B \<Longrightarrow> {fst x..<fst x + 8} \<inter> nodes X = {}"
proof -
  assume ok: "arena_ok s B F" and "X \<subseteq> B" and x: "x \<in> B"
  have "a < node y \<or> node y + 24 \<le> a" if "y \<in> X" "fst x \<le> a" "a < fst x + 8" for y a
  proof -
    have y: "y \<in> B" using that(1) \<open>X \<subseteq> B\<close> by blast
    show ?thesis
      using arena_disjoint [OF ok x y] arena_block(2,3,8) [OF ok x] arena_block(2,3) [OF ok y] that(2,3)
      by (cases "x = y") auto
  qed
  then show ?thesis by (fastforce simp: nodes_def)
qed

section \<open>Taking a node off the list\<close>

lemma load_node:
  assumes "arena_ok s B F" and "x \<in> B" and "k \<le> 16"
  shows "accessible s (node x + k) 8"
  by (rule arena_access [OF assms(1,2)]) (use arena_block(2,3) [OF assms(1,2)] assms(3) in auto)

text \<open>The lists before and behind a node, joined by new pointers.\<close>

lemma seg_join:
  assumes "apart (xs @ x # ys)" and "seg s 0 xs (head s) (node x) pr" and "seg s (node x) ys n 0 q" and "pr < 2 ^ 64" and "n < 2 ^ 64"
    and "s1 = (if xs = [] then s\<lparr>head := n\<rparr> else upd s (pr + 8) n)" and "s2 = (if ys = [] then s1 else upd s1 (n + 16) pr)"
  shows "\<exists>q'. seg s2 0 (xs @ ys) (head s2) 0 q'"
proof -
  have far: "node y + 24 \<le> node z \<or> node z + 24 \<le> node y" if "y \<in> set xs" "z \<in> set ys" for y z
    using assms(1) that by (fastforce simp: apart_def)
  have axs: "apart xs" and ays: "apart ys" using assms(1) by (auto simp: apart_def)
  have n: "n = (if ys = [] then 0 else node (hd ys))" using seg_ends [OF assms(3)] by simp
  have pr: "pr = (if xs = [] then 0 else node (last xs))" using seg_ends [OF assms(2)] by simp
  have x1: "seg s1 0 xs (head s1) n pr"
  proof (cases xs rule: rev_cases)
    case Nil
    then show ?thesis using assms(2,6) by simp
  next
    case (snoc zs z)
    then show ?thesis using seg_set_next [of s 0 zs z "head s" "node x" pr n] assms(2,5,6) axs pr by simp
  qed
  have y1: "seg s1 (node x) ys n 0 q"
  proof (cases "xs = []")
    case False
    have "seg (upd s (pr + 8) n) (node x) ys n 0 q = seg s (node x) ys n 0 q"
    proof (rule seg_upd_other)
      fix y
      assume "y \<in> set ys"
      with far [of "last xs" y] False pr show "node y + 24 \<le> pr + 8 \<or> pr + 8 + 8 \<le> node y" by auto
    qed
    then show ?thesis using assms(3,6) False by simp
  qed (use assms(3,6) in simp)
  have "seg s2 0 xs (head s2) n pr"
  proof (cases "ys = []")
    case False
    have "seg (upd s1 (n + 16) pr) 0 xs (head s1) n pr = seg s1 0 xs (head s1) n pr"
    proof (rule seg_upd_other)
      fix y
      assume "y \<in> set xs"
      with far [of y "hd ys"] False n show "node y + 24 \<le> n + 16 \<or> n + 16 + 8 \<le> node y" by auto
    qed
    then show ?thesis using x1 assms(7) False by simp
  qed (use x1 assms(7) in simp)
  moreover have "\<exists>q'. seg s2 pr ys n 0 q'"
  proof (cases ys)
    case Nil
    then show ?thesis using n assms(7) by simp
  next
    case (Cons z zs)
    then show ?thesis using seg_set_prev [of s1 "node x" z zs n 0 q pr] y1 ays assms(4,7) n by auto
  qed
  ultimately show ?thesis unfolding seg_append by blast
qed

lemma remove_node_ok:
  assumes ok: "arena_ok s B (xs @ x # ys)"
  shows "\<exists>s'. remove_node (node x) s = Inr s' \<and> arena_ok s' B (xs @ ys) \<and> word_at s' (node x) = fst x
    \<and> keeps s s' (nodes (set (xs @ x # ys)))"
proof -
  let ?F = "xs @ x # ys"
  have F: "set ?F \<subseteq> B" "distinct ?F" using ok by (simp_all add: arena_ok_def)
  have x: "x \<in> B" using F by simp
  note bx = arena_block [OF ok x] and ap = arena_apart [OF ok]
  from ok obtain q where "seg s 0 ?F (head s) 0 q" unfolding arena_ok_def by blast
  then obtain pr where sx: "seg s 0 xs (head s) (node x) pr" and prv: "word_at s (node x + 16) = pr"
    and hdr: "word_at s (node x) = fst x + 8" and sy: "seg s (node x) ys (word_at s (node x + 8)) 0 q"
    unfolding seg_append by auto
  let ?n = "word_at s (node x + 8)"
  have pr: "pr = (if xs = [] then 0 else node (last xs))" using seg_ends [OF sx] by simp
  have nx: "?n = (if ys = [] then 0 else node (hd ys))" using seg_ends [OF sy] by simp
  have lastB: "xs \<noteq> [] \<Longrightarrow> last xs \<in> B" and hdB: "ys \<noteq> [] \<Longrightarrow> hd ys \<in> B" using F by auto
  have nz: "node y \<noteq> 0" "node y < 2 ^ 64" if "y \<in> B" for y using arena_block [OF ok that] by simp_all
  have small: "pr < 2 ^ 64" "?n < 2 ^ 64" using pr nx nz(2) lastB hdB by auto
  define s1 where "s1 = (if xs = [] then s\<lparr>head := ?n\<rparr> else upd s (pr + 8) ?n)"
  define s2 where "s2 = (if ys = [] then s1 else upd s1 (?n + 16) pr)"
  define s3 where "s3 = (if xs = [] \<and> ys \<noteq> [] then upd s2 (node x + 8) 0 else s2)"
  obtain q' where q': "seg s2 0 (xs @ ys) (head s2) 0 q'"
    using seg_join [OF ap sx sy small s1_def s2_def] by blast
  have acc: "accessible s (node y + k) 8" if "y \<in> B" "k \<le> 16" for y k by (rule load_node [OF ok that])
  have away: "node y + 24 \<le> node x \<or> node x + 24 \<le> node y" if "y \<in> set xs \<union> set ys" for y
    using ap that by (fastforce simp: apart_def)
  have w1: "word_at s1 (node x + k) = word_at s (node x + k)" if "k \<le> 16" for k
    using that pr away [of "last xs"] unfolding s1_def by auto
  have w2: "word_at s2 (node x) = word_at s1 (node x)"
    using nx away [of "hd ys"] unfolding s2_def by auto
  have w3: "word_at s3 (node x) = fst x + 8" using w1 [of 0] w2 hdr by (simp add: s3_def)
  have acc': "accessible s1 a n = accessible s a n" "accessible s2 a n = accessible s a n" "accessible s3 a n = accessible s a n" for a n
    by (simp_all add: s1_def s2_def s3_def)
  have payload: "accessible s (fst x + 8) 8" using bx by (intro arena_access [OF ok x]) simp_all
  have run: "remove_node (node x) s = step_size (node x) (\<lambda>v. v - 8) s3"
    using acc [OF x, of 8] acc [OF x, of 16] acc [OF lastB, of 8] acc [OF hdB, of 16] nz(1) [OF x] nz(1) [OF lastB] nz(1) [OF hdB]
      prv w1 [of 8] w1 [of 16] pr nx
    by (cases "xs = []"; cases "ys = []")
      (simp_all add: remove_node_def access acc' s1_def s2_def s3_def)
  also have "\<dots> = Inr (upd s3 (node x) (fst x))"
    using acc [OF x, of 0] payload w3 by (simp add: step_size_def access acc')
  finally have run: "remove_node (node x) s = Inr (upd s3 (node x) (fst x))" .
  let ?s = "upd s3 (node x) (fst x)"
  have sub: "{node y + k..<node y + k + 8} \<subseteq> nodes (set ?F)" if "y \<in> set ?F" "k \<le> 16" for y k
    using that by (force simp: nodes_def)
  have k1: "keeps s s1 (nodes (set ?F))"
    using sub [of "last xs" 8] pr by (cases "xs = []") (simp_all add: s1_def keeps_head keeps_refl keeps_put)
  have k2: "keeps s s2 (nodes (set ?F))"
    using k1 sub [of "hd ys" 16] nx by (cases "ys = []") (simp_all add: s2_def keeps_put)
  have k3: "keeps s s3 (nodes (set ?F))"
    using k2 sub [of x 8] by (auto simp: s3_def intro!: keeps_put)
  have k: "keeps s ?s (nodes (set ?F))"
    using k3 sub [of x 0] by (auto intro!: keeps_put)
  have only_x: "keeps s2 ?s {node x..<node x + 24}"
    by (auto simp: s3_def intro!: keeps_put keeps_refl)
  have "seg ?s 0 (xs @ ys) (head s2) 0 q' = seg s2 0 (xs @ ys) (head s2) 0 q'"
    by (rule keeps_seg [OF only_x]) (use away in fastforce)
  moreover have "head ?s = head s2" by (simp add: s3_def)
  ultimately have "seg ?s 0 (xs @ ys) (head ?s) 0 q'" using q' by simp
  then have "arena_ok ?s B (xs @ ys)"
    using F by (intro arena_okI [OF ok k nodes_headers [OF ok F(1)]]) auto
  moreover have "word_at ?s (node x) = fst x" using bx by (simp add: word_at_upd)
  ultimately show ?thesis using run k by blast
qed

section \<open>Allocating and freeing\<close>

lemma find_fit_ok:
  assumes "seg s p F h 0 q" and "\<And>x. x \<in> set F \<Longrightarrow> node x \<noteq> 0 \<and> accessible s (node x) 8 \<and> accessible s (node x + 8) 8 \<and> accessible s (fst x + 8) 8"
  shows "find_fit s n h = Some (Inr (case find (\<lambda>x. n \<le> word_at s (fst x + 8)) F of None \<Rightarrow> 0 | Some x \<Rightarrow> node x))"
  using assms
proof (induction F arbitrary: p h)
  case Nil
  then show ?case by (simp add: find_fit.simps)
next
  case (Cons x F)
  from Cons.prems have "seg s (node x) F (word_at s (node x + 8)) 0 q" by simp
  with Cons.IH Cons.prems(2)
  have "find_fit s n (word_at s (node x + 8)) = Some (Inr (case find (\<lambda>x. n \<le> word_at s (fst x + 8)) F of None \<Rightarrow> 0 | Some x \<Rightarrow> node x))"
    by simp
  then show ?case using Cons.prems(1) Cons.prems(2) [of x] by (subst find_fit.simps) (simp add: access)
qed

lemma find_fit_arena:
  assumes ok: "arena_ok s B F"
  shows "find_fit s n (head s) = Some (Inr (case find (\<lambda>x. n \<le> word_at s (fst x + 8)) F of None \<Rightarrow> 0 | Some x \<Rightarrow> node x))"
proof -
  from ok obtain q where q: "seg s 0 F (head s) 0 q" unfolding arena_ok_def by blast
  show ?thesis
  proof (rule find_fit_ok [OF q])
    fix x
    assume "x \<in> set F"
    then have x: "x \<in> B" using ok by (auto simp: arena_ok_def)
    have "accessible s (fst x + 8) 8" using arena_block [OF ok x] by (intro arena_access [OF ok x]) simp_all
    then show "node x \<noteq> 0 \<and> accessible s (node x) 8 \<and> accessible s (node x + 8) 8 \<and> accessible s (fst x + 8) 8"
      using load_node [OF ok x, of 0] load_node [OF ok x, of 8] arena_block [OF ok x] by simp
  qed
qed

lemma round_up_facts: "n < 2 ^ 64 - 8 \<Longrightarrow> n \<le> round_up n \<and> round_up n < n + 8 \<and> round_up n mod 8 = 0"
proof -
  assume n: "n < 2 ^ 64 - 8"
  have step: "m < 2 ^ 64 - 1 \<Longrightarrow> m mod 8 \<noteq> 0 \<Longrightarrow> round_up m = round_up (m + 1)" for m
    by (subst round_up.simps) simp
  have done_: "m mod 8 = 0 \<Longrightarrow> round_up m = m" for m by (subst round_up.simps) simp
  have "j \<le> 7 \<Longrightarrow> m < 2 ^ 64 - 1 - j \<Longrightarrow> (m + j) mod 8 = 0 \<Longrightarrow> m \<le> round_up m \<and> round_up m \<le> m + j \<and> round_up m mod 8 = 0" for j m
  proof (induction j arbitrary: m)
    case 0
    then show ?case by (simp add: done_)
  next
    case (Suc j)
    show ?case
    proof (cases "m mod 8 = 0")
      case False
      have "m < 2 ^ 64 - 1" "m + 1 < 2 ^ 64 - 1 - j" using Suc.prems(1,2) by simp_all
      then have "round_up m = round_up (m + 1)" "m + 1 \<le> round_up (m + 1)" "round_up (m + 1) \<le> m + 1 + j"
        "round_up (m + 1) mod 8 = 0"
        using step [of m] False Suc.IH [of "m + 1"] Suc.prems by (auto simp del: mod_eq_0_iff_dvd)
      then show ?thesis by simp
    qed (simp add: done_)
  qed
  moreover obtain j where j: "j \<le> 7" "(n + j) mod 8 = 0"
  proof -
    define r where "r = n mod 8"
    have "r \<in> {0, 1, 2, 3, 4, 5, 6, 7}" unfolding r_def by auto
    then have "\<exists>j \<le> 7. (r + j) mod 8 = 0"
      by (intro exI [of _ "(8 - r) mod 8"]) auto
    then show ?thesis using that unfolding r_def by (auto simp: mod_add_left_eq)
  qed
  ultimately have "n \<le> round_up n \<and> round_up n \<le> n + j \<and> round_up n mod 8 = 0" using n by force
  with j(1) show ?thesis by simp
qed

lemma space_for_facts:
  assumes "sz < 2 ^ 63 - 16"
  shows "sz + 8 \<le> space_for sz" "32 \<le> space_for sz" "space_for sz < sz + 40" "space_for sz mod 8 = 0"
proof -
  define m where "m = (if sz < 24 then 24 else sz) + 8"
  have "m mod 2 ^ 64 = m" and lt: "m < 2 ^ 64 - 8" using assms by (simp_all add: m_def)
  then have e: "space_for sz = round_up m" by (simp only: space_for_def m_def)
  have r: "m \<le> round_up m" "round_up m < m + 8" "round_up m mod 8 = 0" using round_up_facts [OF lt] by blast+
  have m: "sz + 8 \<le> m" "32 \<le> m" "m < sz + 33" by (simp_all add: m_def)
  show "sz + 8 \<le> space_for sz" "32 \<le> space_for sz" "space_for sz < sz + 40" "space_for sz mod 8 = 0"
    unfolding e using r m by linarith+
qed

text \<open>
  A successful allocation hands out a block of the free list or one behind the region's end; everything in the other
  blocks stays as it is.
\<close>

lemma find_Some_split: "find P xs = Some x \<Longrightarrow> \<exists>ys zs. xs = ys @ x # zs \<and> P x"
  by (induction xs) (auto split: if_splits intro: exI [of _ "[]"] simp: append_eq_Cons_conv, metis append_Cons)

lemma malloc_reuse:
  assumes ok: "arena_ok s B F" and f: "find (\<lambda>x. space_for sz \<le> word_at s (fst x + 8)) F = Some x"
  shows "\<exists>s'. malloc sz s = Inr (fst x + 8, s') \<and> arena_ok s' B (remove1 x F) \<and> keeps s s' (nodes (set F)) \<and> x \<in> set F"
proof -
  from find_Some_split [OF f] obtain ys zs where F: "F = ys @ x # zs" by blast
  then have x: "x \<in> B" and d: "x \<notin> set ys" using ok by (auto simp: arena_ok_def)
  from remove_node_ok [OF ok [unfolded F]] obtain s' where s': "remove_node (node x) s = Inr s'"
    "arena_ok s' B (ys @ zs)" "word_at s' (node x) = fst x" "keeps s s' (nodes (set F))" unfolding F by blast
  have "load (node x) s' = Inr (fst x)" using load_node [OF s'(2) x, of 0] s'(3) by (simp add: load_word)
  then have "malloc sz s = Inr (fst x + 8, s')"
    using find_fit_arena [OF ok, of "space_for sz"] f s'(1) arena_block(1,2) [OF ok x] by (simp add: malloc_def get_ptr_def)
  moreover have "remove1 x F = ys @ zs" using F d by (simp add: remove1_append)
  ultimately show ?thesis using s' F by auto
qed

lemma malloc_grow:
  assumes ok: "arena_ok s B F" and f: "find (\<lambda>x. space_for sz \<le> word_at s (fst x + 8)) F = None"
    and sz: "sz < 2 ^ 63 - 16" and room: "brk s + space_for sz \<le> limit s"
  shows "\<exists>s'. malloc sz s = Inr (brk s + 8, s') \<and> arena_ok s' (insert (brk s, space_for sz) B) F
    \<and> (\<forall>a < brk s. bytes s' a = bytes s a) \<and> base s' = base s \<and> brk s' = brk s + space_for sz \<and> limit s' = limit s"
proof -
  let ?n = "space_for sz" and ?b = "brk s"
  note sp = space_for_facts [OF sz]
  have lim: "limit s < 2 ^ 63" "base s \<le> brk s" "0 < base s" using ok by (simp_all add: arena_ok_def)
  then have n: "?n < 2 ^ 63" using room by linarith
  let ?s = "upd (s\<lparr>brk := ?b + ?n\<rparr>) ?b ?n"
  have "accessible (s\<lparr>brk := ?b + ?n\<rparr>) ?b 8" using sp lim by (simp add: accessible_def)
  then have run: "malloc sz s = Inr (?b + 8, ?s)"
    using find_fit_arena [OF ok, of ?n] f n room by (simp add: malloc_def sbrk_def store_upd get_ptr_def Let_def)
  have old: "word_at ?s a = word_at s a" if "a + 8 \<le> ?b" for a using that by simp
  have new: "word_at ?s ?b = ?n" using n by (simp add: word_at_upd)
  have blocks: "fst x + snd x \<le> ?b" "word_at s (fst x) = snd x" "32 \<le> snd x" "base s \<le> fst x" "node x + 24 \<le> ?b" if "x \<in> B" for x
    using arena_block [OF ok that] by simp_all
  from ok obtain q where "seg s 0 F (head s) 0 q" unfolding arena_ok_def by blast
  moreover have "seg ?s 0 F (head s) 0 q = seg (s\<lparr>brk := ?b + ?n\<rparr>) 0 F (head s) 0 q"
    using blocks ok by (intro seg_upd_other) (auto simp: arena_ok_def)
  ultimately have l: "seg ?s 0 F (head ?s) 0 q" by simp
  have "arena_ok ?s (insert (?b, ?n) B) F"
    unfolding arena_ok_def
  proof (intro conjI)
    show "\<forall>x \<in> insert (?b, ?n) B. base ?s \<le> fst x \<and> fst x + snd x \<le> brk ?s \<and> 32 \<le> snd x \<and> word_at ?s (fst x) = snd x"
      using blocks old new sp lim by fastforce
    show "\<forall>x \<in> insert (?b, ?n) B. \<forall>y \<in> insert (?b, ?n) B. x \<noteq> y \<longrightarrow> fst x + snd x \<le> fst y \<or> fst y + snd y \<le> fst x"
      using blocks(1) arena_disjoint [OF ok] by auto
    show "\<exists>q. seg ?s 0 F (head ?s) 0 q" using l by blast
  qed (use ok room lim in \<open>auto simp: arena_ok_def\<close>)
  moreover have "\<forall>a < ?b. bytes ?s a = bytes s a" by (simp add: bytes_put_bytes)
  ultimately show ?thesis using run by auto
qed

lemma free_ok:
  assumes ok: "arena_ok s B F" and x: "x \<in> B" and new: "x \<notin> set F"
  shows "\<exists>s'. free (fst x + 8) s = Inr s' \<and> arena_ok s' B (x # F) \<and> keeps s s' (nodes (insert x (set F)))"
proof -
  let ?n = "node x" and ?A = "nodes (insert x (set F))"
  note bx = arena_block [OF ok x]
  have F: "set F \<subseteq> B" "distinct F" using ok by (simp_all add: arena_ok_def)
  from ok obtain q where q: "seg s 0 F (head s) 0 q" unfolding arena_ok_def by blast
  have h: "head s = (if F = [] then 0 else node (hd F))" using seg_ends [OF q] by simp
  have hB: "F \<noteq> [] \<Longrightarrow> hd F \<in> B" using F by auto
  have h0: "head s = 0 \<longleftrightarrow> F = []" using h arena_block(1,2) [OF ok hB] by auto
  have hlt: "head s < 2 ^ 64" using h arena_block(3-5) [OF ok hB] by auto
  have far: "node y + 24 \<le> ?n \<or> ?n + 24 \<le> node y" if "y \<in> set F" for y
  proof -
    have "y \<in> B" "x \<noteq> y" using that F new by auto
    then show ?thesis using arena_disjoint [OF ok x, of y] bx arena_block [OF ok, of y] by auto
  qed
  define s2 where "s2 = upd (upd (upd (upd s ?n (fst x)) ?n (fst x + 8)) (?n + 16) 0) (?n + 8) (head s)"
  define s3 where "s3 = (if F = [] then s2\<lparr>tail := ?n\<rparr> else upd s2 (head s + 16) ?n)"
  let ?s = "s3\<lparr>head := ?n\<rparr>"
  have acc: "accessible s (?n + k) 8" if "k \<le> 16" for k by (rule load_node [OF ok x that])
  have run: "free (fst x + 8) s = Inr ?s"
  proof -
    have "accessible s (fst x) 8" by (rule arena_access [OF ok x]) (use bx in auto)
    moreover have "fst x + snd x - 24 = ?n" by (simp add: node_def)
    moreover have "F \<noteq> [] \<Longrightarrow> accessible s (head s + 16) 8" using load_node [OF ok hB, of 16] h by simp
    moreover have "word_at (upd s ?n (fst x)) ?n = fst x" using bx by (simp add: word_at_upd)
    moreover have "t\<lparr>head := ?n, tail := ?n\<rparr> = t\<lparr>tail := ?n, head := ?n\<rparr>" for t :: arena by simp
    ultimately show ?thesis
      using acc [of 0] acc [of 8] acc [of 16] bx h0
      by (cases "F = []") (simp_all add: free_def get_size_def get_size_ptr_def step_size_def access Let_def s2_def s3_def)
  qed
  have k2: "keeps s s2 {?n..<?n + 24}" by (auto simp: s2_def intro!: keeps_put keeps_refl)
  have "{?n..<?n + 24} \<subseteq> ?A" by (auto simp: nodes_def)
  then have "keeps s s2 ?A" by (rule keeps_mono [OF k2])
  moreover have "F \<noteq> [] \<Longrightarrow> {head s + 16..<head s + 16 + 8} \<subseteq> ?A"
  proof -
    assume "F \<noteq> []"
    then have "hd F \<in> insert x (set F)" "head s = node (hd F)" using h by auto
    then show ?thesis by (force simp: nodes_def)
  qed
  ultimately have k: "keeps s ?s ?A" by (cases "F = []") (simp_all add: s3_def keeps_head keeps_put)
  have q2: "seg s2 0 F (head s) 0 q"
    using keeps_seg [OF k2, of F] far q by (fastforce simp: disjoint_iff)
  have q3: "\<exists>q. seg s3 ?n F (head s) 0 q"
  proof (cases F)
    case Nil
    then show ?thesis using h by simp
  next
    case (Cons y ys)
    moreover have "head s = node y" using Cons h by simp
    ultimately show ?thesis using seg_set_prev [of s2 0 y ys "head s" 0 q ?n] q2 arena_apart [OF ok] bx by (auto simp: s3_def)
  qed
  have w: "word_at s3 (?n + j) = word_at s2 (?n + j)" if "j \<le> 16" for j
    using far [of "hd F"] h that by (cases "F = []") (auto simp: s3_def)
  have w2: "word_at s2 ?n = fst x + 8" "word_at s2 (?n + 8) = head s" "word_at s2 (?n + 16) = 0"
    using bx hlt by (simp_all add: s2_def word_at_upd)
  have "\<exists>q. seg ?s 0 (x # F) (head ?s) 0 q"
    using q3 w [of 0] w [of 8] w [of 16] w2 by simp
  then obtain q' where "seg ?s 0 (x # F) (head ?s) 0 q'" by blast
  then have "arena_ok ?s B (x # F)"
    using F x new nodes_headers [OF ok, of "insert x (set F)"] by (intro arena_okI [OF ok k]) auto
  with run k show ?thesis by blast
qed

section \<open>A client\<close>

text \<open>
  A program that allocates, frees what it holds, and writes bytes into what it holds, each block up to its real size (the
  number in front of it, less the eight bytes of that number). \<open>expects\<close> is what it expects to find in memory.
\<close>

record session =
  mem :: arena
  held :: "nat list"
  expects :: "nat \<rightharpoonup> byte"
  crashed :: "fault option"

datatype request = Malloc nat | Free nat | Poke nat byte

definition usable :: "arena \<Rightarrow> nat \<Rightarrow> nat" where
  "usable s p = word_at s (p - 8) - 8"

definition payload :: "arena \<Rightarrow> nat \<Rightarrow> nat set" where
  "payload s p = {p..<p + usable s p}"

fun legal :: "request \<Rightarrow> session \<Rightarrow> bool" where
  "legal (Malloc sz) c \<longleftrightarrow> sz < 2 ^ 63 - 16 \<and> brk (mem c) + space_for sz \<le> limit (mem c)"
| "legal (Free p) c \<longleftrightarrow> p \<in> set (held c)"
| "legal (Poke a b) c \<longleftrightarrow> (\<exists>p \<in> set (held c). a \<in> payload (mem c) p)"

fun session_do :: "request \<Rightarrow> session \<Rightarrow> session" where
  "session_do (Malloc sz) c = (case malloc sz (mem c) of Inl e \<Rightarrow> c\<lparr>crashed := Some e\<rparr> | Inr (p, s) \<Rightarrow> c\<lparr>mem := s, held := p # held c\<rparr>)"
| "session_do (Free p) c = (case free p (mem c) of Inl e \<Rightarrow> c\<lparr>crashed := Some e\<rparr>
     | Inr s \<Rightarrow> c\<lparr>mem := s, held := remove1 p (held c), expects := expects c |` (- payload (mem c) p)\<rparr>)"
| "session_do (Poke a b) c = (case write_bytes a [b] (mem c) of Inl e \<Rightarrow> c\<lparr>crashed := Some e\<rparr>
     | Inr s \<Rightarrow> c\<lparr>mem := s, expects := (expects c)(a \<mapsto> b)\<rparr>)"

definition session_step :: "request \<Rightarrow> session \<Rightarrow> session option" where
  "session_step r c = (if legal r c then Some (session_do r c) else None)"

definition session_start :: "(nat \<Rightarrow> byte) \<Rightarrow> nat \<Rightarrow> nat \<Rightarrow> session" where
  "session_start garbage start lim =
     \<lparr>mem = \<lparr>bytes = garbage, base = start, brk = start, limit = lim, head = 0, tail = 0\<rparr>, held = [], expects = Map.empty, crashed = None\<rparr>"

text \<open>The blocks the client holds are those that are not free; what it expects is about their payloads and holds.\<close>

definition inside :: "nat \<times> nat \<Rightarrow> nat set" where
  "inside x = {fst x + 8..<fst x + snd x}"

definition session_inv :: "(nat \<times> nat) set \<Rightarrow> (nat \<times> nat) list \<Rightarrow> (nat \<times> nat) list \<Rightarrow> session \<Rightarrow> bool" where
  "session_inv B F L c \<longleftrightarrow> arena_ok (mem c) B F \<and> set L = B - set F \<and> distinct L \<and> held c = map (\<lambda>x. fst x + 8) L
     \<and> dom (expects c) \<subseteq> (\<Union>x \<in> set L. inside x) \<and> (\<forall>a b. expects c a = Some b \<longrightarrow> bytes (mem c) a = b) \<and> crashed c = None"

lemma payload_inside: "arena_ok s B F \<Longrightarrow> x \<in> B \<Longrightarrow> payload s (fst x + 8) = inside x"
  using arena_block [of s B F x] by (simp add: payload_def usable_def inside_def)

lemma inside_away:
  assumes ok: "arena_ok s B F" and x: "x \<in> B" "x \<notin> X" and "X \<subseteq> B" and a: "fst x \<le> a" "a < fst x + snd x"
  shows "a \<notin> nodes X"
proof
  assume "a \<in> nodes X"
  then obtain y where y: "y \<in> X" "node y \<le> a" "a < node y + 24" by (auto simp: nodes_def)
  then have "y \<in> B" "x \<noteq> y" using assms by auto
  then show False using arena_disjoint [OF ok x(1), of y] arena_block [OF ok, of y] y a by auto
qed

lemma keeps_notes:
  assumes ok: "arena_ok s B F" and "keeps s s' (nodes X)" and "X \<subseteq> B" and "dom n \<subseteq> (\<Union>x \<in> B - X. inside x)"
    and "\<forall>a b. n a = Some b \<longrightarrow> bytes s a = b"
  shows "\<forall>a b. n a = Some b \<longrightarrow> bytes s' a = b"
proof (intro allI impI)
  fix a b
  assume ab: "n a = Some b"
  then obtain x where "x \<in> B" "x \<notin> X" "a \<in> inside x" using assms(4) by blast
  then have "a \<notin> nodes X" using inside_away [OF ok, of x X a] assms(3) by (simp add: inside_def)
  then show "bytes s' a = b" using assms(2,5) ab by (simp add: keeps_def)
qed

lemma session_inv_malloc:
  assumes inv: "session_inv B F L c" and legal: "legal (Malloc sz) c"
  shows "\<exists>B' F' L'. session_inv B' F' L' (session_do (Malloc sz) c)"
proof -
  let ?s = "mem c"
  have ok: "arena_ok ?s B F" and L: "set L = B - set F" "distinct L" "held c = map (\<lambda>x. fst x + 8) L" "crashed c = None"
    and e: "dom (expects c) \<subseteq> (\<Union>x \<in> set L. inside x)" "\<forall>a b. expects c a = Some b \<longrightarrow> bytes ?s a = b"
    using inv unfolding session_inv_def by blast+
  have F: "set F \<subseteq> B" "distinct F" using ok by (simp_all add: arena_ok_def)
  show ?thesis
  proof (cases "find (\<lambda>x. space_for sz \<le> word_at ?s (fst x + 8)) F")
    case (Some x)
    from malloc_reuse [OF ok Some] obtain s' where s': "malloc sz ?s = Inr (fst x + 8, s')"
      "arena_ok s' B (remove1 x F)" "keeps ?s s' (nodes (set F))" "x \<in> set F" by blast
    have "\<forall>a b. expects c a = Some b \<longrightarrow> bytes s' a = b"
      by (rule keeps_notes [OF ok s'(3) F(1)]) (use e L in auto)
    then have "session_inv B (remove1 x F) (x # L) (session_do (Malloc sz) c)"
      using s' L e F by (auto simp: session_inv_def)
    then show ?thesis by blast
  next
    case None
    have sz: "sz < 2 ^ 63 - 16" "brk ?s + space_for sz \<le> limit ?s" using legal by simp_all
    from malloc_grow [OF ok None sz] obtain s' where s': "malloc sz ?s = Inr (brk ?s + 8, s')"
      "arena_ok s' (insert (brk ?s, space_for sz) B) F" "\<forall>a < brk ?s. bytes s' a = bytes ?s a" by blast
    have below: "a < brk ?s" if "x \<in> B" "a \<in> inside x" for x a
      using arena_block(4) [OF ok that(1)] that(2) by (simp add: inside_def)
    have new: "(brk ?s, space_for sz) \<notin> B"
      using arena_block(4) [OF ok, of "(brk ?s, space_for sz)"] space_for_facts(2) [OF sz(1)] by fastforce
    have "\<forall>a b. expects c a = Some b \<longrightarrow> bytes s' a = b"
      using e L(1) below s'(3) by blast
    moreover have "set ((brk ?s, space_for sz) # L) = insert (brk ?s, space_for sz) B - set F" using new L(1) F(1) by auto
    ultimately have "session_inv (insert (brk ?s, space_for sz) B) F ((brk ?s, space_for sz) # L) (session_do (Malloc sz) c)"
      using s' L e new by (auto simp: session_inv_def)
    then show ?thesis by blast
  qed
qed

lemma session_inv_free:
  assumes inv: "session_inv B F L c" and legal: "legal (Free p) c"
  shows "\<exists>B' F' L'. session_inv B' F' L' (session_do (Free p) c)"
proof -
  let ?s = "mem c" and ?f = "\<lambda>x :: nat \<times> nat. fst x + 8"
  have ok: "arena_ok ?s B F" and L: "set L = B - set F" "distinct L" "held c = map ?f L" "crashed c = None"
    and e: "dom (expects c) \<subseteq> (\<Union>x \<in> set L. inside x)" "\<forall>a b. expects c a = Some b \<longrightarrow> bytes ?s a = b"
    using inv unfolding session_inv_def by blast+
  have F: "set F \<subseteq> B" using ok by (simp add: arena_ok_def)
  from legal L obtain x where p: "p = fst x + 8" and xL: "x \<in> set L" by auto
  then have x: "x \<in> B" "x \<notin> set F" using L by auto
  from free_ok [OF ok x] obtain s' where s': "free p ?s = Inr s'" "arena_ok s' B (x # F)" "keeps ?s s' (nodes (insert x (set F)))"
    unfolding p by blast
  have inj: "fst y \<noteq> fst x" if "y \<in> B" "y \<noteq> x" for y
    using arena_disjoint [OF ok that(1) x(1) that(2)] arena_block(8) [OF ok that(1)] arena_block(8) [OF ok x(1)] by auto
  have rem: "remove1 p (map ?f L') = map ?f (remove1 x L')" if "set L' \<subseteq> B" for L'
    using that
  proof (induction L')
    case (Cons y L')
    then show ?case using inj [of y] by (cases "y = x") (simp_all add: p)
  qed simp
  let ?e = "expects c |` (- payload ?s p)"
  have pay: "payload ?s p = inside x" unfolding p by (rule payload_inside [OF ok x(1)])
  have dom: "dom ?e \<subseteq> (\<Union>y \<in> set (remove1 x L). inside y)" using e(1) L(2) by (auto simp: pay)
  have "\<forall>a b. ?e a = Some b \<longrightarrow> bytes s' a = b"
    by (rule keeps_notes [OF ok s'(3)]) (use x F e L dom in \<open>auto simp: restrict_map_def arena_ok_def split: if_splits\<close>)
  then have "session_inv B (x # F) (remove1 x L) (session_do (Free p) c)"
    using s' L dom rem [of L] by (auto simp: session_inv_def)
  then show ?thesis by blast
qed

lemma session_inv_poke:
  assumes inv: "session_inv B F L c" and legal: "legal (Poke a b) c"
  shows "session_inv B F L (session_do (Poke a b) c)"
proof -
  let ?s = "mem c" and ?s' = "put_bytes (mem c) a [b]"
  have ok: "arena_ok ?s B F" and L: "set L = B - set F" "distinct L" "held c = map (\<lambda>x. fst x + 8) L" "crashed c = None"
    and e: "dom (expects c) \<subseteq> (\<Union>x \<in> set L. inside x)" "\<forall>a b. expects c a = Some b \<longrightarrow> bytes ?s a = b"
    using inv unfolding session_inv_def by blast+
  from legal L payload_inside [OF ok] obtain x where xL: "x \<in> set L" and a: "a \<in> inside x" by fastforce
  then have x: "x \<in> B" "x \<notin> set F" using L by auto
  note bx = arena_block [OF ok x(1)]
  have F: "set F \<subseteq> B" "distinct F" using ok by (simp_all add: arena_ok_def)
  have k: "keeps ?s ?s' {a}" by (rule keeps_put [OF keeps_refl]) auto
  have "a \<notin> {fst y..<fst y + 8}" if "y \<in> B" for y
    using arena_disjoint [OF ok that x(1)] arena_block(8) [OF ok that] a by (cases "y = x") (auto simp: inside_def)
  then have hd: "{fst y..<fst y + 8} \<inter> {a} = {}" if "y \<in> B" for y using that by blast
  from ok obtain q where q: "seg ?s 0 F (head ?s) 0 q" unfolding arena_ok_def by blast
  have "a \<notin> nodes (set F)" by (rule inside_away [OF ok x F(1)]) (use a in \<open>auto simp: inside_def\<close>)
  then have "seg ?s' 0 F (head ?s') 0 q"
    using keeps_seg [OF k, of F] q by (auto simp: nodes_def)
  with F hd have "arena_ok ?s' B F" by (intro arena_okI [OF ok k]) blast+
  moreover have "accessible ?s a 1" using bx a by (simp add: accessible_def inside_def)
  moreover have "bytes ?s' a' = (if a' = a then b else bytes ?s a')" for a' by (auto simp: put_bytes_def)
  ultimately show ?thesis using L e xL a by (auto simp: session_inv_def write_bytes_def)
qed

lemma session_inv_step:
  assumes "session_inv B F L c" and "session_step r c = Some c'"
  shows "\<exists>B F L. session_inv B F L c'"
proof -
  have "legal r c" "c' = session_do r c" using assms(2) by (auto simp: session_step_def split: if_splits)
  then show ?thesis
    using assms(1) session_inv_malloc session_inv_free session_inv_poke by (cases r) blast+
qed

lemma session_inv_start: "0 < start \<Longrightarrow> start \<le> lim \<Longrightarrow> lim < 2 ^ 63 \<Longrightarrow> session_inv {} [] [] (session_start garbage start lim)"
  by (simp add: session_inv_def session_start_def arena_ok_def)

interpretation allocator_session: transition_system session_step
  "\<lambda>c. \<exists>garbage start lim. c = session_start garbage start lim \<and> 0 < start \<and> start \<le> lim \<and> lim < 2 ^ 63"
  "\<lambda>c. \<exists>B F L. session_inv B F L c"
  by unfold_locales (blast intro: session_inv_start, blast dest: session_inv_step)

section \<open>Properties\<close>



text \<open>
  \<^verbatim>\<open>realloc(p, 0)\<close> frees the block and returns it all the same; a size up to eight bytes more than the block has room
  for is answered with the block itself.
\<close>

lemma realloc_zero:
  assumes ok: "arena_ok s B F" and x: "x \<in> B" "x \<notin> set F"
  shows "\<exists>s'. realloc (fst x + 8) 0 s = Inr (fst x + 8, s') \<and> arena_ok s' B (x # F)"
proof -
  from free_ok [OF ok x] obtain s' where s': "free (fst x + 8) s = Inr s'" "arena_ok s' B (x # F)" by blast
  have "accessible s' (fst x) 8" by (rule arena_access [OF s'(2) x(1)]) (use arena_block [OF s'(2) x(1)] in auto)
  then show ?thesis using s' by (simp add: realloc_def get_size_def access)
qed

lemma realloc_too_small:
  assumes ok: "arena_ok s B F" and x: "x \<in> B" and "0 < n" "n \<le> snd x"
  shows "realloc (fst x + 8) n s = Inr (fst x + 8, s) \<and> usable s (fst x + 8) = snd x - 8"
proof -
  have "accessible s (fst x) 8" by (rule arena_access [OF ok x]) (use arena_block [OF ok x] in auto)
  then show ?thesis using arena_block(6) [OF ok x] assms(3,4) by (simp add: realloc_def get_size_def access usable_def)
qed



end
