(* ===== verification/Scheduler.thy ===== *)
theory Scheduler
  imports Complex_Main Prelude "HOL-Library.Multiset"
begin

text \<open>
  \<^verbatim>\<open>savvy_scheduler/libscheduler.c\<close>: the six comparers, the scheduler's handlers and its
  averages. The priority queue is a library the repository does not contain: its two
  operations are arguments, and what the scheduler relies on is the locale \<open>priqueue\<close>. The
  times are \<^verbatim>\<open>double\<close>s in the code and rational numbers here, so nothing is said about
  rounding. The simulator that calls the handlers is outside the repository too; its calls are the steps of \<open>sys_step\<close>.
\<close>

section \<open>Jobs and comparers\<close>

record job_info =
  id_no :: int   \<comment> \<open>the field \<^verbatim>\<open>id\<close>\<close>
  priority :: int
  rt :: rat
  rr_time :: rat
  xxtime :: rat
  et :: rat
  ut :: rat
  st :: rat

record job =
  metadata :: job_info

datatype scheme = FCFS | PRI | PPRI | PSRTF | RR | SJF | OtherScheme

definition comparer_fcfs :: "job \<Rightarrow> job \<Rightarrow> int" where
  "comparer_fcfs a b =
     (let aa = metadata a; bb = metadata b in
      if xxtime aa > xxtime bb then 1 else if xxtime bb > xxtime aa then -1 else 0)"

definition break_tie :: "job \<Rightarrow> job \<Rightarrow> int" where
  "break_tie a b = comparer_fcfs a b"

definition comparer_pri :: "job \<Rightarrow> job \<Rightarrow> int" where
  "comparer_pri a b =
     (let aa = metadata a; bb = metadata b in
      if priority aa > priority bb then 1 else if priority bb > priority aa then -1 else break_tie a b)"

definition comparer_ppri :: "job \<Rightarrow> job \<Rightarrow> int" where
  "comparer_ppri a b = comparer_pri a b"

definition comparer_psrtf :: "job \<Rightarrow> job \<Rightarrow> int" where
  "comparer_psrtf a b =
     (let aa = metadata a; bb = metadata b in
      if rt aa - ut aa > rt bb - ut bb then 1
      else if rt bb - ut bb > rt aa - ut aa then -1 else break_tie a b)"

definition comparer_rr :: "job \<Rightarrow> job \<Rightarrow> int" where
  "comparer_rr a b =
     (let aa = metadata a; bb = metadata b in
      if rr_time aa > rr_time bb then 1 else if rr_time bb > rr_time aa then -1 else 0)"

definition comparer_sjf :: "job \<Rightarrow> job \<Rightarrow> int" where
  "comparer_sjf a b =
     (let aa = metadata a; bb = metadata b in
      if rt aa > rt bb then 1 else if rt bb > rt aa then -1 else break_tie a b)"

lemmas comparer_defs = comparer_fcfs_def break_tie_def comparer_pri_def comparer_ppri_def
  comparer_psrtf_def comparer_rr_def comparer_sjf_def Let_def

section \<open>The scheduler\<close>

text \<open>The file's globals.\<close>

record 'q scheduler =
  job_count :: int
  twt :: rat
  ttat :: rat
  trt :: rat
  pqueue :: 'q
  comparision_func :: "job \<Rightarrow> job \<Rightarrow> int"
  pqueue_scheme :: scheme

definition scheduler_zero :: "'q \<Rightarrow> 'q scheduler" where
  "scheduler_zero q = \<lparr>job_count = 0, twt = 0, ttat = 0, trt = 0, pqueue = q,
     comparision_func = (\<lambda>_ _. 0), pqueue_scheme = FCFS\<rparr>"

text \<open>\<open>empty_q\<close> is what \<^verbatim>\<open>priqueue_init\<close> sets up. The counters are not reset.\<close>

definition scheduler_start_up :: "'q \<Rightarrow> scheme \<Rightarrow> 'q scheduler \<Rightarrow> 'q scheduler res" where
  "scheduler_start_up empty_q s g =
     bindE (case s of FCFS \<Rightarrow> Inr comparer_fcfs | PRI \<Rightarrow> Inr comparer_pri | PPRI \<Rightarrow> Inr comparer_ppri
            | PSRTF \<Rightarrow> Inr comparer_psrtf | RR \<Rightarrow> Inr comparer_rr | SJF \<Rightarrow> Inr comparer_sjf
            | OtherScheme \<Rightarrow> Inl (ProcessExit 1))
       (\<lambda>c. Inr (g\<lparr>comparision_func := c, pqueue := empty_q, pqueue_scheme := s\<rparr>))"

type_synonym 'q offer_fn = "(job \<Rightarrow> job \<Rightarrow> int) \<Rightarrow> job \<Rightarrow> 'q \<Rightarrow> 'q"
type_synonym 'q poll_fn = "(job \<Rightarrow> job \<Rightarrow> int) \<Rightarrow> 'q \<Rightarrow> job option \<times> 'q"

definition new_job_info :: "int \<Rightarrow> rat \<Rightarrow> int \<Rightarrow> rat \<Rightarrow> job" where
  "new_job_info job_number time prio running_time =
     \<lparr>metadata = \<lparr>id_no = job_number, priority = prio, rt = running_time, rr_time = 0, xxtime = time,
        et = 0, ut = 0, st = 0\<rparr>\<rparr>"

definition scheduler_new_job :: "'q offer_fn \<Rightarrow> int \<Rightarrow> rat \<Rightarrow> int \<Rightarrow> rat \<Rightarrow> 'q scheduler \<Rightarrow> 'q scheduler" where
  "scheduler_new_job offer job_number time prio running_time g =
     g\<lparr>pqueue := offer (comparision_func g) (new_job_info job_number time prio running_time) (pqueue g)\<rparr>"

text \<open>What is done to a job taken from the queue, and to one put back.\<close>

definition start_running :: "rat \<Rightarrow> job \<Rightarrow> job" where
  "start_running time j =
     (let m = (metadata j)\<lparr>rr_time := time\<rparr> in
      \<lparr>metadata = (if ut m = 0 then m\<lparr>st := time\<rparr> else m)\<rparr>)"

definition stop_running :: "rat \<Rightarrow> job \<Rightarrow> job" where
  "stop_running time j =
     (let m = metadata j in \<lparr>metadata = m\<lparr>ut := ut m + (time - rr_time m)\<rparr>\<rparr>)"

definition poll_next :: "'q poll_fn \<Rightarrow> rat \<Rightarrow> 'q scheduler \<Rightarrow> job option \<times> 'q scheduler" where
  "poll_next poll time g =
     (let (next_job, q) = poll (comparision_func g) (pqueue g)
      in (map_option (start_running time) next_job, g\<lparr>pqueue := q\<rparr>))"

definition scheduler_quantum_expired :: "'q offer_fn \<Rightarrow> 'q poll_fn \<Rightarrow> job option \<Rightarrow> rat \<Rightarrow> 'q scheduler
    \<Rightarrow> job option \<times> 'q scheduler" where
  "scheduler_quantum_expired offer poll job_evicted time g =
     (if pqueue_scheme g \<in> {PSRTF, PPRI, RR}
      then poll_next poll time
             (case job_evicted of None \<Rightarrow> g
              | Some j \<Rightarrow> g\<lparr>pqueue := offer (comparision_func g) (stop_running time j) (pqueue g)\<rparr>)
      else (case job_evicted of None \<Rightarrow> poll_next poll time g
            | Some j \<Rightarrow> (Some j, g)))"

definition finish_info :: "rat \<Rightarrow> job \<Rightarrow> job_info" where
  "finish_info time j = (let x = metadata j in x\<lparr>ut := ut x + (time - rr_time x), et := time\<rparr>)"

definition scheduler_job_finished :: "job \<Rightarrow> rat \<Rightarrow> 'q scheduler \<Rightarrow> 'q scheduler" where
  "scheduler_job_finished job_done time g =
     (let x = finish_info time job_done in
      g\<lparr>ttat := ttat g + (et x - xxtime x),
        twt := twt g + (et x - xxtime x - rt x),
        trt := trt g + (st x - xxtime x),
        job_count := job_count g + 1\<rparr>)"

text \<open>A \<^verbatim>\<open>double\<close> divided by the \<^verbatim>\<open>int\<close> 0 is not a number: \<open>None\<close>.\<close>

definition average :: "rat \<Rightarrow> int \<Rightarrow> rat option" where
  "average tot n = (if n = 0 then None else Some (tot / of_int n))"

definition scheduler_average_waiting_time :: "'q scheduler \<Rightarrow> rat option" where
  "scheduler_average_waiting_time g = average (twt g) (job_count g)"

definition scheduler_average_turnaround_time :: "'q scheduler \<Rightarrow> rat option" where
  "scheduler_average_turnaround_time g = average (ttat g) (job_count g)"

definition scheduler_average_response_time :: "'q scheduler \<Rightarrow> rat option" where
  "scheduler_average_response_time g = average (trt g) (job_count g)"

text \<open>What is printed at the end; the queue is destroyed before.\<close>

definition print_stats :: "'q scheduler \<Rightarrow> (string \<times> rat option) list" where
  "print_stats g = [(''turnaround'', scheduler_average_turnaround_time g),
     (''total_waiting'', scheduler_average_waiting_time g), (''total_response'', scheduler_average_response_time g)]"

definition scheduler_clean_up :: "('q \<Rightarrow> 'q) \<Rightarrow> 'q scheduler \<Rightarrow> (string \<times> rat option) list \<times> 'q scheduler" where
  "scheduler_clean_up priqueue_destroy g =
     (let g' = g\<lparr>pqueue := priqueue_destroy (pqueue g)\<rparr> in (print_stats g', g'))"

section \<open>What the queue must do\<close>

definition total_preorder :: "('a \<Rightarrow> 'a \<Rightarrow> int) \<Rightarrow> bool" where
  "total_preorder c \<longleftrightarrow> (\<forall>a b. sgn (c a b) = - sgn (c b a))
     \<and> (\<forall>a b d. c a b \<le> 0 \<longrightarrow> c b d \<le> 0 \<longrightarrow> c a d \<le> 0)"

text \<open>
  \<open>ok c q\<close> says that \<open>q\<close> is a queue built with the comparer \<open>c\<close>; \<open>elems\<close> is the bag of its
  jobs. Polling takes a job no other job in the queue is before.
\<close>

locale priqueue =
  fixes offer :: "'q offer_fn" and poll :: "'q poll_fn" and empty_q :: 'q
    and elems :: "'q \<Rightarrow> job multiset" and ok :: "(job \<Rightarrow> job \<Rightarrow> int) \<Rightarrow> 'q \<Rightarrow> bool"
  assumes ok_empty: "ok c empty_q" and elems_empty: "elems empty_q = {#}"
    and ok_offer: "total_preorder c \<Longrightarrow> ok c q \<Longrightarrow> ok c (offer c j q)"
    and elems_offer: "total_preorder c \<Longrightarrow> ok c q \<Longrightarrow> elems (offer c j q) = add_mset j (elems q)"
    and poll_None: "ok c q \<Longrightarrow> poll c q = (None, q') \<Longrightarrow> elems q = {#} \<and> q' = q"
    and poll_Some: "total_preorder c \<Longrightarrow> ok c q \<Longrightarrow> poll c q = (Some j, q') \<Longrightarrow>
      elems q = add_mset j (elems q') \<and> ok c q' \<and> (\<forall>k \<in># elems q'. c j k \<le> 0)"

text \<open>A queue that is a sorted list, with equal jobs in the order of their insertion, meets it.\<close>

fun list_offer :: "(job \<Rightarrow> job \<Rightarrow> int) \<Rightarrow> job \<Rightarrow> job list \<Rightarrow> job list" where
  "list_offer c j [] = [j]"
| "list_offer c j (k # ks) = (if c j k < 0 then j # k # ks else k # list_offer c j ks)"

fun list_poll :: "(job \<Rightarrow> job \<Rightarrow> int) \<Rightarrow> job list \<Rightarrow> job option \<times> job list" where
  "list_poll c [] = (None, [])"
| "list_poll c (j # js) = (Some j, js)"

definition list_ok :: "(job \<Rightarrow> job \<Rightarrow> int) \<Rightarrow> job list \<Rightarrow> bool" where
  "list_ok c js \<longleftrightarrow> sorted_wrt (\<lambda>a b. c a b \<le> 0) js"

lemma total_preorder_flip: "total_preorder c \<Longrightarrow> \<not> c a b < 0 \<Longrightarrow> c b a \<le> 0"
  unfolding total_preorder_def by (metis linorder_not_less neg_less_0_iff_less sgn_less sgn_greater)

lemma set_list_offer: "set (list_offer c j ks) = insert j (set ks)"
  by (induction ks) auto

lemma list_ok_offer: "total_preorder c \<Longrightarrow> list_ok c ks \<Longrightarrow> list_ok c (list_offer c j ks)"
proof (induction ks)
  case (Cons k ks)
  show ?case
  proof (cases "c j k < 0")
    case True
    then have "c j x \<le> 0" if "x \<in> set ks" for x
      using Cons.prems that unfolding list_ok_def total_preorder_def
      by (metis less_imp_le sorted_wrt.simps(2))
    then show ?thesis using True Cons.prems by (simp add: list_ok_def)
  next
    case False
    then show ?thesis
      using Cons total_preorder_flip [of c j k] by (auto simp: list_ok_def set_list_offer)
  qed
qed (simp add: list_ok_def)

interpretation list_queue: priqueue list_offer list_poll "[]" mset list_ok
proof
  fix c :: "job \<Rightarrow> job \<Rightarrow> int" and q q' :: "job list" and j
  show "mset (list_offer c j q) = add_mset j (mset q)" by (induction q) auto
  show "list_ok c q \<Longrightarrow> list_poll c q = (None, q') \<Longrightarrow> mset q = {#} \<and> q' = q"
    by (cases q) auto
  show "list_ok c q \<Longrightarrow> list_poll c q = (Some j, q') \<Longrightarrow>
      mset q = add_mset j (mset q') \<and> list_ok c q' \<and> (\<forall>k \<in># mset q'. c j k \<le> 0)"
    by (cases q) (auto simp: list_ok_def)
qed (auto simp: list_ok_offer, simp add: list_ok_def)

section \<open>The comparers are total preorders\<close>

text \<open>Comparing by a key first and then by another comparer.\<close>

lemma preorder_zero: "total_preorder (\<lambda>_ _. 0)"
  by (simp add: total_preorder_def)

lemma preorder_key:
  fixes f :: "'a \<Rightarrow> 'b :: linorder"
  assumes "total_preorder c"
  shows "total_preorder (\<lambda>a b. if f a > f b then 1 else if f b > f a then -1 else c a b)"
proof -
  let ?c = "\<lambda>a b. if f a > f b then 1 else if f b > f a then -1 else c a b"
  have le: "?c a b \<le> 0 \<longleftrightarrow> f a \<le> f b \<and> (f a = f b \<longrightarrow> c a b \<le> 0)" for a b
    by (cases "f a" "f b" rule: linorder_cases) (simp_all add: less_imp_le not_le less_imp_not_less)
  have sg: "sgn (c a b) = - sgn (c b a)" for a b
    using assms unfolding total_preorder_def by blast
  have tr: "c a b \<le> 0 \<Longrightarrow> c b d \<le> 0 \<Longrightarrow> c a d \<le> 0" for a b d
    using assms unfolding total_preorder_def by blast
  have "sgn (?c a b) = - sgn (?c b a)" for a b
    using sg [of a b] by (cases "f a" "f b" rule: linorder_cases) (simp_all add: less_imp_not_less)
  moreover have "?c a d \<le> 0" if "?c a b \<le> 0" and "?c b d \<le> 0" for a b d
  proof -
    from that have o: "f a \<le> f b" "f b \<le> f d" and k: "f a = f b \<Longrightarrow> c a b \<le> 0" "f b = f d \<Longrightarrow> c b d \<le> 0"
      unfolding le by blast+
    have "c a d \<le> 0" if "f a = f d"
    proof -
      have "f a = f b" "f b = f d" using o that by simp_all
      then show ?thesis using k tr by blast
    qed
    then show ?thesis unfolding le using o by simp
  qed
  ultimately show ?thesis unfolding total_preorder_def by blast
qed

lemma preorder_fcfs: "total_preorder comparer_fcfs"
  using preorder_key [OF preorder_zero, of "\<lambda>j. xxtime (metadata j)"]
  unfolding comparer_fcfs_def Let_def .

lemma preorder_break_tie: "total_preorder break_tie"
  using preorder_fcfs unfolding break_tie_def .

lemma preorder_pri: "total_preorder comparer_pri"
  using preorder_key [OF preorder_break_tie, of "\<lambda>j. priority (metadata j)"]
  unfolding comparer_pri_def Let_def .

lemma preorder_psrtf: "total_preorder comparer_psrtf"
  using preorder_key [OF preorder_break_tie, of "\<lambda>j. rt (metadata j) - ut (metadata j)"]
  unfolding comparer_psrtf_def Let_def .

lemma preorder_rr: "total_preorder comparer_rr"
  using preorder_key [OF preorder_zero, of "\<lambda>j. rr_time (metadata j)"]
  unfolding comparer_rr_def Let_def .

lemma preorder_sjf: "total_preorder comparer_sjf"
  using preorder_key [OF preorder_break_tie, of "\<lambda>j. rt (metadata j)"]
  unfolding comparer_sjf_def Let_def .

lemma preorder_ppri: "total_preorder comparer_ppri"
  using preorder_pri unfolding comparer_ppri_def .

lemmas preorder_comparers = preorder_fcfs preorder_pri preorder_ppri preorder_psrtf preorder_rr preorder_sjf

lemma start_up_preorder:
  "scheduler_start_up e s g = Inr g' \<Longrightarrow> total_preorder (comparision_func g')"
  by (cases s) (auto simp: scheduler_start_up_def preorder_comparers)

section \<open>Runs of the scheduler\<close>

text \<open>
  The simulator's calls, with a clock that does not run backwards: a job arrives, a quantum
  ends (with the running job, or with none), the running job finishes. \<open>arrived\<close>
  and \<open>finished\<close> record what happened.
\<close>

type_synonym job_key = "int \<times> int \<times> rat \<times> rat"

definition info_key :: "job_info \<Rightarrow> job_key" where
  "info_key m = (id_no m, priority m, rt m, xxtime m)"

record 'q sys =
  sched :: "'q scheduler"
  running :: "job option"
  finished :: "job_info list"
  arrived :: "job_key multiset"
  clock :: rat

inductive sys_step :: "'q offer_fn \<Rightarrow> 'q poll_fn \<Rightarrow> 'q sys \<Rightarrow> 'q sys \<Rightarrow> bool"
  for offer :: "'q offer_fn" and poll :: "'q poll_fn" where
  arrive: "clock \<sigma> \<le> t \<Longrightarrow> sys_step offer poll \<sigma> (\<sigma>\<lparr>sched := scheduler_new_job offer n t p r (sched \<sigma>),
      arrived := add_mset (n, p, r, t) (arrived \<sigma>), clock := t\<rparr>)"
| quantum: "clock \<sigma> \<le> t \<Longrightarrow> scheduler_quantum_expired offer poll (running \<sigma>) t (sched \<sigma>) = (j, g) \<Longrightarrow>
    sys_step offer poll \<sigma> (\<sigma>\<lparr>sched := g, running := j, clock := t\<rparr>)"
| finish: "clock \<sigma> \<le> t \<Longrightarrow> running \<sigma> = Some j \<Longrightarrow>
    sys_step offer poll \<sigma> (\<sigma>\<lparr>sched := scheduler_job_finished j t (sched \<sigma>), running := None,
      finished := finish_info t j # finished \<sigma>, clock := t\<rparr>)"

definition sys_start :: "'q scheduler \<Rightarrow> 'q sys" where
  "sys_start g = \<lparr>sched = g, running = None, finished = [], arrived = {#}, clock = 0\<rparr>"

inductive reachable :: "'q offer_fn \<Rightarrow> 'q poll_fn \<Rightarrow> 'q \<Rightarrow> 'q sys \<Rightarrow> bool"
  for offer :: "'q offer_fn" and poll :: "'q poll_fn" and e :: 'q where
  start: "scheduler_start_up e s (scheduler_zero e) = Inr g \<Longrightarrow> reachable offer poll e (sys_start g)"
| step: "reachable offer poll e \<sigma> \<Longrightarrow> sys_step offer poll \<sigma> \<sigma>' \<Longrightarrow> reachable offer poll e \<sigma>'"

text \<open>The invariant: where the jobs are, and what is known of their times.\<close>

definition waiting_sane :: "rat \<Rightarrow> job_info \<Rightarrow> bool" where
  "waiting_sane now m \<longleftrightarrow> 0 \<le> ut m \<and> xxtime m \<le> now \<and> (0 < ut m \<longrightarrow> xxtime m \<le> st m \<and> st m \<le> now)"

definition running_sane :: "rat \<Rightarrow> job_info \<Rightarrow> bool" where
  "running_sane now m \<longleftrightarrow> 0 \<le> ut m \<and> xxtime m \<le> st m \<and> st m \<le> now \<and> rr_time m \<le> now"

definition finished_sane :: "job_info \<Rightarrow> bool" where
  "finished_sane m \<longleftrightarrow> xxtime m \<le> st m \<and> st m \<le> et m \<and> 0 \<le> ut m"

definition in_system :: "job multiset \<Rightarrow> job option \<Rightarrow> job_info multiset" where
  "in_system q r = image_mset metadata (q + (case r of None \<Rightarrow> {#} | Some j \<Rightarrow> {#j#}))"

definition sys_inv :: "('q \<Rightarrow> job multiset) \<Rightarrow> ((job \<Rightarrow> job \<Rightarrow> int) \<Rightarrow> 'q \<Rightarrow> bool) \<Rightarrow> 'q sys \<Rightarrow> bool" where
  "sys_inv elems ok \<sigma> \<longleftrightarrow>
     total_preorder (comparision_func (sched \<sigma>)) \<and> ok (comparision_func (sched \<sigma>)) (pqueue (sched \<sigma>))
     \<and> arrived \<sigma> = image_mset info_key (in_system (elems (pqueue (sched \<sigma>))) (running \<sigma>) + mset (finished \<sigma>))
     \<and> (\<forall>j \<in># elems (pqueue (sched \<sigma>)). waiting_sane (clock \<sigma>) (metadata j))
     \<and> (\<forall>j. running \<sigma> = Some j \<longrightarrow> running_sane (clock \<sigma>) (metadata j))
     \<and> (\<forall>m \<in> set (finished \<sigma>). finished_sane m)"

definition totals_ok :: "'q sys \<Rightarrow> bool" where
  "totals_ok \<sigma> \<longleftrightarrow> (let g = sched \<sigma>; fs = finished \<sigma> in
     job_count g = int (length fs)
     \<and> ttat g = sum_list (map (\<lambda>m. et m - xxtime m) fs)
     \<and> twt g = sum_list (map (\<lambda>m. et m - xxtime m - rt m) fs)
     \<and> trt g = sum_list (map (\<lambda>m. st m - xxtime m) fs))"

inductive_cases sys_stepE: "sys_step offer poll \<sigma> \<sigma>'"

section \<open>The invariant\<close>

lemma waiting_sane_mono: "waiting_sane now m \<Longrightarrow> now \<le> t \<Longrightarrow> waiting_sane t m"
  by (auto simp: waiting_sane_def)

lemma waiting_new: "waiting_sane t (metadata (new_job_info n t p r))"
  by (simp add: waiting_sane_def new_job_info_def)

lemma start_running_facts:
  "info_key (metadata (start_running t j)) = info_key (metadata j)"
  "waiting_sane t (metadata j) \<Longrightarrow> running_sane t (metadata (start_running t j))"
  by (auto simp: start_running_def info_key_def waiting_sane_def running_sane_def Let_def)

lemma stop_running_facts:
  "info_key (metadata (stop_running t j)) = info_key (metadata j)"
  "running_sane now (metadata j) \<Longrightarrow> now \<le> t \<Longrightarrow> waiting_sane t (metadata (stop_running t j))"
  by (auto simp: stop_running_def info_key_def waiting_sane_def running_sane_def Let_def)

lemma finish_facts:
  "info_key (finish_info t j) = info_key (metadata j)"
  "running_sane now (metadata j) \<Longrightarrow> now \<le> t \<Longrightarrow> finished_sane (finish_info t j)"
  by (auto simp: finish_info_def info_key_def finished_sane_def running_sane_def Let_def)

lemma totals_step:
  "sys_step offer poll \<sigma> \<sigma>' \<Longrightarrow> totals_ok \<sigma> \<Longrightarrow> totals_ok \<sigma>'"
  by (erule sys_stepE)
    (auto simp: totals_ok_def scheduler_new_job_def scheduler_job_finished_def
      scheduler_quantum_expired_def poll_next_def finish_info_def Let_def
      split: prod.splits option.splits if_splits)

lemma totals_reachable: "reachable offer poll e \<sigma> \<Longrightarrow> totals_ok \<sigma>"
  by (induction rule: reachable.induct)
    (auto simp: totals_ok_def sys_start_def scheduler_start_up_def scheduler_zero_def Let_def
      bindE_eq_Inr_iff dest: totals_step)

lemma scheme_reachable: "reachable offer poll e \<sigma> \<Longrightarrow> pqueue_scheme (sched \<sigma>) \<noteq> OtherScheme"
proof (induction rule: reachable.induct)
  case (start s g)
  then show ?case by (cases s) (auto simp: scheduler_start_up_def sys_start_def)
next
  case (step \<sigma> \<sigma>')
  from step(2) step.IH show ?case
    by (cases rule: sys_step.cases)
      (auto simp: scheduler_new_job_def scheduler_job_finished_def scheduler_quantum_expired_def
        poll_next_def Let_def split: prod.splits option.splits if_splits)
qed

context priqueue
begin

lemma poll_next_ok:
  assumes "total_preorder (comparision_func g)" and "ok (comparision_func g) (pqueue g)"
    and "\<forall>j \<in># elems (pqueue g). waiting_sane t (metadata j)" and "poll_next poll t g = (r, g')"
  shows "comparision_func g' = comparision_func g \<and> ok (comparision_func g) (pqueue g')
    \<and> image_mset info_key (in_system (elems (pqueue g')) r)
        = image_mset info_key (in_system (elems (pqueue g)) None)
    \<and> (\<forall>j \<in># elems (pqueue g'). waiting_sane t (metadata j))
    \<and> (\<forall>j. r = Some j \<longrightarrow> running_sane t (metadata j)
          \<and> (\<exists>j0 \<in># elems (pqueue g). j = start_running t j0
              \<and> (\<forall>k \<in># elems (pqueue g). comparision_func g j0 k \<le> 0)))
    \<and> (r = None \<longrightarrow> elems (pqueue g) = {#})"
proof -
  obtain n q where p: "poll (comparision_func g) (pqueue g) = (n, q)" by fastforce
  then have r: "r = map_option (start_running t) n" "g' = g\<lparr>pqueue := q\<rparr>"
    using assms(4) by (simp_all add: poll_next_def)
  show ?thesis
  proof (cases n)
    case None
    then show ?thesis using poll_None [OF assms(2)] p r assms(2) by (simp add: in_system_def)
  next
    case (Some j)
    from poll_Some [OF assms(1,2) p [unfolded Some]] have
      e: "elems (pqueue g) = add_mset j (elems q)" "ok (comparision_func g) q"
        "\<forall>k \<in># elems q. comparision_func g j k \<le> 0" by auto
    have refl: "comparision_func g j j \<le> 0"
      using assms(1) unfolding total_preorder_def by (metis eq_neg_iff_add_eq_0 linorder_le_cases neg_equal_zero sgn_0_0 order_refl)
    have "\<forall>k \<in># elems (pqueue g). comparision_func g j k \<le> 0"
      using e refl by simp
    then show ?thesis
      using e r Some assms(3) start_running_facts [of t j] by (simp add: in_system_def)
  qed
qed

lemma sys_inv_start:
  "scheduler_start_up empty_q s (scheduler_zero empty_q) = Inr g \<Longrightarrow> sys_inv elems ok (sys_start g)"
  using start_up_preorder [of empty_q s "scheduler_zero empty_q" g]
  by (auto simp: sys_inv_def sys_start_def scheduler_start_up_def bindE_eq_Inr_iff ok_empty elems_empty
      in_system_def)

lemma sys_inv_step:
  assumes "sys_inv elems ok \<sigma>" and "sys_step offer poll \<sigma> \<sigma>'"
  shows "sys_inv elems ok \<sigma>'"
  using assms(2)
proof (cases rule: sys_step.cases)
  case (arrive t n p r)
  then show ?thesis
    using assms(1) waiting_new waiting_sane_mono
    by (auto simp: sys_inv_def scheduler_new_job_def ok_offer elems_offer in_system_def running_sane_def
        info_key_def new_job_info_def) 
next
  case (finish t j)
  then show ?thesis
    using assms(1) waiting_sane_mono finish_facts
    by (auto simp: sys_inv_def scheduler_job_finished_def in_system_def Let_def)
next
  case (quantum t j g)
  have now: "clock \<sigma> \<le> t" by (rule quantum(2))
  let ?g = "sched \<sigma>"
  have inv: "total_preorder (comparision_func ?g)" "ok (comparision_func ?g) (pqueue ?g)"
      "\<forall>j \<in># elems (pqueue ?g). waiting_sane t (metadata j)"
      "\<forall>m \<in> set (finished \<sigma>). finished_sane m"
    using assms(1) waiting_sane_mono [OF _ now] by (auto simp: sys_inv_def)
  have arr: "arrived \<sigma> = image_mset info_key (in_system (elems (pqueue ?g)) (running \<sigma>) + mset (finished \<sigma>))"
    using assms(1) by (simp add: sys_inv_def)
  have goal: "sys_inv elems ok \<sigma>'"
    if q: "comparision_func g0 = comparision_func ?g" "ok (comparision_func ?g) (pqueue g0)"
      "\<forall>j \<in># elems (pqueue g0). waiting_sane t (metadata j)" "poll_next poll t g0 = (j, g)"
      "image_mset info_key (in_system (elems (pqueue g0)) None)
         = image_mset info_key (in_system (elems (pqueue ?g)) (running \<sigma>))" for g0
  proof -
    have "total_preorder (comparision_func g0)" "ok (comparision_func g0) (pqueue g0)"
      using inv(1) q(1,2) by simp_all
    from poll_next_ok [OF this q(3,4)] show ?thesis
      using inv arr q quantum(1) by (auto simp: sys_inv_def)
  qed
  show ?thesis
  proof (cases "running \<sigma>")
    case None
    then have "poll_next poll t ?g = (j, g)"
      using quantum(3) by (simp add: scheduler_quantum_expired_def split: if_splits)
    then show ?thesis using goal [of ?g] inv None by simp
  next
    case (Some k)
    then have k: "running_sane (clock \<sigma>) (metadata k)" using assms(1) by (simp add: sys_inv_def)
    show ?thesis
    proof (cases "pqueue_scheme ?g \<in> {PSRTF, PPRI, RR}")
      case True
      let ?h = "?g\<lparr>pqueue := offer (comparision_func ?g) (stop_running t k) (pqueue ?g)\<rparr>"
      have "poll_next poll t ?h = (j, g)"
        using quantum(3) True Some by (simp add: scheduler_quantum_expired_def)
      then show ?thesis
        using goal [of ?h] inv Some stop_running_facts(1) [of t k] stop_running_facts(2) [OF k now]
        by (auto simp: ok_offer elems_offer in_system_def)
    next
      case False
      then have "j = Some k" "g = ?g" using quantum(3) Some by (simp_all add: scheduler_quantum_expired_def)
      then show ?thesis
        using inv arr k Some now quantum(1) by (auto simp: sys_inv_def running_sane_def)
    qed
  qed
qed

lemma sys_inv_reachable: "reachable offer poll empty_q \<sigma> \<Longrightarrow> sys_inv elems ok \<sigma>"
  by (induction rule: reachable.induct) (auto intro: sys_inv_start sys_inv_step)

end

section \<open>Properties\<close>

text \<open>
  The comparer every scheme installs orders the jobs totally (comparing the other way round
  negates the sign, and the order is transitive); an unknown scheme ends the process.
\<close>

theorem scheduler_start_up_correct:
  "case scheduler_start_up e s g of
     Inl f \<Rightarrow> s = OtherScheme \<and> f = ProcessExit 1
   | Inr g' \<Rightarrow> s \<noteq> OtherScheme \<and> pqueue_scheme g' = s \<and> pqueue g' = e
       \<and> total_preorder (comparision_func g') \<and> job_count g' = job_count g"
  by (cases s) (simp_all add: scheduler_start_up_def preorder_comparers)

text \<open>
  C4: no job is lost or duplicated: in every reachable state the jobs in the queue, the running one
  and the finished ones are exactly those that arrived, with their priorities, running
  times and arrival times.
\<close>

theorem scheduler_conserves_jobs:
  assumes "priqueue offer poll e elems ok" and "reachable offer poll e \<sigma>"
  shows "arrived \<sigma> = image_mset info_key
     (in_system (elems (pqueue (sched \<sigma>))) (running \<sigma>) + mset (finished \<sigma>))
   \<and> job_count (sched \<sigma>) = int (length (finished \<sigma>))"
  using priqueue.sys_inv_reachable [OF assms] totals_reachable [OF assms(2)]
  by (simp add: sys_inv_def totals_ok_def Let_def)

definition demo_start :: "job list sys" where
  "demo_start = sys_start ((scheduler_zero [])\<lparr>comparision_func := comparer_rr, pqueue_scheme := RR\<rparr>)"

definition demo_arrived :: "job list sys" where
  "demo_arrived = demo_start\<lparr>sched := scheduler_new_job list_offer 7 2 1 5 (sched demo_start),
     arrived := {#(7, 1, 5, 2)#}, clock := 2\<rparr>"

definition demo_running :: "job list sys" where
  "demo_running = (case scheduler_quantum_expired list_offer list_poll None 3 (sched demo_arrived) of
     (j, g) \<Rightarrow> demo_arrived\<lparr>sched := g, running := j, clock := 3\<rparr>)"

definition demo_job :: job where
  "demo_job = \<lparr>metadata = \<lparr>id_no = 7, priority = 1, rt = 5, rr_time = 3, xxtime = 2, et = 0, ut = 0, st = 3\<rparr>\<rparr>"

definition demo_finished :: "job list sys" where
  "demo_finished = demo_running\<lparr>sched := scheduler_job_finished demo_job 8 (sched demo_running), running := None,
      finished := [finish_info 8 demo_job], clock := 8\<rparr>"

lemmas demo_defs = demo_start_def demo_arrived_def demo_running_def demo_job_def demo_finished_def
  sys_start_def scheduler_zero_def scheduler_new_job_def new_job_info_def scheduler_quantum_expired_def
  poll_next_def start_running_def scheduler_job_finished_def finish_info_def

lemma demo_reachable:
  "reachable list_offer list_poll [] demo_arrived" "reachable list_offer list_poll [] demo_finished"
proof -
  have "scheduler_start_up [] RR (scheduler_zero [])
      = Inr ((scheduler_zero [])\<lparr>comparision_func := comparer_rr, pqueue_scheme := RR\<rparr>)"
    by (simp add: scheduler_start_up_def scheduler_zero_def)
  then have "reachable list_offer list_poll [] demo_start"
    unfolding demo_start_def by (rule reachable.start)
  moreover have "sys_step list_offer list_poll demo_start demo_arrived"
    using sys_step.arrive [of demo_start 2 list_offer list_poll 7 1 5]
    by (simp add: demo_arrived_def) (simp add: demo_start_def sys_start_def)
  ultimately show a: "reachable list_offer list_poll [] demo_arrived" by (rule reachable.step)
  have run: "running demo_running = Some demo_job" by (simp add: demo_defs)
  have "sys_step list_offer list_poll demo_arrived demo_running"
    by (rule sys_step.quantum [of _ 3, THEN back_subst [where P = "sys_step list_offer list_poll demo_arrived"]])
      (simp_all add: demo_defs)
  with a have "reachable list_offer list_poll [] demo_running" by (rule reachable.step)
  moreover have "sys_step list_offer list_poll demo_running demo_finished"
    using sys_step.finish [of demo_running 8 demo_job list_offer list_poll] run
    by (simp add: demo_finished_def) (simp add: demo_defs)
  ultimately show "reachable list_offer list_poll [] demo_finished" by (rule reachable.step)
qed

theorem scheduler_conserves_jobs_witness:
  "arrived demo_finished = image_mset info_key
     (in_system (mset (pqueue (sched demo_finished))) (running demo_finished) + mset (finished demo_finished))
   \<and> job_count (sched demo_finished) = 1"
  using scheduler_conserves_jobs [OF list_queue.priqueue_axioms demo_reachable(2)]
  by (simp add: demo_finished_def)

definition candidates :: "('q \<Rightarrow> job multiset) \<Rightarrow> rat \<Rightarrow> 'q sys \<Rightarrow> job multiset" where
  "candidates elems t \<sigma> = elems (pqueue (sched \<sigma>))
     + (case running \<sigma> of None \<Rightarrow> {#} | Some j \<Rightarrow> {#stop_running t j#})"

text \<open>
  What runs after a quantum. Without preemption the running job goes on. Otherwise the
  running job, charged for the time it ran, joins the waiting ones, and one of them that no other is before is
  started; no job runs only when none is left.
\<close>

theorem scheduler_quantum_expired_correct:
  assumes "priqueue offer poll e elems ok" and "reachable offer poll e \<sigma>" and "clock \<sigma> \<le> t"
    and "scheduler_quantum_expired offer poll (running \<sigma>) t (sched \<sigma>) = (r, g)"
  shows "if running \<sigma> \<noteq> None \<and> pqueue_scheme (sched \<sigma>) \<in> {FCFS, PRI, SJF}
         then r = running \<sigma> \<and> g = sched \<sigma>
         else (r = None \<longrightarrow> candidates elems t \<sigma> = {#})
            \<and> (\<forall>j. r = Some j \<longrightarrow> (\<exists>j0 \<in># candidates elems t \<sigma>. j = start_running t j0
                 \<and> (\<forall>k \<in># candidates elems t \<sigma>. comparision_func (sched \<sigma>) j0 k \<le> 0)))"
proof -
  let ?g = "sched \<sigma>"
  have inv: "total_preorder (comparision_func ?g)" "ok (comparision_func ?g) (pqueue ?g)"
      "\<forall>j \<in># elems (pqueue ?g). waiting_sane t (metadata j)"
    using priqueue.sys_inv_reachable [OF assms(1,2)] waiting_sane_mono [OF _ assms(3)]
    by (auto simp: sys_inv_def)
  note poll = priqueue.poll_next_ok [OF assms(1)]
  have scheme: "pqueue_scheme ?g \<in> {PSRTF, PPRI, RR} \<or> pqueue_scheme ?g \<in> {FCFS, PRI, SJF}"
    using scheme_reachable [OF assms(2)] by (cases "pqueue_scheme ?g") auto
  show ?thesis
  proof (cases "running \<sigma>")
    case None
    then have "poll_next poll t ?g = (r, g)"
      using assms(4) by (simp add: scheduler_quantum_expired_def split: if_splits)
    from poll [OF inv this] show ?thesis using None by (auto simp: candidates_def)
  next
    case (Some k)
    show ?thesis
    proof (cases "pqueue_scheme ?g \<in> {PSRTF, PPRI, RR}")
      case True
      let ?h = "?g\<lparr>pqueue := offer (comparision_func ?g) (stop_running t k) (pqueue ?g)\<rparr>"
      have k: "running_sane (clock \<sigma>) (metadata k)"
        using priqueue.sys_inv_reachable [OF assms(1,2)] Some by (simp add: sys_inv_def)
      have e: "elems (pqueue ?h) = candidates elems t \<sigma>"
        using priqueue.elems_offer [OF assms(1) inv(1,2)] Some by (simp add: candidates_def)
      have o: "total_preorder (comparision_func ?h)" "ok (comparision_func ?h) (pqueue ?h)"
        using inv(1) priqueue.ok_offer [OF assms(1) inv(1,2)] by simp_all
      have w: "\<forall>j \<in># elems (pqueue ?h). waiting_sane t (metadata j)"
        unfolding e using inv(3) stop_running_facts(2) [OF k assms(3)] Some by (simp add: candidates_def)
      have "poll_next poll t ?h = (r, g)"
        using assms(4) True Some by (simp add: scheduler_quantum_expired_def)
      from poll [OF o w this] show ?thesis
        unfolding e using True by auto
    next
      case False
      then show ?thesis using assms(4) Some scheme by (auto simp: scheduler_quantum_expired_def)
    qed
  qed
qed

theorem scheduler_quantum_expired_correct_witness:
  "\<exists>j. fst (scheduler_quantum_expired list_offer list_poll (running demo_arrived) 3 (sched demo_arrived)) = Some j"
proof -
  obtain r g where q: "scheduler_quantum_expired list_offer list_poll (running demo_arrived) 3
      (sched demo_arrived) = (r, g)" by fastforce
  have "clock demo_arrived \<le> 3" by (simp add: demo_defs)
  from scheduler_quantum_expired_correct [OF list_queue.priqueue_axioms demo_reachable(1) this q]
  have "r \<noteq> None" by (simp add: candidates_def demo_defs)
  then show ?thesis using q by auto
qed

text \<open>
  The averages. They are not numbers before the first job has finished; after that, the
  response time is between 0 and the turnaround time, and the waiting time is the turnaround
  time less the average running time asked for.
\<close>

theorem scheduler_averages:
  assumes "priqueue offer poll e elems ok" and "reachable offer poll e \<sigma>"
  shows "if finished \<sigma> = []
         then scheduler_average_waiting_time (sched \<sigma>) = None
            \<and> scheduler_average_turnaround_time (sched \<sigma>) = None
            \<and> scheduler_average_response_time (sched \<sigma>) = None
         else \<exists>w tt r. scheduler_average_waiting_time (sched \<sigma>) = Some w
            \<and> scheduler_average_turnaround_time (sched \<sigma>) = Some tt
            \<and> scheduler_average_response_time (sched \<sigma>) = Some r
            \<and> 0 \<le> r \<and> r \<le> tt
            \<and> w = tt - sum_list (map rt (finished \<sigma>)) / of_nat (length (finished \<sigma>))"
proof (cases "finished \<sigma> = []")
  case True
  then show ?thesis using totals_reachable [OF assms(2)]
    by (simp add: totals_ok_def Let_def average_def scheduler_average_waiting_time_def
        scheduler_average_turnaround_time_def scheduler_average_response_time_def)
next
  case False
  let ?fs = "finished \<sigma>" and ?n = "of_nat (length (finished \<sigma>)) :: rat"
  have tot: "job_count (sched \<sigma>) = int (length ?fs)"
      "ttat (sched \<sigma>) = sum_list (map (\<lambda>m. et m - xxtime m) ?fs)"
      "twt (sched \<sigma>) = sum_list (map (\<lambda>m. et m - xxtime m - rt m) ?fs)"
      "trt (sched \<sigma>) = sum_list (map (\<lambda>m. st m - xxtime m) ?fs)"
    using totals_reachable [OF assms(2)] by (simp_all add: totals_ok_def Let_def)
  have sane: "\<forall>m \<in> set ?fs. finished_sane m"
    using priqueue.sys_inv_reachable [OF assms] by (simp add: sys_inv_def)
  have n: "0 < ?n" using False by simp
  have "0 \<le> trt (sched \<sigma>)" unfolding tot(4)
    using sane by (intro sum_list_nonneg) (auto simp: finished_sane_def)
  moreover have "trt (sched \<sigma>) \<le> ttat (sched \<sigma>)" unfolding tot(2,4)
    using sane by (intro sum_list_mono) (auto simp: finished_sane_def)
  moreover have "twt (sched \<sigma>) = ttat (sched \<sigma>) - sum_list (map rt ?fs)"
    unfolding tot(2,3) by (simp add: sum_list_subtractf)
  ultimately show ?thesis
    using False n tot(1)
    by (simp add: average_def scheduler_average_waiting_time_def
        scheduler_average_turnaround_time_def scheduler_average_response_time_def
        divide_right_mono diff_divide_distrib)
qed

theorem scheduler_averages_witness:
  "\<exists>w tt r. scheduler_average_waiting_time (sched demo_finished) = Some w
     \<and> scheduler_average_turnaround_time (sched demo_finished) = Some tt
     \<and> scheduler_average_response_time (sched demo_finished) = Some r \<and> 0 \<le> r \<and> r \<le> tt \<and> w = tt - 5"
  using scheduler_averages [OF list_queue.priqueue_axioms demo_reachable(2)]
  by (simp add: demo_finished_def) (simp add: finish_info_def demo_job_def)

end
