(* ===== verification/Shell.thy ===== *)
theory Shell
  imports SString "HOL-Library.Char_ord"
begin

text \<open>
  \<^verbatim>\<open>shell/shell.c\<close>: splitting a line into arguments with the operators \<open>&&\<close>, \<open>||\<close> and \<open>;\<close>, the history, and the
  main loop. The splitting of a string is \<open>split_on\<close>, which \<open>sstring_split_correct\<close> shows \<^verbatim>\<open>sstring_split\<close> of
  \<^verbatim>\<open>vector/sstring.c\<close> to compute; a vector of strings is the list of the strings. What the operating system does
  (\<^verbatim>\<open>chdir\<close>, and \<^verbatim>\<open>fork\<close>, \<^verbatim>\<open>execvp\<close> and \<^verbatim>\<open>waitpid\<close> taken together) is a parameter that
  acts on the state \<open>'w\<close> of the world. The messages of \<^verbatim>\<open>format.c\<close> are recorded. \<^verbatim>\<open>get_args\<close> does not
  free the vectors it replaces; that leak is not modelled.
\<close>

section \<open>The state\<close>

datatype child = ForkFailed | Exited nat | Killed

record 'w system =
  chdir :: "string \<Rightarrow> 'w \<Rightarrow> bool \<times> 'w"
  run_child :: "string list \<Rightarrow> 'w \<Rightarrow> child \<times> 'w"

datatype print =
    Prompt | EchoLine string | HistoryLine nat string | NoDirectory string | InvalidIndex | NoHistoryMatch
  | ForkFailure | HistoryFileError | Usage

datatype operator = NoOp | AndOp | OrOp | SeqOp

record 'w shell =
  history :: "string list"
  args :: "string list"
  args1 :: "string list"
  args2 :: "string list"
  op_code :: operator
  cmd_line :: string
  prints :: "print list"
  world :: 'w

definition say :: "print \<Rightarrow> 'w shell \<Rightarrow> 'w shell" where
  "say p s = s\<lparr>prints := prints s @ [p]\<rparr>"

definition remember :: "string \<Rightarrow> 'w shell \<Rightarrow> 'w shell" where
  "remember l s = s\<lparr>history := history s @ [l]\<rparr>"

section \<open>Arguments\<close>

definition yeet :: "string \<Rightarrow> string" where
  "yeet target = takeWhile (\<lambda>c. c \<noteq> CHR 0x0A) target"

definition skeet :: "string \<Rightarrow> string" where
  "skeet target = butlast target"

text \<open>
  The loop over the arguments: at \<open>i\<close>, with the arguments, the two vectors and the operator so
  far. The last character of an empty argument is looked for before its first.
\<close>

function get_args_loop :: "nat \<Rightarrow> string list \<Rightarrow> string list \<Rightarrow> string list \<Rightarrow> operator
    \<Rightarrow> (string list \<times> string list \<times> string list \<times> operator) res" where
  "get_args_loop i as as1 as2 oper =
     (if i < length as
      then (let w = yeet (as ! i); as = as[i := w] in
        if w = ''&&'' then get_args_loop (Suc i) as (as1 @ take i as) (as2 @ drop (Suc i) as) AndOp
        else if w = ''||'' then get_args_loop (Suc i) as (as1 @ take i as) (as2 @ drop (Suc i) as) OrOp
        else if w = [] then Inl OutOfBounds
        else if last w = CHR '';''
        then (let as = as[i := skeet w]
              in get_args_loop (Suc i) as (as1 @ take i as) (as2 @ drop i as) SeqOp)
        else get_args_loop (Suc i) as as1 as2 oper)
      else Inr (as, as1, as2, oper))"
  by pat_completeness auto
termination
  by (relation "measure (\<lambda>(i, as, _). length as - i)") auto

declare get_args_loop.simps [simp del]

definition get_args :: "string \<Rightarrow> 'w shell \<Rightarrow> 'w shell res" where
  "get_args l s =
     bindE (get_args_loop 0 (split_on (CHR '' '') (yeet l)) [] [] NoOp) (\<lambda>(as, as1, as2, oper).
       Inr (s\<lparr>args := as, args1 := as1, args2 := as2, op_code := oper\<rparr>))"

section \<open>Running a command\<close>

definition change_directory :: "'w system \<Rightarrow> string list \<Rightarrow> 'w shell \<Rightarrow> (bool \<times> 'w shell) res" where
  "change_directory sys as s =
     (if length as = 1 then Inr (False, s)
      else let (ok, w) = chdir sys (as ! 1) (world s); s = s\<lparr>world := w\<rparr> in
        if \<not> ok then Inr (False, say (NoDirectory (as ! 1)) s) else Inr (True, s))"

definition spoon :: "'w system \<Rightarrow> string list \<Rightarrow> 'w shell \<Rightarrow> (bool \<times> 'w shell) res" where
  "spoon sys as s =
     (if as = [] then Inl AssertFailed
      else if as ! 0 = ''cd'' then change_directory sys as (remember (cmd_line s) s)
      else let (c, w) = run_child sys as (world s); s = s\<lparr>world := w\<rparr> in
        (case c of ForkFailed \<Rightarrow> Inr (False, say ForkFailure s)
         | Exited n \<Rightarrow> Inr (n = 0, s)
         | Killed \<Rightarrow> Inr (False, s)))"

section \<open>The history\<close>

text \<open>
  \<^verbatim>\<open>sscanf\<close> with \<^verbatim>\<open>%zd\<close>: blanks, a sign, digits; a value out of range is the nearest one. \<open>None\<close> when there is no digit.
\<close>

definition is_digit :: "char \<Rightarrow> bool" where
  "is_digit c \<longleftrightarrow> CHR ''0'' \<le> c \<and> c \<le> CHR ''9''"

definition digits_value :: "string \<Rightarrow> nat" where
  "digits_value ds = foldl (\<lambda>n c. 10 * n + (of_char c - 48)) 0 ds"

definition is_blank :: "char \<Rightarrow> bool" where
  "is_blank c \<longleftrightarrow> c \<in> {CHR '' '', CHR 0x09, CHR 0x0A, CHR 0x0B, CHR 0x0C, CHR 0x0D}"

definition scan_zd :: "string \<Rightarrow> 64 word option" where
  "scan_zd s =
     (let t = dropWhile is_blank s; neg = (t \<noteq> [] \<and> hd t = CHR ''-'');
          u = (if t \<noteq> [] \<and> hd t \<in> {CHR ''-'', CHR ''+''} then tl t else t);
          ds = takeWhile is_digit u; v = int (digits_value ds) in
      if ds = [] then None
      else Some (word_of_int (if neg then max (- (2 ^ 63)) (- v) else min (2 ^ 63 - 1) v)))"

definition nth_cmd :: "'w shell \<Rightarrow> (bool \<times> 'w shell) res" where
  "nth_cmd s =
     (case scan_zd (drop 1 (args s ! 0)) of
        None \<Rightarrow> Inl Uninitialised
      | Some num \<Rightarrow>
          if unat num < length (history s)
          then let past = history s ! unat num in
               bindE (get_args past s) (\<lambda>s'.
                 Inr (True, remember (yeet past) (s'\<lparr>history := (history s')[unat num := yeet past]\<rparr>)))
          else Inr (False, say InvalidIndex s))"

text \<open>From the last line of the history down, the first that starts with the query.\<close>

fun prefix_loop :: "nat \<Rightarrow> string \<Rightarrow> 'w shell \<Rightarrow> (bool \<times> 'w shell) res" where
  "prefix_loop 0 query s = Inr (False, say NoHistoryMatch s)"
| "prefix_loop (Suc i) query s =
     (if take (length query) (history s ! i) = query
      then let past = history s ! i in
           bindE (get_args past s) (\<lambda>s'.
             Inr (True, remember (yeet past) (s'\<lparr>history := (history s')[i := yeet past]\<rparr>)))
      else prefix_loop i query s)"

definition prefix :: "'w shell \<Rightarrow> (bool \<times> 'w shell) res" where
  "prefix s =
     (if length (args s ! 0) = 1
      then if history s \<noteq> []
           then let past = last (history s) in
                bindE (get_args past s) (\<lambda>s'.
                  Inr (True, remember (yeet past) (s'\<lparr>history := butlast (history s') @ [yeet past]\<rparr>)))
           else Inr (False, say NoHistoryMatch s)
      else prefix_loop (length (history s)) (drop 1 (cmd_line s)) s)"

definition print_history :: "'w shell \<Rightarrow> 'w shell" where
  "print_history s = s\<lparr>prints := prints s @ map (\<lambda>i. HistoryLine i (history s ! i)) [0..<length (history s)]\<rparr>"

definition read_history :: "string list option \<Rightarrow> 'w shell \<Rightarrow> 'w shell" where
  "read_history h s =
     (case h of None \<Rightarrow> say HistoryFileError s | Some ls \<Rightarrow> s\<lparr>history := history s @ map yeet ls\<rparr>)"

text \<open>
  \<^verbatim>\<open>strcat\<close> into a buffer of these cells. The copies the vector made of the lines have no cell after
  their terminator.
\<close>

definition c_strcat :: "string \<Rightarrow> string \<Rightarrow> string res" where
  "c_strcat cells t =
     bindE (scan_nul cells) (\<lambda>n.
       if n + length t < length cells
       then Inr (take n cells @ t @ [NUL] @ drop (n + length t + 1) cells) else Inl OutOfBounds)"

fun write_history :: "string list \<Rightarrow> string res" where
  "write_history [] = Inr []"
| "write_history (h # hs) =
     bindE (c_strcat (enc_str h) [CHR 0x0A]) (\<lambda>l.
     bindE (scan_nul l) (\<lambda>n. bindE (write_history hs) (\<lambda>out. Inr (take n l @ out))))"

section \<open>The main loop\<close>

text \<open>One line that is not empty; the flag says whether to go on.\<close>

definition do_line :: "'w system \<Rightarrow> bool \<Rightarrow> string \<Rightarrow> 'w shell \<Rightarrow> (bool \<times> 'w shell) res" where
  "do_line sys script l s0 =
     (let s1 = (if script then say (EchoLine l) s0 else s0) in
      bindE (get_args l (s1\<lparr>cmd_line := l\<rparr>)) (\<lambda>s2.
      let s = s2\<lparr>cmd_line := yeet l\<rparr> in
        if args s ! 0 = ''exit'' then Inr (False, s)
        else if args s ! 0 = ''!history'' then Inr (True, print_history s)
        else if args s ! 0 \<noteq> [] \<and> hd (args s ! 0) = CHR ''#''
        then bindE (nth_cmd s) (\<lambda>(b, s').
             if b then bindE (spoon sys (args s') s') (\<lambda>(_, s''). Inr (True, s'')) else Inr (True, s'))
        else if args s ! 0 \<noteq> [] \<and> hd (args s ! 0) = CHR ''!''
        then bindE (prefix s) (\<lambda>(b, s').
             if b then bindE (spoon sys (args s') s') (\<lambda>(_, s''). Inr (True, s'')) else Inr (True, s'))
        else let s' = remember (cmd_line s) s in
          (case op_code s' of
             AndOp \<Rightarrow> bindE (spoon sys (args1 s') s') (\<lambda>(b, t).
                 if b then bindE (spoon sys (args2 t) t) (\<lambda>(_, u). Inr (True, u)) else Inr (True, t))
           | OrOp \<Rightarrow> bindE (spoon sys (args1 s') s') (\<lambda>(b, t).
                 if \<not> b then bindE (spoon sys (args2 t) t) (\<lambda>(_, u). Inr (True, u)) else Inr (True, t))
           | SeqOp \<Rightarrow> bindE (spoon sys (args1 s') s') (\<lambda>(b, t).
                 bindE (spoon sys (args2 t) t) (\<lambda>(_, u). Inr (True, u)))
           | NoOp \<Rightarrow> bindE (spoon sys (args s') s') (\<lambda>(_, t). Inr (True, t)))))"

fun shell_loop :: "'w system \<Rightarrow> bool \<Rightarrow> string list \<Rightarrow> 'w shell \<Rightarrow> 'w shell res" where
  "shell_loop sys script [] s = Inr (say Prompt s)"
| "shell_loop sys script (l # ls) s =
     (if l = [CHR 0x0A] then shell_loop sys script ls (say Prompt s)
      else bindE (do_line sys script l (say Prompt s)) (\<lambda>(go, s').
        if go then shell_loop sys script ls s' else Inr s'))"

definition end_shell :: "bool \<Rightarrow> 'w shell \<Rightarrow> (string option \<times> 'w shell) res" where
  "end_shell to_file s =
     (if to_file then bindE (write_history (history s)) (\<lambda>out. Inr (Some out, s)) else Inr (None, s))"

text \<open>
  The options as \<^verbatim>\<open>getopt\<close> returns them: a script with its lines (\<open>None\<close>: it
  cannot be opened, and \<^verbatim>\<open>getline\<close> gets a null stream), a history file with its lines, or something else.
\<close>

datatype opt = ScriptOpt "string list option" | HistoryOpt "string list option" | BadOpt

fun shell_options :: "opt list \<Rightarrow> string list option option \<Rightarrow> bool \<Rightarrow> 'w shell
    \<Rightarrow> (string list option option \<times> bool \<times> 'w shell) option" where
  "shell_options [] script hist s = Some (script, hist, s)"
| "shell_options (ScriptOpt ls # os) script hist s = shell_options os (Some ls) hist s"
| "shell_options (HistoryOpt ls # os) script hist s = shell_options os script True (read_history ls s)"
| "shell_options (BadOpt # os) script hist s = None"

definition shell_main :: "'w system \<Rightarrow> nat \<Rightarrow> opt list \<Rightarrow> string list \<Rightarrow> 'w \<Rightarrow> (string option \<times> 'w shell) res" where
  "shell_main sys argc opts stdin w =
     (let s = \<lparr>history = [], args = [], args1 = [], args2 = [], op_code = NoOp, cmd_line = [], prints = [], world = w\<rparr> in
      case shell_options opts None False s of
        None \<Rightarrow> Inr (None, say Usage s)
      | Some (script, hist, s') \<Rightarrow>
          if script = None \<and> \<not> hist \<and> 1 < argc then Inr (None, say Usage s')
          else (case script of
                  None \<Rightarrow> bindE (shell_loop sys False stdin s') (end_shell hist)
                | Some None \<Rightarrow> Inl NullDeref
                | Some (Some ls) \<Rightarrow> bindE (shell_loop sys True ls s') (end_shell hist)))"

section \<open>Lines of plain words\<close>

text \<open>A word that is neither an operator nor ends in a semicolon.\<close>

definition plain :: "string \<Rightarrow> bool" where
  "plain w \<longleftrightarrow> w \<noteq> [] \<and> CHR '' '' \<notin> set w \<and> CHR 0x0A \<notin> set w \<and> w \<noteq> ''&&'' \<and> w \<noteq> ''||'' \<and> last w \<noteq> CHR '';''"

definition word_chars :: "string \<Rightarrow> bool" where
  "word_chars w \<longleftrightarrow> CHR '' '' \<notin> set w \<and> CHR 0x0A \<notin> set w"

lemma plain_word_chars [simp]: "plain w \<Longrightarrow> word_chars w"
  by (simp add: plain_def word_chars_def)

lemma word_chars_operators [simp]: "word_chars ''&&''" "word_chars ''||''"
  by (simp_all add: word_chars_def)

definition line_of :: "string list \<Rightarrow> string" where
  "line_of ws = join_with (CHR '' '') ws"

lemma yeet_no_newline [simp]: "CHR 0x0A \<notin> set w \<Longrightarrow> yeet w = w"
  by (auto simp: yeet_def takeWhile_eq_all_conv)

lemma yeet_newline [simp]: "CHR 0x0A \<notin> set w \<Longrightarrow> yeet (w @ CHR 0x0A # t) = w"
  by (induction w) (auto simp: yeet_def)

lemma line_of_no_newline: "list_all word_chars ws \<Longrightarrow> CHR 0x0A \<notin> set (line_of ws)"
  unfolding line_of_def by (induction "CHR '' ''" ws rule: join_with.induct) (auto simp: word_chars_def)

lemma split_on_word: "d \<notin> set w \<Longrightarrow> split_on d w = [w]"
  by (induction w) auto

lemma split_on_append: "d \<notin> set w \<Longrightarrow> split_on d (w @ d # t) = w # split_on d t"
  by (induction w) auto

lemma split_line_of: "list_all word_chars ws \<Longrightarrow> ws \<noteq> [] \<Longrightarrow> split_on (CHR '' '') (line_of ws) = ws"
  unfolding line_of_def
  by (induction "CHR '' ''" ws rule: join_with.induct) (auto simp: word_chars_def split_on_word split_on_append)

lemma get_args_plain:
  "list_all plain ws \<Longrightarrow> get_args_loop (length pre) (pre @ ws @ rest) as1 as2 oper
     = get_args_loop (length pre + length ws) (pre @ ws @ rest) as1 as2 oper"
proof (induction ws arbitrary: pre)
  case (Cons w ws)
  have "get_args_loop (length pre) (pre @ (w # ws) @ rest) as1 as2 oper
      = get_args_loop (length (pre @ [w])) ((pre @ [w]) @ ws @ rest) as1 as2 oper"
    using Cons.prems by (subst get_args_loop.simps) (simp add: plain_def nth_append)
  then show ?case using Cons.IH [of "pre @ [w]"] Cons.prems by simp
qed simp

lemma get_args_loop_end: "length as \<le> i \<Longrightarrow> get_args_loop i as as1 as2 oper = Inr (as, as1, as2, oper)"
  by (subst get_args_loop.simps) simp

lemma get_args_words:
  assumes "list_all plain ws" and "ws \<noteq> []"
  shows "get_args (line_of ws @ [CHR 0x0A]) s = Inr (s\<lparr>args := ws, args1 := [], args2 := [], op_code := NoOp\<rparr>)"
proof -
  have w: "list_all word_chars ws" using assms(1) by (auto simp: list_all_iff)
  show ?thesis using get_args_plain [OF assms(1), of "[]" "[]"] line_of_no_newline [OF w] split_line_of [OF w assms(2)]
    by (simp add: get_args_def get_args_loop_end)
qed

lemma get_args_operator:
  assumes "list_all plain ws1" and "list_all plain ws2" and "oper = ''&&'' \<or> oper = ''||''"
  shows "get_args (line_of (ws1 @ oper # ws2) @ [CHR 0x0A]) s
    = Inr (s\<lparr>args := ws1 @ oper # ws2, args1 := ws1, args2 := ws2, op_code := (if oper = ''&&'' then AndOp else OrOp)\<rparr>)"
proof -
  let ?ws = "ws1 @ oper # ws2" and ?o = "if oper = ''&&'' then AndOp else OrOp"
  have w: "list_all word_chars ?ws" using assms by (auto simp: list_all_iff)
  have "get_args_loop 0 ?ws [] [] NoOp = get_args_loop (length ws1) ?ws [] [] NoOp"
    using get_args_plain [OF assms(1), of "[]" "oper # ws2"] by simp
  also have "\<dots> = get_args_loop (length (ws1 @ [oper])) ((ws1 @ [oper]) @ ws2 @ []) ws1 ws2 ?o"
    using assms(3) by (subst get_args_loop.simps) (auto simp: nth_append yeet_def)
  also have "\<dots> = Inr (?ws, ws1, ws2, ?o)"
    unfolding get_args_plain [OF assms(2)] by (simp add: get_args_loop_end)
  finally show ?thesis using line_of_no_newline [OF w] split_line_of [OF w] by (simp add: get_args_def)
qed

text \<open>A command that is run in a child: plain words, none of the shell's own commands.\<close>

definition program :: "string list \<Rightarrow> bool" where
  "program ws \<longleftrightarrow> ws \<noteq> [] \<and> list_all plain ws \<and> hd ws \<notin> {''cd'', ''exit'', ''!history''}
     \<and> hd (hd ws) \<notin> {CHR ''#'', CHR ''!''}"

lemma spoon_program:
  assumes "program ws"
  shows "\<exists>s'. spoon sys ws s = Inr (fst (run_child sys ws (world s)) = Exited 0, s')
    \<and> world s' = snd (run_child sys ws (world s)) \<and> history s' = history s
    \<and> args1 s' = args1 s \<and> args2 s' = args2 s"
proof -
  have "ws \<noteq> []" "ws ! 0 \<noteq> ''cd''" using assms by (auto simp: program_def hd_conv_nth)
  moreover obtain c w where "run_child sys ws (world s) = (c, w)" by (cases "run_child sys ws (world s)")
  ultimately show ?thesis by (cases c) (auto simp: spoon_def say_def)
qed

text \<open>A line whose first word is no command of the shell itself is remembered and run by its operator.\<close>

lemma do_line_program:
  assumes "program ws1" and "get_args l (s\<lparr>cmd_line := l\<rparr>) = Inr (s\<lparr>cmd_line := l, args := ws1 @ as, args1 := as1, args2 := as2, op_code := oper\<rparr>)"
  shows "do_line sys False l s =
     (let s' = s\<lparr>cmd_line := yeet l, args := ws1 @ as, args1 := as1, args2 := as2, op_code := oper, history := history s @ [yeet l]\<rparr> in
      case oper of
        AndOp \<Rightarrow> bindE (spoon sys as1 s') (\<lambda>(b, t).
          if b then bindE (spoon sys (args2 t) t) (\<lambda>(_, u). Inr (True, u)) else Inr (True, t))
      | OrOp \<Rightarrow> bindE (spoon sys as1 s') (\<lambda>(b, t).
          if \<not> b then bindE (spoon sys (args2 t) t) (\<lambda>(_, u). Inr (True, u)) else Inr (True, t))
      | SeqOp \<Rightarrow> bindE (spoon sys as1 s') (\<lambda>(b, t). bindE (spoon sys (args2 t) t) (\<lambda>(_, u). Inr (True, u)))
      | NoOp \<Rightarrow> bindE (spoon sys (ws1 @ as) s') (\<lambda>(_, t). Inr (True, t)))"
proof -
  obtain w ws where "ws1 = w # ws" "w \<noteq> []" "w \<notin> {''exit'', ''!history''}" "hd w \<notin> {CHR ''#'', CHR ''!''}"
    using assms(1) by (cases ws1) (auto simp: program_def plain_def)
  then show ?thesis using assms(2) by (cases s; cases oper) (simp_all add: do_line_def remember_def Let_def)
qed

text \<open>A system that records the commands it runs; \<open>false\<close> fails.\<close>

definition recorder :: "string list list system" where
  "recorder = \<lparr>chdir = (\<lambda>d w. (True, w @ [[d]])),
     run_child = (\<lambda>as w. (if as ! 0 = ''false'' then Exited 1 else Exited 0, w @ [as]))\<rparr>"

definition shell_start :: "string list \<Rightarrow> string list list shell" where
  "shell_start hs = \<lparr>history = hs, args = [], args1 = [], args2 = [], op_code = NoOp, cmd_line = [], prints = [], world = []\<rparr>"

section \<open>Properties\<close>



text \<open>
  After a semicolon the code keeps the last word of the first command for the second one: of
  \<open>ws1 x; ws2\<close> it runs \<open>ws1\<close> and then \<open>x ws2\<close>, and when the first command is the single word \<open>x\<close> it fails an
  assertion.
\<close>

theorem shell_semicolon_misplaced:
  assumes "list_all plain ws1" and "plain x" and "list_all plain ws2"
    and "program (ws1 @ [x])"
  shows "get_args (line_of (ws1 @ (x @ '';'') # ws2) @ [CHR 0x0A]) s
           = Inr (s\<lparr>args := ws1 @ x # ws2, args1 := ws1, args2 := x # ws2, op_code := SeqOp\<rparr>)
         \<and> (ws1 = [] \<longrightarrow> do_line sys False (line_of ((x @ '';'') # ws2) @ [CHR 0x0A]) s = Inl AssertFailed)"
proof -
  let ?ws = "ws1 @ (x @ '';'') # ws2"
  have w: "list_all word_chars ?ws" using assms(1-3) by (auto simp: list_all_iff word_chars_def plain_def)
  have ga: "get_args (line_of ?ws @ [CHR 0x0A]) s
      = Inr (s\<lparr>args := ws1 @ x # ws2, args1 := ws1, args2 := x # ws2, op_code := SeqOp\<rparr>)" for s :: "'a shell"
  proof -
    have "get_args_loop 0 ?ws [] [] NoOp = get_args_loop (length ws1) ?ws [] [] NoOp"
      using get_args_plain [OF assms(1), of "[]" "(x @ '';'') # ws2"] by simp
    also have "\<dots> = get_args_loop (length (ws1 @ [x])) ((ws1 @ [x]) @ ws2 @ []) ws1 (x # ws2) SeqOp"
      using w assms(2) by (subst get_args_loop.simps) (auto simp: nth_append skeet_def word_chars_def plain_def)
    also have "\<dots> = Inr (ws1 @ x # ws2, ws1, x # ws2, SeqOp)"
      unfolding get_args_plain [OF assms(3)] by (simp add: get_args_loop_end)
    finally show ?thesis using line_of_no_newline [OF w] split_line_of [OF w] by (simp add: get_args_def)
  qed
  moreover have "do_line sys False (line_of ((x @ '';'') # ws2) @ [CHR 0x0A]) s = Inl AssertFailed" if "ws1 = []"
    using do_line_program [where ?ws1.0 = "[x]" and l = "line_of ((x @ '';'') # ws2) @ [CHR 0x0A]" and s = s and as = ws2
        and ?as1.0 = "[]" and ?as2.0 = "x # ws2" and oper = SeqOp and sys = sys]
      ga [of "s\<lparr>cmd_line := line_of ((x @ '';'') # ws2) @ [CHR 0x0A]\<rparr>"] assms(4) that
    by (simp add: spoon_def)
  ultimately show ?thesis by blast
qed

theorem shell_semicolon_misplaced_witness:
  "get_args (''echo a; pwd'' @ [CHR 0x0A]) (shell_start [])
     = Inr ((shell_start [])\<lparr>args := [''echo'', ''a'', ''pwd''], args1 := [''echo''], args2 := [''a'', ''pwd''], op_code := SeqOp\<rparr>)
   \<and> do_line recorder False (''ls; pwd'' @ [CHR 0x0A]) (shell_start []) = Inl AssertFailed"
proof -
  have p: "list_all plain [''echo'']" "plain ''a''" "list_all plain [''pwd'']" "program ([''echo''] @ [''a''])"
    and q: "list_all plain []" "plain ''ls''" "program ([] @ [''ls''])"
    by (simp_all add: program_def plain_def)
  have l: "line_of ([''echo''] @ (''a'' @ '';'') # [''pwd'']) = ''echo a; pwd''" "line_of ((''ls'' @ '';'') # [''pwd'']) = ''ls; pwd''"
    by (simp_all add: line_of_def)
  show ?thesis
    using shell_semicolon_misplaced [OF p, of "shell_start []" recorder]
      shell_semicolon_misplaced [OF q(1,2) p(3) q(3), of "shell_start []" recorder]
    unfolding l by simp
qed

lemma prefix_loop_skip:
  "\<forall>j. i \<le> j \<and> j < n \<longrightarrow> take (length query) (history s ! j) \<noteq> query \<Longrightarrow> i \<le> n \<Longrightarrow>
     prefix_loop n query s = prefix_loop i query s"
proof (induction n)
  case (Suc n)
  show ?case
  proof (cases "i = Suc n")
    case False
    then have "take (length query) (history s ! n) \<noteq> query" using Suc.prems by auto
    then show ?thesis using Suc False by auto
  qed simp
qed simp

lemma get_args_history: "get_args l s = Inr s' \<Longrightarrow> history s' = history s \<and> world s' = world s \<and> prints s' = prints s"
  by (auto simp: get_args_def bindE_eq_Inr_iff)

text \<open>
  \<open>!\<close> with a query takes the latest line of the history that starts with it, splits that line
  anew and appends it to the history; without such a line it says so and runs nothing.
\<close>

theorem shell_prefix_latest:
  assumes "cmd_line s = CHR ''!'' # query" and "1 < length (args s ! 0)"
    and "history s = older @ newer" and "\<forall>h \<in> set newer. take (length query) h \<noteq> query"
    and "older \<noteq> [] \<Longrightarrow> take (length query) (last older) = query \<and> CHR 0x0A \<notin> set (last older)"
  shows "prefix s = (if older = [] then Inr (False, say NoHistoryMatch s)
           else bindE (get_args (last older) s) (\<lambda>s'. Inr (True, s'\<lparr>history := history s @ [last older]\<rparr>)))"
proof -
  have "prefix s = prefix_loop (length (history s)) query s"
    using assms(1,2) by (simp add: prefix_def)
  also have "\<dots> = prefix_loop (length older) query s"
    using assms(3,4) by (intro prefix_loop_skip) (auto simp: nth_append)
  also have "\<dots> = (if older = [] then Inr (False, say NoHistoryMatch s)
      else bindE (get_args (last older) s) (\<lambda>s'. Inr (True, s'\<lparr>history := history s @ [last older]\<rparr>)))"
  proof (cases older rule: rev_cases)
    case (snoc os h)
    have same: "(history s') [length os := h] = history s" if "get_args h s = Inr s'" for s'
      using get_args_history [OF that] assms(3) snoc by simp
    have "history s ! length os = h" using assms(3) snoc by (simp add: nth_append)
    then show ?thesis using snoc assms(5) same
      by (auto simp: remember_def cong: bindE_cong)
  qed simp
  finally show ?thesis .
qed

theorem shell_prefix_latest_witness:
  "\<exists>s'. prefix ((shell_start [''ls -l'', ''ls'', ''pwd''])\<lparr>cmd_line := ''!ls'', args := [''!ls'']\<rparr>) = Inr (True, s')
     \<and> args s' = [''ls''] \<and> history s' = [''ls -l'', ''ls'', ''pwd'', ''ls'']"
proof -
  let ?s = "(shell_start [''ls -l'', ''ls'', ''pwd''])\<lparr>cmd_line := ''!ls'', args := [''!ls'']\<rparr>"
  have "cmd_line ?s = CHR ''!'' # ''ls''" "1 < length (args ?s ! 0)" "history ?s = [''ls -l'', ''ls''] @ [''pwd'']"
    "\<forall>h \<in> set [''pwd'']. take (length ''ls'') h \<noteq> ''ls''"
    "take (length ''ls'') (last [''ls -l'', ''ls'']) = ''ls'' \<and> CHR 0x0A \<notin> set (last [''ls -l'', ''ls''])"
    by (simp_all add: shell_start_def)
  from shell_prefix_latest [OF this(1-4)] this(5) show ?thesis
    by (simp add: shell_start_def get_args_def yeet_def get_args_loop.simps)
qed

text \<open>
  Writing the history appends a newline to strings that have no room for it: with a history file, a shell that has
  remembered any line ends in a write past a buffer; without one it ends normally.
\<close>

theorem shell_history_overflow:
  assumes "\<forall>h \<in> set (history s). NUL \<notin> set h"
  shows "end_shell to_file s =
    (if to_file then (if history s = [] then Inr (Some [], s) else Inl OutOfBounds) else Inr (None, s))"
proof (cases "history s")
  case (Cons h hs)
  then have "c_strcat (enc_str h) [CHR 0x0A] = Inl OutOfBounds"
    using assms by (simp add: c_strcat_def enc_str_def)
  then show ?thesis using Cons by (simp add: end_shell_def)
qed (simp add: end_shell_def)

theorem shell_history_overflow_witness: "end_shell True (shell_start [''ls'']) = Inl OutOfBounds"
proof -
  have "\<forall>h \<in> set (history (shell_start [''ls''])). NUL \<notin> set h" by (simp add: shell_start_def NUL_def)
  from shell_history_overflow [OF this, of True] show ?thesis by (simp add: shell_start_def)
qed

end
