(* ===== verification/EnvTime.thy ===== *)
theory EnvTime
  imports Complex_Main Prelude
begin

text \<open>
  \<^verbatim>\<open>utilities_unleashed/env.c\<close> and \<^verbatim>\<open>utilities_unleashed/time.c\<close>. The environment is a map; \<^verbatim>\<open>execvp\<close> replaces the
  child by the command it is given. The messages come from a library that is not in the repository: the argument \<open>stops\<close> of the
  models says whether printing one ends the process. Clocks count seconds and nanoseconds; times are rationals.
\<close>

section \<open>The arguments of env\<close>

text \<open>The counts of the first loop: assignments, words of the command, and whether there was a separator.\<close>

fun count_args :: "string list \<Rightarrow> bool \<Rightarrow> nat \<times> nat \<times> bool" where
  "count_args [] exec_args = (0, 0, exec_args)"
| "count_args (a # as) exec_args =
     (if a = ''--'' then count_args as True
      else let (env_count, exec_count, b) = count_args as exec_args in
        if exec_args then (env_count, Suc exec_count, b) else (Suc env_count, exec_count, b))"

text \<open>The two arrays, copied from the arguments by their counts; \<open>None\<close> when the usage is printed.\<close>

definition env_split :: "string list \<Rightarrow> (string list \<times> string list) option" where
  "env_split argv =
     (if length argv \<le> 2 then None
      else let (env_count, exec_count, exec_args) = count_args (tl argv) False in
        if env_count = 0 \<and> exec_count = 0 \<or> \<not> exec_args then None
        else Some (take env_count (tl argv), take exec_count (drop (env_count + 2) argv)))"

section \<open>The child of env\<close>

text \<open>\<^verbatim>\<open>strtok\<close> at equal signs.\<close>

definition strtok_eq :: "string \<Rightarrow> (string \<times> string) option" where
  "strtok_eq s =
     (let t = dropWhile (\<lambda>c. c = CHR ''='') s; tok = takeWhile (\<lambda>c. c \<noteq> CHR ''='') t in
      if t = [] then None else Some (tok, drop (Suc (length tok)) t))"

definition key_value :: "string \<Rightarrow> string option \<times> string option" where
  "key_value s =
     (case strtok_eq s of None \<Rightarrow> (None, None) | Some (k, rest) \<Rightarrow> (Some k, map_option fst (strtok_eq rest)))"

type_synonym environment = "string \<rightharpoonup> string"

text \<open>
  The loop over the assignments. \<open>freed\<close>: the arrays were freed before a message, and the message did not end the process.
\<close>

fun set_variables :: "bool \<Rightarrow> string list \<Rightarrow> bool \<Rightarrow> environment \<Rightarrow> (bool \<times> environment) res" where
  "set_variables stops [] freed env = Inr (freed, env)"
| "set_variables stops (p # ps) freed env =
     (if freed then Inl UseAfterFree
      else if CHR ''='' \<notin> set p \<and> stops then Inl (ProcessExit 1)
      else let freed = (CHR ''='' \<notin> set p) in
      case key_value p of
        (Some k, Some v) \<Rightarrow>
          if hd v = CHR ''%''
          then (case env (tl v) of
                  None \<Rightarrow> if freed then Inl BadFree else if stops then Inl (ProcessExit 1) else Inl NullDeref
                | Some w \<Rightarrow> set_variables stops ps freed (env(k \<mapsto> w)))
          else set_variables stops ps freed (env(k \<mapsto> v))
      | _ \<Rightarrow> Inl NullDeref)"

datatype child_result = RunsCommand "string list" environment | NoCommand

definition env_child :: "bool \<Rightarrow> (string \<Rightarrow> bool) \<Rightarrow> string list \<Rightarrow> string list \<Rightarrow> environment \<Rightarrow> child_result res" where
  "env_child stops executable env_variables exec_inputs env =
     bindE (set_variables stops env_variables False env) (\<lambda>(freed, env').
       if freed then Inl UseAfterFree
       else case exec_inputs of
         [] \<Rightarrow> Inr NoCommand
       | c # _ \<Rightarrow> Inr (if executable c then RunsCommand exec_inputs env' else NoCommand))"

text \<open>
  \<^verbatim>\<open>main\<close>: the child's result where one was started. After a failed \<^verbatim>\<open>fork\<close> the process itself goes on as the child
  would, with the arrays freed. The parent's own status is 0 whatever the child did.
\<close>

datatype fork_result = ForkFails | Forks

definition env_main :: "bool \<Rightarrow> fork_result \<Rightarrow> (string \<Rightarrow> bool) \<Rightarrow> string list \<Rightarrow> environment \<Rightarrow> child_result res option" where
  "env_main stops fk executable argv env =
     (case env_split argv of
        None \<Rightarrow> None
      | Some (vars, cmd) \<Rightarrow>
          (case fk of
             ForkFails \<Rightarrow> Some (Inl (if stops then ProcessExit 1 else UseAfterFree))
           | Forks \<Rightarrow> Some (env_child stops executable vars cmd env)))"

section \<open>What env does\<close>

definition assignment :: "string \<times> string \<Rightarrow> string" where
  "assignment kv = fst kv @ ''='' @ snd kv"

definition assignable :: "string \<times> string \<Rightarrow> bool" where
  "assignable kv \<longleftrightarrow> fst kv \<noteq> [] \<and> CHR ''='' \<notin> set (fst kv) \<and> snd kv \<noteq> [] \<and> CHR ''='' \<notin> set (snd kv)"

text \<open>The reference: one assignment after the other, a value with a percent sign being that of another variable.\<close>

fun assign_all :: "(string \<times> string) list \<Rightarrow> environment \<Rightarrow> environment option" where
  "assign_all [] env = Some env"
| "assign_all ((k, v) # kvs) env =
     (if hd v = CHR ''%'' then (case env (tl v) of None \<Rightarrow> None | Some w \<Rightarrow> assign_all kvs (env(k \<mapsto> w)))
      else assign_all kvs (env(k \<mapsto> v)))"

lemma count_args_command: "''--'' \<notin> set as \<Longrightarrow> count_args as True = (0, length as, True)"
  by (induction as) auto

lemma count_args_assignments:
  "''--'' \<notin> set ps \<Longrightarrow> count_args (ps @ ''--'' # as) False = (let (n, m, b) = count_args as True in (length ps + n, m, b))"
  by (induction ps) (auto split: prod.splits)

lemma env_split_ok:
  assumes "''--'' \<notin> set ps" and "''--'' \<notin> set cmd" and "ps \<noteq> [] \<or> cmd \<noteq> []"
  shows "env_split (prog # ps @ ''--'' # cmd) = Some (ps, cmd)"
  using assms by (cases ps; cases cmd) (auto simp: env_split_def count_args_assignments count_args_command)

lemma strtok_eq_token:
  assumes "k \<noteq> []" and "CHR ''='' \<notin> set k"
  shows "strtok_eq (k @ CHR ''='' # rest) = Some (k, rest)" and "strtok_eq k = Some (k, [])"
proof -
  obtain c k' where k: "k = c # k'" "c \<noteq> CHR ''=''" using assms by (cases k) auto
  have d: "dropWhile (\<lambda>c. c = CHR ''='') (k @ x) = k @ x" for x using k by simp
  have "takeWhile (\<lambda>c. c \<noteq> CHR ''='') (k @ CHR ''='' # rest) = k" using assms(2) by (subst takeWhile_append2) auto
  moreover have tk: "takeWhile (\<lambda>c. c \<noteq> CHR ''='') k = k" using assms(2) by (auto simp: takeWhile_eq_all_conv)
  ultimately show "strtok_eq (k @ CHR ''='' # rest) = Some (k, rest)" "strtok_eq k = Some (k, [])"
    using d [of "CHR ''='' # rest"] d [of "[]"] assms(1) tk by (simp_all only: strtok_eq_def Let_def append_Nil2) simp_all
qed

lemma key_value_assignment: "assignable kv \<Longrightarrow> key_value (assignment kv) = (Some (fst kv), Some (snd kv))"
  by (cases kv) (simp add: key_value_def assignment_def assignable_def strtok_eq_token)

lemma set_variables_ok:
  assumes "\<forall>kv \<in> set kvs. assignable kv" and "assign_all kvs env = Some env'"
  shows "set_variables stops (map assignment kvs) False env = Inr (False, env')"
  using assms
proof (induction kvs arbitrary: env)
  case (Cons kv kvs)
  have kv: "key_value (assignment kv) = (Some (fst kv), Some (snd kv))" using Cons.prems(1) key_value_assignment by simp
  have "CHR ''='' \<in> set (assignment kv)" by (simp add: assignment_def)
  then show ?case using Cons kv by (cases kv) (auto split: if_splits option.splits)
qed simp

text \<open>What comes after a second equal sign is dropped; a second separator costs the command its last word.\<close>

lemma key_value_cut:
  assumes "assignable (k, v)"
  shows "key_value (k @ ''='' @ v @ ''='' @ w) = (Some k, Some v)"
  using assms by (simp add: key_value_def assignable_def strtok_eq_token)

lemma env_split_second_separator:
  assumes "''--'' \<notin> set ps" and "''--'' \<notin> set as" and "''--'' \<notin> set bs" and "as \<noteq> []"
  shows "env_split (prog # ps @ ''--'' # as @ ''--'' # bs) = Some (ps, butlast (as @ ''--'' # bs))"
proof -
  have c: "count_args (as @ ''--'' # bs) True = (0, length as + length bs, True)"
    using assms(2,3) by (induction as) (auto simp: count_args_command)
  have "butlast (as @ ''--'' # bs) = take (length as + length bs) (as @ ''--'' # bs)" by (simp add: butlast_conv_take)
  then show ?thesis
    using assms(1,4) by (auto simp: env_split_def count_args_assignments [OF assms(1)] c)
qed

section \<open>time\<close>

record timespec =
  tv_sec :: int
  tv_nsec :: int

definition time_diff :: "timespec \<Rightarrow> timespec \<Rightarrow> rat" where
  "time_diff start_time end_time =
     (let second_diff = of_int (tv_sec end_time - tv_sec start_time);
          nano_diff = (of_int (tv_nsec end_time) - of_int (tv_nsec start_time)) / 1000000000
      in second_diff + nano_diff)"

text \<open>The words of the command and what is displayed; nothing unless the child exits with status 0.\<close>

definition time_main :: "string list \<Rightarrow> (string list \<Rightarrow> nat option) \<Rightarrow> timespec \<Rightarrow> timespec \<Rightarrow> (string list \<times> rat option) option" where
  "time_main argv exit_of start_time end_time =
     (if length argv < 2 then None
      else Some (tl argv, if exit_of (tl argv) = Some 0 then Some (time_diff start_time end_time) else None))"

definition total_nanoseconds :: "timespec \<Rightarrow> int" where
  "total_nanoseconds t = tv_sec t * 1000000000 + tv_nsec t"

lemma time_diff_correct: "time_diff s e = of_int (total_nanoseconds e - total_nanoseconds s) / 1000000000"
  by (simp add: time_diff_def total_nanoseconds_def Let_def field_simps)

section \<open>Properties\<close>



end
