(* ===== verification/Pointers.thy ===== *)
theory Pointers
  imports Complex_Main Prelude
begin

text \<open>
  \<^verbatim>\<open>perilous_pointers/part1-functions.c\<close>: the exercises. What is printed is the result. The conversion to \<^verbatim>\<open>float\<close>
  and the division of \<^verbatim>\<open>float\<close>s are parameters; the \<^verbatim>\<open>int\<close>s of \<open>eight\<close> are words.
\<close>

unbundle bit_operations_syntax

section \<open>Values\<close>

definition one :: "(string \<Rightarrow> rat) \<Rightarrow> ptr \<Rightarrow> char heap \<Rightarrow> bool res" where
  "one atof grade h =
     (case cstr h grade of
        Some s \<Rightarrow> Inr (atof s > 70)
      | None \<Rightarrow> bindE (hstrlen grade h) (\<lambda>_. Inl OutOfBounds))"

definition three :: "ptr \<Rightarrow> ptr \<Rightarrow> 32 word heap \<Rightarrow> string res" where
  "three x y h =
     bindE (hread x h) (\<lambda>a. bindE (hread y h) (\<lambda>b.
       Inr (if a = b then ''x and y are equal.'' else ''x and y are different.'')))"

definition four :: "(32 word \<Rightarrow> 'f) \<Rightarrow> ptr \<Rightarrow> 32 word heap \<Rightarrow> 'f heap \<Rightarrow> (ptr \<times> 'f heap) res" where
  "four to_float x h hf =
     (if x = Null then Inr (Null, hf)
      else let (p, hf) = hmalloc 1 hf in
        bindE (hread x h) (\<lambda>v. bindE (hwrite p (to_float v) hf) (\<lambda>hf. Inr (p, hf))))"

definition five :: "ptr \<Rightarrow> char heap \<Rightarrow> string res" where
  "five a h =
     bindE (hread a h) (\<lambda>c.
       Inr (if (of_char c :: nat) \<in> {65..90} \<union> {97..122} then ''a is a letter.'' else ''a is not a letter.''))"

definition nine :: "ptr \<Rightarrow> char heap \<Rightarrow> string res" where
  "nine s h =
     (case cstr h s of
        Some t \<Rightarrow> Inr (if t = ''blue'' then ''Orange and BLUE!'' else if t = ''orange'' then ''ORANGE and blue!'' else ''orange and blue!'')
      | None \<Rightarrow> bindE (hstrlen s h) (\<lambda>_. Inl OutOfBounds))"

definition ten :: "int \<Rightarrow> rat" where
  "ten d = of_int d / 2"

definition clear_bits :: "64 word \<Rightarrow> 64 word \<Rightarrow> 64 word" where
  "clear_bits value flag = value AND NOT flag"

section \<open>The concatenation\<close>

fun write_string :: "ptr \<Rightarrow> string \<Rightarrow> char heap \<Rightarrow> char heap res" where
  "write_string p [] h = Inr h"
| "write_string p (c # cs) h = bindE (hwrite p c h) (\<lambda>h. write_string (padd p 1) cs h)"

definition ptr_strcpy :: "ptr \<Rightarrow> string \<Rightarrow> char heap \<Rightarrow> char heap res" where
  "ptr_strcpy dst s h = write_string dst (s @ [NUL]) h"

definition ptr_strcat :: "ptr \<Rightarrow> string \<Rightarrow> char heap \<Rightarrow> char heap res" where
  "ptr_strcat dst s h = bindE (hstrlen dst h) (\<lambda>n. write_string (padd dst n) (s @ [NUL]) h)"

text \<open>The array \<^verbatim>\<open>r\<close> is a block of its own, with whatever the stack holds.\<close>

definition six :: "ptr \<Rightarrow> char heap \<Rightarrow> string res" where
  "six str h =
     bindE (hstrlen str h) (\<lambda>n.
     let (r, h) = hmalloc (length ''Hello '' + n) h in
     bindE (ptr_strcpy r ''Hello '' h) (\<lambda>h.
     case cstr h str of
       None \<Rightarrow> Inl OutOfBounds
     | Some s \<Rightarrow> bindE (ptr_strcat r s h) (\<lambda>h. case cstr h r of None \<Rightarrow> Inl OutOfBounds | Some t \<Rightarrow> Inr t)))"

lemma write_string_block:
  "blocks h b = Some cs \<Longrightarrow> i \<le> length cs \<Longrightarrow> write_string (Ptr b i) s h =
     (if i + length s \<le> length cs then Inr (if s = [] then h else h\<lparr>blocks := (blocks h)(b \<mapsto> take i cs @ s @ drop (i + length s) cs)\<rparr>)
      else Inl OutOfBounds)"
proof (induction s arbitrary: i cs h)
  case (Cons c s)
  show ?case
  proof (cases "i < length cs")
    case True
    let ?h = "h\<lparr>blocks := (blocks h)(b \<mapsto> cs[i := c])\<rparr>"
    have "take (Suc i) (cs[i := c]) = take i cs @ [c]" using True by (simp add: take_Suc_conv_app_nth)
    moreover have "drop (Suc i) (cs[i := c]) = drop (Suc i) cs" by simp
    ultimately show ?thesis using Cons.IH [of ?h "cs[i := c]" "Suc i"] Cons.prems True by (auto simp: upd_conv_take_nth_drop ac_simps)
  qed (use Cons.prems in simp)
qed simp

section \<open>Tables\<close>

text \<open>Filling the cells of a block in order, and reading them.\<close>

fun store_cells :: "ptr \<Rightarrow> 'a list \<Rightarrow> 'a heap \<Rightarrow> 'a heap res" where
  "store_cells p [] h = Inr h"
| "store_cells p (x # xs) h = bindE (hwrite p x h) (store_cells (padd p 1) xs)"

fun load_cells :: "ptr \<Rightarrow> nat \<Rightarrow> 'a heap \<Rightarrow> 'a list res" where
  "load_cells p 0 h = Inr []"
| "load_cells p (Suc n) h = bindE (hread p h) (\<lambda>x. bindE (load_cells (padd p 1) n h) (\<lambda>xs. Inr (x # xs)))"

definition two :: "32 word heap \<Rightarrow> 32 word res" where
  "two h = (let (p, h) = halloc [4] h in hread p h)"

definition seven :: "(nat \<Rightarrow> nat \<Rightarrow> 'f) \<Rightarrow> 'f heap \<Rightarrow> ('f list \<times> 'f heap) res" where
  "seven fdiv h =
     (let n = 10; (values, h) = hmalloc n h in
      bindE (store_cells values (map (\<lambda>i. fdiv i n) [0..<n]) h) (\<lambda>h.
      bindE (load_cells values n h) (\<lambda>out.
      bindE (hfree values h) (\<lambda>h. Inr (out, h)))))"

text \<open>The table of \<open>eight\<close> holds pointers to its rows, in a store of its own.\<close>

fun fill_rows :: "32 word \<Rightarrow> ptr \<Rightarrow> nat list \<Rightarrow> ptr heap \<Rightarrow> 32 word heap \<Rightarrow> (ptr heap \<times> 32 word heap) res" where
  "fill_rows a values [] t h = Inr (t, h)"
| "fill_rows a values (i # is) t h =
     (let (row, h) = hmalloc 10 h in
      bindE (hwrite (padd values i) row t) (\<lambda>t.
      bindE (store_cells row (map (\<lambda>j. of_nat (i * j) * a) [0..<10]) h) (\<lambda>h.
      fill_rows a values is t h)))"

fun print_diagonal :: "ptr \<Rightarrow> nat list \<Rightarrow> ptr heap \<Rightarrow> 32 word heap \<Rightarrow> 32 word list res" where
  "print_diagonal values [] t h = Inr []"
| "print_diagonal values (i # is) t h =
     bindE (hread (padd values i) t) (\<lambda>row. bindE (hread (padd row i) h) (\<lambda>x.
     bindE (print_diagonal values is t h) (\<lambda>xs. Inr (x # xs))))"

fun free_rows :: "ptr \<Rightarrow> nat list \<Rightarrow> ptr heap \<Rightarrow> 32 word heap \<Rightarrow> 32 word heap res" where
  "free_rows values [] t h = Inr h"
| "free_rows values (i # is) t h =
     bindE (hread (padd values i) t) (\<lambda>row. bindE (hfree row h) (free_rows values is t))"

definition eight :: "32 word \<Rightarrow> ptr heap \<Rightarrow> 32 word heap \<Rightarrow> (32 word list \<times> ptr heap \<times> 32 word heap) res" where
  "eight a t h =
     (let (values, t) = hmalloc 10 t in
      bindE (fill_rows a values [0..<10] t h) (\<lambda>(t, h).
      bindE (print_diagonal values [0..<10] t h) (\<lambda>out.
      bindE (free_rows values [0..<10] t h) (\<lambda>h.
      bindE (hfree values t) (\<lambda>t. Inr (out, t, h))))))"

lemma store_cells_block:
  "blocks h b = Some cs \<Longrightarrow> i + length xs \<le> length cs \<Longrightarrow>
     store_cells (Ptr b i) xs h = Inr (h\<lparr>blocks := (blocks h)(b \<mapsto> take i cs @ xs @ drop (i + length xs) cs)\<rparr>)"
proof (induction xs arbitrary: i cs h)
  case Nil
  then show ?case by (simp add: fun_upd_idem)
next
  case (Cons x xs)
  then have i: "i < length cs" by simp
  let ?h = "h\<lparr>blocks := (blocks h)(b \<mapsto> cs[i := x])\<rparr>"
  have "store_cells (Ptr b (Suc i)) xs ?h
      = Inr (?h\<lparr>blocks := (blocks ?h)(b \<mapsto> take (Suc i) (cs[i := x]) @ xs @ drop (Suc i + length xs) (cs[i := x]))\<rparr>)"
    using Cons.prems by (intro Cons.IH) simp_all
  then show ?case using Cons.prems i by (simp add: take_update_Suc fun_upd_def cong: if_cong)
qed

lemma load_cells_block:
  "blocks h b = Some cs \<Longrightarrow> i + n \<le> length cs \<Longrightarrow> load_cells (Ptr b i) n h = Inr (take n (drop i cs))"
  by (induction n arbitrary: i) (simp_all add: Cons_nth_drop_Suc [symmetric])

text \<open>The table of \<open>seven\<close> is printed in order and given back.\<close>

lemma seven_prints:
  assumes "heap_ok h"
  shows "\<exists>h'. seven fdiv h = Inr (map (\<lambda>i. fdiv i 10) [0..<10], h') \<and> blocks h' = blocks h"
proof -
  let ?b = "next_block h"
  define h1 where "h1 = snd (hmalloc 10 h)"
  define xs where "xs = map (\<lambda>i. fdiv i 10) [0..<10]"
  have len: "length xs = 10" unfolding xs_def by simp
  define cs where "cs = map (junk h ?b) [0..<10]"
  have cs: "blocks h1 ?b = Some cs" "length cs = 10" by (simp_all add: h1_def hmalloc_def cs_def)
  define h2 where "h2 = h1\<lparr>blocks := (blocks h1)(?b \<mapsto> xs)\<rparr>"
  have s: "store_cells (Ptr ?b 0) xs h1 = Inr h2"
    using store_cells_block [OF cs(1), of 0 xs] cs(2) len unfolding h2_def by simp
  have b2: "blocks h2 ?b = Some xs" by (simp add: h2_def)
  have l: "load_cells (Ptr ?b 0) 10 h2 = Inr xs"
    using load_cells_block [OF b2, of 0 10] len by simp
  have f: "hfree (Ptr ?b 0) h2 = Inr (h2\<lparr>blocks := (blocks h2)(?b := None)\<rparr>)" using b2 by simp
  have a: "hmalloc 10 h = (Ptr ?b 0, h1)" by (simp add: h1_def hmalloc_def halloc_def)
  have "seven fdiv h = Inr (xs, h2\<lparr>blocks := (blocks h2)(?b := None)\<rparr>)"
    unfolding seven_def Let_def a prod.case xs_def [symmetric] s bindE_Inr l f ..
  moreover have "(blocks h2)(?b := None) = blocks h"
    unfolding h2_def h1_def hmalloc_def using heap_ok_fresh [OF assms] by (simp add: fun_upd_idem)
  ultimately show ?thesis unfolding xs_def by auto
qed

lemma eight_example:
  "case eight 2 (empty_heap Null) (empty_heap 0) of
     Inr (out, _) \<Rightarrow> out = [0, 2, 8, 18, 32, 50, 72, 98, 128, 162] | Inl _ \<Rightarrow> False"
  by code_simp

section \<open>The automaton\<close>

fun automaton_walk :: "(int \<Rightarrow> char \<Rightarrow> int) \<Rightarrow> int \<Rightarrow> char list \<Rightarrow> int res" where
  "automaton_walk transition state [] = Inl OutOfBounds"
| "automaton_walk transition state (c # cs) = (if c = NUL then Inr state else automaton_walk transition (transition state c) cs)"

fun little_automaton :: "(int \<Rightarrow> char \<Rightarrow> int) \<Rightarrow> ptr \<Rightarrow> char heap \<Rightarrow> int res" where
  "little_automaton transition Null h = Inr 0"
| "little_automaton transition Wild h = Inl Uninitialised"
| "little_automaton transition (Ptr b i) h =
     (case blocks h b of None \<Rightarrow> Inl UseAfterFree | Some cs \<Rightarrow> automaton_walk transition 0 (drop i cs))"

section \<open>Properties\<close>

lemma automaton_walk_foldl: "scan_nul cs = Inr n \<Longrightarrow> automaton_walk tr q cs = Inr (foldl tr q (take n cs))"
  by (induction cs arbitrary: q n) (auto simp: bindE_eq_Inr_iff split: if_splits)

text \<open>The automaton ends in the state the transition function gives for the characters of the string in order.\<close>

theorem little_automaton_correct: "cstr h p = Some s \<Longrightarrow> little_automaton tr p h = Inr (foldl tr 0 s)"
  by (cases p) (auto split: option.splits sum.splits simp: automaton_walk_foldl)

lemma clear_bits_bit: "bit (clear_bits value flag) n \<longleftrightarrow> bit value n \<and> \<not> bit flag n"
  by (auto simp: clear_bits_def bit_simps dest: bit_imp_le_length)

text \<open>
  Whatever string it is given, the concatenation writes past the end of its array, which has no room for the
  terminator.
\<close>

theorem six_overflows:
  assumes "heap_ok h" and "cstr h str = Some s"
  shows "six str h = Inl OutOfBounds"
proof -
  let ?b = "next_block h" and ?n = "6 + length s"
  define h1 where "h1 = snd (hmalloc ?n h)"
  obtain b i where str: "str = Ptr b i" using assms(2) by (cases str) auto
  have b1: "\<exists>cs. blocks h1 ?b = Some cs \<and> length cs = ?n" by (simp add: h1_def hmalloc_def)
  then obtain cs where cs: "blocks h1 ?b = Some cs" "length cs = ?n" by blast
  have other: "b \<noteq> ?b" using assms heap_ok_fresh [OF assms(1)] str by auto
  have alloc: "hmalloc (length ''Hello '' + length s) h = (Ptr ?b 0, h1)"
  proof -
    have "length ''Hello '' + length s = ?n" by simp
    then have "hmalloc (length ''Hello '' + length s) h = hmalloc ?n h" by (rule arg_cong)
    also have "\<dots> = (Ptr ?b 0, h1)" unfolding h1_def hmalloc_def by (simp add: prod_eq_iff del: upt_Suc)
    finally show ?thesis .
  qed
  have "write_string (Ptr ?b 0) (''Hello '' @ [NUL]) h1 = (if s = [] then Inl OutOfBounds
      else Inr (h1\<lparr>blocks := (blocks h1)(?b \<mapsto> (''Hello '' @ [NUL]) @ drop 7 cs)\<rparr>))"
  proof -
    have l: "length (''Hello '' @ [NUL]) = 7" "''Hello '' @ [NUL] \<noteq> []" by simp_all
    have "(7 \<le> length cs) = (s \<noteq> [])" using cs(2) by (cases s) auto
    then show ?thesis
      using write_string_block [OF cs(1), of 0 "''Hello '' @ [NUL]"] unfolding l(1) add_0_left if_not_P [OF l(2)] take_0 append_Nil
      by (simp only: le0 simp_thms) (cases "s = []"; simp only: simp_thms if_True if_False)
  qed
  moreover have "six str h = Inl OutOfBounds"
    if w: "write_string (Ptr ?b 0) (''Hello '' @ [NUL]) h1 = Inr h2" "h2 = h1\<lparr>blocks := (blocks h1)(?b \<mapsto> (''Hello '' @ [NUL]) @ drop 7 cs)\<rparr>"
      and ne: "s \<noteq> []" for h2
  proof -
    have c: "cstr h2 str = Some s" using assms(2) str other by (simp add: w(2) h1_def hmalloc_def)
    have "NUL \<notin> set ''Hello ''" by (simp add: NUL_def)
    then have l: "hstrlen (Ptr ?b 0) h2 = Inr 6"
      using scan_nul_append_NUL [of "''Hello ''" "drop 7 cs"] by (simp add: w(2))
    have "blocks h2 ?b = Some ((''Hello '' @ [NUL]) @ drop 7 cs)" by (simp add: w(2))
    moreover have "length ((''Hello '' @ [NUL]) @ drop 7 cs) = ?n" using cs(2) ne by (cases s) auto
    ultimately have "write_string (Ptr ?b 6) (s @ [NUL]) h2 = Inl OutOfBounds"
      using write_string_block [of h2 ?b "(''Hello '' @ [NUL]) @ drop 7 cs" 6 "s @ [NUL]"] by simp
    then show ?thesis
      using alloc w(1) c l hstrlen_cstr [OF assms(2)] by (simp add: six_def ptr_strcpy_def ptr_strcat_def)
  qed
  ultimately show ?thesis
    using alloc hstrlen_cstr [OF assms(2)] by (cases "s = []") (auto simp: six_def ptr_strcpy_def)
qed

theorem six_overflows_witness: "six (Ptr 0 0) (snd (halloc (enc_str ''world'') (empty_heap NUL))) = Inl OutOfBounds"
proof -
  have "cstr (snd (halloc (enc_str ''world'') (empty_heap NUL))) (Ptr 0 0) = Some ''world''"
    by (rule cstr_enc_str) (simp_all add: empty_heap_def NUL_def)
  from six_overflows [OF heap_ok_halloc [OF heap_ok_empty] this] show ?thesis .
qed

end
