(* ===== verification/Mmu.thy ===== *)
theory Mmu
  imports Prelude
begin

unbundle bit_operations_syntax

text \<open>
  \<^verbatim>\<open>ideal_indirection/mmu.c\<close>: address translation by a two-level page table with a translation cache. The cache,
  the kernel and the layout of the segments (\<^verbatim>\<open>tlb.h\<close>, \<^verbatim>\<open>kernel.h\<close>, \<^verbatim>\<open>segments.h\<close>) are not in the repository:
  they are parameters, records of the functions and constants the code uses. A pointer the kernel gives for a frame is the frame's
  address. Physical memory is the directories, the tables and the bytes at their addresses; a pointer to a page table entry is the
  table's address and the index, or the local variable the code hands to the kernel.
\<close>

type_synonym addr32 = "32 word"
type_synonym byte = "8 word"

section \<open>State\<close>

record entry =
  present :: bool
  base_addr :: addr32
  read_write :: bool
  user_supervisor :: bool
  accessed :: bool
  dirty :: bool

datatype pte_ref = InTable addr32 nat | Local entry

record 'k machine =
  directories :: "addr32 \<Rightarrow> nat \<Rightarrow> entry"
  tables :: "addr32 \<Rightarrow> nat \<Rightarrow> entry"
  bytes :: "addr32 \<Rightarrow> byte"
  kstate :: 'k

datatype permission = READ | WRITE | EXEC
datatype segment_kind = STACK | MMAP | HEAP | BSS | DATA | TEXT | TESTING

record vm_segmentation =
  seg_start :: addr32
  seg_end :: addr32
  permissions :: "permission list"
  grows_down :: bool

type_synonym segmentations = "segment_kind \<Rightarrow> vm_segmentation option"

record ('t, 'k) platform =
  page_size :: nat
  max_process_id :: nat
  num_entries :: nat
  num_offset_bits :: nat
  tlb_create :: 't
  tlb_get_pte :: "'t \<Rightarrow> addr32 \<Rightarrow> pte_ref option"
  tlb_add_pte :: "'t \<Rightarrow> addr32 \<Rightarrow> pte_ref \<Rightarrow> 't"
  tlb_flush :: "'t \<Rightarrow> 't"
  ask_kernel_for_frame :: "pte_ref option \<Rightarrow> 'k machine \<Rightarrow> addr32 \<times> 'k machine"
  read_page_from_disk :: "pte_ref \<Rightarrow> 'k machine \<Rightarrow> 'k machine"
  return_frame_to_kernel :: "addr32 \<Rightarrow> 'k machine \<Rightarrow> 'k machine"
  remove_swap_file :: "pte_ref \<Rightarrow> 'k machine \<Rightarrow> 'k machine"
  remove_swap_files :: "'k machine \<Rightarrow> 'k machine"
  address_in_segmentations :: "segmentations option \<Rightarrow> addr32 \<Rightarrow> bool"

record ('t, 'k) mmu =
  tlb :: 't
  page_directories :: "nat \<Rightarrow> addr32 option"
  segments_of :: "nat \<Rightarrow> segmentations option"
  curr_pid :: nat
  num_tlb_misses :: nat
  num_page_faults :: nat
  num_segmentation_faults :: nat
  machine :: "'k machine"

definition mmu_create :: "('t, 'k) platform \<Rightarrow> 'k machine \<Rightarrow> ('t, 'k) mmu" where
  "mmu_create p m = \<lparr>tlb = tlb_create p, page_directories = Map.empty, segments_of = (\<lambda>_. None), curr_pid = 0,
     num_tlb_misses = 0, num_page_faults = 0, num_segmentation_faults = 0, machine = m\<rparr>"

definition mmu_tlb_miss :: "('t, 'k) mmu \<Rightarrow> ('t, 'k) mmu" where
  "mmu_tlb_miss this = this\<lparr>num_tlb_misses := Suc (num_tlb_misses this)\<rparr>"

definition mmu_raise_page_fault :: "('t, 'k) mmu \<Rightarrow> ('t, 'k) mmu" where
  "mmu_raise_page_fault this = this\<lparr>num_page_faults := Suc (num_page_faults this)\<rparr>"

definition mmu_raise_segmentation_fault :: "('t, 'k) mmu \<Rightarrow> ('t, 'k) mmu" where
  "mmu_raise_segmentation_fault this = this\<lparr>num_segmentation_faults := Suc (num_segmentation_faults this)\<rparr>"

section \<open>Addresses\<close>

definition page_bits :: "addr32 \<Rightarrow> nat" where
  "page_bits va = unat (drop_bit 22 (va AND 0xFFC00000))"

definition table_bits :: "addr32 \<Rightarrow> nat" where
  "table_bits va = unat (drop_bit 12 (va AND 0x003FF000))"

definition frame_bits :: "addr32 \<Rightarrow> addr32" where
  "frame_bits va = drop_bit 12 (va AND NOT 0xFFF)"

definition physical :: "addr32 \<Rightarrow> entry \<Rightarrow> addr32" where
  "physical va pte = (va AND 0xFFF) + push_bit 12 (base_addr pte)"

section \<open>Translation\<close>

definition get_entry :: "pte_ref \<Rightarrow> 'k machine \<Rightarrow> entry" where
  "get_entry r m = (case r of InTable t i \<Rightarrow> tables m t i | Local e \<Rightarrow> e)"

definition set_entry :: "pte_ref \<Rightarrow> entry \<Rightarrow> 'k machine \<Rightarrow> 'k machine" where
  "set_entry r e m = (case r of InTable t i \<Rightarrow> m\<lparr>tables := (tables m)(t := (tables m t)(i := e))\<rparr> | Local _ \<Rightarrow> m)"

text \<open>The process on the machine changes: its predecessor's translations are dropped.\<close>

definition switch_process :: "('t, 'k) platform \<Rightarrow> nat \<Rightarrow> ('t, 'k) mmu \<Rightarrow> ('t, 'k) mmu" where
  "switch_process p pid this =
     (if curr_pid this \<noteq> pid then this\<lparr>curr_pid := pid, tlb := tlb_flush p (tlb this)\<rparr> else this)"

text \<open>
  The entry for an address, from the cache or the tables. The directory entry is a copy: what a page fault sets in it
  stays in the local variable.
\<close>

definition find_pte :: "('t, 'k) platform \<Rightarrow> nat \<Rightarrow> addr32 \<Rightarrow> ('t, 'k) mmu \<Rightarrow> (pte_ref \<times> ('t, 'k) mmu) res" where
  "find_pte p pid va this =
     (case tlb_get_pte p (tlb this) (frame_bits va) of
        Some r \<Rightarrow> Inr (r, this)
      | None \<Rightarrow>
          (case page_directories this pid of
             None \<Rightarrow> Inl NullDeref
           | Some d \<Rightarrow>
               let entry = directories (machine this) d (page_bits va);
                   (entry', this') =
                     (if \<not> present entry
                      then let (pa, m1) = ask_kernel_for_frame p (Some (Local entry)) (machine this);
                               m2 = read_page_from_disk p (Local entry) m1
                           in (entry\<lparr>present := True, base_addr := drop_bit 12 pa\<rparr>,
                               mmu_raise_page_fault (this\<lparr>machine := m2\<rparr>))
                      else (entry, this));
                   r = InTable (push_bit 12 (base_addr entry')) (table_bits va)
               in Inr (r, mmu_tlb_miss (this'\<lparr>tlb := tlb_add_pte p (tlb this') (frame_bits va) r\<rparr>))))"

definition load_page :: "('t, 'k) platform \<Rightarrow> pte_ref \<Rightarrow> ('t, 'k) mmu \<Rightarrow> ('t, 'k) mmu" where
  "load_page p r this =
     (if \<not> present (get_entry r (machine this))
      then let (frame, m1) = ask_kernel_for_frame p (Some r) (machine this);
               m2 = set_entry r ((get_entry r m1)\<lparr>base_addr := drop_bit 12 frame, present := True\<rparr>) m1
           in mmu_raise_page_fault (this\<lparr>machine := read_page_from_disk p r m2\<rparr>)
      else this)"

definition read_bytes :: "addr32 \<Rightarrow> nat \<Rightarrow> 'k machine \<Rightarrow> byte list" where
  "read_bytes a n m = map (\<lambda>i. bytes m (a + of_nat i)) [0..<n]"

definition write_bytes :: "addr32 \<Rightarrow> byte list \<Rightarrow> 'k machine \<Rightarrow> 'k machine" where
  "write_bytes a bs m = m\<lparr>bytes := fold (\<lambda>(i, b) f. f(a + of_nat i := b)) (enumerate 0 bs) (bytes m)\<rparr>"

text \<open>\<open>None\<close>: the buffer is left as it was.\<close>

definition mmu_read_from_virtual_address ::
  "('t, 'k) platform \<Rightarrow> addr32 \<Rightarrow> nat \<Rightarrow> nat \<Rightarrow> ('t, 'k) mmu \<Rightarrow> (byte list option \<times> ('t, 'k) mmu) res" where
  "mmu_read_from_virtual_address p va pid num_bytes this =
     bindE (guardE (pid < max_process_id p) AssertFailed) (\<lambda>_.
     bindE (guardE (num_bytes + unat va mod page_size p \<le> page_size p) AssertFailed) (\<lambda>_.
       if va = 0 then Inr (None, mmu_raise_segmentation_fault this)
       else bindE (find_pte p pid va (switch_process p pid this)) (\<lambda>(r, t1).
         let t2 = load_page p r t1 in
         if address_in_segmentations p (segments_of t2 pid) va
         then let m = machine t2; pte = get_entry r m; m' = set_entry r (pte\<lparr>accessed := True\<rparr>) m
              in Inr (Some (read_bytes (physical va pte) num_bytes m'), t2\<lparr>machine := m'\<rparr>)
         else Inr (None, mmu_raise_segmentation_fault t2))))"

definition mmu_write_to_virtual_address ::
  "('t, 'k) platform \<Rightarrow> addr32 \<Rightarrow> nat \<Rightarrow> byte list \<Rightarrow> ('t, 'k) mmu \<Rightarrow> ('t, 'k) mmu res" where
  "mmu_write_to_virtual_address p va pid buffer this =
     bindE (guardE (pid < max_process_id p) AssertFailed) (\<lambda>_.
     bindE (guardE (length buffer + unat va mod page_size p \<le> page_size p) AssertFailed) (\<lambda>_.
       if va = 0 then Inr (mmu_raise_segmentation_fault this)
       else bindE (find_pte p pid va (switch_process p pid this)) (\<lambda>(r, t1).
         let t2 = load_page p r t1 in
         if address_in_segmentations p (segments_of t2 pid) va
         then let m = machine t2; pte = get_entry r m; m' = set_entry r (pte\<lparr>dirty := True, accessed := True\<rparr>) m
              in Inr (t2\<lparr>machine := write_bytes (physical va pte) buffer m'\<rparr>)
         else Inr (mmu_raise_segmentation_fault t2))))"

section \<open>Processes\<close>

definition initial_segments :: "('t, 'k) platform \<Rightarrow> segmentations" where
  "initial_segments p =
     [STACK \<mapsto> \<lparr>seg_start = 0xBFFFE000, seg_end = 0xC07FE000, permissions = [READ, WRITE], grows_down = True\<rparr>,
      MMAP \<mapsto> \<lparr>seg_start = 0xC07FE000, seg_end = 0xC07FE000, permissions = [READ, EXEC, WRITE], grows_down = True\<rparr>,
      HEAP \<mapsto> \<lparr>seg_start = 0x08072000, seg_end = 0x08072000, permissions = [READ, WRITE], grows_down = False\<rparr>,
      BSS \<mapsto> \<lparr>seg_start = 0x0805A000, seg_end = 0x08072000, permissions = [READ, WRITE], grows_down = False\<rparr>,
      DATA \<mapsto> \<lparr>seg_start = 0x08052000, seg_end = 0x0805A000, permissions = [READ, WRITE], grows_down = False\<rparr>,
      TEXT \<mapsto> \<lparr>seg_start = 0x08048000, seg_end = 0x08052000, permissions = [READ, EXEC], grows_down = False\<rparr>,
      TESTING \<mapsto> \<lparr>seg_start = of_nat (page_size p), seg_end = of_nat (3 * page_size p),
                  permissions = [READ, WRITE], grows_down = False\<rparr>]"

definition set_directory :: "addr32 \<Rightarrow> nat \<Rightarrow> entry \<Rightarrow> 'k machine \<Rightarrow> 'k machine" where
  "set_directory d i e m = m\<lparr>directories := (directories m)(d := (directories m d)(i := e))\<rparr>"

text \<open>The pages 1 and 2 of the table that entry 0 of the directory \<open>d\<close> points to.\<close>

definition add_testing_page :: "('t, 'k) platform \<Rightarrow> addr32 \<Rightarrow> nat \<Rightarrow> 'k machine \<Rightarrow> 'k machine" where
  "add_testing_page p d i m =
     (let r = InTable (push_bit (num_offset_bits p) (base_addr (directories m d 0))) i;
          (frame, m1) = ask_kernel_for_frame p (Some r) m
      in set_entry r ((get_entry r m1)\<lparr>base_addr := drop_bit (num_offset_bits p) frame, present := True,
           read_write := True, user_supervisor := True\<rparr>) m1)"

definition mmu_add_process :: "('t, 'k) platform \<Rightarrow> nat \<Rightarrow> ('t, 'k) mmu \<Rightarrow> ('t, 'k) mmu res" where
  "mmu_add_process p pid this =
     bindE (guardE (pid < max_process_id p) AssertFailed) (\<lambda>_.
       let (d, m1) = ask_kernel_for_frame p None (machine this);
           (frame, m2) = ask_kernel_for_frame p None m1;
           m3 = set_directory d 0 ((directories m2 d 0)\<lparr>base_addr := drop_bit (num_offset_bits p) frame,
                  present := True, read_write := True, user_supervisor := True\<rparr>) m2
       in Inr (this\<lparr>page_directories := (page_directories this)(pid := Some d),
                segments_of := (segments_of this)(pid := Some (initial_segments p)),
                machine := fold (add_testing_page p d) [1..<3] m3\<rparr>))"

definition remove_page :: "('t, 'k) platform \<Rightarrow> addr32 \<Rightarrow> nat \<Rightarrow> 'k machine \<Rightarrow> 'k machine" where
  "remove_page p pt i m =
     (let pte = tables m pt i;
          m' = (if present pte then return_frame_to_kernel p (push_bit (num_offset_bits p) (base_addr pte)) m else m)
      in remove_swap_file p (InTable pt i) m')"

definition remove_table :: "('t, 'k) platform \<Rightarrow> addr32 \<Rightarrow> nat \<Rightarrow> 'k machine \<Rightarrow> 'k machine" where
  "remove_table p d j m =
     (let pde = directories m d j; pt = push_bit (num_offset_bits p) (base_addr pde) in
      if present pde then return_frame_to_kernel p pt (fold (remove_page p pt) [0..<num_entries p] m) else m)"

definition mmu_remove_process :: "('t, 'k) platform \<Rightarrow> nat \<Rightarrow> ('t, 'k) mmu \<Rightarrow> ('t, 'k) mmu res" where
  "mmu_remove_process p pid this =
     bindE (guardE (pid < max_process_id p) AssertFailed) (\<lambda>_.
       let m = (case page_directories this pid of None \<Rightarrow> machine this
                | Some d \<Rightarrow> return_frame_to_kernel p d (fold (remove_table p d) [0..<num_entries p] (machine this)));
           this' = this\<lparr>page_directories := (page_directories this)(pid := None),
                        segments_of := (segments_of this)(pid := None), machine := m\<rparr>
       in Inr (if curr_pid this' = pid then this'\<lparr>tlb := tlb_flush p (tlb this')\<rparr> else this'))"

fun remove_processes :: "('t, 'k) platform \<Rightarrow> nat \<Rightarrow> nat \<Rightarrow> ('t, 'k) mmu \<Rightarrow> ('t, 'k) mmu res" where
  "remove_processes p pid 0 this = Inr this"
| "remove_processes p pid (Suc n) this =
     bindE (mmu_remove_process p pid this) (remove_processes p (Suc pid) n)"

definition mmu_delete :: "('t, 'k) platform \<Rightarrow> ('t, 'k) mmu \<Rightarrow> 'k machine res" where
  "mmu_delete p this =
     bindE (remove_processes p 0 (max_process_id p) this) (\<lambda>this'. Inr (remove_swap_files p (machine this')))"

section \<open>Addresses are split without loss\<close>

lemma masks:
  "(0xFFC00000 :: addr32) = push_bit 22 (mask 10)" "(0x003FF000 :: addr32) = push_bit 12 (mask 10)"
  "(0xFFF :: addr32) = mask 12"
  by (simp_all add: mask_eq_exp_minus_1 push_bit_eq_mult)

lemma unat_mod_32: "unat (va :: addr32) mod 4294967296 = unat va"
proof -
  have "unat va < 2 ^ LENGTH(32)" by (rule unsigned_less)
  then show ?thesis by simp
qed

lemma page_bits_eq: "page_bits va = unat va div 2 ^ 22"
proof -
  have "drop_bit 22 (va AND 0xFFC00000) = drop_bit 22 va"
    unfolding masks by (rule bit_word_eqI) (auto simp: bit_simps dest: bit_imp_le_length)
  then show ?thesis by (simp only: page_bits_def unsigned_drop_bit_eq)
      (simp add: drop_bit_eq_div take_bit_eq_mod unat_mod_32)
qed

lemma table_bits_eq: "table_bits va = unat va div 2 ^ 12 mod 2 ^ 10"
proof -
  have "drop_bit 12 (va AND 0x003FF000) = take_bit 10 (drop_bit 12 va)"
    unfolding masks by (rule bit_word_eqI) (auto simp: bit_simps)
  then show ?thesis by (simp only: table_bits_def unsigned_take_bit_eq unsigned_drop_bit_eq)
      (simp add: drop_bit_eq_div take_bit_eq_mod unat_mod_32)
qed

lemma frame_bits_eq: "unat (frame_bits va) = unat va div 2 ^ 12"
proof -
  have "drop_bit 12 (va AND NOT 0xFFF) = drop_bit 12 va"
    unfolding masks by (rule bit_word_eqI) (auto simp: bit_simps dest: bit_imp_le_length)
  then show ?thesis by (simp only: frame_bits_def unsigned_drop_bit_eq)
      (simp add: drop_bit_eq_div take_bit_eq_mod unat_mod_32)
qed

lemma offset_eq: "unat ((va :: addr32) AND 0xFFF) = unat va mod 2 ^ 12"
  unfolding masks take_bit_eq_mask [symmetric] unsigned_take_bit_eq by (rule take_bit_eq_mod)

section \<open>Bytes\<close>

lemma fold_bytes:
  assumes "k + length bs \<le> 2 ^ 32"
  shows "(\<forall>i < k. fold (\<lambda>(i, b) f. f((a :: addr32) + of_nat i := b)) (enumerate k bs) f (a + of_nat i) = f (a + of_nat i))
    \<and> (\<forall>j < length bs. fold (\<lambda>(i, b) f. f(a + of_nat i := b)) (enumerate k bs) f (a + of_nat (k + j)) = bs ! j)"
  using assms
proof (induction bs arbitrary: k f)
  case (Cons b bs)
  let ?f = "f(a + of_nat k := b)"
  have inj: "(of_nat i :: addr32) \<noteq> of_nat k" if "i < k" for i
  proof -
    have "unat (of_nat i :: addr32) = i" "unat (of_nat k :: addr32) = k"
      using that Cons.prems by (auto simp: unat_of_nat take_bit_nat_eq_self_iff)
    then show ?thesis using that by (metis less_irrefl)
  qed
  have IH: "(\<forall>i < Suc k. fold (\<lambda>(i, b) f. f(a + of_nat i := b)) (enumerate (Suc k) bs) ?f (a + of_nat i) = ?f (a + of_nat i))
    \<and> (\<forall>j < length bs. fold (\<lambda>(i, b) f. f(a + of_nat i := b)) (enumerate (Suc k) bs) ?f (a + of_nat (Suc k + j)) = bs ! j)"
    using Cons.prems by (intro Cons.IH) simp
  show ?case
  proof (intro conjI allI impI)
    fix i assume "i < k"
    then show "fold (\<lambda>(i, b) f. f(a + of_nat i := b)) (enumerate k (b # bs)) f (a + of_nat i) = f (a + of_nat i)"
      using IH inj by simp
  next
    fix j assume "j < length (b # bs)"
    then show "fold (\<lambda>(i, b) f. f(a + of_nat i := b)) (enumerate k (b # bs)) f (a + of_nat (k + j)) = (b # bs) ! j"
      using IH by (cases j) (simp_all add: ac_simps del: of_nat_Suc of_nat_add)
  qed
qed simp

lemma read_write_bytes: "length bs \<le> 2 ^ 32 \<Longrightarrow> read_bytes a (length bs) (write_bytes a bs m) = bs"
  using fold_bytes [of 0 bs a "bytes m"]
  by (intro nth_equalityI) (simp_all add: read_bytes_def write_bytes_def)

section \<open>Mapped pages\<close>

text \<open>
  What the code relies on in the cache: a flushed cache is empty, an added translation changes no other. And what
  holds of its content: every translation is the current process's, from a directory entry that is present.
\<close>

definition tlb_lawful :: "('t, 'k) platform \<Rightarrow> bool" where
  "tlb_lawful p \<longleftrightarrow> (\<forall>t v. tlb_get_pte p (tlb_flush p t) v = None)
     \<and> (\<forall>t v r v' r'. tlb_get_pte p (tlb_add_pte p t v r) v' = Some r' \<longrightarrow> v' = v \<and> r' = r \<or> tlb_get_pte p t v' = Some r')"

definition walks_to :: "('t, 'k) mmu \<Rightarrow> nat \<Rightarrow> nat \<Rightarrow> pte_ref \<Rightarrow> bool" where
  "walks_to this pid v r \<longleftrightarrow> (\<exists>d. page_directories this pid = Some d
     \<and> (let e = directories (machine this) d (v div 2 ^ 10) in
        present e \<and> r = InTable (push_bit 12 (base_addr e)) (v mod 2 ^ 10)))"

definition tlb_ok :: "('t, 'k) platform \<Rightarrow> ('t, 'k) mmu \<Rightarrow> bool" where
  "tlb_ok p this \<longleftrightarrow> (\<forall>v r. tlb_get_pte p (tlb this) v = Some r \<longrightarrow> walks_to this (curr_pid this) (unat v) r)"

text \<open>The page of \<open>va\<close> in \<open>pid\<close> is present; \<open>r\<close> is its table entry.\<close>

definition mapped :: "('t, 'k) mmu \<Rightarrow> nat \<Rightarrow> addr32 \<Rightarrow> pte_ref \<Rightarrow> bool" where
  "mapped this pid va r \<longleftrightarrow> walks_to this pid (unat (frame_bits va)) r \<and> present (get_entry r (machine this))"

lemma walks_to_unique: "walks_to this pid v r \<Longrightarrow> walks_to this pid v r' \<Longrightarrow> r' = r"
  by (auto simp: walks_to_def Let_def)

lemma frame_split: "unat (frame_bits va) div 2 ^ 10 = page_bits va" "unat (frame_bits va) mod 2 ^ 10 = table_bits va"
  by (simp_all add: frame_bits_eq page_bits_eq table_bits_eq div_mult2_eq [symmetric])

lemma walks_to_cong:
  "page_directories a = page_directories b \<Longrightarrow> directories (machine a) = directories (machine b) \<Longrightarrow>
     walks_to a pid v r = walks_to b pid v r"
  by (simp add: walks_to_def)

lemma tlb_ok_switch:
  "tlb_lawful p \<Longrightarrow> tlb_ok p this \<or> curr_pid this \<noteq> pid \<Longrightarrow> tlb_ok p (switch_process p pid this)"
  by (auto simp: tlb_ok_def switch_process_def tlb_lawful_def)

lemma find_pte_mapped:
  assumes "tlb_lawful p" and ok: "tlb_ok p (switch_process p pid this)" and "walks_to this pid (unat (frame_bits va)) r"
  shows "\<exists>t1. find_pte p pid va (switch_process p pid this) = Inr (r, t1) \<and> tlb_ok p t1 \<and> curr_pid t1 = pid
    \<and> machine t1 = machine this \<and> page_directories t1 = page_directories this \<and> segments_of t1 = segments_of this
    \<and> num_page_faults t1 = num_page_faults this \<and> num_segmentation_faults t1 = num_segmentation_faults this"
proof -
  let ?s = "switch_process p pid this"
  have s: "machine ?s = machine this" "page_directories ?s = page_directories this" "segments_of ?s = segments_of this"
    "num_page_faults ?s = num_page_faults this" "num_segmentation_faults ?s = num_segmentation_faults this"
    "curr_pid ?s = pid" by (simp_all add: switch_process_def)
  have w: "walks_to ?s pid (unat (frame_bits va)) r" using assms(3) walks_to_cong [OF s(2)] s(1) by simp
  show ?thesis
  proof (cases "tlb_get_pte p (tlb ?s) (frame_bits va)")
    case (Some r')
    then have "walks_to ?s pid (unat (frame_bits va)) r'" using ok s(6) by (simp add: tlb_ok_def)
    then have "r' = r" using walks_to_unique [OF w] by simp
    then show ?thesis using Some ok s by (auto simp: find_pte_def)
  next
    case None
    let ?t = "mmu_tlb_miss (?s\<lparr>tlb := tlb_add_pte p (tlb ?s) (frame_bits va) r\<rparr>)"
    have "find_pte p pid va ?s = Inr (r, ?t)"
      using None w unfolding walks_to_def frame_split by (auto simp: find_pte_def Let_def)
    moreover have t: "machine ?t = machine this" "page_directories ?t = page_directories this" "segments_of ?t = segments_of this"
      "num_page_faults ?t = num_page_faults this" "num_segmentation_faults ?t = num_segmentation_faults this" "curr_pid ?t = pid"
      using s by (simp_all add: mmu_tlb_miss_def)
    moreover have "tlb_ok p ?t"
      unfolding tlb_ok_def
    proof (intro allI impI)
      fix v r' assume "tlb_get_pte p (tlb ?t) v = Some r'"
      then have "v = frame_bits va \<and> r' = r \<or> tlb_get_pte p (tlb ?s) v = Some r'"
        using assms(1) by (simp add: tlb_lawful_def mmu_tlb_miss_def)
      then have "walks_to ?s pid (unat v) r'" using w ok s(6) by (auto simp: tlb_ok_def)
      then show "walks_to ?t (curr_pid ?t) (unat v) r'"
        using walks_to_cong [of ?t ?s] s t by simp
    qed
    ultimately show ?thesis by blast
  qed
qed

text \<open>An access to a mapped page changes no translation and counts no fault.\<close>

definition keeps :: "('t, 'k) mmu \<Rightarrow> ('t, 'k) mmu \<Rightarrow> bool" where
  "keeps this t \<longleftrightarrow> page_directories t = page_directories this \<and> segments_of t = segments_of this
     \<and> directories (machine t) = directories (machine this)
     \<and> num_page_faults t = num_page_faults this \<and> num_segmentation_faults t = num_segmentation_faults this
     \<and> (\<forall>pt i. present (tables (machine t) pt i) = present (tables (machine this) pt i)
            \<and> base_addr (tables (machine t) pt i) = base_addr (tables (machine this) pt i))"

lemma keeps_trans: "keeps a b \<Longrightarrow> keeps b c \<Longrightarrow> keeps a c"
  by (simp add: keeps_def)

lemma mapped_in_table: "mapped this pid va r \<Longrightarrow> \<exists>pt i. r = InTable pt i"
  by (auto simp: mapped_def walks_to_def Let_def)

lemma keeps_mapped:
  assumes "keeps this t" and "mapped this pid va r"
  shows "mapped t pid va r \<and> physical va (get_entry r (machine t)) = physical va (get_entry r (machine this))"
proof -
  obtain pt i where r: "r = InTable pt i" using mapped_in_table [OF assms(2)] by blast
  have "walks_to t pid (unat (frame_bits va)) r"
    using assms walks_to_cong [of t this] by (simp add: mapped_def keeps_def)
  then show ?thesis using assms r by (simp add: mapped_def keeps_def get_entry_def physical_def)
qed

lemma set_entry_simps [simp]:
  "bytes (set_entry r e m) = bytes m" "directories (set_entry r e m) = directories m"
  by (simp_all add: set_entry_def split: pte_ref.splits)

lemma read_bytes_cong: "bytes m = bytes m' \<Longrightarrow> read_bytes a n m = read_bytes a n m'"
  by (simp add: read_bytes_def)

lemma keeps_set_entry:
  assumes "page_directories t1 = page_directories this" and "segments_of t1 = segments_of this" and "machine t1 = machine this"
    and "num_page_faults t1 = num_page_faults this" and "num_segmentation_faults t1 = num_segmentation_faults this"
    and "r = InTable pt i" and "present e = present (get_entry r (machine this))"
    and "base_addr e = base_addr (get_entry r (machine this))"
    and "directories m = directories (set_entry r e (machine t1))" and "tables m = tables (set_entry r e (machine t1))"
  shows "keeps this (t1\<lparr>machine := m\<rparr>)"
  using assms by (simp add: keeps_def set_entry_def get_entry_def)

lemma tlb_ok_cong:
  "tlb_ok p t \<Longrightarrow> directories m = directories (machine t) \<Longrightarrow> tlb_ok p (t\<lparr>machine := m\<rparr>)"
  using walks_to_cong [of "t\<lparr>machine := m\<rparr>" t] by (simp add: tlb_ok_def)

lemma load_page_present [simp]: "present (get_entry r (machine t)) \<Longrightarrow> load_page p r t = t"
  by (simp add: load_page_def)

lemma mmu_read_ok:
  assumes "pid < max_process_id p" and "n + unat va mod page_size p \<le> page_size p" and "va \<noteq> 0"
    and "tlb_lawful p" and "tlb_ok p (switch_process p pid this)" and "mapped this pid va r" and "address_in_segmentations p (segments_of this pid) va"
  shows "\<exists>t. mmu_read_from_virtual_address p va pid n this
           = Inr (Some (read_bytes (physical va (get_entry r (machine this))) n (machine this)), t)
         \<and> keeps this t \<and> tlb_ok p t \<and> bytes (machine t) = bytes (machine this)"
proof -
  have w: "walks_to this pid (unat (frame_bits va)) r" using assms(6) by (simp add: mapped_def)
  obtain t1 where t1: "find_pte p pid va (switch_process p pid this) = Inr (r, t1)" "tlb_ok p t1"
    "machine t1 = machine this" "page_directories t1 = page_directories this" "segments_of t1 = segments_of this"
    "num_page_faults t1 = num_page_faults this" "num_segmentation_faults t1 = num_segmentation_faults this"
    using find_pte_mapped [OF assms(4,5) w] by blast
  obtain pt i where r: "r = InTable pt i" using mapped_in_table [OF assms(6)] by blast
  have pres: "present (get_entry r (machine t1))" using assms(6) t1(3) by (simp add: mapped_def)
  let ?m = "set_entry r ((get_entry r (machine t1))\<lparr>accessed := True\<rparr>) (machine t1)"
  have "mmu_read_from_virtual_address p va pid n this
      = Inr (Some (read_bytes (physical va (get_entry r (machine t1))) n ?m), t1\<lparr>machine := ?m\<rparr>)"
    using assms(1-3,7) t1(1,5) pres by (simp add: mmu_read_from_virtual_address_def Let_def)
  moreover have "keeps this (t1\<lparr>machine := ?m\<rparr>)"
    using t1 r by (intro keeps_set_entry [OF t1(4,5,3,6,7) r, of "(get_entry r (machine t1))\<lparr>accessed := True\<rparr>"]) simp_all
  moreover have "tlb_ok p (t1\<lparr>machine := ?m\<rparr>)" using t1(2) by (rule tlb_ok_cong) simp
  ultimately show ?thesis
    using t1(3) read_bytes_cong [of ?m "machine this"] by auto
qed

lemma mmu_write_ok:
  assumes "pid < max_process_id p" and "length bs + unat va mod page_size p \<le> page_size p" and "va \<noteq> 0"
    and "tlb_lawful p" and "tlb_ok p (switch_process p pid this)" and "mapped this pid va r" and "address_in_segmentations p (segments_of this pid) va"
  shows "\<exists>t. mmu_write_to_virtual_address p va pid bs this = Inr t \<and> keeps this t \<and> tlb_ok p t
         \<and> (\<exists>m. machine t = write_bytes (physical va (get_entry r (machine this))) bs m
               \<and> bytes m = bytes (machine this))"
proof -
  have w: "walks_to this pid (unat (frame_bits va)) r" using assms(6) by (simp add: mapped_def)
  obtain t1 where t1: "find_pte p pid va (switch_process p pid this) = Inr (r, t1)" "tlb_ok p t1"
    "machine t1 = machine this" "page_directories t1 = page_directories this" "segments_of t1 = segments_of this"
    "num_page_faults t1 = num_page_faults this" "num_segmentation_faults t1 = num_segmentation_faults this"
    using find_pte_mapped [OF assms(4,5) w] by blast
  obtain pt i where r: "r = InTable pt i" using mapped_in_table [OF assms(6)] by blast
  have pres: "present (get_entry r (machine t1))" using assms(6) t1(3) by (simp add: mapped_def)
  let ?e = "(get_entry r (machine t1))\<lparr>dirty := True, accessed := True\<rparr>"
  let ?m = "write_bytes (physical va (get_entry r (machine t1))) bs (set_entry r ?e (machine t1))"
  have "mmu_write_to_virtual_address p va pid bs this = Inr (t1\<lparr>machine := ?m\<rparr>)"
    using assms(1-3,7) t1(1,5) pres by (simp add: mmu_write_to_virtual_address_def Let_def)
  moreover have "keeps this (t1\<lparr>machine := ?m\<rparr>)"
    using t1 r by (intro keeps_set_entry [OF t1(4,5,3,6,7) r, of ?e]) (simp_all add: write_bytes_def)
  moreover have "tlb_ok p (t1\<lparr>machine := ?m\<rparr>)" using t1(2) by (rule tlb_ok_cong) (simp add: write_bytes_def)
  ultimately show ?thesis using t1(3) by auto
qed

section \<open>A sample platform\<close>

text \<open>
  A cache that is a list of translations, a kernel that hands out one frame after the other, and a machine with two
  processes whose directories, at the frames 1 and 2, are empty but for entry 1 of the first, which
  points to the table in frame 3, whose entry 0 is the page in frame 4.
\<close>

definition sample_platform :: "((addr32 \<times> pte_ref) list, nat) platform" where
  "sample_platform = \<lparr>page_size = 4096, max_process_id = 2, num_entries = 1024, num_offset_bits = 12,
     tlb_create = [], tlb_get_pte = map_of, tlb_add_pte = (\<lambda>t v r. (v, r) # t), tlb_flush = (\<lambda>_. []),
     ask_kernel_for_frame = (\<lambda>r m. (push_bit 12 (of_nat (kstate m)), m\<lparr>kstate := Suc (kstate m)\<rparr>)),
     read_page_from_disk = (\<lambda>r m. m), return_frame_to_kernel = (\<lambda>a m. m), remove_swap_file = (\<lambda>r m. m),
     remove_swap_files = (\<lambda>m. m), address_in_segmentations = (\<lambda>s va. s \<noteq> None)\<rparr>"

definition no_entry :: entry where
  "no_entry = \<lparr>present = False, base_addr = 0, read_write = False, user_supervisor = False, accessed = False, dirty = False\<rparr>"

definition entry_to :: "addr32 \<Rightarrow> entry" where
  "entry_to f = no_entry\<lparr>present := True, base_addr := f\<rparr>"

definition sample_mmu :: "((addr32 \<times> pte_ref) list, nat) mmu" where
  "sample_mmu = (mmu_create sample_platform
       \<lparr>directories = (\<lambda>d i. if d = 0x1000 \<and> i = 1 then entry_to 3 else no_entry),
        tables = (\<lambda>t i. if t = 0x3000 \<and> i = 0 then entry_to 4 else no_entry), bytes = (\<lambda>_. 0), kstate = 5\<rparr>)
     \<lparr>page_directories := [0 \<mapsto> 0x1000, 1 \<mapsto> 0x2000],
      segments_of := (\<lambda>i. Some (initial_segments sample_platform))\<rparr>"

lemma sample_lawful: "tlb_lawful sample_platform"
  by (auto simp: tlb_lawful_def sample_platform_def split: if_splits)

lemma sample_mapped: "mapped sample_mmu 0 0x00400000 (InTable 0x3000 0)"
  unfolding mapped_def walks_to_def frame_split
  by (simp add: sample_mmu_def mmu_create_def page_bits_def table_bits_def get_entry_def entry_to_def no_entry_def Let_def)

lemma sample_tlb_ok: "tlb_ok sample_platform sample_mmu"
  by (simp add: tlb_ok_def sample_mmu_def mmu_create_def sample_platform_def)

section \<open>Properties\<close>

text \<open>
  An address is the index in the directory, the index in the table and the offset in the page: the three parts
  are in range and the address is put together from them; the number of the page that the cache is asked for is
  the two indices.
\<close>

theorem mmu_address_split:
  "page_bits va < 2 ^ 10 \<and> table_bits va < 2 ^ 10 \<and> unat (va AND 0xFFF) < 2 ^ 12
     \<and> unat va = page_bits va * 2 ^ 22 + table_bits va * 2 ^ 12 + unat (va AND 0xFFF)
     \<and> unat (frame_bits va) = page_bits va * 2 ^ 10 + table_bits va"
proof -
  have u: "unat va < 2 ^ LENGTH(32)" by (rule unsigned_less)
  have f: "unat (frame_bits va) = page_bits va * 2 ^ 10 + table_bits va"
    using frame_split [of va] div_mult_mod_eq [of "unat (frame_bits va)" "2 ^ 10"] by metis
  have v: "unat va = unat (frame_bits va) * 2 ^ 12 + unat (va AND 0xFFF)"
    using frame_bits_eq [of va] offset_eq [of va] div_mult_mod_eq [of "unat va" "2 ^ 12"] by metis
  have s: "unat va = page_bits va * 2 ^ 22 + table_bits va * 2 ^ 12 + unat (va AND 0xFFF)"
    using v unfolding f by (simp only: distrib_right mult.assoc power_add [symmetric]) simp
  have "page_bits va < 2 ^ 10"
    unfolding page_bits_eq using u by (intro less_mult_imp_div_less) simp
  moreover have "table_bits va < 2 ^ 10" unfolding table_bits_eq by simp
  moreover have "unat (va AND 0xFFF) < 2 ^ 12" unfolding offset_eq by simp
  ultimately show ?thesis using f s by blast
qed



text \<open>
  A page fault on a directory entry is never recorded in the directory: as long as the kernel leaves the directories
  alone, the entry is still absent after the access, so the process faults again, and is given another
  table, whenever it returns after another process.
\<close>

theorem mmu_table_never_kept:
  assumes "tlb_lawful p" and "\<And>r m. directories (snd (ask_kernel_for_frame p r m)) = directories m"
    and "\<And>r m. directories (read_page_from_disk p r m) = directories m"
    and "page_directories this pid = Some d" and "\<not> present (directories (machine this) d (page_bits va))"
    and "va \<noteq> 0" and "curr_pid this \<noteq> pid" and "mmu_read_from_virtual_address p va pid n this = Inr (x, t)"
  shows "num_page_faults this < num_page_faults t \<and> page_directories t pid = Some d
     \<and> \<not> present (directories (machine t) d (page_bits va))"
proof -
  let ?s = "switch_process p pid this"
  have s: "machine ?s = machine this" "page_directories ?s = page_directories this" "num_page_faults ?s = num_page_faults this"
    "tlb_get_pte p (tlb ?s) (frame_bits va) = None"
    using assms(1,7) by (simp_all add: switch_process_def tlb_lawful_def)
  obtain r t1 where f: "find_pte p pid va ?s = Inr (r, t1)"
    using assms(6,8) by (auto simp: mmu_read_from_virtual_address_def bindE_eq_Inr_iff)
  have k: "directories (snd (ask_kernel_for_frame p q m)) = directories m" "directories (read_page_from_disk p q' m) = directories m"
    for q q' m using assms(2,3) by simp_all
  have 1: "num_page_faults t1 = Suc (num_page_faults this)" "page_directories t1 = page_directories this"
    "directories (machine t1) = directories (machine this)"
    using f s assms(4,5) k
    by (auto simp: find_pte_def Let_def split_beta mmu_tlb_miss_def mmu_raise_page_fault_def)
  let ?t = "load_page p r t1"
  have 2: "num_page_faults t1 \<le> num_page_faults ?t" "page_directories ?t = page_directories t1"
    "directories (machine ?t) = directories (machine t1)"
    using k by (auto simp: load_page_def Let_def split_beta mmu_raise_page_fault_def)
  have "num_page_faults t = num_page_faults ?t \<and> page_directories t = page_directories ?t
      \<and> directories (machine t) = directories (machine ?t)"
    using f assms(6,8)
    by (auto simp: mmu_read_from_virtual_address_def bindE_eq_Inr_iff Let_def mmu_raise_segmentation_fault_def split: if_splits)
  then show ?thesis using 1 2 assms(4,5) by simp
qed

theorem mmu_table_never_kept_witness:
  "\<exists>x t. mmu_read_from_virtual_address sample_platform 0x00800000 1 1 sample_mmu = Inr (x, t) \<and> 0 < num_page_faults t
     \<and> \<not> present (directories (machine t) 0x2000 2)"
proof -
  have r: "\<exists>x t. mmu_read_from_virtual_address sample_platform 0x00800000 1 1 sample_mmu = Inr (x, t)"
    by (simp add: mmu_read_from_virtual_address_def find_pte_def switch_process_def sample_platform_def sample_mmu_def mmu_create_def Let_def)
  then obtain x t where r: "mmu_read_from_virtual_address sample_platform 0x00800000 1 1 sample_mmu = Inr (x, t)" by blast
  have "directories (snd (ask_kernel_for_frame sample_platform q m)) = directories m"
    "directories (read_page_from_disk sample_platform q' m) = directories m" for q q' m
    by (simp_all add: sample_platform_def)
  moreover have "page_directories sample_mmu 1 = Some 0x2000" "curr_pid sample_mmu \<noteq> 1" "(0x00800000 :: addr32) \<noteq> 0"
    and pb: "page_bits 0x00800000 = 2"
    and "\<not> present (directories (machine sample_mmu) 0x2000 (page_bits 0x00800000))"
    by (simp_all add: sample_mmu_def mmu_create_def no_entry_def page_bits_def)
  ultimately have "num_page_faults sample_mmu < num_page_faults t \<and> page_directories t 1 = Some 0x2000
     \<and> \<not> present (directories (machine t) 0x2000 (page_bits 0x00800000))"
    by (intro mmu_table_never_kept [OF sample_lawful _ _ _ _ _ _ r])
  then show ?thesis using r unfolding pb by auto
qed

text \<open>A kernel with frames to spare: it gives page-aligned frames and touches nothing else.\<close>

definition plain_kernel :: "('t, 'k) platform \<Rightarrow> bool" where
  "plain_kernel p \<longleftrightarrow> num_offset_bits p = 12
     \<and> (\<forall>r m. snd (ask_kernel_for_frame p r m) = m\<lparr>kstate := kstate (snd (ask_kernel_for_frame p r m))\<rparr>
            \<and> fst (ask_kernel_for_frame p r m) AND 0xFFF = 0)"

lemma aligned: "(f :: addr32) AND 0xFFF = 0 \<Longrightarrow> push_bit 12 (drop_bit 12 f) = f"
proof -
  assume "f AND 0xFFF = 0"
  then have "take_bit 12 f = 0" by (simp only: masks take_bit_eq_mask)
  then show ?thesis by (metis add_0_right bits_ident)
qed

lemma add_testing_page_effect:
  assumes "plain_kernel p"
  shows "directories (add_testing_page p d i m) = directories m
    \<and> (let t = push_bit 12 (base_addr (directories m d 0)) in
       present (tables (add_testing_page p d i m) t i)
     \<and> (\<forall>j. j \<noteq> i \<longrightarrow> tables (add_testing_page p d i m) t j = tables m t j))"
proof -
  have k: "directories (snd (ask_kernel_for_frame p r m)) = directories m" "tables (snd (ask_kernel_for_frame p r m)) = tables m" for r
    using assms unfolding plain_kernel_def by (metis machine.select_convs(1) machine.surjective machine.update_convs(4),
      metis machine.select_convs(2) machine.surjective machine.update_convs(4))
  then show ?thesis using assms
    by (simp add: add_testing_page_def plain_kernel_def Let_def split_beta set_entry_def)
qed

lemma mmu_add_process_mapped:
  assumes "plain_kernel p" and "pid < max_process_id p" and "page_bits va = 0" and "table_bits va = 1 \<or> table_bits va = 2"
  shows "\<exists>t r. mmu_add_process p pid this = Inr t \<and> mapped t pid va r \<and> curr_pid t = curr_pid this
     \<and> segments_of t pid = Some (initial_segments p) \<and> num_page_faults t = num_page_faults this"
proof -
  obtain d k1 where d: "ask_kernel_for_frame p None (machine this) = (d, k1)" by (cases "ask_kernel_for_frame p None (machine this)")
  obtain frame k2 where f: "ask_kernel_for_frame p None k1 = (frame, k2)" by (cases "ask_kernel_for_frame p None k1")
  define m3 where "m3 = set_directory d 0 ((directories k2 d 0)\<lparr>base_addr := drop_bit (num_offset_bits p) frame,
                  present := True, read_write := True, user_supervisor := True\<rparr>) k2"
  have upt: "[1..<3] = [1, 2 :: nat]" by (simp add: upt_rec)
  define t where "t = this\<lparr>page_directories := (page_directories this)(pid := Some d),
                segments_of := (segments_of this)(pid := Some (initial_segments p)),
                machine := fold (add_testing_page p d) [1..<3] m3\<rparr>"
  have t: "mmu_add_process p pid this = Inr t"
    using assms(2) d f by (simp add: mmu_add_process_def t_def m3_def)
  have e: "present (directories m3 d 0)" "page_directories t pid = Some d"
    "machine t = add_testing_page p d 2 (add_testing_page p d 1 m3)"
    "curr_pid t = curr_pid this" "segments_of t pid = Some (initial_segments p)" "num_page_faults t = num_page_faults this"
    unfolding t_def upt by (simp_all add: m3_def set_directory_def)
  let ?m1 = "add_testing_page p d 1 m3" and ?t = "push_bit 12 (base_addr (directories m3 d 0))"
  note e1 = add_testing_page_effect [OF assms(1), of d 1 m3] and e2 = add_testing_page_effect [OF assms(1), of d 2 ?m1]
  have dirs: "directories (machine t) = directories m3" using e1 e2 e(3) by simp
  have "present (tables (machine t) ?t (table_bits va))"
    using e1 e2 e(3) assms(4) by (auto simp: Let_def)
  moreover have "walks_to t pid (unat (frame_bits va)) (InTable ?t (table_bits va))"
    using e(1,2) dirs assms(3) unfolding walks_to_def frame_split by (simp add: Let_def)
  ultimately show ?thesis using t e by (auto simp: mapped_def get_entry_def)
qed

text \<open>
  The two pages of test memory that a new process is given work at once: what it writes to any of their addresses it
  reads back, without a fault.
\<close>

theorem mmu_add_process_usable:
  assumes "plain_kernel p" and "tlb_lawful p" and "page_size p = 4096" and "pid < max_process_id p" and "curr_pid this \<noteq> pid"
    and "4096 \<le> unat va" and "unat va < 3 * 4096" and "length bs + unat va mod 4096 \<le> 4096"
    and "address_in_segmentations p (Some (initial_segments p)) va"
  shows "\<exists>t t1 t2. mmu_add_process p pid this = Inr t \<and> mmu_write_to_virtual_address p va pid bs t = Inr t1
     \<and> mmu_read_from_virtual_address p va pid (length bs) t1 = Inr (Some bs, t2)
     \<and> num_page_faults t2 = num_page_faults this"
proof -
  have "unat va div 4096 = 1 \<or> unat va div 4096 = 2" using assms(6,7) by auto
  then have tb: "page_bits va = 0" "table_bits va = 1 \<or> table_bits va = 2"
    using assms(7) by (auto simp: page_bits_eq table_bits_eq)
  obtain t r where t: "mmu_add_process p pid this = Inr t" "mapped t pid va r" "curr_pid t = curr_pid this"
    "segments_of t pid = Some (initial_segments p)" "num_page_faults t = num_page_faults this"
    using mmu_add_process_mapped [OF assms(1,4) tb] by blast
  have va: "va \<noteq> 0" using assms(6) by auto
  have sz: "length bs + unat va mod page_size p \<le> page_size p" using assms(3,8) by simp
  have ok: "tlb_ok p (switch_process p pid t)" using assms(2,5) t(3) by (intro tlb_ok_switch) simp_all
  have seg: "address_in_segmentations p (segments_of t pid) va" using assms(9) t(4) by simp
  obtain t1 m where 1: "mmu_write_to_virtual_address p va pid bs t = Inr t1" "keeps t t1" "tlb_ok p t1"
    "machine t1 = write_bytes (physical va (get_entry r (machine t))) bs m"
    using mmu_write_ok [OF assms(4) sz va assms(2) ok t(2) seg] by blast
  have m: "mapped t1 pid va r" "physical va (get_entry r (machine t1)) = physical va (get_entry r (machine t))"
    using keeps_mapped [OF 1(2) t(2)] by simp_all
  have "address_in_segmentations p (segments_of t1 pid) va" using seg 1(2) by (simp add: keeps_def)
  from mmu_read_ok [OF assms(4) sz va assms(2) tlb_ok_switch m(1) this] assms(2) 1(3) obtain t2 where 2:
    "mmu_read_from_virtual_address p va pid (length bs) t1
       = Inr (Some (read_bytes (physical va (get_entry r (machine t))) (length bs) (machine t1)), t2)" "keeps t1 t2"
    using m(2) by auto
  have "read_bytes (physical va (get_entry r (machine t))) (length bs) (machine t1) = bs"
    unfolding 1(4) using assms(8) by (intro read_write_bytes) simp
  then show ?thesis using t(1,5) 1(1,2) 2 by (auto simp: keeps_def)
qed

theorem mmu_add_process_usable_witness:
  "\<exists>t t1 t2. mmu_add_process sample_platform 1 (mmu_create sample_platform (machine sample_mmu)) = Inr t
     \<and> mmu_write_to_virtual_address sample_platform 0x1FFE 1 [7, 8] t = Inr t1
     \<and> mmu_read_from_virtual_address sample_platform 0x1FFE 1 2 t1 = Inr (Some [7, 8], t2)"
proof -
  have "push_bit 12 w AND 0xFFF = 0" for w :: addr32
    unfolding masks by (rule bit_word_eqI) (auto simp: bit_simps)
  then have k: "plain_kernel sample_platform" by (simp add: plain_kernel_def sample_platform_def)
  have c: "page_size sample_platform = 4096" "1 < max_process_id sample_platform"
    "curr_pid (mmu_create sample_platform (machine sample_mmu)) \<noteq> 1"
    "4096 \<le> unat (0x1FFE :: addr32)" "unat (0x1FFE :: addr32) < 3 * 4096"
    "length [7, 8 :: byte] + unat (0x1FFE :: addr32) mod 4096 \<le> 4096"
    "address_in_segmentations sample_platform (Some (initial_segments sample_platform)) 0x1FFE"
    by (simp_all add: sample_platform_def mmu_create_def)
  have l: "length [7, 8 :: byte] = 2" by simp
  from mmu_add_process_usable [OF k sample_lawful c] show ?thesis unfolding l by blast
qed

end
