(* ===== verification/Minixfs.thy ===== *)
theory Minixfs
  imports Prelude
begin

text \<open>
  \<^verbatim>\<open>finding_filesystems/minixfs.c\<close>: permissions, owners, creation, reading and writing of files that are kept in
  blocks. The header and the utilities (\<^verbatim>\<open>minixfs.h\<close>, \<^verbatim>\<open>minixfs_utils.h\<close>) are not in the repository; their
  constants and functions are the record \<open>minix_lib\<close>. An inode is its index in the inode table, a data block
  its index in the data region; block number -1 is \<^verbatim>\<open>UNASSIGNED_NODE\<close>, and a number outside the region makes the
  access a fault. Offsets are below \<open>2 ^ 31\<close> blocks, so that block numbers fit an \<^verbatim>\<open>int\<close>; the conversion of
  the byte count to \<^verbatim>\<open>int\<close> is written out.
\<close>

type_synonym byte = "8 word"

section \<open>The file system\<close>

record inode =
  uid :: nat
  gid :: nat
  mode :: "16 word"
  size_of :: nat
  direct :: "int list"
  indirect :: int
  atim :: nat
  mtim :: nat
  ctim :: nat

record file_system =
  inodes :: "inode list"
  data :: "byte list list"
  data_map :: "byte list"
  clock :: nat

record minix_lib =
  block_size :: nat
  num_direct_blocks :: nat
  file_name_entry :: nat
  rwx_bits_number :: nat
  get_inode :: "file_system \<Rightarrow> string \<Rightarrow> nat option"
  min_blockcount :: "file_system \<Rightarrow> string \<Rightarrow> nat \<Rightarrow> file_system option"
  first_unused_inode :: "file_system \<Rightarrow> nat option"
  parent_directory :: "file_system \<Rightarrow> string \<Rightarrow> nat option \<times> string"
  init_inode :: "nat option \<Rightarrow> nat \<Rightarrow> file_system \<Rightarrow> file_system"
  add_data_block_to_inode :: "file_system \<Rightarrow> nat \<Rightarrow> file_system"
  dirent_string :: "string \<Rightarrow> nat \<Rightarrow> byte list"
  is_virtual_path :: "string \<Rightarrow> string option"
  block_numbers :: "byte list \<Rightarrow> int list"

datatype errno = ENOENT | ENOSPC

definition update_inode :: "nat \<Rightarrow> (inode \<Rightarrow> inode) \<Rightarrow> file_system \<Rightarrow> file_system" where
  "update_inode i f fs = fs\<lparr>inodes := (inodes fs)[i := f (inodes fs ! i)]\<rparr>"

section \<open>Permissions and owners\<close>

definition minixfs_chmod :: "minix_lib \<Rightarrow> file_system \<Rightarrow> string \<Rightarrow> 16 word \<Rightarrow> (errno + unit) \<times> file_system" where
  "minixfs_chmod L fs path new_permissions =
     (case get_inode L fs path of
        None \<Rightarrow> (Inl ENOENT, fs)
      | Some i \<Rightarrow> (Inr (), update_inode i (\<lambda>node. node\<lparr>mode :=
            or (push_bit (rwx_bits_number L) (drop_bit (rwx_bits_number L) (mode node))) new_permissions,
            ctim := clock fs\<rparr>) fs))"

text \<open>\<open>None\<close> is the argument -1.\<close>

definition minixfs_chown :: "minix_lib \<Rightarrow> file_system \<Rightarrow> string \<Rightarrow> nat option \<Rightarrow> nat option \<Rightarrow> (errno + unit) \<times> file_system" where
  "minixfs_chown L fs path owner grp =
     (case get_inode L fs path of
        None \<Rightarrow> (Inl ENOENT, fs)
      | Some i \<Rightarrow> (Inr (), update_inode i (\<lambda>node. node\<lparr>
            uid := (case owner of None \<Rightarrow> uid node | Some u \<Rightarrow> u),
            gid := (case grp of None \<Rightarrow> gid node | Some g \<Rightarrow> g), ctim := clock fs\<rparr>) fs))"

section \<open>Blocks\<close>

definition data_block :: "file_system \<Rightarrow> int \<Rightarrow> nat res" where
  "data_block fs n = (if 0 \<le> n \<and> nat n < length (data fs) then Inr (nat n) else Inl OutOfBounds)"

definition nth_number :: "int list \<Rightarrow> nat \<Rightarrow> int res" where
  "nth_number ns k = (if k < length ns then Inr (ns ! k) else Inl OutOfBounds)"

definition file_block :: "minix_lib \<Rightarrow> file_system \<Rightarrow> inode \<Rightarrow> nat \<Rightarrow> nat res" where
  "file_block L fs node bnum =
     (if bnum < num_direct_blocks L
      then bindE (nth_number (direct node) bnum) (data_block fs)
      else bindE (data_block fs (indirect node)) (\<lambda>ib.
           bindE (nth_number (block_numbers L (data fs ! ib)) (bnum - num_direct_blocks L)) (data_block fs)))"

definition overwrite :: "'a list \<Rightarrow> nat \<Rightarrow> 'a list \<Rightarrow> 'a list" where
  "overwrite xs k ys = take k xs @ ys @ drop (k + length ys) xs"

section \<open>Reading and writing\<close>

text \<open>The conversion of a \<^verbatim>\<open>size_t\<close> to \<^verbatim>\<open>int\<close>.\<close>

definition to_int :: "nat \<Rightarrow> int" where
  "to_int n = sint (of_nat n :: 32 word)"

function write_loop :: "minix_lib \<Rightarrow> inode \<Rightarrow> nat \<Rightarrow> nat \<Rightarrow> byte list \<Rightarrow> file_system \<Rightarrow> file_system res" where
  "write_loop L node bnum boff bs fs =
     (if bs = [] then Inr fs
      else if block_size L \<le> boff then Inl Diverges
      else bindE (file_block L fs node bnum) (\<lambda>b.
        let n = min (block_size L - boff) (length bs) in
        write_loop L node (Suc bnum) 0 (drop n bs)
          (fs\<lparr>data := (data fs)[b := overwrite (data fs ! b) boff (take n bs)]\<rparr>)))"
  by pat_completeness auto
termination
  by (relation "measure (\<lambda>(L, node, bnum, boff, bs, fs). length bs)") auto

function read_loop :: "minix_lib \<Rightarrow> inode \<Rightarrow> nat \<Rightarrow> nat \<Rightarrow> nat \<Rightarrow> file_system \<Rightarrow> byte list res" where
  "read_loop L node bnum boff unread fs =
     (if unread = 0 then Inr []
      else if block_size L \<le> boff then Inl Diverges
      else bindE (file_block L fs node bnum) (\<lambda>b.
        let n = min (block_size L - boff) unread in
        bindE (read_loop L node (Suc bnum) 0 (unread - n) fs) (\<lambda>rest.
          Inr (take n (drop boff (data fs ! b)) @ rest))))"
  by pat_completeness auto
termination
  by (relation "measure (\<lambda>(L, node, bnum, boff, unread, fs). unread)") auto

declare write_loop.simps [simp del] read_loop.simps [simp del]

section \<open>Creating a file\<close>

text \<open>
  The search for a free entry in the blocks of the directory \<open>parent\<close>: at byte \<open>pos\<close> of block \<open>bnum\<close>, with
  \<open>sz\<close> bytes of the directory left.
\<close>

function entry_loop :: "minix_lib \<Rightarrow> string \<Rightarrow> nat \<Rightarrow> nat \<Rightarrow> nat \<Rightarrow> nat \<Rightarrow> int \<Rightarrow> file_system \<Rightarrow> (bool \<times> file_system) res" where
  "entry_loop L filename inum parent bnum pos sz fs =
     (if sz < 0 then Inr (False, fs)
      else bindE (nth_number (direct (inodes fs ! parent)) bnum) (\<lambda>n.
        let fs = (if n = -1 \<and> pos = 0 then add_data_block_to_inode L fs parent else fs) in
        bindE (nth_number (direct (inodes fs ! parent)) bnum) (\<lambda>n. bindE (data_block fs n) (\<lambda>b.
          if pos = block_size L
          then if pos = 0 then Inl Diverges else entry_loop L filename inum parent (Suc bnum) 0 sz fs
          else if length (data fs ! b) \<le> pos then Inl OutOfBounds
          else if data fs ! b ! pos = 0
          then Inr (True, update_inode parent (\<lambda>p. p\<lparr>size_of := size_of p + file_name_entry L\<rparr>)
                 (fs\<lparr>data := (data fs)[b := overwrite (data fs ! b) pos (dirent_string L filename inum)]\<rparr>))
          else if file_name_entry L = 0 then Inl Diverges
          else entry_loop L filename inum parent bnum (pos + file_name_entry L) (sz - int (file_name_entry L)) fs))))"
  by pat_completeness auto
termination
proof (relation "measures [\<lambda>(L, filename, inum, parent, bnum, pos, sz, fs). nat (sz + 1), \<lambda>(L, filename, inum, parent, bnum, pos, sz, fs). pos]", goal_cases)
  case 2
  then show ?case by auto
next
  case 3
  then show ?case by auto
qed simp

definition minixfs_create_inode_for_path :: "minix_lib \<Rightarrow> file_system \<Rightarrow> string \<Rightarrow> (nat option \<times> file_system) res" where
  "minixfs_create_inode_for_path L fs path =
     (case get_inode L fs path of
        Some i \<Rightarrow> Inr (None, update_inode i (\<lambda>node. node\<lparr>atim := clock fs, mtim := clock fs, ctim := clock fs\<rparr>) fs)
      | None \<Rightarrow>
          (case first_unused_inode L fs of
             None \<Rightarrow> Inr (None, fs)
           | Some inum \<Rightarrow>
               let (parent, filename) = parent_directory L fs path; fs = init_inode L parent inum fs in
               (case parent of
                  None \<Rightarrow> Inl NullDeref
                | Some p \<Rightarrow>
                    bindE (entry_loop L filename inum p 0 0 (to_int (size_of (inodes fs ! p))) fs) (\<lambda>(found, fs').
                      Inr (if found then Some inum else None, fs')))))"

section \<open>The operations on files\<close>

definition minixfs_write :: "minix_lib \<Rightarrow> file_system \<Rightarrow> string \<Rightarrow> byte list \<Rightarrow> nat
    \<Rightarrow> ((errno + nat) \<times> file_system \<times> nat) res" where
  "minixfs_write L fs path buffer off =
     (let count = length buffer; block_count = (off + count) div block_size L + 1 in
      case min_blockcount L fs path block_count of
        None \<Rightarrow> Inr (Inl ENOSPC, fs, off)
      | Some fs \<Rightarrow>
          bindE (case get_inode L fs path of
                   Some i \<Rightarrow> Inr (Some i, fs)
                 | None \<Rightarrow> minixfs_create_inode_for_path L fs path) (\<lambda>(node, fs).
            case node of
              None \<Rightarrow> Inr (Inl ENOSPC, fs, off)
            | Some i \<Rightarrow>
                bindE (write_loop L (inodes fs ! i) (off div block_size L) (off mod block_size L)
                         (take (nat (to_int count)) buffer) fs) (\<lambda>fs.
                let off' = off + count in
                Inr (Inr count, update_inode i (\<lambda>n. n\<lparr>atim := clock fs, size_of := off'\<rparr>) fs, off'))))"

text \<open>The decimal digits of a number.\<close>

fun show_nat :: "nat \<Rightarrow> string" where
  "show_nat n = (if n < 10 then [char_of (48 + n)] else show_nat (n div 10) @ [char_of (48 + n mod 10)])"

declare show_nat.simps [simp del]

definition show_int :: "int \<Rightarrow> string" where
  "show_int z = (if z < 0 then ''-'' @ show_nat (nat (- z)) else show_nat (nat z))"

text \<open>The helper the file declares and does not use; \<open>data_number\<close> is the constant \<^verbatim>\<open>DATA_NUMBER\<close>.\<close>

definition block_info_string :: "nat \<Rightarrow> int \<Rightarrow> string" where
  "block_info_string data_number num_used_blocks =
     (let curr_free_blocks = int data_number - num_used_blocks in
      ''Free blocks: '' @ show_int curr_free_blocks @ [CHR 0x0A] @ ''Used blocks: '' @ show_int num_used_blocks @ [CHR 0x0A])"

text \<open>
  The text goes into a buffer of \<open>count\<close> bytes, whatever its length; past its end, the unset part of the
  local array would be read.
\<close>

definition minixfs_virtual_read :: "file_system \<Rightarrow> string \<Rightarrow> nat \<Rightarrow> nat \<Rightarrow> (errno + string) res" where
  "minixfs_virtual_read fs path count off =
     (if path = ''info''
      then let fre = length (filter (\<lambda>b. b = 0) (data_map fs)); used = length (data_map fs) - fre;
               buffer = ''Free blocks: '' @ show_nat fre @ [CHR 0x0A] @ ''Used blocks: '' @ show_nat used @ [CHR 0x0A]
           in if length buffer < off then Inl Uninitialised
              else if count \<le> length (drop off buffer) then Inl OutOfBounds
              else Inr (Inr (drop off buffer))
      else Inr (Inl ENOENT))"

text \<open>Counting the blocks gives the text of the helper on a disk of \<^verbatim>\<open>DATA_NUMBER\<close> blocks.\<close>

lemma virtual_read_info:
  assumes "fre = length (filter (\<lambda>b. b = 0) (data_map fs))" and "used = length (data_map fs) - fre"
    and "text = block_info_string (length (data_map fs)) (int used)" and "length text < count"
  shows "minixfs_virtual_read fs ''info'' count 0 = Inr (Inr text)"
proof -
  have "fre \<le> length (data_map fs)" using assms(1) by simp
  then have "int (length (data_map fs)) - int used = int fre" using assms(2) by simp
  then have t: "text = ''Free blocks: '' @ show_nat fre @ [CHR 0x0A] @ ''Used blocks: '' @ show_nat used @ [CHR 0x0A]"
    unfolding assms(3) block_info_string_def show_int_def Let_def by simp
  show ?thesis
    using assms(4) unfolding minixfs_virtual_read_def Let_def assms(1) [symmetric] assms(2) [symmetric] t [symmetric] by simp
qed

text \<open>
  The size less the offset is an unsigned 64-bit number. The result: an error, or what went into the buffer, with the
  new offset. A negative \<^verbatim>\<open>unread\<close> reads nothing and is returned as it is.
\<close>

datatype read_result = ReadError errno | ReadBytes "byte list" int | VirtualBytes string

definition minixfs_read :: "minix_lib \<Rightarrow> file_system \<Rightarrow> string \<Rightarrow> nat \<Rightarrow> nat
    \<Rightarrow> (read_result \<times> file_system \<times> int) res" where
  "minixfs_read L fs path count off =
     (case is_virtual_path L path of
        Some v \<Rightarrow> bindE (minixfs_virtual_read fs v count off) (\<lambda>r.
          Inr (case r of Inl e \<Rightarrow> ReadError e | Inr s \<Rightarrow> VirtualBytes s, fs, int off))
      | None \<Rightarrow>
          (case get_inode L fs path of
             None \<Rightarrow> Inr (ReadError ENOENT, fs, int off)
           | Some i \<Rightarrow>
               let unread = to_int (min (nat ((int (size_of (inodes fs ! i)) - int off) mod 2 ^ 64)) count) in
               bindE (read_loop L (inodes fs ! i) (off div block_size L) (off mod block_size L) (nat unread) fs) (\<lambda>bs.
                 Inr (ReadBytes bs unread, update_inode i (\<lambda>n. n\<lparr>atim := clock fs\<rparr>) fs, int off + unread))))"

section \<open>Blocks of one size\<close>

lemma length_overwrite [simp]: "k + length ys \<le> length xs \<Longrightarrow> length (overwrite xs k ys) = length xs"
  by (simp add: overwrite_def)

lemma overwrite_Nil [simp]: "overwrite xs k [] = xs"
  by (simp add: overwrite_def)

lemma overwrite_append:
  "k + length ys + length zs \<le> length xs \<Longrightarrow> overwrite (overwrite xs k ys) (k + length ys) zs = overwrite xs k (ys @ zs)"
  by (cases ys) (simp_all add: overwrite_def ac_simps min_def)

lemma take_drop_overwrite: "k + length ys \<le> length xs \<Longrightarrow> take (length ys) (drop k (overwrite xs k ys)) = ys"
  by (simp add: overwrite_def)

lemma concat_block:
  assumes "\<forall>x \<in> set xss. length x = B" and "k < length xss"
  shows "take B (drop (k * B) (concat xss)) = xss ! k"
  using assms
proof (induction xss arbitrary: k)
  case (Cons xs xss)
  then show ?case by (cases k) auto
qed simp

lemma length_concat_blocks: "\<forall>x \<in> set xss. length x = B \<Longrightarrow> length (concat xss) = length xss * B"
  by (induction xss) auto

lemma concat_overwrite:
  assumes "\<forall>x \<in> set xss. length x = B" and "k < length xss" and "j + length ys \<le> B"
  shows "concat (xss[k := overwrite (xss ! k) j ys]) = overwrite (concat xss) (k * B + j) ys"
  using assms
proof (induction xss arbitrary: k)
  case (Cons xs xss)
  show ?case
  proof (cases k)
    case 0
    then show ?thesis using Cons.prems by (simp add: overwrite_def)
  next
    case (Suc k')
    have "B + k' * B + j - length xs = k' * B + j" using Cons.prems(1) by simp
    then show ?thesis using Cons Suc by (simp add: overwrite_def add.assoc)
  qed
qed simp

section \<open>A file in its blocks\<close>

text \<open>
  \<open>ids\<close> are the blocks of the file, all different, inside the data region, none of them the block of the indirect
  numbers. The contents of the file are those of the blocks one after the other.
\<close>

definition layout :: "minix_lib \<Rightarrow> file_system \<Rightarrow> inode \<Rightarrow> nat list \<Rightarrow> bool" where
  "layout L fs node ids \<longleftrightarrow> 0 < block_size L \<and> distinct ids
     \<and> (\<forall>k < length ids. file_block L fs node k = Inr (ids ! k))
     \<and> (\<forall>b \<in> set ids. b < length (data fs) \<and> length (data fs ! b) = block_size L \<and> int b \<noteq> indirect node)"

definition contents :: "file_system \<Rightarrow> nat list \<Rightarrow> byte list" where
  "contents fs ids = concat (map (\<lambda>b. data fs ! b) ids)"

lemma layout_blocks: "layout L fs node ids \<Longrightarrow> \<forall>x \<in> set (map (\<lambda>b. data fs ! b) ids). length x = block_size L"
  by (simp add: layout_def)

lemma length_contents: "layout L fs node ids \<Longrightarrow> length (contents fs ids) = length ids * block_size L"
  using length_concat_blocks [OF layout_blocks] by (simp add: contents_def)

lemma layout_write:
  assumes "layout L fs node ids" and "k < length ids" and "j + length ys \<le> block_size L"
  defines "fs' \<equiv> fs\<lparr>data := (data fs)[ids ! k := overwrite (data fs ! (ids ! k)) j ys]\<rparr>"
  shows "layout L fs' node ids" and "contents fs' ids = overwrite (contents fs ids) (k * block_size L + j) ys"
proof -
  let ?b = "ids ! k"
  have b: "?b < length (data fs)" "length (data fs ! ?b) = block_size L" "int ?b \<noteq> indirect node"
    using assms(1,2) by (simp_all add: layout_def)
  have len: "length (data fs') = length (data fs)" by (simp add: fs'_def)
  have num: "data_block fs' = data_block fs" by (rule ext) (simp add: data_block_def len)
  have "file_block L fs' node m = file_block L fs node m" for m
  proof (cases "data_block fs (indirect node)")
    case (Inr ib)
    then have "ib \<noteq> ?b" using b(3) by (auto simp: data_block_def split: if_splits)
    then have "data fs' ! ib = data fs ! ib" by (simp add: fs'_def)
    then show ?thesis using Inr num by (simp add: file_block_def)
  qed (use num in \<open>simp add: file_block_def\<close>)
  moreover have "length (data fs' ! i) = length (data fs ! i)" for i
    using assms(3) b by (cases "i = ?b") (simp_all add: fs'_def)
  ultimately show "layout L fs' node ids" using assms(1) len by (simp add: layout_def)
  have "map (\<lambda>b. data fs' ! b) ids = (map (\<lambda>b. data fs ! b) ids)[k := overwrite (map (\<lambda>b. data fs ! b) ids ! k) j ys]"
  proof (rule nth_equalityI)
    fix i assume "i < length (map (\<lambda>b. data fs' ! b) ids)"
    then show "map (\<lambda>b. data fs' ! b) ids ! i
        = (map (\<lambda>b. data fs ! b) ids)[k := overwrite (map (\<lambda>b. data fs ! b) ids ! k) j ys] ! i"
      using assms(1,2) b(1) by (cases "i = k") (auto simp: fs'_def layout_def nth_eq_iff_index_eq)
  qed simp
  then show "contents fs' ids = overwrite (contents fs ids) (k * block_size L + j) ys"
    using concat_overwrite [OF layout_blocks [OF assms(1)], of k j ys] assms(2,3) by (simp add: contents_def)
qed

lemma write_loop_ok:
  assumes "layout L fs node ids" and "boff < block_size L"
    and "bnum * block_size L + boff + length bs \<le> length ids * block_size L"
  shows "\<exists>fs'. write_loop L node bnum boff bs fs = Inr fs' \<and> layout L fs' node ids \<and> inodes fs' = inodes fs
    \<and> clock fs' = clock fs \<and> contents fs' ids = overwrite (contents fs ids) (bnum * block_size L + boff) bs"
  using assms
proof (induction L node bnum boff bs fs rule: write_loop.induct)
  case (1 L node bnum boff bs fs)
  show ?case
  proof (cases "bs = []")
    case True
    then show ?thesis using "1.prems"(1) by (simp add: write_loop.simps)
  next
    case False
    let ?B = "block_size L" and ?n = "min (block_size L - boff) (length bs)"
    have k: "bnum < length ids"
    proof (rule ccontr)
      assume "\<not> bnum < length ids"
      then have "length ids * ?B \<le> bnum * ?B" by (intro mult_le_mono1) simp
      moreover have "0 < length bs" using False by simp
      ultimately show False using "1.prems"(3) by linarith
    qed
    let ?fs = "fs\<lparr>data := (data fs)[ids ! bnum := overwrite (data fs ! (ids ! bnum)) boff (take ?n bs)]\<rparr>"
    have fb: "file_block L fs node bnum = Inr (ids ! bnum)" using "1.prems"(1) k by (simp add: layout_def)
    have step: "write_loop L node bnum boff bs fs = write_loop L node (Suc bnum) 0 (drop ?n bs) ?fs"
      using False "1.prems"(2) fb by (subst write_loop.simps) (simp add: Let_def)
    have len: "boff + length (take ?n bs) \<le> ?B" using "1.prems"(2) by simp
    note w = layout_write [OF "1.prems"(1) k len]
    have "Suc bnum * ?B + 0 + length (drop ?n bs) \<le> length ids * ?B"
    proof (cases "?B - boff \<le> length bs")
      case True
      then show ?thesis using "1.prems"(2,3) by (simp add: min_def)
    next
      case short: False
      have "Suc bnum * ?B \<le> length ids * ?B" using k by (intro mult_le_mono1) simp
      then show ?thesis using short by (simp add: min_def)
    qed
    then obtain fs' where IH: "write_loop L node (Suc bnum) 0 (drop ?n bs) ?fs = Inr fs'" "layout L fs' node ids"
      "inodes fs' = inodes ?fs" "clock fs' = clock ?fs"
      "contents fs' ids = overwrite (contents ?fs ids) (Suc bnum * ?B + 0) (drop ?n bs)"
      using "1.IH" [OF False _ fb refl] "1.prems"(2) w(1) by force
    have "contents fs' ids = overwrite (contents fs ids) (bnum * ?B + boff) bs"
    proof (cases "?B - boff \<le> length bs")
      case True
      then have n: "Suc bnum * ?B = bnum * ?B + boff + length (take ?n bs)" using "1.prems"(2) by simp
      have "contents fs' ids = overwrite (overwrite (contents fs ids) (bnum * ?B + boff) (take ?n bs))
          (bnum * ?B + boff + length (take ?n bs)) (drop ?n bs)"
        using IH(5) unfolding w(2) add_0_right n .
      also have "\<dots> = overwrite (contents fs ids) (bnum * ?B + boff) (take ?n bs @ drop ?n bs)"
        using "1.prems"(3) length_contents [OF "1.prems"(1)] by (intro overwrite_append) simp
      finally show ?thesis by simp
    next
      case short: False
      then have "drop ?n bs = []" "take ?n bs = bs" by simp_all
      then show ?thesis using IH(5) w(2) by simp
    qed
    then show ?thesis using step IH(1-4) by simp
  qed
qed

lemma read_loop_ok:
  assumes "layout L fs node ids" and "boff < block_size L"
    and "bnum * block_size L + boff + unread \<le> length ids * block_size L"
  shows "read_loop L node bnum boff unread fs
    = Inr (take unread (drop (bnum * block_size L + boff) (contents fs ids)))"
  using assms
proof (induction L node bnum boff unread fs rule: read_loop.induct)
  case (1 L node bnum boff unread fs)
  show ?case
  proof (cases "unread = 0")
    case True
    then show ?thesis by (simp add: read_loop.simps)
  next
    case False
    let ?B = "block_size L" and ?n = "min (block_size L - boff) unread" and ?c = "contents fs ids"
    have k: "bnum < length ids"
    proof (rule ccontr)
      assume "\<not> bnum < length ids"
      then have "length ids * ?B \<le> bnum * ?B" by (intro mult_le_mono1) simp
      then show False using "1.prems"(3) False by linarith
    qed
    have fb: "file_block L fs node bnum = Inr (ids ! bnum)" using "1.prems"(1) k by (simp add: layout_def)
    have blk: "data fs ! (ids ! bnum) = take ?B (drop (bnum * ?B) ?c)"
      using concat_block [OF layout_blocks [OF "1.prems"(1)], of bnum] k by (simp add: contents_def)
    have piece: "take ?n (drop boff (data fs ! (ids ! bnum))) = take ?n (drop (bnum * ?B + boff) ?c)"
      using "1.prems"(2) unfolding blk by (simp add: drop_take min_def add.commute)
    have "Suc bnum * ?B + 0 + (unread - ?n) \<le> length ids * ?B"
    proof (cases "?B - boff \<le> unread")
      case True
      then show ?thesis using "1.prems"(2,3) by (simp add: min_def)
    next
      case short: False
      have "Suc bnum * ?B \<le> length ids * ?B" using k by (intro mult_le_mono1) simp
      then show ?thesis using short by (simp add: min_def)
    qed
    moreover have "0 < ?B" using "1.prems"(2) by simp
    ultimately have IH: "read_loop L node (Suc bnum) 0 (unread - ?n) fs
        = Inr (take (unread - ?n) (drop (Suc bnum * ?B + 0) ?c))"
      using "1.IH" [OF False _ fb refl] "1.prems"(1,2) by force
    have "read_loop L node bnum boff unread fs
        = Inr (take ?n (drop (bnum * ?B + boff) ?c) @ take (unread - ?n) (drop (Suc bnum * ?B) ?c))"
      using False "1.prems"(2) fb IH piece by (subst read_loop.simps) (simp add: Let_def)
    also have "take ?n (drop (bnum * ?B + boff) ?c) @ take (unread - ?n) (drop (Suc bnum * ?B) ?c)
        = take unread (drop (bnum * ?B + boff) ?c)"
    proof (cases "?B - boff \<le> unread")
      case True
      then have n: "Suc bnum * ?B = ?n + (bnum * ?B + boff)" using "1.prems"(2) by simp
      show ?thesis
        using True take_add [of ?n "unread - ?n" "drop (bnum * ?B + boff) ?c"] unfolding n drop_drop by simp
    qed simp
    finally show ?thesis .
  qed
qed

text \<open>How many bytes a read gives.\<close>

definition readable :: "nat \<Rightarrow> nat \<Rightarrow> nat \<Rightarrow> nat" where
  "readable sz off count = (if off \<le> sz then min (sz - off) count else count)"

section \<open>A sample file system\<close>

text \<open>
  Blocks of four bytes, one direct block; the file uses the blocks 0, 2 and 3, the last two listed in block 1.
\<close>

definition sample_lib :: minix_lib where
  "sample_lib = \<lparr>block_size = 4, num_direct_blocks = 1, file_name_entry = 2, rwx_bits_number = 9,
     get_inode = (\<lambda>fs path. if path = ''/f'' then Some 0 else None), min_blockcount = (\<lambda>fs path n. Some fs),
     first_unused_inode = (\<lambda>fs. None), parent_directory = (\<lambda>fs path. (None, path)), init_inode = (\<lambda>p n fs. fs),
     add_data_block_to_inode = (\<lambda>fs n. fs), dirent_string = (\<lambda>name n. [1, 1]), is_virtual_path = (\<lambda>path. None),
     block_numbers = map (\<lambda>b. int (unat b))\<rparr>"

definition sample_fs :: file_system where
  "sample_fs = \<lparr>inodes = [\<lparr>uid = 0, gid = 0, mode = 0, size_of = 12, direct = [0], indirect = 1, atim = 0, mtim = 0, ctim = 0\<rparr>],
     data = [[10, 11, 12, 13], [2, 3, 0, 0], [14, 15, 16, 17], [18, 19, 20, 21]], data_map = [1, 1, 1, 1], clock = 5\<rparr>"

lemma sample_layout: "layout sample_lib sample_fs (inodes sample_fs ! 0) [0, 2, 3]"
  by (simp add: layout_def sample_lib_def sample_fs_def file_block_def data_block_def nth_number_def All_less_Suc)

section \<open>Properties\<close>

lemma to_int_small: "n < 2 ^ 31 \<Longrightarrow> to_int n = int n"
  by (simp add: to_int_def signed_of_nat signed_take_bit_int_eq_self)

lemma layout_cong:
  assumes "layout L fs node ids" and "data fs' = data fs" and "direct node' = direct node" and "indirect node' = indirect node"
  shows "layout L fs' node' ids"
proof -
  have "data_block fs' = data_block fs" using assms(2) by (intro ext) (simp add: data_block_def)
  then have "file_block L fs' node' = file_block L fs node" using assms(2-4) by (intro ext) (simp add: file_block_def)
  then show ?thesis using assms by (simp add: layout_def)
qed

text \<open>
  C10: a write puts exactly its bytes at the offset of the file, whatever blocks they fall into, and leaves the other bytes
  of the blocks; it returns the number of bytes, moves the offset behind them, and makes the new offset the size of
  the file: a write before the end cuts the rest of the file off.
\<close>

theorem minixfs_write_correct:
  assumes "min_blockcount L fs0 path ((off + length buffer) div block_size L + 1) = Some fs"
    and "get_inode L fs path = Some i" and "i < length (inodes fs)" and "layout L fs (inodes fs ! i) ids"
    and "off + length buffer \<le> length ids * block_size L" and "length buffer < 2 ^ 31"
  shows "\<exists>fs'. minixfs_write L fs0 path buffer off = Inr (Inr (length buffer), fs', off + length buffer)
           \<and> contents fs' ids = overwrite (contents fs ids) off buffer \<and> size_of (inodes fs' ! i) = off + length buffer
           \<and> layout L fs' (inodes fs' ! i) ids"
proof -
  let ?B = "block_size L"
  have "0 < ?B" using assms(4) by (simp add: layout_def)
  then have "off mod ?B < ?B" "off div ?B * ?B + off mod ?B = off" by simp_all
  then obtain fs' where w: "write_loop L (inodes fs ! i) (off div ?B) (off mod ?B) buffer fs = Inr fs'"
    "layout L fs' (inodes fs ! i) ids" "inodes fs' = inodes fs" "contents fs' ids = overwrite (contents fs ids) off buffer"
    using write_loop_ok [OF assms(4), of "off mod ?B" "off div ?B" buffer] assms(5) by auto
  have "to_int (length buffer) = int (length buffer)" using assms(6) by (rule to_int_small)
  then have "minixfs_write L fs0 path buffer off = Inr (Inr (length buffer),
      update_inode i (\<lambda>n. n\<lparr>atim := clock fs', size_of := off + length buffer\<rparr>) fs', off + length buffer)"
    using assms(1,2) w(1) by (simp add: minixfs_write_def Let_def)
  moreover have "layout L (update_inode i f fs') ((inodes fs ! i)\<lparr>atim := x, size_of := y\<rparr>) ids" for f x y
    by (rule layout_cong [OF w(2)]) (simp_all add: update_inode_def)
  ultimately show ?thesis
    using w(3,4) assms(3) by (simp add: update_inode_def contents_def)
qed

text \<open>
  C28: a read inside the file gives the bytes of the file at the offset, as many as were asked for and the file has,
  and moves the offset by that number; past the end of the file, where the difference wraps around, it gives
  as many bytes as were asked for.
\<close>

theorem minixfs_read_correct:
  assumes "is_virtual_path L path = None" and "get_inode L fs path = Some i" and "layout L fs (inodes fs ! i) ids"
    and "size_of (inodes fs ! i) < 2 ^ 63" and "off < 2 ^ 63" and "count < 2 ^ 31"
    and "off + readable (size_of (inodes fs ! i)) off count \<le> length ids * block_size L"
  shows "\<exists>fs'. minixfs_read L fs path count off
           = Inr (ReadBytes (take (readable (size_of (inodes fs ! i)) off count) (drop off (contents fs ids)))
                    (int (readable (size_of (inodes fs ! i)) off count)), fs', int off + int (readable (size_of (inodes fs ! i)) off count))
         \<and> data fs' = data fs"
proof -
  let ?B = "block_size L" and ?s = "size_of (inodes fs ! i)" and ?n = "readable (size_of (inodes fs ! i)) off count"
  have "0 < ?B" using assms(3) by (simp add: layout_def)
  then have B: "off mod ?B < ?B" "off div ?B * ?B + off mod ?B = off" by simp_all
  have "min (nat ((int ?s - int off) mod 2 ^ 64)) count = ?n"
  proof (cases "off \<le> ?s")
    case True
    then have "(int ?s - int off) mod 2 ^ 64 = int (?s - off)" using assms(4) by (simp add: of_nat_diff)
    then show ?thesis using True by (simp add: readable_def)
  next
    case False
    then have d: "0 \<le> int ?s - int off + 2 ^ 64" "int ?s - int off + 2 ^ 64 < 2 ^ 64" "int count \<le> int ?s - int off + 2 ^ 64"
      using assms(5,6) by simp_all
    have "(int ?s - int off) mod 2 ^ 64 = (int ?s - int off + 2 ^ 64) mod 2 ^ 64" by (simp only: mod_add_self2)
    also have "\<dots> = int ?s - int off + 2 ^ 64" by (rule mod_pos_pos_trivial [OF d(1,2)])
    finally show ?thesis using False d(3) by (simp add: readable_def)
  qed
  moreover have "?n < 2 ^ 31" using assms(6) by (auto simp: readable_def)
  ultimately have un: "to_int (min (nat ((int ?s - int off) mod 2 ^ 64)) count) = int ?n" by (simp add: to_int_small)
  have "read_loop L (inodes fs ! i) (off div ?B) (off mod ?B) ?n fs = Inr (take ?n (drop off (contents fs ids)))"
    using read_loop_ok [OF assms(3) B(1), of "off div ?B" ?n] B(2) assms(7) by simp
  then show ?thesis using assms(1,2) un by (simp add: minixfs_read_def Let_def update_inode_def)
qed

theorem minixfs_read_correct_witness:
  "\<exists>fs'. minixfs_read sample_lib sample_fs ''/f'' 7 2 = Inr (ReadBytes [12, 13, 14, 15, 16, 17, 18] 7, fs', 9)"
proof -
  have c: "is_virtual_path sample_lib ''/f'' = None" "get_inode sample_lib sample_fs ''/f'' = Some 0"
    "size_of (inodes sample_fs ! 0) < 2 ^ 63" "(2 :: nat) < 2 ^ 63" "(7 :: nat) < 2 ^ 31"
    "2 + readable (size_of (inodes sample_fs ! 0)) 2 7 \<le> length [0, 2, 3 :: nat] * block_size sample_lib"
    by (simp_all add: sample_lib_def sample_fs_def readable_def)
  from minixfs_read_correct [OF c(1,2) sample_layout c(3-6)] show ?thesis
    by (auto simp: sample_fs_def readable_def contents_def)
qed

theorem minixfs_write_correct_witness:
  "\<exists>fs'. minixfs_write sample_lib sample_fs ''/f'' [1, 2, 3] 3 = Inr (Inr 3, fs', 6)
     \<and> contents fs' [0, 2, 3] = [10, 11, 12, 1, 2, 3, 16, 17, 18, 19, 20, 21] \<and> size_of (inodes fs' ! 0) = 6"
proof -
  have c: "min_blockcount sample_lib sample_fs ''/f'' ((3 + length [1, 2, 3 :: byte]) div block_size sample_lib + 1) = Some sample_fs"
    "get_inode sample_lib sample_fs ''/f'' = Some 0" "0 < length (inodes sample_fs)"
    "3 + length [1, 2, 3 :: byte] \<le> length [0, 2, 3 :: nat] * block_size sample_lib" "length [1, 2, 3 :: byte] < 2 ^ 31"
    by (simp_all add: sample_lib_def sample_fs_def)
  have o: "overwrite (contents sample_fs [0, 2, 3]) 3 [1, 2, 3] = [10, 11, 12, 1, 2, 3, 16, 17, 18, 19, 20, 21]"
    by (simp add: contents_def sample_fs_def overwrite_def)
  have l: "length [1, 2, 3 :: byte] = 3" "(3 :: nat) + 3 = 6" by simp_all
  from minixfs_write_correct [OF c(1-3) sample_layout c(4,5)] show ?thesis unfolding o l by blast
qed

text \<open>
  What is written to a file is what a read at the same offset gives back, as long as the path still leads to the
  same file.
\<close>

theorem minixfs_write_then_read:
  assumes "min_blockcount L fs0 path ((off + length buffer) div block_size L + 1) = Some fs"
    and "get_inode L fs path = Some i" and "i < length (inodes fs)" and "layout L fs (inodes fs ! i) ids"
    and "off + length buffer \<le> length ids * block_size L" and "length buffer < 2 ^ 31" and "off < 2 ^ 62"
    and "is_virtual_path L path = None" and "\<And>fs'. get_inode L fs' path = Some i"
  shows "\<exists>fs1 fs2. minixfs_write L fs0 path buffer off = Inr (Inr (length buffer), fs1, off + length buffer)
     \<and> minixfs_read L fs1 path (length buffer) off = Inr (ReadBytes buffer (int (length buffer)), fs2, int (off + length buffer))"
proof -
  obtain fs1 where 1: "minixfs_write L fs0 path buffer off = Inr (Inr (length buffer), fs1, off + length buffer)"
    "contents fs1 ids = overwrite (contents fs ids) off buffer" "size_of (inodes fs1 ! i) = off + length buffer"
    "layout L fs1 (inodes fs1 ! i) ids"
    using minixfs_write_correct [OF assms(1-6)] by blast
  have n: "readable (size_of (inodes fs1 ! i)) off (length buffer) = length buffer" using 1(3) by (simp add: readable_def)
  have "off + length buffer \<le> length (contents fs ids)"
    using assms(5) length_contents [OF assms(4)] by simp
  then have b: "take (length buffer) (drop off (contents fs1 ids)) = buffer"
    unfolding 1(2) by (rule take_drop_overwrite)
  have s: "size_of (inodes fs1 ! i) < 2 ^ 63" "off < 2 ^ 63" using assms(6,7) 1(3) by simp_all
  have e: "off + readable (size_of (inodes fs1 ! i)) off (length buffer) \<le> length ids * block_size L" using assms(5) n by simp
  from minixfs_read_correct [OF assms(8) assms(9) 1(4) s assms(6) e] obtain fs2 where
    "minixfs_read L fs1 path (length buffer) off = Inr (ReadBytes buffer (int (length buffer)), fs2, int off + int (length buffer))"
    unfolding n b by blast
  then show ?thesis using 1(1) by auto
qed

theorem minixfs_write_then_read_witness:
  "\<exists>fs1 fs2. minixfs_write sample_lib sample_fs ''/f'' [1, 2, 3] 3 = Inr (Inr 3, fs1, 6)
     \<and> minixfs_read sample_lib fs1 ''/f'' 3 3 = Inr (ReadBytes [1, 2, 3] 3, fs2, 6)"
proof -
  have c: "min_blockcount sample_lib sample_fs ''/f'' ((3 + length [1, 2, 3 :: byte]) div block_size sample_lib + 1) = Some sample_fs"
    "get_inode sample_lib sample_fs ''/f'' = Some 0" "0 < length (inodes sample_fs)"
    "3 + length [1, 2, 3 :: byte] \<le> length [0, 2, 3 :: nat] * block_size sample_lib" "length [1, 2, 3 :: byte] < 2 ^ 31"
    "(3 :: nat) < 2 ^ 62" "is_virtual_path sample_lib ''/f'' = None" "\<And>fs'. get_inode sample_lib fs' ''/f'' = Some 0"
    by (simp_all add: sample_lib_def sample_fs_def)
  have l: "length [1, 2, 3 :: byte] = 3" "(3 :: nat) + 3 = 6" "int 3 = 3" "int 6 = 6" by simp_all
  from minixfs_write_then_read [OF c(1-3) sample_layout c(4-8)] show ?thesis unfolding l by blast
qed

section \<open>The shape of the disk\<close>

text \<open>The sizes of the inode table, of the data region and of its blocks.\<close>

definition disk_ok :: "minix_lib \<Rightarrow> nat \<Rightarrow> nat \<Rightarrow> file_system \<Rightarrow> bool" where
  "disk_ok L n m fs \<longleftrightarrow> length (inodes fs) = n \<and> length (data fs) = m \<and> list_all (\<lambda>b. length b = block_size L) (data fs)"

text \<open>
  What the utilities are relied on for: they allocate inside the disk, an entry fills its slot of the directory, and
  the slots fill a block.
\<close>

definition lib_ok :: "minix_lib \<Rightarrow> bool" where
  "lib_ok L \<longleftrightarrow> file_name_entry L dvd block_size L \<and> (\<forall>name i. length (dirent_string L name i) = file_name_entry L)
     \<and> (\<forall>n m fs. disk_ok L n m fs \<longrightarrow> (\<forall>i. disk_ok L n m (add_data_block_to_inode L fs i)) \<and> (\<forall>p i. disk_ok L n m (init_inode L p i fs))
          \<and> (\<forall>path k fs'. min_blockcount L fs path k = Some fs' \<longrightarrow> disk_ok L n m fs'))"

lemma disk_ok_inode [simp]: "disk_ok L n m (update_inode i f fs) = disk_ok L n m fs"
  by (simp add: disk_ok_def update_inode_def)

lemma disk_ok_block:
  assumes "disk_ok L n m fs" and "k + length ys \<le> block_size L"
  shows "disk_ok L n m (fs\<lparr>data := (data fs)[b := overwrite (data fs ! b) k ys]\<rparr>)"
proof (cases "b < length (data fs)")
  case True
  then have "length (data fs ! b) = block_size L" using assms(1) by (simp add: disk_ok_def list_all_length)
  then show ?thesis
    using assms True by (auto simp: disk_ok_def list_all_length nth_list_update)
qed (use assms(1) in \<open>simp add: disk_ok_def list_update_beyond\<close>)

lemma write_loop_disk_ok:
  "write_loop L node bnum boff bs fs = Inr fs' \<Longrightarrow> disk_ok L n m fs \<Longrightarrow> disk_ok L n m fs'"
proof (induction L node bnum boff bs fs rule: write_loop.induct)
  case (1 L node bnum boff bs fs)
  show ?case
  proof (cases "bs = []")
    case True
    then show ?thesis using "1.prems" by (simp add: write_loop.simps)
  next
    case False
    let ?k = "min (block_size L - boff) (length bs)"
    from "1.prems"(1) False obtain b where b: "\<not> block_size L \<le> boff" "file_block L fs node bnum = Inr b"
      "write_loop L node (Suc bnum) 0 (drop ?k bs) (fs\<lparr>data := (data fs)[b := overwrite (data fs ! b) boff (take ?k bs)]\<rparr>) = Inr fs'"
      by (subst (asm) write_loop.simps) (auto simp: bindE_eq_Inr_iff Let_def split: if_splits)
    have "disk_ok L n m (fs\<lparr>data := (data fs)[b := overwrite (data fs ! b) boff (take ?k bs)]\<rparr>)"
      by (rule disk_ok_block [OF "1.prems"(2)]) (use b(1) in simp)
    then show ?thesis using "1.IH" [OF False b(1,2) refl b(3)] by blast
  qed
qed

declare entry_loop.simps [simp del]

lemma entry_loop_disk_ok:
  "entry_loop L filename inum parent bnum pos sz fs = Inr (r, fs') \<Longrightarrow> lib_ok L \<Longrightarrow> disk_ok L n m fs
    \<Longrightarrow> file_name_entry L dvd pos \<Longrightarrow> pos \<le> block_size L \<Longrightarrow> disk_ok L n m fs'"
proof (induction L filename inum parent bnum pos sz fs rule: entry_loop.induct)
  case (1 L filename inum parent bnum pos sz fs)
  show ?case
  proof (cases "sz < 0")
    case True
    then show ?thesis using "1.prems" by (simp add: entry_loop.simps [of L filename inum parent bnum pos sz fs])
  next
    case False
    from "1.prems"(1) False obtain k where k: "nth_number (direct (inodes fs ! parent)) bnum = Inr k"
      by (subst (asm) entry_loop.simps) (auto simp: bindE_eq_Inr_iff)
    define fs1 where "fs1 = (if k = -1 \<and> pos = 0 then add_data_block_to_inode L fs parent else fs)"
    have ok1: "disk_ok L n m fs1" using "1.prems"(2,3) by (auto simp: fs1_def lib_ok_def)
    from "1.prems"(1) False k obtain k1 b where b: "nth_number (direct (inodes fs1 ! parent)) bnum = Inr k1" "data_block fs1 k1 = Inr b"
      by (subst (asm) entry_loop.simps) (auto simp: bindE_eq_Inr_iff Let_def fs1_def)
    have loop: "entry_loop L filename inum parent bnum pos sz fs =
      (if pos = block_size L
       then if pos = 0 then Inl Diverges else entry_loop L filename inum parent (Suc bnum) 0 sz fs1
       else if length (data fs1 ! b) \<le> pos then Inl OutOfBounds
       else if data fs1 ! b ! pos = 0
       then Inr (True, update_inode parent (\<lambda>p. p\<lparr>size_of := size_of p + file_name_entry L\<rparr>)
              (fs1\<lparr>data := (data fs1)[b := overwrite (data fs1 ! b) pos (dirent_string L filename inum)]\<rparr>))
       else if file_name_entry L = 0 then Inl Diverges
       else entry_loop L filename inum parent bnum (pos + file_name_entry L) (sz - int (file_name_entry L)) fs1)"
      by (subst entry_loop.simps) (simp only: False k b bindE_Inr Let_def fs1_def [symmetric] if_False)
    have fit: "pos + file_name_entry L \<le> block_size L" if "pos \<noteq> block_size L"
    proof -
      have "file_name_entry L dvd block_size L - pos" using "1.prems"(2,4) by (auto simp: lib_ok_def intro: dvd_diff_nat)
      then have "file_name_entry L \<le> block_size L - pos" using that "1.prems"(5) by (intro dvd_imp_le) auto
      then show ?thesis using that "1.prems"(5) by linarith
    qed
    note IH = "1.IH" [OF False k fs1_def b]
    show ?thesis
    proof (cases "pos = block_size L")
      case True
      then show ?thesis using "1.prems"(1,2) IH(1) ok1 unfolding loop by (auto split: if_splits)
    next
      case inside: False
      show ?thesis
      proof (cases "data fs1 ! b ! pos = 0")
        case True
        have "pos + length (dirent_string L filename inum) \<le> block_size L" using fit [OF inside] "1.prems"(2) by (simp add: lib_ok_def)
        from disk_ok_block [OF ok1 this] show ?thesis
          using "1.prems"(1) inside True unfolding loop by (auto split: if_splits)
      next
        case used: False
        then show ?thesis using "1.prems"(1,2,4) IH(2) [OF inside] ok1 fit [OF inside] inside unfolding loop by (auto split: if_splits)
      qed
    qed
  qed
qed

lemma create_disk_ok:
  assumes "minixfs_create_inode_for_path L fs path = Inr (r, fs')" and "lib_ok L" and "disk_ok L n m fs"
  shows "disk_ok L n m fs'"
proof (cases "get_inode L fs path")
  case (Some i)
  then show ?thesis using assms by (auto simp: minixfs_create_inode_for_path_def)
next
  case None
  have "disk_ok L n m (init_inode L p i fs)" for p i using assms(2,3) by (simp add: lib_ok_def)
  then show ?thesis
    using assms(1,3) None entry_loop_disk_ok [OF _ assms(2)]
    by (auto simp: minixfs_create_inode_for_path_def bindE_eq_Inr_iff Let_def split: option.splits prod.splits)
qed



end
