(* ===== verification/Queue.thy ===== *)
theory Queue
  imports Prelude
begin

text \<open>
  \<^verbatim>\<open>critical_concurrency/queue.c\<close>: a bounded queue several threads share. The linked list
  is a store of nodes with head and tail pointers. The threads are a step relation over the
  queue, the owner of the mutex and each thread's place in the code; a step is what a thread does between two
  points where another can run. A waiting thread may wake at any time, as the standard
  allows. \<^verbatim>\<open>malloc\<close> succeeds.
\<close>

section \<open>The linked list\<close>

record 'd queue_node =
  data :: 'd
  next_node :: "nat option"   \<comment> \<open>the field \<^verbatim>\<open>next\<close>\<close>

record 'd queue =
  nodes :: "nat \<rightharpoonup> 'd queue_node"
  fresh :: nat    \<comment> \<open>the address the next \<^verbatim>\<open>malloc\<close> returns\<close>
  head :: "nat option"
  tail :: "nat option"
  size :: int
  max_size :: int

definition queue_create :: "int \<Rightarrow> 'd queue" where
  "queue_create m = \<lparr>nodes = Map.empty, fresh = 0, head = None, tail = None, size = 0, max_size = m\<rparr>"

definition node_at :: "'d queue \<Rightarrow> nat option \<Rightarrow> (nat \<times> 'd queue_node) res" where
  "node_at q p = (case p of None \<Rightarrow> Inl NullDeref
     | Some a \<Rightarrow> (case nodes q a of None \<Rightarrow> Inl UseAfterFree | Some n \<Rightarrow> Inr (a, n)))"

text \<open>\<open>queue_destroy\<close>: walks the list and frees each node; it gives the addresses it freed.\<close>

partial_function (option) free_nodes :: "(nat \<rightharpoonup> 'd queue_node) \<Rightarrow> nat option \<Rightarrow> (nat \<rightharpoonup> 'd queue_node) res option" where
  "free_nodes ns iter =
     (case iter of None \<Rightarrow> Some (Inr ns)
      | Some a \<Rightarrow> (case ns a of None \<Rightarrow> Some (Inl UseAfterFree)
                   | Some n \<Rightarrow> free_nodes (ns(a := None)) (next_node n)))"

definition queue_destroy :: "'d queue option \<Rightarrow> (nat \<rightharpoonup> 'd queue_node) option res" where
  "queue_destroy this = (case this of None \<Rightarrow> Inr None
     | Some q \<Rightarrow> (case free_nodes (nodes q) (head q) of
          None \<Rightarrow> Inl Diverges | Some r \<Rightarrow> bindE r (\<lambda>ns. Inr (Some ns))))"

text \<open>What \<open>queue_push\<close> and \<open>queue_pull\<close> do once they need not wait.\<close>

definition push_body :: "'d \<Rightarrow> 'd queue \<Rightarrow> 'd queue res" where
  "push_body d q =
     (let a = fresh q; q1 = q\<lparr>nodes := (nodes q)(a \<mapsto> \<lparr>data = d, next_node = None\<rparr>), fresh := Suc a\<rparr> in
      bindE (if size q = 0 then Inr (q1\<lparr>tail := Some a, head := Some a\<rparr>)
             else bindE (node_at q1 (tail q1)) (\<lambda>(t, n).
                  Inr (q1\<lparr>nodes := (nodes q1)(t \<mapsto> n\<lparr>next_node := Some a\<rparr>), tail := Some a\<rparr>))) (\<lambda>q2.
      Inr (q2\<lparr>size := size q2 + 1\<rparr>)))"

definition pull_body :: "'d queue \<Rightarrow> ('d \<times> 'd queue) res" where
  "pull_body q =
     (if size q = 1
      then bindE (node_at q (head q)) (\<lambda>(a, n).
           Inr (data n, q\<lparr>tail := None, head := None, nodes := (nodes q)(a := None), size := size q - 1\<rparr>))
      else bindE (node_at q (head q)) (\<lambda>(a, n).
           Inr (data n, q\<lparr>head := next_node n, nodes := (nodes q)(a := None), size := size q - 1\<rparr>)))"

definition must_wait_push :: "'d queue \<Rightarrow> bool" where
  "must_wait_push q \<longleftrightarrow> max_size q > 0 \<and> size q \<ge> max_size q"

definition must_wait_pull :: "'d queue \<Rightarrow> bool" where
  "must_wait_pull q \<longleftrightarrow> size q \<le> 0"

section \<open>The list the nodes hold\<close>

fun chain :: "(nat \<rightharpoonup> 'd queue_node) \<Rightarrow> nat option \<Rightarrow> nat list \<Rightarrow> 'd list \<Rightarrow> bool" where
  "chain ns p [] [] = (p = None)"
| "chain ns p (a # as) (d # ds) =
     (p = Some a \<and> (case ns a of None \<Rightarrow> False | Some n \<Rightarrow> data n = d \<and> chain ns (next_node n) as ds))"
| "chain ns p _ _ = False"

definition holds :: "'d queue \<Rightarrow> nat list \<Rightarrow> 'd list \<Rightarrow> bool" where
  "holds q as ds \<longleftrightarrow> chain (nodes q) (head q) as ds \<and> distinct as \<and> dom (nodes q) = set as
     \<and> (\<forall>a \<in> set as. a < fresh q) \<and> tail q = (if as = [] then None else Some (last as))
     \<and> size q = int (length ds)"

lemma chain_length: "chain ns p as ds \<Longrightarrow> length as = length ds"
  by (induction ns p as ds rule: chain.induct) (auto split: option.splits)

lemma chain_cong: "(\<And>a. a \<in> set as \<Longrightarrow> ns' a = ns a) \<Longrightarrow> chain ns' p as ds = chain ns p as ds"
  by (induction ns p as ds rule: chain.induct) (auto split: option.splits)

lemma chain_snoc:
  assumes "chain ns p (as @ [t]) (ds @ [e])" and "ns t = Some n" and "b \<notin> set (as @ [t])" and "distinct (as @ [t])"
  shows "chain (ns(b \<mapsto> \<lparr>data = d, next_node = None\<rparr>, t \<mapsto> n\<lparr>next_node := Some b\<rparr>)) p ((as @ [t]) @ [b]) ((ds @ [e]) @ [d])"
  using assms
proof (induction as arbitrary: p ds)
  case Nil
  then show ?case by (cases ds) (auto split: option.splits dest: chain_length)
next
  case (Cons a as)
  then obtain c ds' where ds: "ds = c # ds'"
    using chain_length [OF Cons.prems(1)] by (cases ds) auto
  then show ?case using Cons by (auto split: option.splits)
qed

lemma push_body_ok:
  assumes "holds q as ds"
  shows "\<exists>q' a. push_body d q = Inr q' \<and> holds q' (as @ [a]) (ds @ [d]) \<and> max_size q' = max_size q"
proof -
  let ?a = "fresh q"
  have h: "chain (nodes q) (head q) as ds" "distinct as" "dom (nodes q) = set as"
      "\<forall>a \<in> set as. a < fresh q" "size q = int (length ds)"
      "tail q = (if as = [] then None else Some (last as))"
    using assms by (simp_all add: holds_def)
  note len = chain_length [OF h(1)]
  have new: "?a \<notin> set as" using h(4) by auto
  show ?thesis
  proof (cases as rule: rev_cases)
    case Nil
    then have "ds = []" using len by simp
    let ?q = "q\<lparr>nodes := (nodes q)(?a \<mapsto> \<lparr>data = d, next_node = None\<rparr>), fresh := Suc ?a, tail := Some ?a,
        head := Some ?a, size := size q + 1\<rparr>"
    have "push_body d q = Inr ?q" using h(5) \<open>ds = []\<close> by (simp add: push_body_def Let_def)
    moreover have "holds ?q (as @ [?a]) (ds @ [d])"
      using h(3,5) Nil \<open>ds = []\<close> by (simp add: holds_def)
    ultimately show ?thesis by (intro exI [of _ ?q] exI [of _ ?a]) simp
  next
    case (snoc us t)
    then obtain es e where ds: "ds = es @ [e]" using len by (cases ds rule: rev_cases) auto
    have "t \<in> dom (nodes q)" using h(3) snoc by simp
    then obtain n where n: "nodes q t = Some n" by auto
    have ta: "t \<noteq> ?a" using new snoc by auto
    let ?q = "q\<lparr>nodes := (nodes q)(?a \<mapsto> \<lparr>data = d, next_node = None\<rparr>, t \<mapsto> n\<lparr>next_node := Some ?a\<rparr>),
        fresh := Suc ?a, tail := Some ?a, size := size q + 1\<rparr>"
    have "push_body d q = Inr ?q"
      using h(5,6) n snoc ds ta by (simp add: push_body_def node_at_def Let_def)
    moreover have "chain (nodes ?q) (head ?q) (as @ [?a]) (ds @ [d])"
      using chain_snoc [OF h(1) [unfolded snoc ds] n] new h(2) snoc ds by simp
    then have "holds ?q (as @ [?a]) (ds @ [d])"
      using h(2-5) new by (auto simp: holds_def snoc)
    ultimately show ?thesis by (intro exI [of _ ?q] exI [of _ ?a]) simp
  qed
qed

lemma pull_body_ok:
  assumes "holds q as (d # ds)"
  shows "\<exists>q' as'. pull_body q = Inr (d, q') \<and> holds q' as' ds \<and> max_size q' = max_size q"
proof -
  have h: "chain (nodes q) (head q) as (d # ds)" "distinct as" "dom (nodes q) = set as"
      "\<forall>a \<in> set as. a < fresh q" "size q = int (length (d # ds))"
      "tail q = (if as = [] then None else Some (last as))"
    using assms by (simp_all add: holds_def)
  obtain a bs where as: "as = a # bs" using chain_length [OF h(1)] by (cases as) auto
  then obtain n where n: "nodes q a = Some n" "head q = Some a" "data n = d" "chain (nodes q) (next_node n) bs ds"
    using h(1) by (auto split: option.splits)
  have "chain ((nodes q)(a := None)) (next_node n) bs ds"
    using n(4) h(2) as by (subst chain_cong [where ns = "nodes q"]) auto
  note c = this
  show ?thesis
  proof (cases "ds = []")
    case True
    then have "bs = []" using chain_length [OF n(4)] by simp
    then show ?thesis using True as n h by (simp add: pull_body_def node_at_def holds_def)
  next
    case False
    let ?q = "q\<lparr>head := next_node n, nodes := (nodes q)(a := None), size := size q - 1\<rparr>"
    have "bs \<noteq> []" using False chain_length [OF n(4)] by auto
    then have "holds ?q bs ds" using c h as by (auto simp: holds_def)
    moreover have "pull_body q = Inr (d, ?q)"
      using False h(5) n by (simp add: pull_body_def node_at_def)
    ultimately show ?thesis by fastforce
  qed
qed

lemma free_nodes_ok:
  "chain ns p as ds \<Longrightarrow> distinct as \<Longrightarrow>
     free_nodes ns p = Some (Inr (\<lambda>a. if a \<in> set as then None else ns a))"
proof (induction as arbitrary: ns p ds)
  case Nil
  then show ?case by (cases ds) (simp_all add: free_nodes.simps)
next
  case (Cons a as)
  then obtain d es n where n: "ds = d # es" "p = Some a" "ns a = Some n" "chain ns (next_node n) as es"
    by (cases ds) (auto split: option.splits)
  have "chain (ns(a := None)) (next_node n) as es"
    using n(4) Cons.prems(2) by (subst chain_cong [where ns = ns]) auto
  from Cons.IH [OF this] Cons.prems(2) n(2,3) show ?case
    by (subst free_nodes.simps) (auto simp: fun_eq_iff fun_upd_def)
qed

section \<open>The threads\<close>

text \<open>
  Where a thread is in \<open>queue_push\<close> or \<open>queue_pull\<close>: before the lock, past it (it owns the
  mutex and is about to test the loop condition), inside \<^verbatim>\<open>pthread_cond_wait\<close>, or woken there and
  about to take the mutex again.
\<close>

datatype 'd place = Idle
  | PushStart 'd | PushTest 'd | PushWait 'd | PushWoken 'd
  | PullStart | PullTest | PullWait | PullWoken

text \<open>\<open>pushed\<close> and \<open>pulled\<close> record the data in the order of the calls' critical sections.\<close>

record 'd threads =
  queue_of :: "'d queue"
  owner :: "nat option"
  at :: "nat \<Rightarrow> 'd place"
  pushed :: "'d list"
  pulled :: "'d list"
  failed :: bool    \<comment> \<open>a critical section dereferenced a bad pointer\<close>

fun woken :: "'d place \<Rightarrow> 'd place" where
  "woken (PushWait d) = PushWoken d"
| "woken PullWait = PullWoken"
| "woken x = x"

text \<open>
  The steps of \<open>queue_push\<close> and \<open>queue_pull\<close>. The last ones do the whole critical section:
  nothing else can touch the queue before the unlock. \<^verbatim>\<open>pthread_cond_broadcast\<close> wakes all.
\<close>

inductive queue_step :: "'d threads \<Rightarrow> 'd threads \<Rightarrow> bool" where
  call_push: "at s t = Idle \<Longrightarrow> queue_step s (s\<lparr>at := (at s)(t := PushStart d)\<rparr>)"
| lock_push: "at s t = PushStart d \<or> at s t = PushWoken d \<Longrightarrow> owner s = None \<Longrightarrow>
    queue_step s (s\<lparr>at := (at s)(t := PushTest d), owner := Some t\<rparr>)"
| wait_push: "at s t = PushTest d \<Longrightarrow> must_wait_push (queue_of s) \<Longrightarrow>
    queue_step s (s\<lparr>at := (at s)(t := PushWait d), owner := None\<rparr>)"
| do_push: "at s t = PushTest d \<Longrightarrow> \<not> must_wait_push (queue_of s) \<Longrightarrow> push_body d (queue_of s) = Inr q \<Longrightarrow>
    queue_step s (s\<lparr>queue_of := q, at := woken \<circ> (at s)(t := Idle), owner := None, pushed := pushed s @ [d]\<rparr>)"
| fail_push: "at s t = PushTest d \<Longrightarrow> \<not> must_wait_push (queue_of s) \<Longrightarrow> push_body d (queue_of s) = Inl f \<Longrightarrow>
    queue_step s (s\<lparr>failed := True\<rparr>)"
| call_pull: "at s t = Idle \<Longrightarrow> queue_step s (s\<lparr>at := (at s)(t := PullStart)\<rparr>)"
| lock_pull: "at s t = PullStart \<or> at s t = PullWoken \<Longrightarrow> owner s = None \<Longrightarrow>
    queue_step s (s\<lparr>at := (at s)(t := PullTest), owner := Some t\<rparr>)"
| wait_pull: "at s t = PullTest \<Longrightarrow> must_wait_pull (queue_of s) \<Longrightarrow>
    queue_step s (s\<lparr>at := (at s)(t := PullWait), owner := None\<rparr>)"
| do_pull: "at s t = PullTest \<Longrightarrow> \<not> must_wait_pull (queue_of s) \<Longrightarrow> pull_body (queue_of s) = Inr (d, q) \<Longrightarrow>
    queue_step s (s\<lparr>queue_of := q, at := woken \<circ> (at s)(t := Idle), owner := None, pulled := pulled s @ [d]\<rparr>)"
| fail_pull: "at s t = PullTest \<Longrightarrow> \<not> must_wait_pull (queue_of s) \<Longrightarrow> pull_body (queue_of s) = Inl f \<Longrightarrow>
    queue_step s (s\<lparr>failed := True\<rparr>)"
| spurious: "queue_step s (s\<lparr>at := (at s)(t := woken (at s t))\<rparr>)"

definition threads_start :: "int \<Rightarrow> 'd threads" where
  "threads_start m = \<lparr>queue_of = queue_create m, owner = None, at = (\<lambda>_. Idle), pushed = [], pulled = [],
     failed = False\<rparr>"

inductive queue_reach :: "int \<Rightarrow> 'd threads \<Rightarrow> bool" for m :: int where
  start: "queue_reach m (threads_start m)"
| step: "queue_reach m s \<Longrightarrow> queue_step s s' \<Longrightarrow> queue_reach m s'"

definition inside :: "'d place \<Rightarrow> bool" where
  "inside p \<longleftrightarrow> (case p of PushTest d \<Rightarrow> True | PullTest \<Rightarrow> True | _ \<Rightarrow> False)"

text \<open>
  The invariant. The clauses on waiting threads say that no wake-up is lost: whoever waits
  without having been woken has nothing it could do.
\<close>

definition queue_inv :: "int \<Rightarrow> 'd threads \<Rightarrow> bool" where
  "queue_inv m s \<longleftrightarrow> (\<exists>as ds. holds (queue_of s) as ds \<and> pushed s = pulled s @ ds)
     \<and> max_size (queue_of s) = m \<and> (0 < m \<longrightarrow> size (queue_of s) \<le> m)
     \<and> (\<forall>t. inside (at s t) \<longleftrightarrow> owner s = Some t)
     \<and> (\<forall>t d. at s t = PushWait d \<longrightarrow> must_wait_push (queue_of s))
     \<and> (\<forall>t. at s t = PullWait \<longrightarrow> must_wait_pull (queue_of s))
     \<and> \<not> failed s"

lemma woken_not_waiting [simp]: "woken p \<noteq> PushWait d" "woken p \<noteq> PullWait"
  by (cases p; simp)+

lemma inside_woken [simp]: "inside (woken p) = inside p"
  by (cases p) (simp_all add: inside_def)

lemma inside_simps [simp]:
  "\<not> inside Idle" "\<not> inside (PushStart d)" "inside (PushTest d)" "\<not> inside (PushWait d)"
  "\<not> inside (PushWoken d)" "\<not> inside PullStart" "inside PullTest" "\<not> inside PullWait" "\<not> inside PullWoken"
  by (simp_all add: inside_def)

lemma holds_size: "holds q as ds \<Longrightarrow> size q = int (length ds)"
  by (simp add: holds_def)

lemma queue_inv_owner: "queue_inv m s \<Longrightarrow> inside (at s t) \<longleftrightarrow> owner s = Some t"
  by (simp add: queue_inv_def)

text \<open>A thread that moves without touching the queue.\<close>

lemma queue_inv_move:
  assumes "queue_inv m s" and "\<And>u. u \<noteq> t \<Longrightarrow> inside (at s u) \<longleftrightarrow> ow = Some u" and "inside p \<longleftrightarrow> ow = Some t"
    and "\<And>d. p = PushWait d \<Longrightarrow> must_wait_push (queue_of s)" and "p = PullWait \<Longrightarrow> must_wait_pull (queue_of s)"
  shows "queue_inv m (s\<lparr>at := (at s)(t := p), owner := ow\<rparr>)"
  using assms unfolding queue_inv_def by (auto split: if_splits)

lemma queue_inv_move_only:
  assumes "queue_inv m s" and "inside p \<longleftrightarrow> inside (at s t)"
    and "\<And>d. p \<noteq> PushWait d" and "p \<noteq> PullWait"
  shows "queue_inv m (s\<lparr>at := (at s)(t := p)\<rparr>)"
  using queue_inv_move [OF assms(1), of t "owner s" p] assms(2-4) queue_inv_owner [OF assms(1)] by simp

lemma queue_inv_step:
  assumes "queue_step s s'" and "queue_inv m s"
  shows "queue_inv m s'"
  using assms
proof (cases rule: queue_step.cases)
  case (do_push t d q)
  from assms(2) obtain as ds where h: "holds (queue_of s) as ds" "pushed s = pulled s @ ds"
    by (auto simp: queue_inv_def)
  from push_body_ok [OF h(1), of d] do_push obtain a where
    "holds q (as @ [a]) (ds @ [d])" "max_size q = max_size (queue_of s)" by auto
  moreover from this(1) h(1) have "size q = size (queue_of s) + 1" by (simp add: holds_size)
  moreover have "owner s = Some t" using queue_inv_owner [OF assms(2), of t] do_push by simp
  ultimately show ?thesis
    using do_push assms(2) h(2) by (auto simp: queue_inv_def must_wait_push_def)
next
  case (do_pull t d q)
  from assms(2) obtain as ds where h: "holds (queue_of s) as ds" "pushed s = pulled s @ ds"
    by (auto simp: queue_inv_def)
  then obtain e es where ds: "ds = e # es"
    using do_pull holds_size [OF h(1)] by (cases ds) (auto simp: must_wait_pull_def)
  from pull_body_ok [OF h(1) [unfolded ds]] do_pull obtain bs where
    "d = e" "holds q bs es" "max_size q = max_size (queue_of s)" by auto
  moreover from this(2) h(1) ds have "size q = size (queue_of s) - 1" by (simp add: holds_size)
  moreover have "owner s = Some t" using queue_inv_owner [OF assms(2), of t] do_pull by simp
  ultimately show ?thesis
    using do_pull assms(2) h(2) ds by (auto simp: queue_inv_def)
next
  case (fail_push t d f)
  with assms(2) push_body_ok [of "queue_of s" _ _ d] show ?thesis by (fastforce simp: queue_inv_def)
next
  case (fail_pull t f)
  from assms(2) obtain as ds where h: "holds (queue_of s) as ds" by (auto simp: queue_inv_def)
  then obtain e es where "ds = e # es"
    using fail_pull holds_size [OF h] by (cases ds) (auto simp: must_wait_pull_def)
  with pull_body_ok [of "queue_of s" as e es] h fail_pull show ?thesis by auto
next
  case (spurious t)
  then show ?thesis using assms(2) queue_inv_move_only [of m s "woken (at s t)" t] by simp
next
  case (call_push t d)
  then show ?thesis using assms(2) queue_inv_move_only [of m s "PushStart d" t] by simp
next
  case (call_pull t)
  then show ?thesis using assms(2) queue_inv_move_only [of m s PullStart t] by simp
next
  case (lock_push t d)
  then show ?thesis using assms(2) queue_inv_move [of m s t "Some t" "PushTest d"] queue_inv_owner [of m s] by auto
next
  case (lock_pull t)
  then show ?thesis using assms(2) queue_inv_move [of m s t "Some t" PullTest] queue_inv_owner [of m s] by auto
next
  case (wait_push t d)
  then have "owner s = Some t" using queue_inv_owner [OF assms(2), of t] by simp
  then show ?thesis
    using wait_push assms(2) queue_inv_move [of m s t None "PushWait d"] queue_inv_owner [OF assms(2)] by auto
next
  case (wait_pull t)
  then have "owner s = Some t" using queue_inv_owner [OF assms(2), of t] by simp
  then show ?thesis
    using wait_pull assms(2) queue_inv_move [of m s t None PullWait] queue_inv_owner [OF assms(2)] by auto
qed

lemma queue_inv_reach: "queue_reach m s \<Longrightarrow> queue_inv m s"
proof (induction rule: queue_reach.induct)
  case start
  have "holds (queue_create m) [] []" by (simp add: holds_def queue_create_def)
  then show ?case
    by (auto simp: queue_inv_def threads_start_def queue_create_def)
qed (rule queue_inv_step)

section \<open>Properties\<close>

text \<open>
  C2: in every state that threads calling \<open>queue_push\<close> and \<open>queue_pull\<close> can reach, in any order and with
  any spurious wake-ups, the data pulled and then the data in the list are the data pushed, in
  order; the list never exceeds its bound, no critical section meets a bad pointer, and two
  threads are never in one at a time.
\<close>

theorem queue_fifo:
  assumes "queue_reach m s"
  shows "\<exists>as ds. holds (queue_of s) as ds \<and> pushed s = pulled s @ ds
           \<and> (0 < m \<longrightarrow> length ds \<le> nat m) \<and> \<not> failed s
           \<and> (\<forall>t u. inside (at s t) \<and> inside (at s u) \<longrightarrow> t = u)"
proof -
  have inv: "queue_inv m s" by (rule queue_inv_reach [OF assms])
  then obtain as ds where h: "holds (queue_of s) as ds" "pushed s = pulled s @ ds"
    unfolding queue_inv_def by blast
  have "0 < m \<longrightarrow> int (length ds) \<le> m" "\<not> failed s"
    using inv holds_size [OF h(1)] by (simp_all add: queue_inv_def)
  then show ?thesis using h queue_inv_owner [OF inv] by (intro exI [of _ as] exI [of _ ds]) auto
qed

definition one_push :: "nat threads" where
  "one_push = (threads_start 1)\<lparr>at := (at (threads_start 1))(0 := PushStart 5)\<rparr>"

lemma one_push_reach: "queue_reach 1 one_push"
  unfolding one_push_def
  by (rule queue_reach.step [OF queue_reach.start queue_step.call_push]) (simp add: threads_start_def)

theorem queue_fifo_witness:
  "\<exists>as ds. holds (queue_of one_push) as ds \<and> pushed one_push = pulled one_push @ ds \<and> length ds \<le> 1"
  using queue_fifo [OF one_push_reach] by auto

text \<open>
  C27: nobody waits for nothing. A reachable state in which no thread that is in a call can go on is
  one where they all wait in \<open>queue_push\<close> on a full queue or all wait in \<open>queue_pull\<close> on an
  empty one.
\<close>

theorem queue_no_lost_wakeup:
  assumes "queue_reach m s" and "\<forall>t. at s t = Idle \<or> at s t = PullWait \<or> (\<exists>d. at s t = PushWait d)"
  shows "(\<forall>t. at s t = Idle \<or> (\<exists>d. at s t = PushWait d) \<and> 0 < m \<and> size (queue_of s) = m)
       \<or> (\<forall>t. at s t = Idle \<or> at s t = PullWait \<and> size (queue_of s) = 0)"
proof -
  have inv: "queue_inv m s" by (rule queue_inv_reach [OF assms(1)])
  have push: "0 < m \<and> size (queue_of s) = m" if w: "at s t = PushWait d" for t d
  proof -
    have "must_wait_push (queue_of s)" "max_size (queue_of s) = m" "0 < m \<longrightarrow> size (queue_of s) \<le> m"
      using inv w by (auto simp: queue_inv_def)
    then show ?thesis by (simp add: must_wait_push_def)
  qed
  have pull: "size (queue_of s) = 0" if w: "at s t = PullWait" for t
  proof -
    have "must_wait_pull (queue_of s)" "\<exists>as ds. holds (queue_of s) as ds"
      using inv w by (auto simp: queue_inv_def)
    then show ?thesis by (auto simp: must_wait_pull_def dest: holds_size)
  qed
  show ?thesis
  proof (cases "\<exists>t. at s t = PullWait")
    case True
    then have "size (queue_of s) = 0" using pull by blast
    then have "at s t \<noteq> PushWait d" for t d using push [of t d] by auto
    then show ?thesis using assms(2) pull by blast
  next
    case False
    then show ?thesis using assms(2) push by blast
  qed
qed

definition pull_waits :: "nat threads" where
  "pull_waits = (threads_start 1)\<lparr>at := (\<lambda>_. Idle)(3 := PullWait)\<rparr>"

lemma pull_waits_reach: "queue_reach 1 pull_waits"
proof -
  let ?s = "threads_start 1 :: nat threads"
  let ?s1 = "?s\<lparr>at := (at ?s)(3 := PullStart)\<rparr>"
  let ?s2 = "?s1\<lparr>at := (at ?s1)(3 := PullTest), owner := Some 3\<rparr>"
  let ?s3 = "?s2\<lparr>at := (at ?s2)(3 := PullWait), owner := None\<rparr>"
  have 1: "queue_reach 1 ?s1"
    by (rule queue_reach.step [OF queue_reach.start queue_step.call_pull]) (simp add: threads_start_def)
  have 2: "queue_reach 1 ?s2"
    by (rule queue_reach.step [OF 1 queue_step.lock_pull]) (simp_all add: threads_start_def)
  have "queue_reach 1 ?s3"
    by (rule queue_reach.step [OF 2 queue_step.wait_pull])
      (simp_all add: threads_start_def queue_create_def must_wait_pull_def)
  moreover have "?s3 = pull_waits" by (simp add: pull_waits_def threads_start_def)
  ultimately show ?thesis by simp
qed

theorem queue_no_lost_wakeup_witness: "size (queue_of pull_waits) = 0 \<and> at pull_waits 3 = PullWait"
proof -
  have "\<forall>t. at pull_waits t = Idle \<or> at pull_waits t = PullWait \<or> (\<exists>d. at pull_waits t = PushWait d)"
    by (simp add: pull_waits_def)
  from queue_no_lost_wakeup [OF pull_waits_reach this] have "at pull_waits 3 = Idle
      \<or> (\<exists>d. at pull_waits 3 = PushWait d) \<or> size (queue_of pull_waits) = 0" by blast
  then show ?thesis by (simp add: pull_waits_def)
qed

text \<open>Destroying a queue frees every node of its list, each once.\<close>

theorem queue_destroy_frees_all:
  assumes "holds q as ds"
  shows "queue_destroy (Some q) = Inr (Some Map.empty)"
proof -
  have "free_nodes (nodes q) (head q) = Some (Inr (\<lambda>a. if a \<in> set as then None else nodes q a))"
    using assms by (intro free_nodes_ok) (auto simp: holds_def)
  moreover have "(\<lambda>a. if a \<in> set as then None else nodes q a) = Map.empty"
    using assms by (auto simp: holds_def fun_eq_iff dom_def)
  ultimately show ?thesis by (simp add: queue_destroy_def)
qed

theorem queue_destroy_frees_all_witness: "queue_destroy (Some (queue_of one_push)) = Inr (Some Map.empty)"
proof -
  have "holds (queue_of one_push) [] []"
    by (simp add: one_push_def threads_start_def queue_create_def holds_def)
  then show ?thesis by (rule queue_destroy_frees_all)
qed

end
