(* ===== verification/Sync.thy ===== *)
theory Sync
  imports Prelude
begin

text \<open>
  The counting semaphore of \<^verbatim>\<open>critical_concurrency/semamore.c\<close>, the barrier of
  \<^verbatim>\<open>barrier.c\<close> and the two programs \<^verbatim>\<open>rendezvous.c\<close> and \<^verbatim>\<open>rendezvous_sol.c\<close>. A run is a
  list of labels that say which thread goes on; the step of a label is computed, so that runs can be evaluated.
  The mutex keeps everyone else out from the lock to the unlock or the wait, so a
  critical section is one step. The threads inside \<^verbatim>\<open>pthread_cond_wait\<close> are a list; a signal
  takes one of them, whichever the system likes, and a label \<open>Wake\<close> is a spurious wake-up.
\<close>

section \<open>The semaphore\<close>

datatype sem_place = SIdle | WaitStart | WaitBlocked | WaitWoken | PostStart | PostBlocked | PostWoken

text \<open>\<open>waits\<close> and \<open>posts\<close> count the calls that went through.\<close>

record semamore =
  sem_value :: int    \<comment> \<open>the field \<^verbatim>\<open>value\<close>\<close>
  max_val :: int
  sem_at :: "nat \<Rightarrow> sem_place"
  sem_cv :: "nat list"
  waits :: nat
  posts :: nat

definition semm_init :: "int \<Rightarrow> int \<Rightarrow> semamore" where
  "semm_init v m = \<lparr>sem_value = v, max_val = m, sem_at = (\<lambda>_. SIdle), sem_cv = [], waits = 0, posts = 0\<rparr>"

definition sem_wake :: "nat \<Rightarrow> semamore \<Rightarrow> semamore" where
  "sem_wake t s = s\<lparr>sem_at := (sem_at s)(t := if sem_at s t = PostBlocked then PostWoken else WaitWoken),
     sem_cv := removeAll t (sem_cv s)\<rparr>"

text \<open>\<^verbatim>\<open>pthread_cond_signal\<close>: the number \<open>k\<close> is the system's choice.\<close>

definition sem_signal :: "nat \<Rightarrow> semamore \<Rightarrow> semamore" where
  "sem_signal k s = (if sem_cv s = [] then s else sem_wake (sem_cv s ! (k mod length (sem_cv s))) s)"

text \<open>From the lock, or from the return of the wait, to the unlock or the next wait.\<close>

definition semm_wait :: "nat \<Rightarrow> nat \<Rightarrow> semamore \<Rightarrow> semamore" where
  "semm_wait t k s =
     (if sem_value s = 0 then s\<lparr>sem_at := (sem_at s)(t := WaitBlocked), sem_cv := sem_cv s @ [t]\<rparr>
      else sem_signal k (s\<lparr>sem_value := sem_value s - 1, sem_at := (sem_at s)(t := SIdle),
             waits := Suc (waits s)\<rparr>))"

definition semm_post :: "nat \<Rightarrow> nat \<Rightarrow> semamore \<Rightarrow> semamore" where
  "semm_post t k s =
     (if sem_value s = max_val s then s\<lparr>sem_at := (sem_at s)(t := PostBlocked), sem_cv := sem_cv s @ [t]\<rparr>
      else sem_signal k (s\<lparr>sem_value := sem_value s + 1, sem_at := (sem_at s)(t := SIdle),
             posts := Suc (posts s)\<rparr>))"

datatype sem_label = CallWait nat | CallPost nat | SemGo nat nat | SemWake nat

fun sem_do :: "sem_label \<Rightarrow> semamore \<Rightarrow> semamore option" where
  "sem_do (CallWait t) s = (if sem_at s t = SIdle then Some (s\<lparr>sem_at := (sem_at s)(t := WaitStart)\<rparr>) else None)"
| "sem_do (CallPost t) s = (if sem_at s t = SIdle then Some (s\<lparr>sem_at := (sem_at s)(t := PostStart)\<rparr>) else None)"
| "sem_do (SemGo t k) s = (case sem_at s t of
      WaitStart \<Rightarrow> Some (semm_wait t k s) | WaitWoken \<Rightarrow> Some (semm_wait t k s)
    | PostStart \<Rightarrow> Some (semm_post t k s) | PostWoken \<Rightarrow> Some (semm_post t k s)
    | _ \<Rightarrow> None)"
| "sem_do (SemWake t) s = (if t \<in> set (sem_cv s) then Some (sem_wake t s) else None)"

definition sem_inv :: "int \<Rightarrow> int \<Rightarrow> semamore \<Rightarrow> bool" where
  "sem_inv v m s \<longleftrightarrow> max_val s = m \<and> 0 \<le> sem_value s \<and> sem_value s \<le> m
     \<and> sem_value s = v + int (posts s) - int (waits s)
     \<and> (\<forall>t. t \<in> set (sem_cv s) \<longleftrightarrow> sem_at s t = WaitBlocked \<or> sem_at s t = PostBlocked)"

lemma sem_signal_simps [simp]:
  "sem_value (sem_signal k s) = sem_value s" "max_val (sem_signal k s) = max_val s"
  "waits (sem_signal k s) = waits s" "posts (sem_signal k s) = posts s"
  by (simp_all add: sem_signal_def sem_wake_def)

lemma sem_inv_wake: "sem_inv v m s \<Longrightarrow> sem_inv v m (sem_wake t s)"
  by (auto simp: sem_inv_def sem_wake_def)

lemma sem_inv_signal: "sem_inv v m s \<Longrightarrow> sem_inv v m (sem_signal k s)"
  by (simp add: sem_signal_def sem_inv_wake)

lemma sem_inv_wait:
  assumes "sem_inv v m s" and "t \<notin> set (sem_cv s)"
  shows "sem_inv v m (semm_wait t k s)"
  unfolding semm_wait_def using assms
  by (auto intro!: sem_inv_signal) (auto simp: sem_inv_def)

lemma sem_inv_post:
  assumes "sem_inv v m s" and "t \<notin> set (sem_cv s)"
  shows "sem_inv v m (semm_post t k s)"
  unfolding semm_post_def using assms
  by (auto intro!: sem_inv_signal) (auto simp: sem_inv_def)

lemma sem_inv_step: "sem_inv v m s \<Longrightarrow> sem_do l s = Some s' \<Longrightarrow> sem_inv v m s'"
proof (cases l)
  case (SemGo t k)
  assume s: "sem_inv v m s" "sem_do l s = Some s'"
  then have "t \<notin> set (sem_cv s)" using SemGo by (auto simp: sem_inv_def split: sem_place.splits)
  from sem_inv_wait [OF s(1) this] sem_inv_post [OF s(1) this] show ?thesis
    using s(2) SemGo by (auto split: sem_place.splits)
qed (auto simp: sem_inv_wake split: if_splits, auto simp: sem_inv_def)

interpretation semaphore: transition_system sem_do "\<lambda>s. s = semm_init v m \<and> 0 \<le> v \<and> v \<le> m" "sem_inv v m" for v m
  by unfold_locales (simp add: sem_inv_def semm_init_def, rule sem_inv_step)

text \<open>
  C34: whatever the schedule, the semaphore's value stays between 0 and its maximum, and is the
  initial value plus the posts less the waits that went through.
\<close>

theorem semamore_bounded:
  assumes "run sem_do ls (semm_init v m) = Some s" and "0 \<le> v" and "v \<le> m"
  shows "0 \<le> sem_value s \<and> sem_value s \<le> m \<and> sem_value s = v + int (posts s) - int (waits s)"
proof -
  have "sem_inv v m s" by (rule semaphore.reachable [OF assms(1)]) (simp add: assms(2,3))
  then show ?thesis by (simp add: sem_inv_def)
qed

text \<open>
  \<open>semm_destroy\<close> destroys the mutex and the condition variable. That is undefined (the result is \<open>None\<close>) while one of
  the program's threads is inside a call: it waits on the condition variable or is about to lock the mutex.
\<close>

definition semm_destroy :: "nat list \<Rightarrow> semamore \<Rightarrow> semamore option" where
  "semm_destroy threads s = (if list_all (\<lambda>t. sem_at s t = SIdle) threads then Some s else None)"

lemma semm_init_destroy: "semm_destroy threads (semm_init v m) = Some (semm_init v m)"
  by (simp add: semm_destroy_def semm_init_def list_all_iff)

lemma semm_destroy_waits_for_all: "t \<in> set threads \<Longrightarrow> semm_destroy threads s = Some s' \<Longrightarrow> sem_inv v m s \<Longrightarrow> t \<notin> set (sem_cv s)"
  by (auto simp: semm_destroy_def list_all_iff sem_inv_def split: if_splits)

definition lost_wakeup_run :: "sem_label list" where
  "lost_wakeup_run = [CallWait 1, SemGo 1 0, CallWait 2, SemGo 2 0, CallPost 3, SemGo 3 0,
     CallPost 4, SemGo 4 0, SemGo 1 0, SemGo 2 0]"

text \<open>
  A wake-up can be lost, because a signal may pick a thread of the wrong kind. In this run
  (without spurious wake-ups) thread 4 ends up blocked in \<open>semm_post\<close> and thread 2 in \<open>semm_wait\<close>, no
  other thread is in a call, and the value is 0, below the maximum 1: both sleep although a post could proceed. The
  semaphore can then not be destroyed either.
\<close>

theorem semamore_lost_wakeup:
  "\<exists>s. run sem_do lost_wakeup_run (semm_init 0 1) = Some s \<and> sem_value s = 0 \<and> max_val s = 1
     \<and> sem_at s = (\<lambda>_. SIdle)(2 := WaitBlocked, 4 := PostBlocked)
     \<and> (\<forall>t k. sem_do (SemGo t k) s = None) \<and> semm_destroy [1, 2, 3, 4] s = None"
proof -
  let ?s = "\<lparr>sem_value = 0, max_val = 1, sem_at = (\<lambda>_. SIdle)(2 := WaitBlocked, 4 := PostBlocked),
     sem_cv = [4, 2], waits = 1, posts = 1\<rparr>"
  have "run sem_do lost_wakeup_run (semm_init 0 1) = Some ?s"
    by (simp add: lost_wakeup_run_def semm_init_def semm_wait_def semm_post_def sem_signal_def sem_wake_def
        fun_eq_iff)
  then show ?thesis by (simp add: semm_destroy_def)
qed

theorem semamore_bounded_witness:
  "\<exists>s. run sem_do [CallPost 3, SemGo 3 0, CallWait 1, SemGo 1 0, CallWait 2, SemGo 2 0] (semm_init 0 1) = Some s
     \<and> sem_value s = int (posts s) - int (waits s)"
proof -
  obtain s where r: "run sem_do [CallPost 3, SemGo 3 0, CallWait 1, SemGo 1 0, CallWait 2, SemGo 2 0]
      (semm_init 0 1) = Some s"
    by (simp add: semm_init_def semm_wait_def semm_post_def sem_signal_def)
  have "(0::int) \<le> 0" and "(0::int) \<le> 1" by simp_all
  from semamore_bounded [OF r this] r show ?thesis by simp
qed

section \<open>The barrier\<close>

text \<open>
  A place remembers the round (\<open>times_used\<close> on arrival) the thread belongs to. \<open>arrivals\<close> and
  \<open>departures\<close> record the rounds of the threads that came and of those that left.
\<close>

datatype bar_place = Outside | Arriving | BarWaiting nat | BarWoken nat

record barrier =
  n_threads :: "32 word"
  count :: "32 word"
  times_used :: nat
  bar_at :: "nat \<Rightarrow> bar_place"
  arrivals :: "nat list"
  departures :: "nat list"

definition barrier_init :: "32 word \<Rightarrow> barrier" where
  "barrier_init n = \<lparr>n_threads = n, count = 0, times_used = 0, bar_at = (\<lambda>_. Outside),
     arrivals = [], departures = []\<rparr>"

fun bar_wake :: "bar_place \<Rightarrow> bar_place" where
  "bar_wake (BarWaiting g) = BarWoken g"
| "bar_wake p = p"

text \<open>
  \<open>barrier_wait\<close> from the lock to the unlock or the wait. After the wait the code tests
  nothing: it unlocks and returns (\<open>BarGo\<close> on a woken thread).
\<close>

definition barrier_arrive :: "nat \<Rightarrow> barrier \<Rightarrow> barrier" where
  "barrier_arrive t b =
     (let b1 = b\<lparr>count := count b + 1, arrivals := times_used b # arrivals b\<rparr> in
      if count b1 = n_threads b1
      then b1\<lparr>bar_at := bar_wake \<circ> (bar_at b1)(t := Outside), count := 0, times_used := times_used b1 + 1,
             departures := times_used b1 # departures b1\<rparr>
      else b1\<lparr>bar_at := (bar_at b1)(t := BarWaiting (times_used b1))\<rparr>)"

datatype bar_label = BarCall nat | BarGo nat | BarSpurious nat

fun bar_do :: "bar_label \<Rightarrow> barrier \<Rightarrow> barrier option" where
  "bar_do (BarCall t) b = (if bar_at b t = Outside then Some (b\<lparr>bar_at := (bar_at b)(t := Arriving)\<rparr>) else None)"
| "bar_do (BarGo t) b = (case bar_at b t of
      Arriving \<Rightarrow> Some (barrier_arrive t b)
    | BarWoken g \<Rightarrow> Some (b\<lparr>bar_at := (bar_at b)(t := Outside), departures := g # departures b\<rparr>)
    | _ \<Rightarrow> None)"
| "bar_do (BarSpurious t) b = (case bar_at b t of
      BarWaiting g \<Rightarrow> Some (b\<lparr>bar_at := (bar_at b)(t := BarWoken g)\<rparr>) | _ \<Rightarrow> None)"

definition bar_inv :: "barrier \<Rightarrow> bool" where
  "bar_inv b \<longleftrightarrow> 0 < n_threads b \<and> count b < n_threads b
     \<and> count_list (arrivals b) (times_used b) = unat (count b)
     \<and> (\<forall>g < times_used b. count_list (arrivals b) g = unat (n_threads b))
     \<and> (\<forall>g > times_used b. count_list (arrivals b) g = 0)
     \<and> (\<forall>t g. bar_at b t = BarWaiting g \<longrightarrow> g = times_used b)
     \<and> (\<forall>t g. bar_at b t = BarWoken g \<longrightarrow> g < times_used b)
     \<and> (\<forall>g \<in> set (departures b). g < times_used b)"

text \<open>\<open>barrier_destroy\<close> returns 0; like the semaphore's it is undefined while a thread is in \<^verbatim>\<open>barrier_wait\<close>.\<close>

definition barrier_destroy :: "nat list \<Rightarrow> barrier \<Rightarrow> int option" where
  "barrier_destroy threads b = (if list_all (\<lambda>t. bar_at b t = Outside) threads then Some 0 else None)"

lemma bar_wake_eq [simp]: "bar_wake p \<noteq> BarWaiting g"
  "bar_wake p = BarWoken g \<longleftrightarrow> p = BarWaiting g \<or> p = BarWoken g"
  by (cases p; auto)+

lemma bar_inv_arrive:
  assumes inv: "bar_inv b" and "bar_at b t = Arriving"
  shows "bar_inv (barrier_arrive t b)"
proof -
  have lt: "unat (count b) < unat (n_threads b)" using inv by (simp add: bar_inv_def word_less_nat_alt)
  have "unat (n_threads b) < 2 ^ LENGTH(32)" by (rule unsigned_less)
  then have u: "unat (count b + 1) = Suc (unat (count b))"
    using lt by (simp add: unat_word_ariths)
  show ?thesis
  proof (cases "count b + 1 = n_threads b")
    case True
    then have n: "unat (n_threads b) = Suc (unat (count b))" using u by simp
    show ?thesis
      using inv True n by (auto simp: bar_inv_def barrier_arrive_def Let_def less_Suc_eq)
  next
    case False
    then have "unat (count b + 1) \<noteq> unat (n_threads b)" by (simp add: word_unat_eq_iff)
    then have "unat (count b + 1) < unat (n_threads b)" using u lt by simp
    then have c: "count b + 1 < n_threads b" by (simp add: word_less_nat_alt)
    show ?thesis
      using inv False u c by (auto simp: bar_inv_def barrier_arrive_def Let_def)
  qed
qed

lemma bar_inv_step:
  assumes "bar_inv b" and "bar_do l b = Some b'" and "\<And>t. l \<noteq> BarSpurious t"
  shows "bar_inv b'"
proof (cases l)
  case (BarGo t)
  then show ?thesis
    using assms bar_inv_arrive [of b t]
    by (auto simp: bar_inv_def split: bar_place.splits if_splits)
qed (use assms in \<open>auto simp: bar_inv_def split: if_splits\<close>)

text \<open>
  C35: without spurious wake-ups the barrier holds: whenever a thread of some round has left,
  exactly \<open>n_threads\<close> threads have arrived in that round, and rounds do not mix.
\<close>

theorem barrier_holds:
  assumes "run bar_do ls (barrier_init n) = Some b" and "0 < n" and "\<forall>t. BarSpurious t \<notin> set ls"
  shows "\<forall>g \<in> set (departures b). count_list (arrivals b) g = unat n"
proof -
  have init: "bar_inv (barrier_init n) \<and> n_threads (barrier_init n) = n"
    using assms(2) by (simp add: bar_inv_def barrier_init_def)
  have "bar_inv b \<and> n_threads b = n"
  proof (rule run_invariant [where I = "\<lambda>s. bar_inv s \<and> n_threads s = n", OF assms(1) init])
    fix l s s' assume l: "l \<in> set ls" "bar_inv s \<and> n_threads s = n" "bar_do l s = Some s'"
    then have "bar_inv s'" using assms(3) bar_inv_step [of s l s'] by blast
    moreover have "n_threads s' = n_threads s"
      using l(3) by (cases l) (auto simp: barrier_arrive_def Let_def split: bar_place.splits if_splits)
    ultimately show "bar_inv s' \<and> n_threads s' = n" using l(2) by simp
  qed
  then show ?thesis by (auto simp: bar_inv_def)
qed

theorem barrier_holds_witness:
  "\<exists>b. run bar_do [BarCall 0, BarGo 0, BarCall 1, BarGo 1, BarGo 0] (barrier_init 2) = Some b
     \<and> set (departures b) = {0} \<and> count_list (arrivals b) 0 = 2"
proof -
  let ?b = "\<lparr>n_threads = 2, count = 0, times_used = 1, bar_at = (\<lambda>_. Outside), arrivals = [0, 0],
    departures = [0, 0]\<rparr>"
  have r: "run bar_do [BarCall 0, BarGo 0, BarCall 1, BarGo 1, BarGo 0] (barrier_init 2) = Some ?b"
    by (simp add: barrier_init_def barrier_arrive_def Let_def fun_eq_iff)
  have "(0::32 word) < 2" by simp
  from barrier_holds [OF r this] have "count_list (arrivals ?b) 0 = unat (2 :: 32 word)" by simp
  then show ?thesis using r by simp
qed

text \<open>
  The wait is not in a loop, so one spurious wake-up lets a thread through a barrier for
  two at which it alone has arrived.
\<close>

theorem barrier_spurious_wakeup:
  "\<exists>b. run bar_do [BarCall 0, BarGo 0, BarSpurious 0, BarGo 0] (barrier_init 2) = Some b
     \<and> departures b = [0] \<and> arrivals b = [0]"
  by (simp add: barrier_init_def barrier_arrive_def Let_def)

section \<open>The two rendezvous programs\<close>

text \<open>A byte, one less; the loop counts every byte of a quote down before it prints the other quote.\<close>

definition dec_char :: "char \<Rightarrow> char" where
  "dec_char c = char_of ((of_char c + 255) mod 256 :: nat)"

datatype rv_place = Modify nat | Post | Await | Print | Finished

record rendezvous =
  quote_A :: string
  quote_B :: string
  sem_a :: nat
  sem_b :: nat
  rv_A :: rv_place           \<comment> \<open>the thread \<^verbatim>\<open>modifyA_printB\<close>\<close>
  rv_B :: rv_place           \<comment> \<open>the thread \<^verbatim>\<open>modifyB_printA\<close>\<close>
  printed_A :: "string option"
  printed_B :: "string option"

definition rv_start :: "string \<Rightarrow> string \<Rightarrow> rendezvous" where
  "rv_start a b = \<lparr>quote_A = a, quote_B = b, sem_a = 0, sem_b = 0, rv_A = Modify 0, rv_B = Modify 0,
     printed_A = None, printed_B = None\<rparr>"

definition modifyA_printB :: "bool \<Rightarrow> rendezvous \<Rightarrow> rendezvous option" where
  "modifyA_printB sync s = (case rv_A s of
      Modify i \<Rightarrow> Some (if i < length (quote_A s)
          then s\<lparr>quote_A := (quote_A s)[i := dec_char (quote_A s ! i)], rv_A := Modify (Suc i)\<rparr>
          else s\<lparr>rv_A := if sync then Post else Print\<rparr>)
    | Post \<Rightarrow> Some (s\<lparr>sem_a := Suc (sem_a s), rv_A := Await\<rparr>)
    | Await \<Rightarrow> if sem_b s = 0 then None else Some (s\<lparr>sem_b := sem_b s - 1, rv_A := Print\<rparr>)
    | Print \<Rightarrow> Some (s\<lparr>printed_B := Some (quote_B s), rv_A := Finished\<rparr>)
    | Finished \<Rightarrow> None)"

definition modifyB_printA :: "bool \<Rightarrow> rendezvous \<Rightarrow> rendezvous option" where
  "modifyB_printA sync s = (case rv_B s of
      Modify i \<Rightarrow> Some (if i < length (quote_B s)
          then s\<lparr>quote_B := (quote_B s)[i := dec_char (quote_B s ! i)], rv_B := Modify (Suc i)\<rparr>
          else s\<lparr>rv_B := if sync then Post else Print\<rparr>)
    | Post \<Rightarrow> Some (s\<lparr>sem_b := Suc (sem_b s), rv_B := Await\<rparr>)
    | Await \<Rightarrow> if sem_a s = 0 then None else Some (s\<lparr>sem_a := sem_a s - 1, rv_B := Print\<rparr>)
    | Print \<Rightarrow> Some (s\<lparr>printed_A := Some (quote_A s), rv_B := Finished\<rparr>)
    | Finished \<Rightarrow> None)"

text \<open>A label \<open>True\<close> is a step of the first thread; \<open>sync\<close> is the solution, with its semaphores.\<close>

definition rv_do :: "bool \<Rightarrow> bool \<Rightarrow> rendezvous \<Rightarrow> rendezvous option" where
  "rv_do sync l s = (if l then modifyA_printB sync s else modifyB_printA sync s)"

text \<open>How far a thread has got with its quote, and whether it has posted.\<close>

definition half_done :: "string \<Rightarrow> rv_place \<Rightarrow> string \<Rightarrow> bool" where
  "half_done q0 p q \<longleftrightarrow> (case p of
      Modify i \<Rightarrow> i \<le> length q0 \<and> q = map dec_char (take i q0) @ drop i q0
    | _ \<Rightarrow> q = map dec_char q0)"

definition posted :: "rv_place \<Rightarrow> nat" where
  "posted p = (if p \<in> {Await, Print, Finished} then 1 else 0)"

definition awaited :: "rv_place \<Rightarrow> nat" where
  "awaited p = (if p \<in> {Print, Finished} then 1 else 0)"

definition rv_inv :: "string \<Rightarrow> string \<Rightarrow> rendezvous \<Rightarrow> bool" where
  "rv_inv a b s \<longleftrightarrow> half_done a (rv_A s) (quote_A s) \<and> half_done b (rv_B s) (quote_B s)
     \<and> sem_a s + awaited (rv_B s) = posted (rv_A s) \<and> sem_b s + awaited (rv_A s) = posted (rv_B s)
     \<and> (\<forall>x. printed_A s = Some x \<longrightarrow> x = map dec_char a) \<and> (\<forall>x. printed_B s = Some x \<longrightarrow> x = map dec_char b)"

lemma half_done_step:
  "half_done q0 (Modify i) q \<Longrightarrow> i < length q \<Longrightarrow> half_done q0 (Modify (Suc i)) (q[i := dec_char (q ! i)])"
  "half_done q0 (Modify i) q \<Longrightarrow> \<not> i < length q \<Longrightarrow> half_done q0 Post q"
  by (auto simp: half_done_def nth_append list_update_append take_Suc_conv_app_nth
      simp flip: Cons_nth_drop_Suc)

lemma half_done_later:
  "half_done q0 p q \<Longrightarrow> posted p = 1 \<Longrightarrow> q = map dec_char q0"
  "half_done q0 Post q = (q = map dec_char q0)" "half_done q0 Await q = (q = map dec_char q0)"
  "half_done q0 Print q = (q = map dec_char q0)" "half_done q0 Finished q = (q = map dec_char q0)"
  by (auto simp: half_done_def posted_def split: rv_place.splits if_splits)

lemma posted_simps [simp]:
  "posted (Modify i) = 0" "posted Post = 0" "posted Await = 1" "posted Print = 1" "posted Finished = 1"
  "awaited (Modify i) = 0" "awaited Post = 0" "awaited Await = 0" "awaited Print = 1" "awaited Finished = 1"
  by (simp_all add: posted_def awaited_def)

lemma posted_le: "posted p \<le> 1"
  by (simp add: posted_def)

lemma rv_inv_A:
  assumes inv: "rv_inv a b s" and "modifyA_printB True s = Some s'"
  shows "rv_inv a b s'"
proof (cases "rv_A s")
  case (Modify i)
  then show ?thesis
    using assms half_done_step [of a i "quote_A s"] by (auto simp: rv_inv_def modifyA_printB_def split: if_splits)
next
  case Print
  then have "posted (rv_B s) = 1" using inv posted_le [of "rv_B s"] by (auto simp: rv_inv_def)
  then show ?thesis
    using assms Print half_done_later(1) [of b "rv_B s"] by (auto simp: rv_inv_def modifyA_printB_def half_done_later)
qed (use assms in \<open>auto simp: rv_inv_def modifyA_printB_def half_done_later split: if_splits\<close>)

lemma rv_inv_B:
  assumes inv: "rv_inv a b s" and "modifyB_printA True s = Some s'"
  shows "rv_inv a b s'"
proof (cases "rv_B s")
  case (Modify i)
  then show ?thesis
    using assms half_done_step [of b i "quote_B s"] by (auto simp: rv_inv_def modifyB_printA_def split: if_splits)
next
  case Print
  then have "posted (rv_A s) = 1" using inv posted_le [of "rv_A s"] by (auto simp: rv_inv_def)
  then show ?thesis
    using assms Print half_done_later(1) [of a "rv_A s"] by (auto simp: rv_inv_def modifyB_printA_def half_done_later)
qed (use assms in \<open>auto simp: rv_inv_def modifyB_printA_def half_done_later split: if_splits\<close>)

lemma rv_inv_step: "rv_inv a b s \<Longrightarrow> rv_do True l s = Some s' \<Longrightarrow> rv_inv a b s'"
  using rv_inv_A [of a b s s'] rv_inv_B [of a b s s'] by (cases l) (simp_all add: rv_do_def)

interpretation rendezvous_sol: transition_system "rv_do True" "\<lambda>s. s = rv_start a b" "rv_inv a b" for a b
  by unfold_locales (simp add: rv_inv_def rv_start_def half_done_def, rule rv_inv_step)

text \<open>
  C36: with the semaphores, under every schedule, what is printed is the fully decoded
  quotes, and the threads never block each other for good: unless both have finished, one of them can go on.
\<close>

theorem rendezvous_sol_correct:
  assumes "run (rv_do True) ls (rv_start a b) = Some s"
  shows "(printed_A s \<noteq> None \<longrightarrow> printed_A s = Some (map dec_char a))
       \<and> (printed_B s \<noteq> None \<longrightarrow> printed_B s = Some (map dec_char b))
       \<and> (rv_A s = Finished \<and> rv_B s = Finished \<or> (\<exists>l. rv_do True l s \<noteq> None))"
proof -
  have inv: "rv_inv a b s" by (rule rendezvous_sol.reachable [OF assms]) simp
  have A: "rv_A s = Finished \<or> rv_A s = Await \<and> sem_b s = 0" if "modifyA_printB True s = None"
    using that by (cases "rv_A s") (simp_all add: modifyA_printB_def split: if_splits)
  have B: "rv_B s = Finished \<or> rv_B s = Await \<and> sem_a s = 0" if "modifyB_printA True s = None"
    using that by (cases "rv_B s") (simp_all add: modifyB_printA_def split: if_splits)
  have sems: "sem_a s + awaited (rv_B s) = posted (rv_A s)" "sem_b s + awaited (rv_A s) = posted (rv_B s)"
    using inv by (simp_all add: rv_inv_def)
  have "modifyA_printB True s \<noteq> None \<or> modifyB_printA True s \<noteq> None"
    if "\<not> (rv_A s = Finished \<and> rv_B s = Finished)"
    using that A B sems by fastforce
  then have "rv_A s = Finished \<and> rv_B s = Finished \<or> (\<exists>l. rv_do True l s \<noteq> None)"
    unfolding rv_do_def by (metis (full_types))
  then show ?thesis using inv by (auto simp: rv_inv_def)
qed

theorem rendezvous_sol_correct_witness:
  "\<exists>s. run (rv_do True) [True, True, False, False, False, True, True, True, False, False] (rv_start ''b'' ''c'') = Some s
     \<and> printed_A s = Some ''a'' \<and> printed_B s = Some ''b''"
proof -
  let ?ls = "[True, True, False, False, False, True, True, True, False, False]"
  obtain s where r: "run (rv_do True) ?ls (rv_start ''b'' ''c'') = Some s" "printed_A s \<noteq> None" "printed_B s \<noteq> None"
    by (simp add: rv_do_def rv_start_def modifyA_printB_def modifyB_printA_def)
  have "map dec_char ''b'' = ''a''" "map dec_char ''c'' = ''b''" by (code_simp+)
  then show ?thesis using rendezvous_sol_correct [OF r(1)] r by auto
qed

text \<open>
  Without them (\<^verbatim>\<open>rendezvous.c\<close>) a schedule prints a quote nobody has decoded yet.
\<close>

theorem rendezvous_unsynchronised:
  "\<exists>s. run (rv_do False) (replicate (length a) True @ [True, True]) (rv_start a b) = Some s \<and> printed_B s = Some b"
proof -
  have loop: "\<exists>q'. run (rv_do False) (replicate k True @ ls) (s\<lparr>quote_A := q, rv_A := Modify i\<rparr>)
      = run (rv_do False) ls (s\<lparr>quote_A := q', rv_A := Modify (i + k)\<rparr>) \<and> length q' = length q"
    if "i + k \<le> length q" for k i q ls s
    using that
  proof (induction k arbitrary: i q)
    case (Suc k)
    from Suc.IH [of "Suc i" "q[i := dec_char (q ! i)]"] Suc.prems show ?case
      by (simp add: rv_do_def modifyA_printB_def)
  qed auto
  have s: "rv_start a b = (rv_start a b)\<lparr>quote_A := a, rv_A := Modify 0\<rparr>" by (simp add: rv_start_def)
  obtain q' where q: "run (rv_do False) (replicate (length a) True @ [True, True]) (rv_start a b)
      = run (rv_do False) [True, True] ((rv_start a b)\<lparr>quote_A := q', rv_A := Modify (length a)\<rparr>)"
      "length q' = length a"
    using loop [of 0 "length a" a "[True, True]" "rv_start a b"] s by auto
  then show ?thesis by (simp add: rv_do_def modifyA_printB_def rv_start_def)
qed

section \<open>The programs\<close>

text \<open>The two quotes of \<^verbatim>\<open>main\<close>, in UTF-8.\<close>

definition quote_A_text :: string where
  "quote_A_text =
     ''J!epo(u!lopx!ipx!nboz!pg!zpv!ibwf!fwfs!nfu!Ejkltusb-!cvu!zpv!qspcbcmz!'' @
     ''lopx!uibu!bssphbodf!jo!dpnqvufs!tdjfodf!jt!nfbtvsfe!jo!obop.Ejkltusbt/'' @
     ''!.!Bmbo!Lbz''"

definition quote_B_text :: string where
  "quote_B_text =
     ''Uif!rvftujpo!pg!xifuifs!dpnqvufst!dbo!uijol!jt!mjlf!uif!rvftujpo!pg!xi'' @
     ''fuifs!tvcnbsjoft!dbo!txjn/'' @
     [CHR 0xE3] @
     [CHR 0x81] @
     [CHR 0x9E] @
     ''!.!Fethfs!X/!Ejkltusb''"

text \<open>\<^verbatim>\<open>main\<close> up to the creation of the threads; the joins wait until both have finished.\<close>

definition rendezvous_main :: rendezvous where
  "rendezvous_main = rv_start quote_A_text quote_B_text"

lemma quotes_decoded:
  "map dec_char quote_A_text =
     ''I don'' @
     [CHR 0x27] @
     ''t know how many of you have ever met Dijkstra, but you probably know t'' @
     ''hat arrogance in computer science is measured in nano-Dijkstras. - Ala'' @
     ''n Kay''"
  "map dec_char quote_B_text =
     ''The question of whether computers can think is like the question of wh'' @
     ''ether submarines can swim.'' @
     [CHR 0xE2] @
     [CHR 0x80] @
     [CHR 0x9D] @
     '' - Edsger W. Dijkstra''"
  by (simp_all add: quote_A_text_def quote_B_text_def dec_char_def char_of_def bit_0)

end
