(* ===== verification/ParReduce.thy ===== *)
theory ParReduce
  imports Prelude
begin

text \<open>
  \<^verbatim>\<open>teaching_threads/par_reduce.c\<close>: a reduction shared out among threads. Each thread owns
  its \<open>thread_data\<close>; a run interleaves single rounds of the threads' loops in any order, and the
  main thread joins them all. The reducer is an argument. The bounds are \<^verbatim>\<open>int\<close>s in the code; lists are
  taken to be shorter than \<open>2^31\<close>. The copy of the list that the code makes is never read.
\<close>

type_synonym c_int = "32 word"

section \<open>The threads\<close>

text \<open>\<open>pos\<close> is the loop variable \<^verbatim>\<open>i\<close> of the start routine.\<close>

record thread_data =
  start :: nat
  stop :: nat     \<comment> \<open>the field \<^verbatim>\<open>end\<close>\<close>
  pos :: nat
  reduced_output :: c_int

fun make_threads :: "nat \<Rightarrow> nat \<Rightarrow> c_int \<Rightarrow> nat \<Rightarrow> nat \<Rightarrow> thread_data list" where
  "make_threads len offset base 0 from = []"
| "make_threads len offset base (Suc k) from =
     (let until = (if k = 0 then len else from + offset) in
      \<lparr>start = from, stop = until, pos = from, reduced_output = base\<rparr>
        # make_threads len offset base k until)"

text \<open>One round of the loop of \<open>par_reduce_start_routine\<close> in thread \<open>k\<close>.\<close>

definition par_reduce_start_routine :: "(c_int \<Rightarrow> c_int \<Rightarrow> c_int) \<Rightarrow> c_int list \<Rightarrow> nat
    \<Rightarrow> thread_data list \<Rightarrow> thread_data list option" where
  "par_reduce_start_routine f xs k ts =
     (if k < length ts \<and> pos (ts ! k) < stop (ts ! k) \<and> pos (ts ! k) < length xs
      then Some (ts[k := (ts ! k)\<lparr>reduced_output := f (reduced_output (ts ! k)) (xs ! pos (ts ! k)),
             pos := Suc (pos (ts ! k))\<rparr>])
      else None)"

definition thread_done :: "thread_data \<Rightarrow> bool" where
  "thread_done td \<longleftrightarrow> stop td \<le> pos td"

definition used_threads :: "nat \<Rightarrow> nat \<Rightarrow> nat" where
  "used_threads list_len num_threads = (if num_threads > list_len then list_len div 2 else num_threads)"

text \<open>
  The result is \<open>Inr None\<close> as long as a thread has not finished and the main thread waits to
  join it.
\<close>

definition par_reduce :: "(c_int \<Rightarrow> c_int \<Rightarrow> c_int) \<Rightarrow> c_int list option \<Rightarrow> c_int \<Rightarrow> nat \<Rightarrow> nat list
    \<Rightarrow> c_int option res" where
  "par_reduce reduce_func xs base_case num_threads schedule =
     (case xs of None \<Rightarrow> Inr (Some 0)
      | Some l \<Rightarrow>
          let n = used_threads (length l) num_threads in
          if n = 0 then Inl DivByZero
          else (case run (par_reduce_start_routine reduce_func l) schedule
                       (make_threads (length l) (length l div n) base_case n 0) of
                  None \<Rightarrow> Inr None
                | Some ts \<Rightarrow>
                    if \<forall>td \<in> set ts. thread_done td
                    then Inr (Some (foldl reduce_func base_case (map reduced_output ts)))
                    else Inr None))"

section \<open>The shares\<close>

text \<open>The threads' shares, one after the other, are the list.\<close>

lemma length_make_threads [simp]: "length (make_threads len offset base n from) = n"
  by (induction n arbitrary: "from") (simp_all add: Let_def)

definition share :: "c_int list \<Rightarrow> thread_data \<Rightarrow> c_int list" where
  "share xs td = take (stop td - start td) (drop (start td) xs)"

lemma take_drop_split: "a \<le> b \<Longrightarrow> take (b - a) (drop a xs) @ drop b xs = drop a xs"
  by (metis append_take_drop_id drop_drop le_add_diff_inverse2)

lemma shares_cover:
  "0 < n \<Longrightarrow> from + n * offset \<le> length xs \<Longrightarrow>
     concat (map (share xs) (make_threads (length xs) offset base n from)) = drop from xs"
proof (induction n arbitrary: "from")
  case (Suc n)
  show ?case
  proof (cases "n = 0")
    case True
    then show ?thesis by (simp add: share_def)
  next
    case False
    then have "concat (map (share xs) (make_threads (length xs) offset base n (from + offset))) = drop (from + offset) xs"
      using Suc by (simp add: algebra_simps)
    moreover have "share xs \<lparr>start = from, stop = from + offset, pos = from, reduced_output = base\<rparr>
        = take offset (drop from xs)" by (simp add: share_def)
    ultimately show ?thesis
      using False take_drop_split [of "from" "from + offset" xs] by (simp add: Let_def)
  qed
qed simp

lemma make_threads_bounds:
  "from + n * offset \<le> len \<Longrightarrow> td \<in> set (make_threads len offset base n from) \<Longrightarrow>
     pos td = start td \<and> start td \<le> stop td \<and> stop td \<le> len \<and> reduced_output td = base"
proof (induction n arbitrary: "from")
  case (Suc n)
  show ?case
  proof (cases "td \<in> set (make_threads len offset base n (if n = 0 then len else from + offset))")
    case True
    then have "n \<noteq> 0" by (cases n) auto
    then show ?thesis using Suc.IH [of "from + offset"] Suc.prems True by (simp add: algebra_simps)
  next
    case False
    then show ?thesis using Suc.prems by (auto simp: Let_def algebra_simps)
  qed
qed simp

section \<open>Interleavings\<close>

text \<open>What a thread has computed so far.\<close>

definition td_ok :: "(c_int \<Rightarrow> c_int \<Rightarrow> c_int) \<Rightarrow> c_int list \<Rightarrow> c_int \<Rightarrow> thread_data \<Rightarrow> bool" where
  "td_ok f xs base td \<longleftrightarrow> start td \<le> pos td \<and> pos td \<le> stop td \<and> stop td \<le> length xs
     \<and> reduced_output td = foldl f base (take (pos td - start td) (drop (start td) xs))"

lemma td_ok_step:
  assumes "td_ok f xs base td" and "pos td < stop td"
  shows "td_ok f xs base (td\<lparr>reduced_output := f (reduced_output td) (xs ! pos td), pos := Suc (pos td)\<rparr>)"
proof -
  have "take (Suc (pos td) - start td) (drop (start td) xs)
      = take (pos td - start td) (drop (start td) xs) @ [xs ! pos td]"
  proof -
    have "pos td - start td < length (drop (start td) xs)" "Suc (pos td) - start td = Suc (pos td - start td)"
        "drop (start td) xs ! (pos td - start td) = xs ! pos td"
      using assms by (auto simp: td_ok_def Suc_diff_le)
    then show ?thesis by (simp only: take_Suc_conv_app_nth)
  qed
  then show ?thesis using assms by (simp add: td_ok_def)
qed

definition pr_inv :: "(c_int \<Rightarrow> c_int \<Rightarrow> c_int) \<Rightarrow> c_int list \<Rightarrow> c_int \<Rightarrow> thread_data list
    \<Rightarrow> thread_data list \<Rightarrow> bool" where
  "pr_inv f xs base ts0 ts \<longleftrightarrow> map start ts = map start ts0 \<and> map stop ts = map stop ts0
     \<and> (\<forall>td \<in> set ts. td_ok f xs base td)"

lemma pr_inv_step:
  assumes "pr_inv f xs base ts0 ts" and "par_reduce_start_routine f xs k ts = Some ts'"
  shows "pr_inv f xs base ts0 ts'"
proof -
  have k: "k < length ts" "pos (ts ! k) < stop (ts ! k)"
    and ts': "ts' = ts[k := (ts ! k)\<lparr>reduced_output := f (reduced_output (ts ! k)) (xs ! pos (ts ! k)),
      pos := Suc (pos (ts ! k))\<rparr>]"
    using assms(2) by (auto simp: par_reduce_start_routine_def split: if_splits)
  have "td_ok f xs base (ts ! k)" using assms(1) k(1) by (simp add: pr_inv_def)
  from td_ok_step [OF this k(2)] have "\<forall>td \<in> set ts'. td_ok f xs base td"
    using assms(1) ts' by (auto simp: pr_inv_def dest!: set_update_subset_insert [THEN subsetD])
  moreover have "map start ts' = map start ts" "map stop ts' = map stop ts"
    using ts' k(1) by (simp_all add: map_update list_update_same_conv)
  ultimately show ?thesis using assms(1) by (simp add: pr_inv_def)
qed

text \<open>Work left: every round takes one away.\<close>

definition work :: "thread_data list \<Rightarrow> nat" where
  "work ts = sum_list (map (\<lambda>td. stop td - pos td) ts)"

lemma work_step:
  assumes "par_reduce_start_routine f xs k ts = Some ts'"
  shows "work ts = Suc (work ts')"
proof -
  have k: "k < length ts" "pos (ts ! k) < stop (ts ! k)"
    and ts': "ts' = ts[k := (ts ! k)\<lparr>reduced_output := f (reduced_output (ts ! k)) (xs ! pos (ts ! k)),
      pos := Suc (pos (ts ! k))\<rparr>]"
    using assms by (auto simp: par_reduce_start_routine_def split: if_splits)
  have app: "work (as @ td # bs) = work as + (stop td - pos td) + work bs" for as td bs
    by (simp add: work_def)
  have "work ts = work (take k ts @ ts ! k # drop (Suc k) ts)"
    using k(1) by (simp flip: id_take_nth_drop)
  moreover have "ts' = take k ts @ (ts ! k)\<lparr>reduced_output := f (reduced_output (ts ! k)) (xs ! pos (ts ! k)),
      pos := Suc (pos (ts ! k))\<rparr> # drop (Suc k) ts"
    using ts' k(1) by (simp add: upd_conv_take_nth_drop)
  ultimately show ?thesis using k(2) by (simp add: app)
qed

lemma run_work: "run (par_reduce_start_routine f xs) ks ts = Some ts' \<Longrightarrow> work ts = length ks + work ts'"
proof (induction ks arbitrary: ts)
  case (Cons k ks)
  then show ?case using work_step [of f xs k ts] by (auto split: option.splits)
qed simp

lemma foldl_assoc_unit:
  assumes "\<And>a b c. f (f a b) c = f a (f b c)" and "\<And>a. f base a = a" and "\<And>a. f a base = a"
  shows "f a (foldl f base xs) = foldl f a xs"
proof (induction xs arbitrary: a rule: rev_induct)
  case Nil
  then show ?case using assms(3) by simp
next
  case (snoc x xs)
  then show ?case using assms(1) by (simp flip: assms(1))
qed

lemma foldl_shares:
  assumes "\<And>a b c. f (f a b) c = f a (f b c)" and "\<And>a. f base a = a" and "\<And>a. f a base = a"
  shows "foldl f a (map (foldl f base) yss) = foldl f a (concat yss)"
  by (induction yss arbitrary: a) (simp_all add: foldl_assoc_unit [of f base, OF assms])

lemma used_threads_le: "used_threads len n * (len div used_threads len n) \<le> len"
  by (simp add: mult.commute)

lemma pr_inv_start:
  "pr_inv f xs base (make_threads (length xs) (length xs div used_threads (length xs) n) base (used_threads (length xs) n) 0)
     (make_threads (length xs) (length xs div used_threads (length xs) n) base (used_threads (length xs) n) 0)"
  using make_threads_bounds [of 0 "used_threads (length xs) n" "length xs div used_threads (length xs) n" "length xs"]
    used_threads_le [of "length xs" n]
  by (auto simp: pr_inv_def td_ok_def)

interpretation workers: transition_system "par_reduce_start_routine f xs"
  "\<lambda>ts. ts = make_threads (length xs) (length xs div used_threads (length xs) n) base (used_threads (length xs) n) 0"
  "pr_inv f xs base (make_threads (length xs) (length xs div used_threads (length xs) n) base (used_threads (length xs) n) 0)"
  for f xs base n
  by unfold_locales (auto intro: pr_inv_step simp: pr_inv_start)

section \<open>Properties\<close>



text \<open>
  The threads finish: no run has more rounds than the list has elements, and a run that cannot
  be extended has them all done, so the main thread returns.
\<close>

theorem par_reduce_terminates:
  assumes "used_threads (length xs) n \<noteq> 0"
    and "run (par_reduce_start_routine f xs) sched
           (make_threads (length xs) (length xs div used_threads (length xs) n) base (used_threads (length xs) n) 0) = Some ts"
  shows "length sched \<le> length xs
       \<and> ((\<forall>k. par_reduce_start_routine f xs k ts = None) \<longrightarrow> (\<exists>r. par_reduce f (Some xs) base n sched = Inr (Some r)))"
proof -
  let ?n = "used_threads (length xs) n"
  let ?ts0 = "make_threads (length xs) (length xs div ?n) base ?n 0"
  have inv: "pr_inv f xs base ?ts0 ts"
    by (rule workers.reachable [OF assms(2)]) simp
  have bnd: "\<forall>td \<in> set ?ts0. pos td = start td \<and> start td \<le> stop td \<and> stop td \<le> length xs"
    using make_threads_bounds [of 0 ?n "length xs div ?n" "length xs"] used_threads_le [of "length xs" n] by auto
  have "work ?ts0 = length (concat (map (share xs) ?ts0))"
  proof -
    have "map (\<lambda>td. stop td - pos td) ?ts0 = map (length \<circ> share xs) ?ts0"
      using bnd by (intro map_cong) (auto simp: share_def min_def)
    then show ?thesis by (simp only: work_def length_concat map_map)
  qed
  also have "\<dots> = length xs"
    using shares_cover [of ?n 0 "length xs div ?n" xs base] assms(1) used_threads_le [of "length xs" n] by simp
  finally have "length sched \<le> length xs" using run_work [OF assms(2)] by simp
  moreover have "\<exists>r. par_reduce f (Some xs) base n sched = Inr (Some r)"
    if stuck: "\<forall>k. par_reduce_start_routine f xs k ts = None"
  proof -
    have "thread_done td" if td: "td \<in> set ts" for td
    proof -
      obtain k where k: "k < length ts" "td = ts ! k" using td by (auto simp: in_set_conv_nth)
      have "td_ok f xs base td" using inv td by (simp add: pr_inv_def)
      then show ?thesis using stuck [rule_format, of k] k
        by (auto simp: par_reduce_start_routine_def thread_done_def td_ok_def split: if_splits)
    qed
    then show ?thesis using assms by (simp add: par_reduce_def Let_def)
  qed
  ultimately show ?thesis by blast
qed

theorem par_reduce_terminates_witness:
  "length [1, 0, 1, 1, 0 :: nat] \<le> length [1, 2, 3, 4, 5 :: c_int]"
proof -
  have "run (par_reduce_start_routine (+) [1, 2, 3, 4, 5 :: c_int]) [1, 0, 1, 1, 0]
      (make_threads 5 (5 div used_threads 5 2) 0 (used_threads 5 2) 0)
    = Some [\<lparr>start = 0, stop = 2, pos = 2, reduced_output = 3\<rparr>, \<lparr>start = 2, stop = 5, pos = 5, reduced_output = 12\<rparr>]"
    by code_simp
  then show ?thesis
    using par_reduce_terminates [of "[1, 2, 3, 4, 5]" 2 "(+)" "[1, 0, 1, 1, 0]" 0]
    by (simp add: used_threads_def)
qed

text \<open>
  With no thread, or more threads than a list of at most one element has, the share size
  is a division by zero; otherwise there is at least one thread.
\<close>

theorem par_reduce_division_by_zero:
  "par_reduce f (Some xs) base n sched = Inl DivByZero \<longleftrightarrow> n = 0 \<or> (length xs \<le> 1 \<and> length xs < n)"
  by (auto simp: par_reduce_def used_threads_def Let_def split: option.splits if_splits)

end
