(* ===== verification/Cracker.thy ===== *)
theory Cracker
  imports Prelude "HOL-Library.Multiset"
begin

text \<open>
  \<^verbatim>\<open>password_cracker/cracker1.c\<close> and \<^verbatim>\<open>password_cracker/cracker2.c\<close>. The first gives each password to one thread: the
  threads take jobs from a queue that ends in a sentinel. The second gives every thread a part of the
  candidates of one password; \<^verbatim>\<open>found\<close>, \<^verbatim>\<open>solution\<close> and \<^verbatim>\<open>hashcount\<close> are shared. \<^verbatim>\<open>crypt_r\<close> and the functions of
  \<^verbatim>\<open>utils.h\<close> are not in the repository: they are the fields of \<open>utils\<close>, and what the code relies on is \<open>utils_ok\<close>.
\<close>

section \<open>The utilities\<close>

record utils =
  getPrefixLength :: "string \<Rightarrow> nat"
  setStringPosition :: "string \<Rightarrow> nat \<Rightarrow> string"
  incrementString :: "string \<Rightarrow> string \<times> bool"
  getSubrange :: "nat \<Rightarrow> nat \<Rightarrow> nat \<Rightarrow> nat \<times> nat"   \<comment> \<open>letters, threads, number of the thread: offset and count\<close>
  crypt_r :: "string \<Rightarrow> string"

text \<open>The words of \<open>n\<close> lower-case letters in order.\<close>

definition letter :: "nat \<Rightarrow> char" where
  "letter k = char_of (97 + k mod 26)"

fun nth_word :: "nat \<Rightarrow> nat \<Rightarrow> string" where
  "nth_word 0 k = []"
| "nth_word (Suc n) k = nth_word n (k div 26) @ [letter k]"

definition utils_ok :: "utils \<Rightarrow> bool" where
  "utils_ok u \<longleftrightarrow> (\<forall>s. getPrefixLength u s \<le> length s)
     \<and> (\<forall>s k. setStringPosition u s k = nth_word (length s) k)
     \<and> (\<forall>n k. k < 26 ^ n \<longrightarrow> incrementString u (nth_word n k) = (nth_word n (Suc k mod 26 ^ n), Suc k < 26 ^ n))
     \<and> (\<forall>n t. 0 < t \<longrightarrow> (\<forall>k < 26 ^ n. \<exists>i < t. fst (getSubrange u n t (Suc i)) \<le> k
          \<and> k < fst (getSubrange u n t (Suc i)) + snd (getSubrange u n t (Suc i)))
        \<and> (\<forall>i < t. fst (getSubrange u n t (Suc i)) + snd (getSubrange u n t (Suc i)) \<le> 26 ^ n))"

lemma length_nth_word [simp]: "length (nth_word n k) = n"
  by (induction n arbitrary: k) simp_all

section \<open>Version 1: a thread's search\<close>

record job =
  job_name :: string
  job_hash :: string
  job_password :: string

text \<open>
  The loop of \<^verbatim>\<open>crack\<close>: whether the password was found, the key and the count. It ends only when
  \<^verbatim>\<open>incrementString\<close> says so.
\<close>

partial_function (option) crack_loop :: "utils \<Rightarrow> string \<Rightarrow> string \<Rightarrow> string \<Rightarrow> nat \<Rightarrow> (bool \<times> string \<times> nat) option" where
  "crack_loop u hash prefix key_end hash_count =
     (case incrementString u key_end of
        (key_end', again) \<Rightarrow>
          if \<not> again then Some (False, prefix @ key_end', hash_count)
          else if crypt_r u (prefix @ key_end') = hash then Some (True, prefix @ key_end', Suc hash_count)
          else crack_loop u hash prefix key_end' (Suc hash_count))"

definition crack_task :: "utils \<Rightarrow> job \<Rightarrow> (bool \<times> string \<times> nat) option" where
  "crack_task u task =
     (let key = job_password task; len = getPrefixLength u key in
      crack_loop u (job_hash task) (take len key) (setStringPosition u (drop len key) 0) 1)"

lemma crack_loop_finds:
  assumes "utils_ok u" and "k < 26 ^ n"
  shows "crack_loop u hash pre (nth_word n k) c =
    Some (if \<exists>j. k < j \<and> j < 26 ^ n \<and> crypt_r u (pre @ nth_word n j) = hash
          then let j = (LEAST j. k < j \<and> j < 26 ^ n \<and> crypt_r u (pre @ nth_word n j) = hash) in (True, pre @ nth_word n j, c + (j - k))
          else (False, pre @ nth_word n 0, c + (26 ^ n - 1 - k)))"
    (is "_ = Some (if \<exists>j. ?P k j then _ else _)")
  using assms(2)
proof (induction "26 ^ n - k" arbitrary: k c rule: less_induct)
  case less
  have inc: "incrementString u (nth_word n k) = (nth_word n (Suc k mod 26 ^ n), Suc k < 26 ^ n)"
    using assms(1) less.prems by (simp add: utils_ok_def)
  note step = crack_loop.simps [of u hash pre "nth_word n k" c]
  show ?case
  proof (cases "Suc k < 26 ^ n")
    case False
    then have k: "Suc k = 26 ^ n" using less.prems by simp
    have none: "(\<exists>j. ?P k j) = False" using k by auto
    show ?thesis unfolding none using step inc False k by simp
  next
    case True
    show ?thesis
    proof (cases "crypt_r u (pre @ nth_word n (Suc k)) = hash")
      case hit: True
      have "(LEAST j. ?P k j) = Suc k" by (rule Least_equality) (use True hit in auto)
      moreover have "\<exists>j. ?P k j" using True hit by blast
      ultimately show ?thesis using step inc True hit by simp
    next
      case miss: False
      have eq: "?P k j \<longleftrightarrow> ?P (Suc k) j" for j using miss by (auto simp: Suc_lessI dest: Suc_lessI)
      have next_round: "crack_loop u hash pre (nth_word n k) c = crack_loop u hash pre (nth_word n (Suc k)) (Suc c)"
        using step inc True miss by simp
      have smaller: "26 ^ n - Suc k < 26 ^ n - k" using less.prems by simp
      note IH = less.hyps [OF smaller True, of "Suc c"]
      define j where "j = (LEAST j. ?P (Suc k) j)"
      show ?thesis
      proof (cases "\<exists>j. ?P (Suc k) j")
        case ex: True
        then have "?P (Suc k) j" unfolding j_def by (rule LeastI_ex)
        then have "Suc k < j" by simp
        then have "Suc c + (j - Suc k) = c + (j - k)" by arith
        then show ?thesis unfolding next_round IH eq if_P [OF ex] Let_def j_def [symmetric] by simp
      next
        case none: False
        have "Suc c + (26 ^ n - 1 - Suc k) = c + (26 ^ n - 1 - k)" using True by arith
        then show ?thesis unfolding next_round IH eq if_not_P [OF none] by simp
      qed
    qed
  qed
qed

section \<open>Version 1: the pool\<close>

text \<open>\<open>Idle\<close>: at \<^verbatim>\<open>queue_pull\<close>; \<open>Leaving\<close>: it has pulled the sentinel and will push it back. The number is how many passwords it found.\<close>

datatype worker = Idle nat | Busy job nat | Leaving nat | Exited nat

record pool =
  queue :: "job option list"
  workers :: "worker list"
  results :: "(job \<times> bool \<times> string \<times> nat) list"

definition pool_start :: "nat \<Rightarrow> job list \<Rightarrow> pool" where
  "pool_start thread_count js =
     \<lparr>queue = map Some js @ [None], workers = replicate thread_count (Idle 0), results = []\<rparr>"

text \<open>One step of a thread. \<^verbatim>\<open>queue_pull\<close> waits while the queue is empty; the queue has no capacity limit.\<close>

definition crack_step :: "utils \<Rightarrow> nat \<Rightarrow> pool \<Rightarrow> pool option" where
  "crack_step u i p =
     (if length (workers p) \<le> i then None
      else case workers p ! i of
        Idle n \<Rightarrow>
          (case queue p of
             [] \<Rightarrow> None
           | None # q \<Rightarrow> Some (p\<lparr>queue := q, workers := (workers p)[i := Leaving n]\<rparr>)
           | Some task # q \<Rightarrow> Some (p\<lparr>queue := q, workers := (workers p)[i := Busy task n]\<rparr>))
      | Busy task n \<Rightarrow>
          (case crack_task u task of
             None \<Rightarrow> None
           | Some (found, key, hash_count) \<Rightarrow>
               Some (p\<lparr>workers := (workers p)[i := Idle (if found then Suc n else n)],
                       results := results p @ [(task, found, key, hash_count)]\<rparr>))
      | Leaving n \<Rightarrow> Some (p\<lparr>queue := queue p @ [None], workers := (workers p)[i := Exited n]\<rparr>)
      | Exited n \<Rightarrow> None)"

fun crack_count :: "worker \<Rightarrow> nat" where
  "crack_count (Idle n) = n"
| "crack_count (Busy _ n) = n"
| "crack_count (Leaving n) = n"
| "crack_count (Exited n) = n"

text \<open>\<^verbatim>\<open>start\<close> after its joins: how many were cracked, and how many were not.\<close>

definition v1_summary :: "nat \<Rightarrow> pool \<Rightarrow> int \<times> int" where
  "v1_summary tasks p =
     (let cracked = int (sum_list (map crack_count (workers p))) in (cracked, int tasks - cracked))"

text \<open>
  Both versions read their tasks word by word into buffers of 9, 14 and 9 bytes. A last task with words missing takes over what
  the buffers hold.
\<close>

type_synonym entry = "string \<times> string \<times> string"

definition entry_fits :: "entry \<Rightarrow> bool" where
  "entry_fits e = (case e of (n, h, p) \<Rightarrow> length n < 9 \<and> length h < 14 \<and> length p < 9)"

fun read_entries :: "entry option \<Rightarrow> string list \<Rightarrow> entry list res" where
  "read_entries old (n # h # p # ws) =
     (if entry_fits (n, h, p) then bindE (read_entries (Some (n, h, p)) ws) (\<lambda>es. Inr ((n, h, p) # es)) else Inl OutOfBounds)"
| "read_entries old [] = Inr []"
| "read_entries None ws = Inl Uninitialised"
| "read_entries (Some (n, h, p)) [n'] = (if entry_fits (n', h, p) then Inr [(n', h, p)] else Inl OutOfBounds)"
| "read_entries (Some (n, h, p)) [n', h'] = (if entry_fits (n', h', p) then Inr [(n', h', p)] else Inl OutOfBounds)"

definition v1_start :: "nat \<Rightarrow> string list \<Rightarrow> pool res" where
  "v1_start thread_count words =
     bindE (read_entries None words) (\<lambda>es.
       Inr (pool_start thread_count (map (\<lambda>(n, h, p). \<lparr>job_name = n, job_hash = h, job_password = p\<rparr>) es)))"

lemma read_entries_all:
  "\<forall>e \<in> set es. entry_fits e \<Longrightarrow> read_entries old (concat (map (\<lambda>(n, h, p). [n, h, p]) es)) = Inr es"
  by (induction es arbitrary: old) auto

section \<open>Every job once\<close>

fun jobs_held :: "worker \<Rightarrow> job multiset" where
  "jobs_held (Busy task n) = {#task#}"
| "jobs_held _ = {#}"

definition queued :: "job option list \<Rightarrow> job multiset" where
  "queued q = mset (concat (map (\<lambda>x. case x of None \<Rightarrow> [] | Some j \<Rightarrow> [j]) q))"

lemma queued_simps [simp]:
  "queued [] = {#}" "queued (None # q) = queued q" "queued (Some j # q) = add_mset j (queued q)"
  "queued (q @ q') = queued q + queued q'" "queued (map Some js) = mset js"
  by (simp_all add: queued_def) (induction js; simp)

fun sentinels :: "worker \<Rightarrow> nat" where
  "sentinels (Leaving n) = 1"
| "sentinels _ = 0"

fun worker_gone :: "worker \<Rightarrow> bool" where
  "worker_gone (Leaving n) = True"
| "worker_gone (Exited n) = True"
| "worker_gone _ = False"

fun energy :: "worker \<Rightarrow> nat" where
  "energy (Exited n) = 0"
| "energy (Leaving n) = 1"
| "energy (Idle n) = 2"
| "energy (Busy t n) = 3"

text \<open>
  The jobs are in the queue, with a thread or done; there is one sentinel, after the jobs; what the threads have counted
  are the passwords found; and every result is that of the search.
\<close>

definition pool_inv :: "utils \<Rightarrow> job list \<Rightarrow> pool \<Rightarrow> bool" where
  "pool_inv u js p \<longleftrightarrow>
     queued (queue p) + \<Sum>\<^sub># (image_mset jobs_held (mset (workers p))) + mset (map fst (results p)) = mset js
   \<and> (\<exists>qs. queue p = map Some qs @ replicate (1 - sum_list (map sentinels (workers p))) None
        \<and> (qs \<noteq> [] \<longrightarrow> (\<forall>w \<in> set (workers p). \<not> worker_gone w)))
   \<and> sum_list (map sentinels (workers p)) \<le> 1
   \<and> sum_list (map crack_count (workers p)) = length (filter (\<lambda>(_, found, _). found) (results p))
   \<and> (\<forall>(task, r) \<in> set (results p). crack_task u task = Some r)"

lemma pool_inv_start: "pool_inv u js (pool_start n js)"
proof -
  have held: "\<Sum>\<^sub># (image_mset jobs_held (mset (replicate n (Idle 0)))) = {#}" by (induction n) simp_all
  have zero: "sum_list (map sentinels (replicate n (Idle 0))) = 0" "sum_list (map crack_count (replicate n (Idle 0))) = 0"
    by (induction n) simp_all
  have "\<exists>qs. map Some js @ [None] = map Some qs @ replicate (1 - 0) None
      \<and> (qs \<noteq> [] \<longrightarrow> (\<forall>w \<in> set (replicate n (Idle 0)). \<not> worker_gone w))"
    by (rule exI [of _ js]) simp
  then show ?thesis
    unfolding pool_inv_def pool_start_def pool.simps zero held by simp
qed

lemma split_at: "i < length xs \<Longrightarrow> xs ! i = w \<Longrightarrow> \<exists>us vs. xs = us @ w # vs \<and> (\<forall>w'. xs[i := w'] = us @ w' # vs)"
  by (rule exI [of _ "take i xs"], rule exI [of _ "drop (Suc i) xs"])
    (use id_take_nth_drop [of i xs] in \<open>simp add: upd_conv_take_nth_drop\<close>)

lemma crack_step_cases:
  assumes "crack_step u i p = Some p'"
  obtains us w w' vs where "workers p = us @ w # vs" "workers p' = us @ w' # vs"
    and "(\<exists>n q. w = Idle n \<and> w' = Leaving n \<and> queue p = None # q \<and> queue p' = q \<and> results p' = results p)
      \<or> (\<exists>n task q. w = Idle n \<and> w' = Busy task n \<and> queue p = Some task # q \<and> queue p' = q \<and> results p' = results p)
      \<or> (\<exists>n task r. w = Busy task n \<and> crack_task u task = Some r \<and> w' = Idle (if fst r then Suc n else n)
           \<and> queue p' = queue p \<and> results p' = results p @ [(task, r)])
      \<or> (\<exists>n. w = Leaving n \<and> w' = Exited n \<and> queue p' = queue p @ [None] \<and> results p' = results p)"
proof -
  have i: "i < length (workers p)" using assms by (auto simp: crack_step_def split: if_splits)
  obtain w where w: "workers p ! i = w" by simp
  from split_at [OF i w] obtain us vs where s: "workers p = us @ w # vs" "\<And>w'. (workers p)[i := w'] = us @ w' # vs" by blast
  show thesis
  proof (cases w)
    case (Idle n)
    show ?thesis
    proof (cases "queue p")
      case (Cons x q)
      then show ?thesis
        by (cases x) (rule that [OF s(1)], use assms i w s Idle in \<open>auto simp: crack_step_def\<close>)+
    qed (use assms i w Idle in \<open>simp add: crack_step_def\<close>)
  next
    case (Busy task n)
    then obtain found key c where "crack_task u task = Some (found, key, c)"
      using assms i w by (auto simp: crack_step_def split: option.splits)
    then show ?thesis by (intro that [OF s(1)]) (use assms i w s Busy in \<open>auto simp: crack_step_def\<close>)
  next
    case (Leaving n)
    then show ?thesis by (intro that [OF s(1)]) (use assms i w s in \<open>auto simp: crack_step_def\<close>)
  qed (use assms i w in \<open>simp add: crack_step_def\<close>)
qed

lemma pool_inv_step:
  assumes "pool_inv u js p" and "crack_step u i p = Some p'"
  shows "pool_inv u js p'"
  using assms(2)
proof (cases rule: crack_step_cases)
  case (1 us w w' vs)
  note inv = assms(1) [unfolded pool_inv_def]
  then obtain qs where q: "queue p = map Some qs @ replicate (1 - sum_list (map sentinels (workers p))) None"
    "qs \<noteq> [] \<longrightarrow> (\<forall>w \<in> set (workers p). \<not> worker_gone w)" by blast
  have no: "sum_list (map sentinels ws) = 0" if "\<forall>w \<in> set ws. \<not> worker_gone w" for ws
    using that by (induction ws) (auto elim: worker_gone.elims sentinels.elims)
  from 1(3) show ?thesis
  proof (elim disjE exE conjE)
    fix n q' assume c: "w = Idle n" "w' = Leaving n" "queue p = None # q'" "queue p' = q'" "results p' = results p"
    then have "qs = []" using q(1) by (cases qs) auto
    then show ?thesis using inv q(1) c 1(1,2) unfolding pool_inv_def
      by (cases "sum_list (map sentinels us) + sum_list (map sentinels vs)") (auto split: if_splits)
  next
    fix n task q' assume c: "w = Idle n" "w' = Busy task n" "queue p = Some task # q'" "queue p' = q'" "results p' = results p"
    have "Some task \<noteq> None" by simp
    with c q(1) obtain qs' where "qs = task # qs'" by (cases qs) (auto simp: Cons_replicate_eq dest: sym)
    then show ?thesis using inv q c 1(1,2) unfolding pool_inv_def by (auto simp: ac_simps)
  next
    fix n task r assume c: "w = Busy task n" "crack_task u task = Some r" "w' = Idle (if fst r then Suc n else n)"
      "queue p' = queue p" "results p' = results p @ [(task, r)]"
    then show ?thesis using inv q 1(1,2) unfolding pool_inv_def by (auto simp: ac_simps split: prod.splits)
  next
    fix n assume c: "w = Leaving n" "w' = Exited n" "queue p' = queue p @ [None]" "results p' = results p"
    then have "qs = []" using q(2) 1(1) by auto
    then show ?thesis using inv q(1) c 1(1,2) unfolding pool_inv_def by (auto simp: ac_simps simp del: sum_list_eq_0_iff)
  qed
qed

interpretation job_pool: transition_system "crack_step u" "\<lambda>p. \<exists>n. p = pool_start n js" "pool_inv u js" for u js
  by unfold_locales (auto simp: pool_inv_start intro: pool_inv_step)

definition pool_energy :: "pool \<Rightarrow> nat" where
  "pool_energy p = 2 * size (queued (queue p)) + sum_list (map energy (workers p))"

lemma crack_step_energy: "crack_step u i p = Some p' \<Longrightarrow> pool_energy p = Suc (pool_energy p')"
  by (erule crack_step_cases) (auto simp: pool_energy_def)

lemma energy_start: "pool_energy (pool_start n js) = 2 * length js + 2 * n"
  by (simp add: pool_energy_def pool_start_def sum_list_replicate)

section \<open>Version 1: nothing blocks\<close>

text \<open>The words of a task, by number, and which of them have its hash.\<close>

definition candidate :: "utils \<Rightarrow> string \<Rightarrow> nat \<Rightarrow> string" where
  "candidate u key k = (let len = getPrefixLength u key in take len key @ nth_word (length key - len) k)"

definition candidates :: "utils \<Rightarrow> string \<Rightarrow> nat" where
  "candidates u key = 26 ^ (length key - getPrefixLength u key)"

lemma crack_task_eq:
  assumes "utils_ok u"
  shows "crack_task u task = Some (if \<exists>j. 0 < j \<and> j < candidates u (job_password task) \<and> crypt_r u (candidate u (job_password task) j) = job_hash task
      then let j = (LEAST j. 0 < j \<and> j < candidates u (job_password task) \<and> crypt_r u (candidate u (job_password task) j) = job_hash task)
           in (True, candidate u (job_password task) j, Suc j)
      else (False, candidate u (job_password task) 0, candidates u (job_password task)))"
proof -
  have "setStringPosition u (drop l (job_password task)) 0 = nth_word (length (job_password task) - l) 0" for l
    using assms by (simp add: utils_ok_def)
  then show ?thesis
    by (simp add: crack_task_def Let_def crack_loop_finds [OF assms, of 0] candidate_def candidates_def) blast
qed

lemma crack_task_result: "utils_ok u \<Longrightarrow> \<exists>r. crack_task u task = Some r"
  using crack_task_eq by blast

lemma crack_step_enabled:
  assumes "utils_ok u" and "pool_inv u js p" and "w \<in> set (workers p)" and "\<nexists>n. w = Exited n"
  shows "\<exists>i. crack_step u i p \<noteq> None"
proof -
  obtain i where i: "i < length (workers p)" "workers p ! i = w" using assms(3) by (auto simp: in_set_conv_nth)
  show ?thesis
  proof (cases w)
    case (Idle n)
    show ?thesis
    proof (cases "queue p")
      case Nil
      then have "sum_list (map sentinels (workers p)) \<noteq> 0" using assms(2) by (auto simp: pool_inv_def simp del: sum_list_eq_0_iff)
      then have "\<not> (\<forall>n \<in> set (map sentinels (workers p)). n = 0)" by (simp only: sum_list_eq_0_iff not_False_eq_True)
      then obtain w' where w': "w' \<in> set (workers p)" "sentinels w' \<noteq> 0" by auto
      then obtain j where "j < length (workers p)" "workers p ! j = w'" by (auto simp: in_set_conv_nth)
      moreover obtain m where "w' = Leaving m" using w'(2) by (cases w') auto
      ultimately show ?thesis by (intro exI [of _ j]) (simp add: crack_step_def)
    next
      case (Cons x q)
      then show ?thesis using i Idle by (intro exI [of _ i]) (cases x; simp add: crack_step_def)
    qed
  next
    case (Busy task n)
    then show ?thesis using i crack_task_result [OF assms(1), of task] by (intro exI [of _ i]) (auto simp: crack_step_def)
  next
    case (Leaving n)
    then show ?thesis using i by (intro exI [of _ i]) (simp add: crack_step_def)
  qed (use assms(4) in simp)
qed

lemma queue_of_exited:
  assumes "pool_inv u js p" and "\<forall>w \<in> set (workers p). \<exists>n. w = Exited n" and "workers p \<noteq> []"
  shows "mset (map fst (results p)) = mset js"
proof -
  obtain qs m where q: "queue p = map Some qs @ replicate m None" "qs \<noteq> [] \<longrightarrow> (\<forall>w \<in> set (workers p). \<not> worker_gone w)"
    using assms(1) unfolding pool_inv_def by blast
  obtain n where "Exited n \<in> set (workers p)" using assms(2,3) by (cases "workers p") auto
  then have "qs = []" using q(2) by force
  moreover have "queued (replicate m None) = {#}" for m by (induction m) auto
  ultimately have "queued (queue p) = {#}" using q(1) by simp
  moreover have "\<Sum>\<^sub># (image_mset jobs_held (mset ws)) = {#}" if "\<forall>w \<in> set ws. \<exists>n. w = Exited n" for ws
    using that by (induction ws) auto
  moreover from this have "\<Sum>\<^sub># (image_mset jobs_held (mset (workers p))) = {#}" using assms(2) by blast
  moreover have "queued (queue p) + \<Sum>\<^sub># (image_mset jobs_held (mset (workers p))) + mset (map fst (results p)) = mset js"
    using assms(1) unfolding pool_inv_def by blast
  ultimately show ?thesis by (simp only: add_0_left add_0_right)
qed

section \<open>Utilities that exist\<close>

text \<open>Functions as the documentation describes them, with any hash, have the properties the code relies on.\<close>

fun inc_rev :: "string \<Rightarrow> string \<times> bool" where
  "inc_rev [] = ([], False)"
| "inc_rev (c # cs) =
     (if c = CHR ''z'' then (let (ds, b) = inc_rev cs in (CHR ''a'' # ds, b))
      else (char_of (of_char c + 1 :: nat) # cs, True))"

definition letters_utils :: "(string \<Rightarrow> string) \<Rightarrow> utils" where
  "letters_utils h =
     \<lparr>getPrefixLength = (\<lambda>s. length (takeWhile (\<lambda>c. c \<noteq> CHR ''.'') s)), setStringPosition = (\<lambda>s k. nth_word (length s) k),
      incrementString = (\<lambda>s. let (t, b) = inc_rev (rev s) in (rev t, b)),
      getSubrange = (\<lambda>n t i. let each = 26 ^ n div t; off = (i - 1) * each in (off, if i = t then 26 ^ n - off else each)),
      crypt_r = h\<rparr>"

lemma of_char_letter: "of_char (letter k) = (97 + k mod 26 :: nat)"
proof -
  have "97 + k mod 26 < 256" using mod_less_divisor [of 26 k] by simp
  then show ?thesis by (simp add: letter_def of_char_of)
qed

lemma letter_z: "letter k = CHR ''z'' \<longleftrightarrow> k mod 26 = 25"
proof -
  have "letter k = CHR ''z'' \<longleftrightarrow> (of_char (letter k) :: nat) = of_char CHR ''z''" by (simp only: of_char_eq_iff)
  also have "\<dots> \<longleftrightarrow> k mod 26 = 25" unfolding of_char_letter by simp
  finally show ?thesis .
qed

lemma letter_a: "k mod 26 = 0 \<Longrightarrow> letter k = CHR ''a''"
  using of_char_letter [of k] of_char_eq_iff [where ?'a = nat, of "letter k" "CHR ''a''"] by simp

lemma inc_rev_word:
  "k < 26 ^ n \<Longrightarrow> inc_rev (rev (nth_word n k)) = (rev (nth_word n (Suc k mod 26 ^ n)), Suc k < 26 ^ n)"
proof (induction n arbitrary: k)
  case (Suc n)
  show ?case
  proof (cases "k mod 26 = 25")
    case True
    obtain q where q: "k div 26 = q" by simp
    then have k: "Suc k = 26 * Suc q" using True div_mult_mod_eq [of k 26] by simp
    have "q < 26 ^ n" using Suc.prems q by (auto simp: less_mult_imp_div_less mult.commute)
    note IH = Suc.IH [OF this]
    have m: "Suc k mod 26 ^ Suc n = 26 * (Suc q mod 26 ^ n)" unfolding k by (simp only: power_Suc mult_mod_right)
    have l: "Suc k < 26 ^ Suc n \<longleftrightarrow> Suc q < 26 ^ n" unfolding k by (simp only: power_Suc mult_less_cancel1) simp
    have w: "nth_word (Suc n) k = nth_word n q @ [CHR ''z'']" using True q letter_z [of k] by simp
    have w': "nth_word (Suc n) (26 * x) = nth_word n x @ [CHR ''a'']" for x by (simp add: letter_a)
    show ?thesis unfolding m l w w' by (simp add: IH)
  next
    case False
    then have m: "Suc k mod 26 = Suc (k mod 26)" using mod_Suc [of k 26] by simp
    then have d: "Suc k div 26 = k div 26" using div_Suc [of k 26] by simp
    have "Suc k \<noteq> 26 ^ Suc n" using m by auto
    then have l: "Suc k < 26 ^ Suc n" using Suc.prems by simp
    then have k: "Suc k mod 26 ^ Suc n = Suc k" by (rule mod_less)
    have w: "nth_word (Suc n) k = nth_word n (k div 26) @ [letter k]" "nth_word (Suc n) (Suc k) = nth_word n (k div 26) @ [letter (Suc k)]"
      by (simp_all only: nth_word.simps d)
    have c: "char_of (of_char (letter k) + 1 :: nat) = letter (Suc k)" unfolding of_char_letter letter_def m by simp
    have z: "letter k \<noteq> CHR ''z''" using False by (simp add: letter_z)
    show ?thesis unfolding k w by (simp add: c [simplified] z l [simplified])
  qed
qed simp

lemma letters_utils_ok: "utils_ok (letters_utils h)"
proof -
  have cover: "\<exists>i < t. i * e \<le> k \<and> k < i * e + (if Suc i = t then N - i * e else e)" if "0 < t" "k < N" "e = N div t" for t k N e :: nat
  proof (cases "k < (t - 1) * e")
    case True
    then have "0 < e" by (cases e) auto
    then have "k div e < t - 1" using True by (simp add: div_less_iff_less_mult)
    then show ?thesis using \<open>0 < e\<close>
      by (intro exI [of _ "k div e"]) (auto simp: dividend_less_div_times add.commute)
  next
    case False
    then show ?thesis using that by (intro exI [of _ "t - 1"]) auto
  qed
  have bound: "i * e + (if Suc i = t then N - i * e else e) \<le> N" if "i < t" "e = N div t" for i t N e :: nat
  proof -
    have "Suc i * e \<le> t * e" using that(1) by (intro mult_right_mono) auto
    also have "\<dots> \<le> N" using that(2) by simp
    finally show ?thesis by auto
  qed
  show ?thesis
    unfolding utils_ok_def letters_utils_def utils.simps
    using cover [OF _ _ refl] bound [OF _ refl] by (auto simp: Let_def inc_rev_word length_takeWhile_le)
qed

section \<open>Properties of version 1\<close>

text \<open>
  For every job the search of version 1 ends. It finds the first word, after the one of only \<^verbatim>\<open>a\<close>s, whose hash is the
  wanted one, if there is one; the word of only \<^verbatim>\<open>a\<close>s is counted and never hashed, so a password that is this word is
  reported as not found.
\<close>

theorem crack_task_correct:
  assumes "utils_ok u"
  shows "\<exists>found key n. crack_task u task = Some (found, key, n)
    \<and> (found \<longleftrightarrow> (\<exists>j. 0 < j \<and> j < candidates u (job_password task) \<and> crypt_r u (candidate u (job_password task) j) = job_hash task))
    \<and> (found \<longrightarrow> crypt_r u key = job_hash task \<and> (\<exists>j. key = candidate u (job_password task) j \<and> n = Suc j
         \<and> (\<forall>i. 0 < i \<and> i < j \<longrightarrow> crypt_r u (candidate u (job_password task) i) \<noteq> job_hash task)))
    \<and> (\<not> found \<longrightarrow> n = candidates u (job_password task))"
proof -
  let ?P = "\<lambda>j. 0 < j \<and> j < candidates u (job_password task) \<and> crypt_r u (candidate u (job_password task) j) = job_hash task"
  show ?thesis
  proof (cases "\<exists>j. ?P j")
    case True
    define j where "j = (LEAST j. ?P j)"
    have least: "?P j" unfolding j_def using True by (rule LeastI_ex)
    have "\<not> ?P i" if "i < j" for i using that unfolding j_def by (rule not_less_Least)
    then have before: "\<forall>i. 0 < i \<and> i < j \<longrightarrow> crypt_r u (candidate u (job_password task) i) \<noteq> job_hash task"
      using least by auto
    have "crack_task u task = Some (True, candidate u (job_password task) j, Suc j)"
      unfolding crack_task_eq [OF assms] if_P [OF True] Let_def j_def by simp
    then show ?thesis using True least before by blast
  next
    case False
    show ?thesis unfolding crack_task_eq [OF assms] if_not_P [OF False]
      by (intro exI conjI, rule refl) (use False in auto)
  qed
qed

theorem crack_task_correct_witness:
  "(\<exists>n. crack_task (letters_utils (\<lambda>s. s)) \<lparr>job_name = ''ann'', job_hash = ''ac'', job_password = ''a.''\<rparr> = Some (True, ''ac'', n))
   \<and> (\<exists>key. crack_task (letters_utils (\<lambda>s. s)) \<lparr>job_name = ''ann'', job_hash = ''aa'', job_password = ''a.''\<rparr> = Some (False, key, 26))"
proof -
  let ?u = "letters_utils (\<lambda>s. s)"
  have c: "candidates ?u ''a.'' = 26" "candidate ?u ''a.'' k = [CHR ''a'', letter k]" "crypt_r ?u s = s" for k s
    by (simp_all add: candidates_def candidate_def letters_utils_def)
  have two: "letter 2 = CHR ''c''"
    using of_char_letter [of 2] of_char_eq_iff [where ?'a = nat, of "letter 2" "CHR ''c''"] by simp
  have a: "letter k = CHR ''a'' \<longleftrightarrow> k mod 26 = 0" for k
    using of_char_letter [of k] of_char_eq_iff [where ?'a = nat, of "letter k" "CHR ''a''"] by simp
  let ?t = "\<lambda>h. \<lparr>job_name = ''ann'', job_hash = h, job_password = ''a.''\<rparr>"
  note correct = crack_task_correct [OF letters_utils_ok, where h1 = "\<lambda>s. s" and task = "?t _", unfolded job.simps c]
  have ac: "\<exists>j. 0 < j \<and> j < 26 \<and> [CHR ''a'', letter j] = ''ac''" using two by (intro exI [of _ 2]) simp
  have aa: "\<not> (\<exists>j. 0 < j \<and> j < 26 \<and> [CHR ''a'', letter j] = ''aa'')" using a by auto
  obtain f key n where "crack_task ?u (?t ''ac'') = Some (f, key, n)" "f \<longleftrightarrow> (\<exists>j. 0 < j \<and> j < 26 \<and> [CHR ''a'', letter j] = ''ac'')"
    "f \<longrightarrow> key = ''ac''" using correct [of "''ac''"] by blast
  then have "\<exists>n. crack_task ?u (?t ''ac'') = Some (True, ''ac'', n)" using ac by simp
  moreover obtain f' key' n' where "crack_task ?u (?t ''aa'') = Some (f', key', n')"
    "f' \<longleftrightarrow> (\<exists>j. 0 < j \<and> j < 26 \<and> [CHR ''a'', letter j] = ''aa'')" "\<not> f' \<longrightarrow> n' = 26" using correct [of "''aa''"] by blast
  then have "\<exists>key. crack_task ?u (?t ''aa'') = Some (False, key, 26)" using aa by simp
  ultimately show ?thesis by blast
qed

text \<open>The work of version 1 is what is left of the jobs; it is over when all threads have ended.\<close>

interpretation pool_ends: finishing_system "crack_step u" "\<lambda>p. utils_ok u \<and> (\<exists>n. p = pool_start n js)" "\<lambda>p. utils_ok u \<and> pool_inv u js p"
    pool_energy "\<lambda>p. \<forall>w \<in> set (workers p). \<exists>c. w = Exited c" for u js
proof unfold_locales
  fix p assume "utils_ok u \<and> pool_inv u js p" and "\<not> (\<forall>w \<in> set (workers p). \<exists>c. w = Exited c)"
  then show "\<exists>i p'. crack_step u i p = Some p'" using crack_step_enabled by blast
qed (auto simp: pool_inv_start intro: pool_inv_step dest: crack_step_energy)

lemma pool_workers: "run (crack_step u) is p = Some p' \<Longrightarrow> length (workers p') = length (workers p)"
  by (rule run_invariant [where I = "\<lambda>q. length (workers q) = length (workers p)"]) (auto elim: crack_step_cases)

text \<open>
  C22: under every interleaving of the threads, version 1 stops after at most two steps for each job and each thread; it can
  only stop when all threads have ended, and then every job was searched exactly once and the summary counts the ones that
  were found.
\<close>

theorem crack_pool_done:
  assumes "utils_ok u" and "run (crack_step u) is (pool_start n js) = Some p"
  shows "length is \<le> 2 * length js + 2 * n
    \<and> ((\<forall>i. crack_step u i p = None) \<longrightarrow> (\<forall>w \<in> set (workers p). \<exists>c. w = Exited c)
       \<and> (0 < n \<longrightarrow> mset (map fst (results p)) = mset js \<and> (\<forall>(task, r) \<in> set (results p). crack_task u task = Some r)
         \<and> fst (v1_summary (length js) p) = int (length (filter (\<lambda>(_, found, _). found) (results p)))))"
proof -
  have inv: "pool_inv u js p" by (rule job_pool.reachable [OF assms(2)]) blast
  have "length is \<le> 2 * length js + 2 * n" using pool_ends.run_bounded [OF assms(2), of js] pool_inv_start [of u js n] assms(1) energy_start [of n js] by simp
  moreover have ex: "\<forall>w \<in> set (workers p). \<exists>c. w = Exited c" if "\<forall>i. crack_step u i p = None"
  proof (intro ballI, rule ccontr)
    fix w assume w: "w \<in> set (workers p)" "\<nexists>c. w = Exited c"
    show False using crack_step_enabled [OF assms(1) inv w] that by simp
  qed
  moreover have "mset (map fst (results p)) = mset js" if "\<forall>i. crack_step u i p = None" "0 < n"
    using queue_of_exited [OF inv ex] that pool_workers [OF assms(2)] by (fastforce simp: pool_start_def)
  moreover have "(\<forall>(task, r) \<in> set (results p). crack_task u task = Some r)
      \<and> fst (v1_summary (length js) p) = int (length (filter (\<lambda>(_, found, _). found) (results p)))"
    using inv unfolding pool_inv_def v1_summary_def Let_def by simp
  ultimately show ?thesis by blast
qed

theorem crack_pool_done_witness:
  "\<forall>h task. \<exists>p. run (crack_step (letters_utils h)) [0, 0, 0, 0] (pool_start 1 [task]) = Some p
     \<and> length [0, 0, 0, 0 :: nat] \<le> 2 * length [task] + 2 * 1 \<and> mset (map fst (results p)) = {#task#}"
proof (intro allI)
  fix h task
  let ?u = "letters_utils h"
  obtain f key c where r: "crack_task ?u task = Some (f, key, c)" using crack_task_result [OF letters_utils_ok] by (metis surj_pair)
  obtain p where p: "run (crack_step ?u) [0, 0, 0, 0] (pool_start 1 [task]) = Some p" "workers p = [Exited (if f then 1 else 0)]"
    using r by (simp add: pool_start_def crack_step_def)
  have "crack_step ?u i p = None" for i using p(2) by (cases i) (simp_all add: crack_step_def)
  then show "\<exists>p. run (crack_step ?u) [0, 0, 0, 0] (pool_start 1 [task]) = Some p
     \<and> length [0, 0, 0, 0 :: nat] \<le> 2 * length [task] + 2 * 1 \<and> mset (map fst (results p)) = {#task#}"
    using crack_pool_done [OF letters_utils_ok p(1)] p(1) by (intro exI [of _ p]) simp
qed

section \<open>Version 2\<close>

text \<open>
  The parts of one thread's task that change, and the shared globals. \<open>AtTest\<close>: at the test of \<^verbatim>\<open>found\<close>; \<open>AtHash\<close>: past
  it. A round of the loop is these two steps, and other threads may come in between. \<open>solution\<close> is the thread whose
  \<^verbatim>\<open>password\<close> it points to. The increment of \<^verbatim>\<open>hashcount\<close>, which is not protected, is taken to be atomic.
\<close>

datatype v2_place = AtTest | AtHash | Finished

record v2_task =
  password :: string
  limit :: nat
  tried :: nat
  at :: v2_place

record v2_state =
  found :: bool
  solution :: "nat option"
  hashcount :: nat
  tasks :: "v2_task list"

definition set_task :: "nat \<Rightarrow> v2_task \<Rightarrow> v2_state \<Rightarrow> v2_state" where
  "set_task i t s = s\<lparr>tasks := (tasks s)[i := t]\<rparr>"

text \<open>The tasks of one password, as \<^verbatim>\<open>start\<close> makes them and \<^verbatim>\<open>crack\<close> positions them.\<close>

definition v2_task_start :: "utils \<Rightarrow> string \<Rightarrow> nat \<Rightarrow> nat \<Rightarrow> v2_task" where
  "v2_task_start u key thread_count i =
     (let len = getPrefixLength u key; (offset, count) = getSubrange u (length key - len) thread_count (Suc i)
      in \<lparr>password = take len key @ setStringPosition u (drop len key) offset, limit = count, tried = 0, at = AtTest\<rparr>)"

definition v2_start :: "utils \<Rightarrow> string \<Rightarrow> nat \<Rightarrow> v2_state" where
  "v2_start u key thread_count =
     \<lparr>found = False, solution = None, hashcount = 0, tasks = map (v2_task_start u key thread_count) [0..<thread_count]\<rparr>"

definition v2_step :: "utils \<Rightarrow> string \<Rightarrow> string \<Rightarrow> nat \<Rightarrow> v2_state \<Rightarrow> v2_state option" where
  "v2_step u key hash i s =
     (if length (tasks s) \<le> i then None
      else let task = tasks s ! i; len = getPrefixLength u key in
      case at task of
        AtTest \<Rightarrow>
          if \<not> tried task < limit task then Some (set_task i (task\<lparr>at := Finished\<rparr>) s)
          else if found s then Some (set_task i (task\<lparr>at := Finished\<rparr>) s)
          else Some (set_task i (task\<lparr>at := AtHash\<rparr>) s)
      | AtHash \<Rightarrow>
          if crypt_r u (password task) = hash
          then Some (set_task i (task\<lparr>at := Finished\<rparr>) (s\<lparr>found := True, solution := Some i\<rparr>))
          else Some (set_task i (task\<lparr>password := take len (password task) @ fst (incrementString u (drop len (password task))),
                 tried := Suc (tried task), at := AtTest\<rparr>) (s\<lparr>hashcount := Suc (hashcount s)\<rparr>))
      | Finished \<Rightarrow> None)"

definition v2_pos :: "utils \<Rightarrow> string \<Rightarrow> nat \<Rightarrow> nat \<Rightarrow> nat \<times> nat" where
  "v2_pos u key thread_count i = getSubrange u (length key - getPrefixLength u key) thread_count (Suc i)"

definition v2_task_ok :: "utils \<Rightarrow> string \<Rightarrow> string \<Rightarrow> nat \<Rightarrow> bool \<Rightarrow> nat \<Rightarrow> v2_task \<Rightarrow> bool" where
  "v2_task_ok u key hash thread_count fnd i t \<longleftrightarrow>
     limit t = snd (v2_pos u key thread_count i) \<and> tried t \<le> limit t
   \<and> (\<forall>k < tried t. crypt_r u (candidate u key (fst (v2_pos u key thread_count i) + k)) \<noteq> hash)
   \<and> password t = candidate u key (fst (v2_pos u key thread_count i) + tried t)
   \<and> (at t = AtHash \<longrightarrow> tried t < limit t) \<and> (at t = Finished \<longrightarrow> fnd \<or> tried t = limit t)"

definition v2_inv :: "utils \<Rightarrow> string \<Rightarrow> string \<Rightarrow> nat \<Rightarrow> v2_state \<Rightarrow> bool" where
  "v2_inv u key hash thread_count s \<longleftrightarrow>
     length (tasks s) = thread_count \<and> (\<forall>i < thread_count. v2_task_ok u key hash thread_count (found s) i (tasks s ! i))
   \<and> (case solution s of
        None \<Rightarrow> \<not> found s
      | Some i \<Rightarrow> found s \<and> i < thread_count \<and> tried (tasks s ! i) < limit (tasks s ! i) \<and> at (tasks s ! i) = Finished
          \<and> crypt_r u (password (tasks s ! i)) = hash)
   \<and> hashcount s = sum_list (map tried (tasks s))"

lemma v2_posD:
  assumes "utils_ok u" and "0 < t"
  shows "i < t \<Longrightarrow> fst (v2_pos u key t i) + snd (v2_pos u key t i) \<le> candidates u key"
    and "k < candidates u key \<Longrightarrow> \<exists>i < t. fst (v2_pos u key t i) \<le> k \<and> k < fst (v2_pos u key t i) + snd (v2_pos u key t i)"
  using assms by (simp_all add: utils_ok_def v2_pos_def candidates_def)

lemma length_candidate: "utils_ok u \<Longrightarrow> length (candidate u key k) = length key"
  by (simp add: candidate_def utils_ok_def Let_def)

lemma nth_word_mod: "nth_word n (k mod 26 ^ n) = nth_word n k"
proof (induction n arbitrary: k)
  case (Suc n)
  have m: "k mod 26 ^ Suc n = 26 * (k div 26 mod 26 ^ n) + k mod 26" by (simp only: power_Suc mod_mult2_eq)
  have "(26 * (k div 26 mod 26 ^ n) + k mod 26) div 26 = k div 26 mod 26 ^ n" by simp
  moreover have "letter (26 * x + k mod 26) = letter k" for x by (simp add: letter_def)
  ultimately show ?case unfolding m by (simp only: nth_word.simps Suc.IH)
qed simp

lemma candidate_increment:
  assumes "utils_ok u" and "k < candidates u key"
  shows "take (getPrefixLength u key) (candidate u key k)
    @ fst (incrementString u (drop (getPrefixLength u key) (candidate u key k))) = candidate u key (Suc k)"
proof -
  have "getPrefixLength u key \<le> length key" using assms(1) by (simp add: utils_ok_def)
  moreover have "incrementString u (nth_word n k) = (nth_word n (Suc k mod 26 ^ n), Suc k < 26 ^ n)" if "k < 26 ^ n" for n
    using assms(1) that by (simp add: utils_ok_def)
  ultimately show ?thesis using assms(2) by (simp add: candidate_def Let_def candidates_def nth_word_mod)
qed

lemma v2_inv_start:
  assumes "utils_ok u"
  shows "v2_inv u key hash t (v2_start u key t)"
proof -
  have "v2_task_ok u key hash t False i (v2_task_start u key t i)" for i
    using assms by (auto simp: v2_task_ok_def v2_task_start_def v2_pos_def candidate_def utils_ok_def Let_def split: prod.splits)
  moreover have "tried (v2_task_start u key t i) = 0" for i by (simp add: v2_task_start_def Let_def split: prod.splits)
  ultimately show ?thesis by (simp add: v2_inv_def v2_start_def comp_def)
qed

lemma v2_task_ok_found: "v2_task_ok u key hash t b i x \<Longrightarrow> v2_task_ok u key hash t True i x"
  unfolding v2_task_ok_def by blast

lemma v2_inv_set_task:
  assumes "v2_inv u key hash t s" and "i < t" and "v2_task_ok u key hash t (found s) i x" and "at (tasks s ! i) \<noteq> Finished"
    and "tried x = tried (tasks s ! i)"
  shows "v2_inv u key hash t (set_task i x s)"
proof -
  note inv = assms(1) [unfolded v2_inv_def]
  have "map tried ((tasks s)[i := x]) = map tried (tasks s)"
    using assms(2,5) inv by (metis list_update_id map_update nth_map)
  moreover have "j \<noteq> i" if "solution s = Some j" for j using inv assms(4) that by auto
  ultimately show ?thesis
    using inv assms(2,3) unfolding v2_inv_def set_task_def by (auto simp: nth_list_update split: option.splits)
qed

lemma v2_inv_step:
  assumes "utils_ok u" and "0 < t" and "v2_inv u key hash t s" and "v2_step u key hash i s = Some s'"
  shows "v2_inv u key hash t s'"
proof -
  note inv = assms(3) [unfolded v2_inv_def]
  define x where "x = tasks s ! i"
  have i: "i < t" using inv assms(4) by (auto simp: v2_step_def split: if_splits)
  then have ok: "v2_task_ok u key hash t (found s) i x" using inv by (simp add: x_def)
  have len: "\<not> length (tasks s) \<le> i" using inv i by simp
  show ?thesis
  proof (cases "at x")
    case AtTest
    have keep: "v2_inv u key hash t (set_task i y s)"
      if "v2_task_ok u key hash t (found s) i y" "tried y = tried x" for y
      by (rule v2_inv_set_task [OF assms(3) i that(1)]) (use AtTest that(2) in \<open>simp_all add: x_def [symmetric]\<close>)
    have "v2_task_ok u key hash t (found s) i (x\<lparr>at := Finished\<rparr>)" if "\<not> tried x < limit x \<or> found s"
      using ok that by (auto simp: v2_task_ok_def)
    moreover have "v2_task_ok u key hash t (found s) i (x\<lparr>at := AtHash\<rparr>)" if "tried x < limit x"
      using ok that by (auto simp: v2_task_ok_def)
    ultimately show ?thesis
      using assms(4) len keep AtTest by (auto simp: v2_step_def Let_def x_def [symmetric] split: if_splits)
  next
    case AtHash
    define k where "k = fst (v2_pos u key t i) + tried x"
    have k: "password x = candidate u key k" "tried x < limit x" "k < candidates u key"
      using ok AtHash v2_posD(1) [OF assms(1,2) i, of key] by (auto simp: v2_task_ok_def k_def)
    show ?thesis
    proof (cases "crypt_r u (password x) = hash")
      case True
      let ?x = "x\<lparr>at := Finished\<rparr>"
      have s': "s' = set_task i ?x (s\<lparr>found := True, solution := Some i\<rparr>)"
        using assms(4) len AtHash True by (simp add: v2_step_def Let_def x_def [symmetric])
      have "v2_task_ok u key hash t True i ?x" using ok by (simp add: v2_task_ok_def)
      moreover have "map tried ((tasks s)[i := ?x]) = map tried (tasks s)"
        by (metis list_update_id map_update nth_map len not_le v2_task.select_convs(3) v2_task.surjective v2_task.update_convs(4) x_def)
      ultimately show ?thesis
        using inv i k(2) True v2_task_ok_found unfolding v2_inv_def s' set_task_def by (auto simp: nth_list_update)
    next
      case False
      let ?x = "x\<lparr>password := candidate u key (Suc k), tried := Suc (tried x), at := AtTest\<rparr>"
      have s': "s' = set_task i ?x (s\<lparr>hashcount := Suc (hashcount s)\<rparr>)"
        using assms(4) len AtHash False candidate_increment [OF assms(1) k(3)] k(1)
        by (simp add: v2_step_def Let_def x_def [symmetric])
      have "v2_task_ok u key hash t (found s) i ?x"
        using ok k(1,2) False by (auto simp: v2_task_ok_def k_def less_Suc_eq)
      moreover have "sum_list (map tried ((tasks s)[i := ?x])) = Suc (sum_list (map tried (tasks s)))"
      proof -
        obtain us vs where "tasks s = us @ x # vs" "(tasks s)[i := ?x] = us @ ?x # vs"
          using split_at [of i "tasks s" x] len x_def by auto
        then show ?thesis by simp
      qed
      moreover have "j \<noteq> i" if "solution s = Some j" for j using inv AtHash that by (auto simp: x_def)
      ultimately show ?thesis
        using inv i unfolding v2_inv_def s' set_task_def by (auto simp: nth_list_update split: option.splits)
    qed
  qed (use assms(4) len in \<open>simp add: v2_step_def Let_def x_def [symmetric]\<close>)
qed

interpretation shared_search: transition_system "v2_step u key hash" "\<lambda>s. utils_ok u \<and> 0 < t \<and> s = v2_start u key t"
  "\<lambda>s. utils_ok u \<and> 0 < t \<and> v2_inv u key hash t s" for u key hash t
  by unfold_locales (auto simp: v2_inv_start intro: v2_inv_step)

fun v2_energy :: "v2_task \<Rightarrow> nat" where
  "v2_energy x = (case at x of AtTest \<Rightarrow> 2 * (limit x - tried x) + 1 | AtHash \<Rightarrow> 2 * (limit x - tried x) | Finished \<Rightarrow> 0)"

lemma v2_step_energy:
  assumes "v2_inv u key hash t s" and "v2_step u key hash i s = Some s'"
  shows "sum_list (map v2_energy (tasks s')) < sum_list (map v2_energy (tasks s))"
proof -
  define x where "x = tasks s ! i"
  have i: "i < length (tasks s)" using assms(2) by (auto simp: v2_step_def split: if_splits)
  have ok: "v2_task_ok u key hash t (found s) i x" using assms(1) i by (auto simp: v2_inv_def x_def)
  obtain us vs where split: "tasks s = us @ x # vs" "\<And>y. (tasks s)[i := y] = us @ y # vs" using split_at [OF i] x_def by blast
  obtain y where y: "tasks s' = (tasks s)[i := y]" "v2_energy y < v2_energy x"
    using assms(2) i ok by (auto simp: v2_step_def set_task_def Let_def x_def [symmetric] v2_task_ok_def split: v2_place.splits if_splits)
  have "tasks s' = us @ y # vs" using y(1) split(2) by simp
  then show ?thesis using y(2) split(1) by (simp del: v2_energy.simps)
qed

definition v2_joined :: "v2_state \<Rightarrow> bool" where
  "v2_joined s \<longleftrightarrow> list_all (\<lambda>t. at t = Finished) (tasks s)"

lemma v2_joined_stuck: "v2_joined s \<Longrightarrow> v2_step u key hash i s = None"
  by (auto simp: v2_joined_def v2_step_def Let_def list_all_length)

interpretation search_ends: finishing_system "v2_step u key hash" "\<lambda>s. utils_ok u \<and> 0 < t \<and> s = v2_start u key t"
  "\<lambda>s. utils_ok u \<and> 0 < t \<and> v2_inv u key hash t s" "\<lambda>s. sum_list (map v2_energy (tasks s))" v2_joined for u key hash t
proof unfold_locales
  fix s assume "\<not> v2_joined s"
  then obtain i where "i < length (tasks s)" "at (tasks s ! i) \<noteq> Finished" by (auto simp: v2_joined_def list_all_length)
  then have "v2_step u key hash i s \<noteq> None" by (cases "at (tasks s ! i)") (simp_all add: v2_step_def Let_def)
  then show "\<exists>i s'. v2_step u key hash i s = Some s'" by blast
qed (auto intro: v2_step_energy simp del: v2_energy.simps)

lemma v2_energy_start:
  "sum_list (map v2_energy (tasks (v2_start u key t))) = (\<Sum>i<t. 2 * snd (v2_pos u key t i) + 1)"
proof -
  have "v2_energy (v2_task_start u key t i) = 2 * snd (v2_pos u key t i) + 1" for i
    by (simp add: v2_task_start_def v2_pos_def Let_def split: prod.splits)
  then show ?thesis
    by (simp add: v2_start_def comp_def del: v2_energy.simps) (simp only: sum_list_sum_nth length_map length_upt, simp add: atLeast0LessThan)
qed

lemma v2_search_ok:
  assumes "utils_ok u" and "0 < t" and "run (v2_step u key hash) is (v2_start u key t) = Some s"
  shows "length is \<le> (\<Sum>i<t. 2 * snd (v2_pos u key t i) + 1)
    \<and> ((\<forall>i. v2_step u key hash i s = None) \<longrightarrow>
         (found s \<longleftrightarrow> (\<exists>k < candidates u key. crypt_r u (candidate u key k) = hash)))
    \<and> (found s \<longrightarrow> (\<exists>i < t. solution s = Some i \<and> crypt_r u (password (tasks s ! i)) = hash))"
proof -
  have inv: "v2_inv u key hash t s" using shared_search.reachable [OF assms(3)] assms(1,2) by blast
  have bound: "length is \<le> (\<Sum>i<t. 2 * snd (v2_pos u key t i) + 1)"
    using search_ends.run_bounded [OF assms(3), of t] assms(1,2) v2_inv_start [OF assms(1)] v2_energy_start [of u key t] by simp
  have sol: "\<exists>i < t. solution s = Some i \<and> tried (tasks s ! i) < limit (tasks s ! i) \<and> crypt_r u (password (tasks s ! i)) = hash"
    if "found s" using inv that unfolding v2_inv_def by (auto split: option.splits)
  have "found s" if stuck: "\<forall>i. v2_step u key hash i s = None" and k: "k < candidates u key" "crypt_r u (candidate u key k) = hash" for k
  proof (rule ccontr)
    assume "\<not> found s"
    obtain i where i: "i < t" "fst (v2_pos u key t i) \<le> k" "k < fst (v2_pos u key t i) + snd (v2_pos u key t i)"
      using v2_posD(2) [OF assms(1,2) k(1)] by blast
    have ok: "v2_task_ok u key hash t (found s) i (tasks s ! i)" and "i < length (tasks s)" using inv i(1) by (auto simp: v2_inv_def)
    then have "at (tasks s ! i) = Finished"
      using stuck [rule_format, of i] by (cases "at (tasks s ! i)") (auto simp: v2_step_def Let_def split: if_splits)
    then have "k - fst (v2_pos u key t i) < tried (tasks s ! i)" using ok \<open>\<not> found s\<close> i(2,3) unfolding v2_task_ok_def by auto
    then have "crypt_r u (candidate u key (fst (v2_pos u key t i) + (k - fst (v2_pos u key t i)))) \<noteq> hash"
      using ok unfolding v2_task_ok_def by blast
    then show False using k(2) i(2) by simp
  qed
  moreover have "\<exists>k < candidates u key. crypt_r u (candidate u key k) = hash" if f: "found s"
  proof -
    obtain i where i: "i < t" "tried (tasks s ! i) < limit (tasks s ! i)" "crypt_r u (password (tasks s ! i)) = hash" using sol [OF f] by blast
    have "v2_task_ok u key hash t (found s) i (tasks s ! i)" using inv i(1) by (simp add: v2_inv_def)
    then show ?thesis
      using i v2_posD(1) [OF assms(1,2) i(1), of key]
      by (intro exI [of _ "fst (v2_pos u key t i) + tried (tasks s ! i)"]) (auto simp: v2_task_ok_def)
  qed
  ultimately show ?thesis using bound sol by blast
qed

text \<open>
  \<^verbatim>\<open>start\<close> of version 2: one password after the other; \<open>schedules\<close> are the interleavings of its threads, which are joined
  before the summary, so that each has to be a whole one. The summary has the name, \<^verbatim>\<open>solution\<close>, the count and the result
  code 0 or 1.
\<close>

definition v2_summary :: "string \<Rightarrow> v2_state \<Rightarrow> string \<times> nat option \<times> nat \<times> nat" where
  "v2_summary name s = (name, solution s, hashcount s, if found s then 0 else 1)"

fun v2_users :: "utils \<Rightarrow> nat \<Rightarrow> entry list \<Rightarrow> nat list list \<Rightarrow> (string \<times> nat option \<times> nat \<times> nat) list option" where
  "v2_users u thread_count [] schedules = Some []"
| "v2_users u thread_count ((name, hash, key) # es) [] = None"
| "v2_users u thread_count ((name, hash, key) # es) (l # ls) =
     (case run (v2_step u key hash) l (v2_start u key thread_count) of
        None \<Rightarrow> None
      | Some s \<Rightarrow>
          if v2_joined s
          then (case v2_users u thread_count es ls of None \<Rightarrow> None | Some r \<Rightarrow> Some (v2_summary name s # r))
          else None)"

definition v2_main :: "utils \<Rightarrow> nat \<Rightarrow> string list \<Rightarrow> nat list list \<Rightarrow> (string \<times> nat option \<times> nat \<times> nat) list option res" where
  "v2_main u thread_count words schedules =
     bindE (read_entries None words) (\<lambda>es. Inr (v2_users u thread_count es schedules))"

lemma v2_users_codes:
  assumes "utils_ok u" and "0 < t" and "v2_users u t es ls = Some rs"
  shows "map (\<lambda>(name, sol, count, code). (name, code = 0)) rs
    = map (\<lambda>(name, hash, key). (name, \<exists>k < candidates u key. crypt_r u (candidate u key k) = hash)) es"
  using assms
proof (induction u t es ls arbitrary: rs rule: v2_users.induct)
  case (3 u t name hash key es l ls)
  then obtain s r where s: "run (v2_step u key hash) l (v2_start u key t) = Some s" "v2_joined s" "v2_users u t es ls = Some r"
    "rs = v2_summary name s # r" by (auto split: option.splits if_splits)
  have "found s \<longleftrightarrow> (\<exists>k < candidates u key. crypt_r u (candidate u key k) = hash)"
    using v2_search_ok [OF "3.prems"(1,2) s(1)] v2_joined_stuck [OF s(2), of u key hash] by simp
  then show ?case using "3.IH" [OF s(1,2) "3.prems"(1,2) s(3)] s(4) by (simp add: v2_summary_def)
qed auto

text \<open>The threads of every password can be run to their end, so \<^verbatim>\<open>start\<close> gets through all of them.\<close>

lemma v2_users_total: "utils_ok u \<Longrightarrow> 0 < t \<Longrightarrow> \<exists>ls rs. v2_users u t es ls = Some rs"
proof (induction es)
  case (Cons e es)
  obtain name hash key where e: "e = (name, hash, key)" by (cases e)
  obtain ls rs where IH: "v2_users u t es ls = Some rs" using Cons by blast
  have "utils_ok u \<and> 0 < t \<and> v2_inv u key hash t (v2_start u key t)" using Cons.prems v2_inv_start by blast
  from search_ends.completes [OF this] obtain l s where "run (v2_step u key hash) l (v2_start u key t) = Some s" "v2_joined s" by blast
  then have "v2_users u t (e # es) (l # ls) = Some (v2_summary name s # rs)" using IH e by simp
  then show ?case by blast
qed simp

text \<open>
  C20: under every interleaving of the threads of version 2 the search ends, after at most two steps for each candidate
  of a thread's range and one more; it then has found a password exactly if some candidate has the hash, and whenever the flag is set the
  solution is the password of a thread that has the hash.
\<close>

theorem v2_search_correct:
  assumes "utils_ok u" and "0 < t" and "run (v2_step u key hash) is (v2_start u key t) = Some s"
  shows "length is \<le> (\<Sum>i<t. 2 * snd (v2_pos u key t i) + 1)
    \<and> ((\<forall>i. v2_step u key hash i s = None) \<longrightarrow>
         (found s \<longleftrightarrow> (\<exists>k < candidates u key. crypt_r u (candidate u key k) = hash)))
    \<and> (found s \<longrightarrow> (\<exists>i < t. solution s = Some i \<and> crypt_r u (password (tasks s ! i)) = hash))"
  by (rule v2_search_ok [OF assms])

theorem v2_search_correct_witness:
  "\<exists>s. run (v2_step (letters_utils (\<lambda>s. s)) ''a.'' ''aa'') [0, 0] (v2_start (letters_utils (\<lambda>s. s)) ''a.'' 1) = Some s
     \<and> found s \<and> solution s = Some 0 \<and> password (tasks s ! 0) = ''aa''"
proof -
  let ?u = "letters_utils (\<lambda>s. s)"
  have "letter 0 = CHR ''a''" by (rule letter_a) simp
  then have start: "v2_start ?u ''a.'' 1 = \<lparr>found = False, solution = None, hashcount = 0,
      tasks = [\<lparr>password = ''aa'', limit = 26, tried = 0, at = AtTest\<rparr>]\<rparr>"
    by (simp add: v2_start_def v2_task_start_def letters_utils_def)
  obtain s where s: "run (v2_step ?u ''a.'' ''aa'') [0, 0] (v2_start ?u ''a.'' 1) = Some s" "found s"
    unfolding start by (simp add: v2_step_def set_task_def letters_utils_def)
  have "crypt_r ?u x = x" for x by (simp add: letters_utils_def)
  then show ?thesis using v2_search_correct [OF letters_utils_ok _ s(1)] s by (intro exI [of _ s]) auto
qed

section \<open>Version 2: the memory of a task\<close>

text \<open>
  A task is a block of six pointers, each to a block of its own (what these hold is not needed here). \<^verbatim>\<open>start\<close> allocates
  it; \<^verbatim>\<open>crack\<close> ends by freeing it with \<^verbatim>\<open>murk\<close> and then returns a field of it.
\<close>

definition make_task :: "ptr heap \<Rightarrow> (ptr \<times> ptr heap) res" where
  "make_task h =
     (let (task, h) = halloc (replicate 6 Wild) h; (name, h) = halloc [Wild] h; (hash, h) = halloc [Wild] h;
          (passwd, h) = halloc [Wild] h; (ident, h) = halloc [Wild] h; (counter, h) = halloc [Wild] h;
          (offset, h) = halloc [Wild] h in
      bindE (hwrite (padd task 3) name h) (\<lambda>h. bindE (hwrite (padd task 4) hash h) (\<lambda>h.
      bindE (hwrite (padd task 5) passwd h) (\<lambda>h. bindE (hwrite task ident h) (\<lambda>h.
      bindE (hwrite (padd task 1) counter h) (\<lambda>h. bindE (hwrite (padd task 2) offset h) (\<lambda>h. Inr (task, h))))))))"

definition free_field :: "ptr \<Rightarrow> nat \<Rightarrow> ptr heap \<Rightarrow> ptr heap res" where
  "free_field task n h = bindE (hread (padd task n) h) (\<lambda>p. hfree p h)"

definition murk :: "ptr \<Rightarrow> ptr heap \<Rightarrow> ptr heap res" where
  "murk this h =
     bindE (free_field this 0 h) (\<lambda>h. bindE (free_field this 2 h) (\<lambda>h. bindE (free_field this 3 h) (\<lambda>h.
     bindE (free_field this 4 h) (\<lambda>h. bindE (free_field this 5 h) (\<lambda>h. hfree this h)))))"

definition crack_return :: "ptr \<Rightarrow> ptr heap \<Rightarrow> ptr res" where
  "crack_return task h = bindE (murk task h) (\<lambda>h. hread (padd task 5) h)"

text \<open>Every thread reads its task after freeing it; the password that \<^verbatim>\<open>solution\<close> points to is freed too, and one block of the task is not.\<close>

lemma make_task_eq:
  "make_task h = (let n = next_block h in Inr (Ptr n 0, h\<lparr>next_block := n + 7, blocks := (blocks h)
     (n \<mapsto> [Ptr (n + 4) 0, Ptr (n + 5) 0, Ptr (n + 6) 0, Ptr (n + 1) 0, Ptr (n + 2) 0, Ptr (n + 3) 0],
      n + 1 \<mapsto> [Wild], n + 2 \<mapsto> [Wild], n + 3 \<mapsto> [Wild], n + 4 \<mapsto> [Wild], n + 5 \<mapsto> [Wild], n + 6 \<mapsto> [Wild])\<rparr>))"
  by (simp add: make_task_def halloc_def Let_def numeral_eq_Suc fun_eq_iff)

lemma crack_return_faults:
  assumes "make_task h = Inr (task, h1)"
  shows "\<exists>h2 passwd p b. murk task h1 = Inr h2 \<and> crack_return task h1 = Inl UseAfterFree
    \<and> hread (padd task 5) h1 = Inr passwd \<and> hread passwd h2 = Inl UseAfterFree
    \<and> hread (padd task 1) h1 = Inr (Ptr p b) \<and> blocks h2 p \<noteq> None"
proof -
  have t: "task = Ptr (next_block h) 0" "h1 = snd (case make_task h of Inr r \<Rightarrow> r)" using assms by (auto simp: make_task_eq Let_def)
  show ?thesis
    unfolding t by (simp add: make_task_eq Let_def murk_def free_field_def crack_return_def)
qed

end
