(* ===== verification/Drm.thy ===== *)
theory Drm
  imports Prelude
begin

text \<open>
  \<^verbatim>\<open>deadlock_demolition/libdrm.c\<close>: mutexes that refuse a wait which would close a cycle in the resource allocation
  graph. The graph and the set are libraries that are not in the repository; of the graph the code uses that
  edges are added, removed and looked up, and that \<^verbatim>\<open>graph_neighbors\<close> lists the successors of a vertex in some order: the
  graph is its list of edges and the order is the parameter \<open>nbrs\<close>. Every critical section of \<^verbatim>\<open>global_mut\<close> is one
  step of a run; so is the moment at which a waiting thread gets the mutex of the resource.
\<close>

section \<open>The resource allocation graph\<close>

datatype node = T nat | D nat

type_synonym rag = "(node \<times> node) list"

definition graph_adjacent :: "rag \<Rightarrow> node \<Rightarrow> node \<Rightarrow> bool" where
  "graph_adjacent g a b \<longleftrightarrow> (a, b) \<in> set g"

definition graph_add_edge :: "node \<Rightarrow> node \<Rightarrow> rag \<Rightarrow> rag" where
  "graph_add_edge a b g = List.insert (a, b) g"

definition graph_remove_edge :: "node \<Rightarrow> node \<Rightarrow> rag \<Rightarrow> rag" where
  "graph_remove_edge a b g = removeAll (a, b) g"

definition lists_successors :: "(rag \<Rightarrow> node \<Rightarrow> node list) \<Rightarrow> bool" where
  "lists_successors nbrs \<longleftrightarrow> (\<forall>g n. set (nbrs g n) = {m. (n, m) \<in> set g} \<and> distinct (nbrs g n))"

definition edge_order :: "rag \<Rightarrow> node \<Rightarrow> node list" where
  "edge_order g n = remdups (map snd (filter (\<lambda>e. fst e = n) g))"

lemma edge_order_lists: "lists_successors edge_order"
  by (force simp: lists_successors_def edge_order_def)

text \<open>
  \<^verbatim>\<open>contains_cycle\<close> with its global set: \<open>None\<close> is the null pointer. A neighbour that closes no cycle leaves the
  set null, so that the next one starts with an empty set again. \<open>None\<close> as the result: more calls than \<open>fuel\<close>.
\<close>

fun contains_cycle :: "(node \<Rightarrow> node list) \<Rightarrow> nat \<Rightarrow> node \<Rightarrow> node list option \<Rightarrow> (bool \<times> node list option) option"
and cycle_in :: "(node \<Rightarrow> node list) \<Rightarrow> nat \<Rightarrow> node list \<Rightarrow> node list option \<Rightarrow> (bool \<times> node list option) option" where
  "contains_cycle nb 0 n visited = None"
| "contains_cycle nb (Suc fuel) n visited =
     (let vs = (case visited of None \<Rightarrow> [] | Some vs \<Rightarrow> vs) in
      if n \<in> set vs then Some (True, None)
      else cycle_in nb fuel (nb n) (Some (n # vs)))"
| "cycle_in nb fuel [] visited = Some (False, None)"
| "cycle_in nb fuel (m # ms) visited =
     (case contains_cycle nb fuel m visited of
        None \<Rightarrow> None
      | Some (True, v) \<Rightarrow> Some (True, v)
      | Some (False, v) \<Rightarrow> cycle_in nb fuel ms v)"

section \<open>Threads and mutexes\<close>

datatype phase = Running | Blocked nat | Holding nat

record drm_state =
  edges :: rag
  owner :: "nat \<Rightarrow> nat option"
  phase_of :: "nat \<Rightarrow> phase"

definition drm_start :: drm_state where
  "drm_start = \<lparr>edges = [], owner = (\<lambda>_. None), phase_of = (\<lambda>_. Running)\<rparr>"

text \<open>The first critical section of \<^verbatim>\<open>drm_wait\<close>: the result 0, or a thread that goes on to lock the mutex.\<close>

definition drm_wait_check :: "(rag \<Rightarrow> node \<Rightarrow> node list) \<Rightarrow> nat \<Rightarrow> nat \<Rightarrow> drm_state \<Rightarrow> drm_state option" where
  "drm_wait_check nbrs t d s =
     (let g = graph_add_edge (T t) (D d) (edges s) in
      case (if graph_adjacent g (D d) (T t) then Some (True, None)
            else contains_cycle (nbrs g) (length g + 2) (T t) None) of
        None \<Rightarrow> None
      | Some (True, _) \<Rightarrow> Some (s\<lparr>edges := graph_remove_edge (T t) (D d) g\<rparr>)
      | Some (False, _) \<Rightarrow> Some (s\<lparr>edges := g, phase_of := (phase_of s)(t := Blocked d)\<rparr>))"

definition drm_wait_record :: "nat \<Rightarrow> nat \<Rightarrow> drm_state \<Rightarrow> drm_state" where
  "drm_wait_record t d s =
     s\<lparr>edges := graph_add_edge (D d) (T t) (graph_remove_edge (T t) (D d) (edges s)),
       phase_of := (phase_of s)(t := Running)\<rparr>"

definition drm_post :: "nat \<Rightarrow> nat \<Rightarrow> drm_state \<Rightarrow> bool \<times> drm_state" where
  "drm_post t d s =
     (if \<not> graph_adjacent (edges s) (D d) (T t) then (False, s)
      else (True, s\<lparr>edges := graph_remove_edge (D d) (T t) (edges s), owner := (owner s)(d := None)\<rparr>))"

datatype drm_label = Wait nat nat | Lock nat nat | Record nat nat | Post nat nat

text \<open>\<open>Wait\<close> and \<open>Post\<close> start a call; \<open>Lock\<close> needs the mutex to be free; \<open>Record\<close> is the end of \<^verbatim>\<open>drm_wait\<close>.\<close>

fun drm_step :: "(rag \<Rightarrow> node \<Rightarrow> node list) \<Rightarrow> drm_label \<Rightarrow> drm_state \<Rightarrow> drm_state option" where
  "drm_step nbrs (Wait t d) s = (if phase_of s t = Running then drm_wait_check nbrs t d s else None)"
| "drm_step nbrs (Lock t d) s =
     (if phase_of s t = Blocked d \<and> owner s d = None
      then Some (s\<lparr>owner := (owner s)(d \<mapsto> t), phase_of := (phase_of s)(t := Holding d)\<rparr>) else None)"
| "drm_step nbrs (Record t d) s = (if phase_of s t = Holding d then Some (drm_wait_record t d s) else None)"
| "drm_step nbrs (Post t d) s = (if phase_of s t = Running then Some (snd (drm_post t d s)) else None)"

section \<open>The search on chains\<close>

text \<open>A cycle that can be reached.\<close>

definition reaches_cycle :: "(node \<times> node) set \<Rightarrow> node \<Rightarrow> bool" where
  "reaches_cycle E n \<longleftrightarrow> (\<exists>m. (n, m) \<in> E\<^sup>* \<and> (m, m) \<in> E\<^sup>+)"

lemma reaches_cycle_step:
  assumes "single_valued E" and "(n, m) \<in> E"
  shows "reaches_cycle E n = reaches_cycle E m"
proof
  assume "reaches_cycle E m"
  then show "reaches_cycle E n" using assms(2) by (auto simp: reaches_cycle_def intro: converse_rtrancl_into_rtrancl)
next
  assume "reaches_cycle E n"
  then obtain c where c: "(n, c) \<in> E\<^sup>*" "(c, c) \<in> E\<^sup>+" by (auto simp: reaches_cycle_def)
  have "(n, c) \<in> E\<^sup>+" using c by (meson rtrancl_trancl_trancl)
  then obtain m' where "(n, m') \<in> E" "(m', c) \<in> E\<^sup>*" by (meson tranclD)
  moreover from this have "m' = m" using assms by (meson single_valuedD)
  ultimately show "reaches_cycle E m" using c by (auto simp: reaches_cycle_def)
qed

lemma reaches_cycle_end: "(\<And>m. (n, m) \<notin> E) \<Longrightarrow> \<not> reaches_cycle E n"
  unfolding reaches_cycle_def by (metis converse_rtranclE tranclD)

lemma contains_cycle_chain:
  assumes "single_valued (set g)" and succs: "\<And>n. set (nb n) = {m. (n, m) \<in> set g} \<and> distinct (nb n)"
    and "\<forall>v \<in> set vs. (v, n) \<in> (set g)\<^sup>+" and "card (fst ` set g - set vs) + 1 < fuel"
  shows "contains_cycle nb fuel n (Some vs) = Some (reaches_cycle (set g) n, None)"
  using assms(3,4)
proof (induction fuel arbitrary: n vs)
  case (Suc fuel)
  let ?E = "set g"
  show ?case
  proof (cases "n \<in> set vs")
    case True
    then have "reaches_cycle ?E n" using Suc.prems(1) by (auto simp: reaches_cycle_def)
    then show ?thesis using True by simp
  next
    case False
    show ?thesis
    proof (cases "nb n")
      case Nil
      then have "\<not> reaches_cycle ?E n" using succs [of n] by (intro reaches_cycle_end) auto
      then show ?thesis using False Nil by simp
    next
      case (Cons m ms)
      then have nm: "(n, m) \<in> ?E" using succs [of n] by auto
      have "ms = []" using Cons assms(1) succs [of n] nm by (cases ms) (auto dest: single_valuedD)
      moreover have "contains_cycle nb fuel m (Some (n # vs)) = Some (reaches_cycle ?E m, None)"
      proof (rule Suc.IH)
        show "\<forall>v \<in> set (n # vs). (v, m) \<in> ?E\<^sup>+" using Suc.prems(1) nm by (auto intro: trancl_into_trancl)
        have "n \<in> fst ` ?E - set vs" using nm False by force
        then have "card (fst ` ?E - set (n # vs)) < card (fst ` ?E - set vs)"
          by (intro psubset_card_mono) auto
        then show "card (fst ` ?E - set (n # vs)) + 1 < fuel" using Suc.prems(2) by simp
      qed
      ultimately show ?thesis
        using False Cons reaches_cycle_step [OF assms(1) nm] by (auto split: bool.splits)
    qed
  qed
qed simp

lemma contains_cycle_from_null:
  assumes "single_valued (set g)" and "lists_successors nbrs"
  shows "contains_cycle (nbrs g) (length g + 2) n None = Some (reaches_cycle (set g) n, None)"
proof -
  have "card (fst ` set g) \<le> length g" by (metis card_image_le card_length finite_set le_trans)
  then have "contains_cycle (nbrs g) (length g + 2) n (Some []) = Some (reaches_cycle (set g) n, None)"
    using assms by (intro contains_cycle_chain) (auto simp: lists_successors_def)
  moreover have "contains_cycle (nbrs g) (length g + 2) n None = contains_cycle (nbrs g) (length g + 2) n (Some [])"
    by (simp add: numeral_2_eq_2)
  ultimately show ?thesis by simp
qed

section \<open>The graph and the threads\<close>

text \<open>
  The edges are those of the threads that wait or have just got the mutex, and of the owners that recorded it; no
  cycle is ever in the graph.
\<close>

definition drm_inv :: "drm_state \<Rightarrow> bool" where
  "drm_inv s \<longleftrightarrow> acyclic (set (edges s))
     \<and> (\<forall>t n. (T t, n) \<in> set (edges s) \<longleftrightarrow> (\<exists>d. n = D d \<and> (phase_of s t = Blocked d \<or> phase_of s t = Holding d)))
     \<and> (\<forall>d n. (D d, n) \<in> set (edges s) \<longleftrightarrow> (\<exists>t. n = T t \<and> owner s d = Some t \<and> phase_of s t \<noteq> Holding d))
     \<and> (\<forall>t d. phase_of s t = Holding d \<longrightarrow> owner s d = Some t)"

lemma drm_inv_start: "drm_inv drm_start"
  by (simp add: drm_inv_def drm_start_def acyclic_def)

lemma drm_inv_edges:
  assumes "drm_inv s"
  shows "(T t, n) \<in> set (edges s) \<longleftrightarrow> (\<exists>d. n = D d \<and> (phase_of s t = Blocked d \<or> phase_of s t = Holding d))"
    and "(D d, n) \<in> set (edges s) \<longleftrightarrow> (\<exists>t. n = T t \<and> owner s d = Some t \<and> phase_of s t \<noteq> Holding d)"
    and "phase_of s t = Holding d \<Longrightarrow> owner s d = Some t" and "acyclic (set (edges s))"
  using assms by (simp_all add: drm_inv_def)

lemma drm_inv_single_valued: "drm_inv s \<Longrightarrow> single_valued (set (edges s))"
proof (rule single_valuedI)
  fix x y z assume "drm_inv s" "(x, y) \<in> set (edges s)" "(x, z) \<in> set (edges s)"
  then show "y = z" by (cases x) (auto simp: drm_inv_edges)
qed

lemma drm_inv_add_wait:
  assumes "drm_inv s" and "phase_of s t = Running"
  shows "single_valued (insert (T t, D d) (set (edges s)))"
proof -
  have "(T t, n) \<notin> set (edges s)" for n using drm_inv_edges(1) [OF assms(1)] assms(2) by simp
  then show ?thesis using drm_inv_single_valued [OF assms(1)] by (auto simp: single_valued_def)
qed

lemma drm_inv_wait:
  assumes "drm_inv s" and "lists_successors nbrs" and "phase_of s t = Running" and "drm_wait_check nbrs t d s = Some s'"
  shows "drm_inv s'"
proof -
  let ?g = "graph_add_edge (T t) (D d) (edges s)"
  have g: "set ?g = insert (T t, D d) (set (edges s))" by (simp add: graph_add_edge_def)
  have sv: "single_valued (set ?g)" using drm_inv_add_wait [OF assms(1,3)] g by simp
  note cc = contains_cycle_from_null [OF sv assms(2), of "T t"]
  have no: "(T t, D d) \<notin> set (edges s)" using drm_inv_edges(1) [OF assms(1)] assms(3) by simp
  show ?thesis
  proof (cases "graph_adjacent ?g (D d) (T t) \<or> reaches_cycle (set ?g) (T t)")
    case True
    then have "s' = s\<lparr>edges := graph_remove_edge (T t) (D d) ?g\<rparr>"
      using assms(4) cc by (auto simp: drm_wait_check_def Let_def split: if_splits)
    moreover have "set (graph_remove_edge (T t) (D d) ?g) = set (edges s)"
      using no g by (auto simp: graph_remove_edge_def)
    ultimately show ?thesis using assms(1) by (simp add: drm_inv_def)
  next
    case False
    then have s': "s' = s\<lparr>edges := ?g, phase_of := (phase_of s)(t := Blocked d)\<rparr>"
      using assms(4) cc by (auto simp: drm_wait_check_def Let_def split: if_splits)
    have "(D d, T t) \<notin> (set (edges s))\<^sup>*"
    proof
      assume "(D d, T t) \<in> (set (edges s))\<^sup>*"
      then have "(D d, T t) \<in> (set ?g)\<^sup>*" using g by (metis rtrancl_mono subsetD subset_insertI)
      moreover have "(T t, D d) \<in> set ?g" using g by simp
      ultimately have "(T t, T t) \<in> (set ?g)\<^sup>+" by (meson rtrancl_into_trancl2)
      then show False using False by (auto simp: reaches_cycle_def)
    qed
    then have "acyclic (set ?g)" using g drm_inv_edges(4) [OF assms(1)] by (simp add: acyclic_insert)
    moreover have "owner s d' = Some t \<Longrightarrow> (phase_of s t \<noteq> Holding d')" for d' using assms(3) by simp
    ultimately show ?thesis
      using assms(1,3) g unfolding s' drm_inv_def by auto
  qed
qed

lemma drm_inv_record:
  assumes "drm_inv s" and "phase_of s t = Holding d"
  shows "drm_inv (drm_wait_record t d s)"
proof -
  let ?E = "set (edges s) - {(T t, D d)}"
  have "(T t, n) \<notin> ?E" for n using drm_inv_edges(1) [OF assms(1)] assms(2) by auto
  then have "(T t, D d) \<notin> ?E\<^sup>*" by (metis converse_rtranclE node.distinct(1))
  moreover have "acyclic ?E" using drm_inv_edges(4) [OF assms(1)] by (rule acyclic_subset) auto
  ultimately have ac: "acyclic (insert (D d, T t) ?E)" by (simp add: acyclic_insert)
  have e: "set (edges (drm_wait_record t d s)) = insert (D d, T t) ?E"
    by (simp add: drm_wait_record_def graph_add_edge_def graph_remove_edge_def)
  have o: "owner s d = Some t" by (rule drm_inv_edges(3) [OF assms])
  show ?thesis
    using ac assms o drm_inv_edges(1,2,3) [OF assms(1)] unfolding drm_inv_def e
    by (auto simp: drm_wait_record_def)
qed

lemma drm_inv_step:
  assumes "drm_inv s" and "lists_successors nbrs" and "drm_step nbrs l s = Some s'"
  shows "drm_inv s'"
proof (cases l)
  case (Wait t d)
  then show ?thesis using assms drm_inv_wait by (auto split: if_splits)
next
  case (Lock t d)
  then show ?thesis using assms(1,3) unfolding drm_inv_def by (auto split: if_splits)
next
  case (Record t d)
  then show ?thesis using assms(1,3) drm_inv_record by (auto split: if_splits)
next
  case (Post t d)
  then have p: "phase_of s t = Running" and s': "s' = snd (drm_post t d s)" using assms(3) by (auto split: if_splits)
  have "acyclic (set (edges s) - {(D d, T t)})" using drm_inv_edges(4) [OF assms(1)] by (rule acyclic_subset) auto
  then show ?thesis
    using assms(1) p drm_inv_edges(1,2,3) [OF assms(1)] unfolding s' drm_inv_def
    by (auto simp: drm_post_def graph_adjacent_def graph_remove_edge_def)
qed

text \<open>A thread waits for another: it is blocked on a mutex the other one owns.\<close>

definition waits_for :: "drm_state \<Rightarrow> (nat \<times> nat) set" where
  "waits_for s = {(t, t'). \<exists>d. phase_of s t = Blocked d \<and> owner s d = Some t'}"

lemma waits_for_edges:
  assumes "drm_inv s" and "(a, b) \<in> (waits_for s)\<^sup>+" and "phase_of s b = Blocked d"
  shows "(T a, T b) \<in> (set (edges s))\<^sup>+"
proof -
  have step: "(T x, T y) \<in> (set (edges s))\<^sup>+" if xy: "(x, y) \<in> waits_for s" and y: "phase_of s y = Blocked d'" for x y d'
  proof -
    obtain e where "phase_of s x = Blocked e" "owner s e = Some y" using xy by (auto simp: waits_for_def)
    then have "(T x, D e) \<in> set (edges s)" "(D e, T y) \<in> set (edges s)"
      using y by (simp_all add: drm_inv_edges [OF assms(1)])
    then show ?thesis by (meson r_into_trancl' trancl_into_trancl)
  qed
  show ?thesis using assms(2,3)
  proof (induction arbitrary: d rule: trancl_induct)
    case (base y)
    then show ?case using step by blast
  next
    case (step y z)
    then obtain e where "phase_of s y = Blocked e" by (auto simp: waits_for_def)
    then have "(T a, T y) \<in> (set (edges s))\<^sup>+" using step.IH by blast
    moreover have "(T y, T z) \<in> (set (edges s))\<^sup>+" using \<open>(y, z) \<in> waits_for s\<close> step.prems
      by (rule \<open>\<And>y x d'. (x, y) \<in> waits_for s \<Longrightarrow> phase_of s y = Blocked d' \<Longrightarrow> (T x, T y) \<in> (set (edges s))\<^sup>+\<close>)
    ultimately show ?case by (rule trancl_trans)
  qed
qed

interpretation drm_calls: transition_system "drm_step nbrs" "\<lambda>s. s = drm_start" "\<lambda>s. lists_successors nbrs \<longrightarrow> drm_inv s" for nbrs
  by unfold_locales (auto intro: drm_inv_start drm_inv_step)

lemma drm_reachable_inv:
  "lists_successors nbrs \<Longrightarrow> run (drm_step nbrs) ls drm_start = Some s \<Longrightarrow> drm_inv s"
  using drm_calls.reachable [of nbrs ls drm_start s] by simp

section \<open>Creating and destroying\<close>

text \<open>
  The library with the drms that exist. \<^verbatim>\<open>drm_destroy\<close> also destroys \<^verbatim>\<open>global_mut\<close>, which is one for all drms; locking a
  destroyed mutex has no meaning, whichever call does it.
\<close>

record drm_lib =
  calls :: drm_state
  drms :: "nat list"
  global_mut :: bool

definition drm_lib_start :: drm_lib where
  "drm_lib_start = \<lparr>calls = drm_start, drms = [], global_mut = True\<rparr>"

definition drm_init :: "nat \<Rightarrow> drm_lib \<Rightarrow> drm_lib res" where
  "drm_init d L = (if \<not> global_mut L then Inl UseAfterFree else Inr (L\<lparr>drms := List.insert d (drms L)\<rparr>))"

definition drm_destroy :: "nat \<Rightarrow> drm_lib \<Rightarrow> drm_lib" where
  "drm_destroy d L =
     L\<lparr>calls := (calls L)\<lparr>edges := filter (\<lambda>(a, b). a \<noteq> D d \<and> b \<noteq> D d) (edges (calls L))\<rparr>,
       drms := removeAll d (drms L), global_mut := False\<rparr>"

fun drm_of :: "drm_label \<Rightarrow> nat" where
  "drm_of (Wait t d) = d"
| "drm_of (Lock t d) = d"
| "drm_of (Record t d) = d"
| "drm_of (Post t d) = d"

datatype lib_label = Init nat | Call drm_label | Destroy nat

text \<open>A new drm has an address of its own; calls are on drms that exist.\<close>

fun drm_lib_step :: "(rag \<Rightarrow> node \<Rightarrow> node list) \<Rightarrow> lib_label \<Rightarrow> drm_lib \<Rightarrow> drm_lib res option" where
  "drm_lib_step nbrs (Init d) L = (if d \<in> set (drms L) then None else Some (drm_init d L))"
| "drm_lib_step nbrs (Call l) L =
     (if drm_of l \<notin> set (drms L) then None
      else if \<not> global_mut L then Some (Inl UseAfterFree)
      else map_option (\<lambda>s. Inr (L\<lparr>calls := s\<rparr>)) (drm_step nbrs l (calls L)))"
| "drm_lib_step nbrs (Destroy d) L = (if d \<in> set (drms L) then Some (Inr (drm_destroy d L)) else None)"

definition drm_lib_next :: "(rag \<Rightarrow> node \<Rightarrow> node list) \<Rightarrow> lib_label \<Rightarrow> drm_lib res \<Rightarrow> drm_lib res option" where
  "drm_lib_next nbrs l x = (case x of Inl f \<Rightarrow> None | Inr L \<Rightarrow> drm_lib_step nbrs l L)"

text \<open>
  As long as no drm was destroyed, the library is in a state of the calls alone; afterwards the next call on any other
  drm faults.
\<close>

definition lib_inv :: "(rag \<Rightarrow> node \<Rightarrow> node list) \<Rightarrow> drm_lib res \<Rightarrow> bool" where
  "lib_inv nbrs x \<longleftrightarrow> (\<forall>L. x = Inr L \<longrightarrow> global_mut L \<longrightarrow> (lists_successors nbrs \<longrightarrow> drm_inv (calls L)))"

interpretation drm_library: transition_system "drm_lib_next nbrs" "\<lambda>x. x = Inr drm_lib_start" "lib_inv nbrs" for nbrs
proof
  show "lib_inv nbrs s" if "s = Inr drm_lib_start" for s
    using that drm_inv_start by (simp add: lib_inv_def drm_lib_start_def)
  show "lib_inv nbrs s'" if inv: "lib_inv nbrs s" and step: "drm_lib_next nbrs l s = Some s'" for l s s'
  proof -
    obtain L where L: "s = Inr L" "drm_lib_step nbrs l L = Some s'" using step by (auto simp: drm_lib_next_def split: sum.splits)
    then show ?thesis
      using inv drm_inv_step
      by (cases l) (auto simp: lib_inv_def drm_init_def drm_destroy_def split: if_splits)
  qed
qed

lemma drm_destroy_breaks_others:
  assumes "drm_lib_step nbrs (Destroy d) L = Some (Inr L')" and "drm_of l \<in> set (drms L)" and "drm_of l \<noteq> d"
  shows "drm_lib_step nbrs (Call l) L' = Some (Inl UseAfterFree)"
  using assms by (auto simp: drm_destroy_def split: if_splits)

section \<open>Properties\<close>

text \<open>
  C3: whatever the order of the calls and of the moments at which mutexes are handed over, the threads blocked on
  mutexes never wait for each other in a circle.
\<close>

theorem drm_never_deadlocks:
  assumes "lists_successors nbrs" and "run (drm_step nbrs) ls drm_start = Some s"
  shows "acyclic (waits_for s)"
proof -
  have inv: "drm_inv s" using assms by (rule drm_reachable_inv)
  show ?thesis
    unfolding acyclic_def
  proof (intro allI notI)
    fix t assume c: "(t, t) \<in> (waits_for s)\<^sup>+"
    then obtain t' where "(t, t') \<in> waits_for s" by (meson tranclD)
    then obtain d where "phase_of s t = Blocked d" by (auto simp: waits_for_def)
    from waits_for_edges [OF inv c this] show False using drm_inv_edges(4) [OF inv] by (auto simp: acyclic_def)
  qed
qed

text \<open>Two threads hold a mutex each; the first waits for the second, which then asks for the mutex of the first.\<close>

definition crossed_calls :: "drm_label list" where
  "crossed_calls = [Wait 0 0, Lock 0 0, Record 0 0, Wait 1 1, Lock 1 1, Record 1 1, Wait 0 1, Wait 1 0]"

lemma crossed_run: "\<exists>s. run (drm_step edge_order) crossed_calls drm_start = Some s \<and> (0, 1) \<in> waits_for s
    \<and> phase_of s 1 = Running"
  by (simp add: crossed_calls_def drm_start_def drm_wait_check_def drm_wait_record_def graph_add_edge_def
      graph_remove_edge_def graph_adjacent_def edge_order_def waits_for_def numeral_eq_Suc Let_def)

theorem drm_never_deadlocks_witness:
  "\<exists>s. run (drm_step edge_order) crossed_calls drm_start = Some s \<and> (0, 1) \<in> waits_for s \<and> acyclic (waits_for s)"
  using crossed_run drm_never_deadlocks [OF edge_order_lists, of crossed_calls] by blast

text \<open>
  C38: \<^verbatim>\<open>drm_wait\<close> always decides, and it refuses exactly the waits that would close a cycle: the thread is
  sent to the mutex if and only if the resource does not already depend on it.
\<close>

theorem drm_wait_refuses_cycles:
  assumes "lists_successors nbrs" and "run (drm_step nbrs) ls drm_start = Some s" and "phase_of s t = Running"
  shows "\<exists>s'. drm_wait_check nbrs t d s = Some s'
    \<and> (phase_of s' t = Blocked d \<longleftrightarrow> (D d, T t) \<notin> (set (edges s))\<^sup>*)
    \<and> (phase_of s' t \<noteq> Blocked d \<longrightarrow> set (edges s') = set (edges s) \<and> phase_of s' = phase_of s)"
proof -
  have inv: "drm_inv s" using assms(1,2) by (rule drm_reachable_inv)
  let ?g = "graph_add_edge (T t) (D d) (edges s)"
  have g: "set ?g = insert (T t, D d) (set (edges s))" by (simp add: graph_add_edge_def)
  have sv: "single_valued (set ?g)" using drm_inv_add_wait [OF inv assms(3)] g by simp
  note cc = contains_cycle_from_null [OF sv assms(1), of "T t"]
  have no: "(T t, D d) \<notin> set (edges s)" using drm_inv_edges(1) [OF inv] assms(3) by simp
  have same: "set (graph_remove_edge (T t) (D d) ?g) = set (edges s)"
    using no g by (auto simp: graph_remove_edge_def)
  have cyc: "reaches_cycle (set ?g) (T t) \<longleftrightarrow> (D d, T t) \<in> (set (edges s))\<^sup>*"
  proof
    assume "reaches_cycle (set ?g) (T t)"
    then have "\<not> acyclic (set ?g)" by (auto simp: reaches_cycle_def acyclic_def)
    then show "(D d, T t) \<in> (set (edges s))\<^sup>*" using drm_inv_edges(4) [OF inv] g by (simp add: acyclic_insert)
  next
    assume "(D d, T t) \<in> (set (edges s))\<^sup>*"
    then have "(D d, T t) \<in> (set ?g)\<^sup>*" using g by (metis rtrancl_mono subsetD subset_insertI)
    moreover have "(T t, D d) \<in> set ?g" using g by simp
    ultimately show "reaches_cycle (set ?g) (T t)" by (metis reaches_cycle_def rtrancl.rtrancl_refl rtrancl_into_trancl2)
  qed
  have adj: "graph_adjacent ?g (D d) (T t) \<Longrightarrow> (D d, T t) \<in> (set (edges s))\<^sup>*"
    using g by (auto simp: graph_adjacent_def)
  show ?thesis
    using cc cyc adj same assms(3) by (auto simp: drm_wait_check_def Let_def)
qed

theorem drm_wait_refuses_cycles_witness:
  "\<exists>s'. drm_wait_check edge_order 1 0 drm_start = Some s' \<and> phase_of s' 1 = Blocked 0"
proof -
  have "run (drm_step edge_order) [] drm_start = Some drm_start" "phase_of drm_start 1 = Running"
    by (simp_all add: drm_start_def)
  from drm_wait_refuses_cycles [OF edge_order_lists this, of 0] show ?thesis
    by (auto simp: drm_start_def dest: rtranclD)
qed

text \<open>A graph with a vertex that has two successors.\<close>

definition branching :: rag where
  "branching = [(T 0, D 0), (T 0, D 1), (D 1, T 0)]"

lemma branching_successors [simp]:
  "edge_order branching (T 0) = [D 0, D 1]" "edge_order branching (D 0) = []" "edge_order branching (D 1) = [T 0]"
  "edge_order branching (D (Suc 0)) = [T 0]"
  by (simp_all add: branching_def edge_order_def)

lemma branching_from_D1: "contains_cycle (edge_order branching) fuel (D 1) None = None"
proof (induction fuel rule: less_induct)
  case (less fuel)
  consider "fuel < 6" | f where "fuel = 6 + f"
    using le_Suc_ex [of 6 fuel] not_less by blast
  then show ?case
  proof cases
    case 1
    then have "fuel = 0 \<or> fuel = 1 \<or> fuel = 2 \<or> fuel = 3 \<or> fuel = 4 \<or> fuel = 5" by auto
    then show ?thesis by (auto simp: numeral_eq_Suc)
  next
    case (2 f)
    then show ?thesis using less.IH [of "Suc f"] less.IH [of f] less.IH [of "Suc (Suc f)"]
      by (simp add: numeral_eq_Suc)
  qed
qed

text \<open>
  On a graph in which a vertex has two successors the search need not end: with the edges from
  \<open>T 0\<close> to \<open>D 0\<close> and \<open>D 1\<close> and from \<open>D 1\<close> back, it runs out of any fuel, since
  the set of visited vertices is dropped after \<open>D 0\<close>.
\<close>

theorem contains_cycle_branching_diverges: "contains_cycle (edge_order branching) fuel (T 0) None = None"
proof -
  consider "fuel < 4" | f where "fuel = 4 + f"
    using le_Suc_ex [of 4 fuel] not_less by blast
  then show ?thesis
  proof cases
    case 1
    then have "fuel = 0 \<or> fuel = 1 \<or> fuel = 2 \<or> fuel = 3" by auto
    then show ?thesis by (auto simp: numeral_eq_Suc)
  next
    case (2 f)
    then show ?thesis using branching_from_D1 [of "Suc f"] branching_from_D1 [of f] by (simp add: numeral_eq_Suc)
  qed
qed

end
