(* ===== verification/MapReduce.thy ===== *)
theory MapReduce
  imports Prelude
begin

text \<open>
  \<^verbatim>\<open>mapreduce/mapreduce.c\<close>: the pipes between splitters, mappers and the reducer. A process is its descriptor
  table; \<^verbatim>\<open>fork\<close> copies it, \<^verbatim>\<open>dup2\<close> redirects, \<^verbatim>\<open>exec\<close> drops what was opened with \<^verbatim>\<open>O_CLOEXEC\<close>. The module of
  \<^verbatim>\<open>utils.h\<close> that remembers descriptors is documented to close all that were added. Which calls fail, which
  numbers new descriptors get and how the children end is the environment's choice.
\<close>

section \<open>Descriptor tables\<close>

datatype object = Std nat | OutFile string | ReadEnd nat | WriteEnd nat

text \<open>With each object, whether it is closed by \<^verbatim>\<open>exec\<close>.\<close>

type_synonym table = "nat \<rightharpoonup> object \<times> bool"

definition dup2 :: "nat \<Rightarrow> nat \<Rightarrow> table \<Rightarrow> table" where
  "dup2 old new t = (if old = new then t else t(new := map_option (\<lambda>(ob, _). (ob, False)) (t old)))"

definition descriptors_closeall :: "nat list \<Rightarrow> table \<Rightarrow> table" where
  "descriptors_closeall added t = (\<lambda>fd. if fd \<in> set added then None else t fd)"

definition exec_table :: "table \<Rightarrow> table" where
  "exec_table t = (\<lambda>fd. case t fd of Some (ob, False) \<Rightarrow> Some (ob, False) | _ \<Rightarrow> None)"

datatype fate = Executes table | EndsWith nat

record child =
  command :: "string list"
  fate_of :: fate

record job_env =
  output_opens :: bool
  pipe_opens :: "nat \<Rightarrow> bool"
  fork_works :: "nat \<Rightarrow> bool"           \<comment> \<open>by the number of the call\<close>
  dup_works :: "nat \<Rightarrow> nat \<Rightarrow> bool"     \<comment> \<open>in the child of that number, onto that descriptor\<close>
  exec_works :: "nat \<Rightarrow> bool"
  new_fds :: "nat \<Rightarrow> nat"              \<comment> \<open>the descriptors handed out, in order\<close>

record mapreduce =
  table_of :: table
  added :: "nat list"
  opened :: nat                        \<comment> \<open>how many descriptors were handed out\<close>
  pipes :: "(nat \<times> nat) list"
  children :: "child list"

section \<open>Starting processes\<close>

definition exec_process :: "job_env \<Rightarrow> string \<Rightarrow> nat \<Rightarrow> nat \<Rightarrow> mapreduce \<Rightarrow> mapreduce res" where
  "exec_process e process new_stdin new_stdout m =
     (let k = length (children m) in
      if \<not> fork_works e k then Inl (ProcessExit 2)
      else Inr (m\<lparr>children := children m @ [\<lparr>command = [process],
        fate_of =
          (if \<not> dup_works e k 0 then EndsWith 2
           else if \<not> dup_works e k 1 then EndsWith 2
           else let t = descriptors_closeall (added m) (dup2 new_stdout 1 (dup2 new_stdin 0 (table_of m))) in
           if exec_works e k then Executes (exec_table t) else EndsWith 1)\<rparr>]\<rparr>))"

text \<open>\<^verbatim>\<open>snprintf\<close> into ten bytes.\<close>

fun decimal :: "nat \<Rightarrow> string" where
  "decimal n = (if n < 10 then [char_of (48 + n)] else decimal (n div 10) @ [char_of (48 + n mod 10)])"

declare decimal.simps [simp del]

definition int_arg :: "nat \<Rightarrow> string" where
  "int_arg n = take 9 (decimal n)"

definition exec_splitter :: "job_env \<Rightarrow> string \<Rightarrow> nat \<Rightarrow> nat \<Rightarrow> nat \<Rightarrow> mapreduce \<Rightarrow> mapreduce res" where
  "exec_splitter e file num_piece piece_num new_stdout m =
     (let k = length (children m) in
      if \<not> fork_works e k then Inl (ProcessExit 2)
      else Inr (m\<lparr>children := children m @ [\<lparr>command = [''./splitter'', file, int_arg num_piece, int_arg piece_num],
        fate_of =
          (if \<not> dup_works e k 1 then EndsWith 2
           else let t = descriptors_closeall (added m) (dup2 new_stdout 1 (table_of m)) in
           if exec_works e k then Executes (exec_table t) else EndsWith 1)\<rparr>]\<rparr>))"

section \<open>The main program\<close>

definition open_output :: "job_env \<Rightarrow> string \<Rightarrow> mapreduce \<Rightarrow> (nat \<times> mapreduce) res" where
  "open_output e file m =
     (if \<not> output_opens e then Inl (ProcessExit 1)
      else let fd = new_fds e (opened m) in
        Inr (fd, m\<lparr>table_of := (table_of m)(fd \<mapsto> (OutFile file, False)), added := added m @ [fd], opened := Suc (opened m)\<rparr>))"

definition open_pipe :: "job_env \<Rightarrow> mapreduce \<Rightarrow> ((nat \<times> nat) \<times> mapreduce) res" where
  "open_pipe e m =
     (let p = length (pipes m) in
      if \<not> pipe_opens e p then Inl (ProcessExit 1)
      else let r = new_fds e (opened m); w = new_fds e (Suc (opened m)) in
        Inr ((r, w), m\<lparr>table_of := (table_of m)(r \<mapsto> (ReadEnd p, True), w \<mapsto> (WriteEnd p, True)), added := added m @ [r, w],
               opened := opened m + 2, pipes := pipes m @ [(r, w)]\<rparr>))"

text \<open>The loops of \<^verbatim>\<open>main\<close>; \<open>k\<close> rounds are left.\<close>

fun open_pipes :: "job_env \<Rightarrow> nat \<Rightarrow> mapreduce \<Rightarrow> mapreduce res" where
  "open_pipes e 0 m = Inr m"
| "open_pipes e (Suc k) m = bindE (open_pipe e m) (\<lambda>(_, m). open_pipes e k m)"

fun start_splitters :: "job_env \<Rightarrow> string \<Rightarrow> nat \<Rightarrow> nat list \<Rightarrow> mapreduce \<Rightarrow> mapreduce res" where
  "start_splitters e file n [] m = Inr m"
| "start_splitters e file n (i # is) m =
     bindE (exec_splitter e file n i (snd (pipes m ! i)) m) (\<lambda>m. start_splitters e file n is m)"

fun start_mappers :: "job_env \<Rightarrow> string \<Rightarrow> nat \<Rightarrow> nat list \<Rightarrow> mapreduce \<Rightarrow> mapreduce res" where
  "start_mappers e process mapper_stdout [] m = Inr m"
| "start_mappers e process mapper_stdout (i # is) m =
     bindE (exec_process e process (fst (pipes m ! i)) mapper_stdout m) (\<lambda>m. start_mappers e process mapper_stdout is m)"

definition mapreduce_start :: "table \<Rightarrow> mapreduce" where
  "mapreduce_start t = \<lparr>table_of = t, added = [], opened = 0, pipes = [], children = []\<rparr>"

definition mapreduce_main :: "job_env \<Rightarrow> string list \<Rightarrow> table \<Rightarrow> mapreduce res" where
  "mapreduce_main e argv t =
     (if length argv < 6 then Inl NullDeref
      else let n = nat (atoi (argv ! 5)) in
      bindE (open_output e (argv ! 2) (mapreduce_start t)) (\<lambda>(output_fd, m).
      bindE (open_pipes e n m) (\<lambda>m.
      bindE (open_pipe e m) (\<lambda>((reducer_in, reducer_out), m).
      bindE (start_splitters e (argv ! 1) n [0..<n] m) (\<lambda>m.
      bindE (start_mappers e (argv ! 3) reducer_out [0..<n] m) (\<lambda>m.
      bindE (exec_process e (argv ! 4) reducer_in output_fd m) (\<lambda>m.
        Inr (m\<lparr>table_of := descriptors_closeall (added m) (table_of m)\<rparr>))))))))"

section \<open>Waiting\<close>

text \<open>How the children end: \<open>None\<close> when \<^verbatim>\<open>waitpid\<close> fails. The reducer is waited for first and reported last.\<close>

datatype exit_status = Exited nat | Signalled

definition report :: "string \<Rightarrow> exit_status \<Rightarrow> string list" where
  "report exe st = (case st of Exited c \<Rightarrow> if c \<noteq> 0 then [exe @ '' exited with status '' @ decimal c @ [CHR 0x0A]] else [] | Signalled \<Rightarrow> [])"

fun wait_mappers :: "string \<Rightarrow> exit_status option list \<Rightarrow> string list res" where
  "wait_mappers exe [] = Inr []"
| "wait_mappers exe (None # ss) = Inl (ProcessExit 3)"
| "wait_mappers exe (Some st # ss) = bindE (wait_mappers exe ss) (\<lambda>out. Inr (report exe st @ out))"

definition wait_all :: "string \<Rightarrow> string \<Rightarrow> exit_status option list \<Rightarrow> exit_status option \<Rightarrow> string list res" where
  "wait_all mapper reducer mappers reducer_status =
     (case reducer_status of
        None \<Rightarrow> Inl (ProcessExit 3)
      | Some st \<Rightarrow> bindE (wait_mappers mapper mappers) (\<lambda>out. Inr (out @ report reducer st)))"

lemma wait_all_reports:
  "wait_all mapper reducer (map Some ss) (Some st) = Inr (concat (map (report mapper) ss) @ report reducer st)"
proof -
  have "wait_mappers mapper (map Some ss) = Inr (concat (map (report mapper) ss))" by (induction ss) simp_all
  then show ?thesis by (simp add: wait_all_def)
qed

section \<open>Who holds which end\<close>

text \<open>All calls succeed; new descriptors are new; the program is started with its standard streams, which \<^verbatim>\<open>exec\<close> keeps.\<close>

definition all_work :: "job_env \<Rightarrow> table \<Rightarrow> bool" where
  "all_work e t \<longleftrightarrow> output_opens e \<and> (\<forall>k. pipe_opens e k \<and> fork_works e k \<and> exec_works e k \<and> (\<forall>fd. dup_works e k fd))
     \<and> inj (new_fds e) \<and> (\<forall>k. t (new_fds e k) = None) \<and> t 0 \<noteq> None \<and> t 1 \<noteq> None \<and> (\<forall>fd ob c. t fd = Some (ob, c) \<longrightarrow> \<not> c)"

text \<open>After the output and \<open>k\<close> pipes were opened.\<close>

definition plumbed :: "job_env \<Rightarrow> table \<Rightarrow> string \<Rightarrow> nat \<Rightarrow> mapreduce \<Rightarrow> bool" where
  "plumbed e t file k m \<longleftrightarrow> opened m = 1 + 2 * k \<and> added m = map (new_fds e) [0..<1 + 2 * k]
     \<and> pipes m = map (\<lambda>i. (new_fds e (1 + 2 * i), new_fds e (2 + 2 * i))) [0..<k]
     \<and> (\<forall>fd. fd \<notin> new_fds e ` {..<1 + 2 * k} \<longrightarrow> table_of m fd = t fd)
     \<and> table_of m (new_fds e 0) = Some (OutFile file, False)
     \<and> (\<forall>i < k. table_of m (new_fds e (1 + 2 * i)) = Some (ReadEnd i, True) \<and> table_of m (new_fds e (2 + 2 * i)) = Some (WriteEnd i, True))"

lemma plumbed_output:
  assumes "all_work e t"
  shows "\<exists>m. open_output e file (mapreduce_start t) = Inr (new_fds e 0, m) \<and> plumbed e t file 0 m \<and> children m = []"
  using assms by (auto simp: open_output_def plumbed_def mapreduce_start_def all_work_def Let_def lessThan_Suc)

lemma plumbed_pipe:
  assumes "all_work e t" and "plumbed e t file k m"
  shows "\<exists>m'. open_pipe e m = Inr ((new_fds e (1 + 2 * k), new_fds e (2 + 2 * k)), m') \<and> plumbed e t file (Suc k) m'
    \<and> children m' = children m"
proof -
  have inj: "new_fds e i = new_fds e j \<longleftrightarrow> i = j" for i j using assms(1) by (auto simp: all_work_def inj_def)
  have two: "2 * Suc k = Suc (Suc (2 * k))" by simp
  show ?thesis
    using assms unfolding open_pipe_def plumbed_def all_work_def
    by (auto simp: Let_def inj two less_Suc_eq lessThan_Suc image_iff)
qed

lemma plumbed_pipes:
  "all_work e t \<Longrightarrow> plumbed e t file k m \<Longrightarrow>
     \<exists>m'. open_pipes e n m = Inr m' \<and> plumbed e t file (k + n) m' \<and> children m' = children m"
proof (induction n arbitrary: k m)
  case (Suc n)
  obtain m1 where "open_pipe e m = Inr ((new_fds e (1 + 2 * k), new_fds e (2 + 2 * k)), m1)" "plumbed e t file (Suc k) m1"
    "children m1 = children m" using plumbed_pipe [OF Suc.prems] by blast
  then show ?case using Suc.IH [OF Suc.prems(1), of "Suc k" m1] by auto
qed auto

lemma exec_keeps: "(\<And>ob c. v = Some (ob, c) \<Longrightarrow> \<not> c) \<Longrightarrow> (case v of Some (ob, False) \<Rightarrow> Some (ob, False) | _ \<Rightarrow> None) = v"
  by (auto split: option.splits bool.splits)

text \<open>The table of a child: what it inherited, with the two descriptors redirected and all others closed.\<close>

lemma child_table:
  assumes "all_work e t" and "plumbed e t file k m" and "table_of m new_out = Some (out_ob, c)" and "table_of m new_in = Some (in_ob, d)"
    and "new_out \<in> new_fds e ` {..<1 + 2 * k}" and "new_in \<in> new_fds e ` {..<1 + 2 * k}"
  shows "exec_table (descriptors_closeall (added m) (dup2 new_out 1 (dup2 new_in 0 (table_of m)))) = t(0 \<mapsto> (in_ob, False), 1 \<mapsto> (out_ob, False))"
    and "exec_table (descriptors_closeall (added m) (dup2 new_out 1 (table_of m))) = t(1 \<mapsto> (out_ob, False))"
proof -
  have kept: "\<not> c" if "t fd = Some (ob, c)" for fd ob c using assms(1) that unfolding all_work_def by blast
  have "fd \<notin> range (new_fds e)" if "t fd \<noteq> None" for fd using assms(1) that by (auto simp: all_work_def)
  then have std: "0 \<notin> range (new_fds e)" "1 \<notin> range (new_fds e)" using assms(1) by (simp_all add: all_work_def)
  have "new_in \<in> range (new_fds e)" "new_out \<in> range (new_fds e)" using assms(5,6) by auto
  then have ne: "new_in \<noteq> 0" "new_in \<noteq> 1" "new_out \<noteq> 0" "new_out \<noteq> 1" using std by metis+
  have set: "set (added m) = new_fds e ` {..<1 + 2 * k}" using assms(2) unfolding plumbed_def by (simp add: atLeast0LessThan del: upt_Suc)
  have closed: "exec_table (descriptors_closeall (added m) (\<lambda>fd. if fd = 0 then x else if fd = 1 then y else table_of m fd))
      = (\<lambda>fd. if fd = 0 then x else if fd = 1 then y else t fd)" (is "exec_table (descriptors_closeall _ ?f) = ?g")
    if "x \<in> {t 0, Some (in_ob, False)}" "y = Some (out_ob, False)" for x y
  proof
    fix fd
    have "\<not> c" if "?g fd = Some (ob, c)" for ob c using that \<open>x \<in> _\<close> \<open>y = _\<close> kept [of 0 ob c] kept [of fd ob c] by (auto split: if_splits)
    then have g: "(case ?g fd of Some (ob, False) \<Rightarrow> Some (ob, False) | _ \<Rightarrow> None) = ?g fd" by (rule exec_keeps)
    have "descriptors_closeall (added m) ?f fd = ?g fd"
    proof (cases "fd \<in> new_fds e ` {..<1 + 2 * k}")
      case True
      then have "fd \<in> range (new_fds e)" by auto
      then have "fd \<noteq> 0" "fd \<noteq> 1" using std by metis+
      moreover have "t fd = None" using assms(1) \<open>fd \<in> range (new_fds e)\<close> by (auto simp: all_work_def)
      ultimately show ?thesis using True by (simp add: descriptors_closeall_def set)
    next
      case False
      then have "table_of m fd = t fd" using assms(2) by (simp add: plumbed_def)
      then show ?thesis using False by (simp add: descriptors_closeall_def set)
    qed
    then show "exec_table (descriptors_closeall (added m) ?f) fd = ?g fd" unfolding exec_table_def using g by (simp only:)
  qed
  have both: "dup2 new_out 1 (dup2 new_in 0 (table_of m)) = (\<lambda>fd. if fd = 0 then Some (in_ob, False) else if fd = 1 then Some (out_ob, False) else table_of m fd)"
    using ne assms(3,4) by (auto simp: dup2_def fun_eq_iff)
  show "exec_table (descriptors_closeall (added m) (dup2 new_out 1 (dup2 new_in 0 (table_of m)))) = t(0 \<mapsto> (in_ob, False), 1 \<mapsto> (out_ob, False))"
    unfolding both by (subst closed) (auto simp: fun_eq_iff)
  have "0 \<notin> new_fds e ` {..<1 + 2 * k}" using std(1) by blast
  then have "table_of m 0 = t 0" using assms(2) by (simp add: plumbed_def)
  then have one: "dup2 new_out 1 (table_of m) = (\<lambda>fd. if fd = 0 then t 0 else if fd = 1 then Some (out_ob, False) else table_of m fd)"
    using ne assms(3) by (auto simp: dup2_def fun_eq_iff)
  show "exec_table (descriptors_closeall (added m) (dup2 new_out 1 (table_of m))) = t(1 \<mapsto> (out_ob, False))"
    unfolding one by (subst closed) (auto simp: fun_eq_iff)
qed

definition splitter :: "table \<Rightarrow> string \<Rightarrow> nat \<Rightarrow> nat \<Rightarrow> child" where
  "splitter t file n i = \<lparr>command = [''./splitter'', file, int_arg n, int_arg i], fate_of = Executes (t(1 \<mapsto> (WriteEnd i, False)))\<rparr>"

definition filter_process :: "table \<Rightarrow> string \<Rightarrow> nat \<Rightarrow> object \<Rightarrow> child" where
  "filter_process t exe p out = \<lparr>command = [exe], fate_of = Executes (t(0 \<mapsto> (ReadEnd p, False), 1 \<mapsto> (out, False)))\<rparr>"

lemma plumbed_children [simp]: "plumbed e t file k (m\<lparr>children := cs\<rparr>) = plumbed e t file k m"
  by (simp add: plumbed_def)

lemma plumbed_ends:
  assumes "plumbed e t file k m" and "i < k"
  shows "pipes m ! i = (new_fds e (1 + 2 * i), new_fds e (2 + 2 * i))"
    and "table_of m (new_fds e (1 + 2 * i)) = Some (ReadEnd i, True)" and "table_of m (new_fds e (2 + 2 * i)) = Some (WriteEnd i, True)"
    and "new_fds e (1 + 2 * i) \<in> new_fds e ` {..<1 + 2 * k}" and "new_fds e (2 + 2 * i) \<in> new_fds e ` {..<1 + 2 * k}"
  using assms by (auto simp: plumbed_def)

lemma start_splitters_ok:
  assumes "all_work e t"
  shows "plumbed e t out k m \<Longrightarrow> \<forall>i \<in> set is. i < k \<Longrightarrow>
    start_splitters e file n is m = Inr (m\<lparr>children := children m @ map (splitter t file n) is\<rparr>)"
proof (induction "is" arbitrary: m)
  case (Cons i "is")
  note p = plumbed_ends [OF Cons.prems(1), of i]
  have "exec_splitter e file n i (snd (pipes m ! i)) m = Inr (m\<lparr>children := children m @ [splitter t file n i]\<rparr>)"
    using assms Cons.prems(2) p child_table(2) [OF assms Cons.prems(1) p(3,2,5,4)]
    by (simp add: exec_splitter_def splitter_def all_work_def)
  then show ?case using Cons.IH [of "m\<lparr>children := children m @ [splitter t file n i]\<rparr>"] Cons.prems by simp
qed simp

lemma exec_process_ok:
  assumes "all_work e t" and "plumbed e t file k m" and "i < k" and "table_of m new_out = Some (ob, c)"
    and "new_out \<in> new_fds e ` {..<1 + 2 * k}"
  shows "exec_process e exe (new_fds e (1 + 2 * i)) new_out m = Inr (m\<lparr>children := children m @ [filter_process t exe i ob]\<rparr>)"
  using assms(1) child_table(1) [OF assms(1,2,4) plumbed_ends(2) [OF assms(2,3)] assms(5) plumbed_ends(4) [OF assms(2,3)]]
  by (simp add: exec_process_def filter_process_def all_work_def)

lemma start_mappers_ok:
  assumes "all_work e t"
  shows "plumbed e t file (Suc n) m \<Longrightarrow> \<forall>i \<in> set is. i < n \<Longrightarrow>
    start_mappers e exe (new_fds e (2 + 2 * n)) is m = Inr (m\<lparr>children := children m @ map (\<lambda>i. filter_process t exe i (WriteEnd n)) is\<rparr>)"
proof (induction "is" arbitrary: m)
  case (Cons i "is")
  note p = plumbed_ends [OF Cons.prems(1)]
  have "exec_process e exe (fst (pipes m ! i)) (new_fds e (2 + 2 * n)) m = Inr (m\<lparr>children := children m @ [filter_process t exe i (WriteEnd n)]\<rparr>)"
    using exec_process_ok [OF assms Cons.prems(1), of i "new_fds e (2 + 2 * n)" "WriteEnd n" True exe] p(1) [of i] p(3,5) [of n] Cons.prems(2)
    by simp
  then show ?case using Cons.IH [of "m\<lparr>children := children m @ [filter_process t exe i (WriteEnd n)]\<rparr>"] Cons.prems by simp
qed simp

text \<open>The whole pipeline, and what is left open in the program itself.\<close>

lemma mapreduce_wired:
  assumes "all_work e t" and "5 < length argv" and "n = nat (atoi (argv ! 5))"
  shows "\<exists>m. mapreduce_main e argv t = Inr m \<and> table_of m = t
    \<and> children m = map (splitter t (argv ! 1) n) [0..<n] @ map (\<lambda>i. filter_process t (argv ! 3) i (WriteEnd n)) [0..<n]
        @ [filter_process t (argv ! 4) n (OutFile (argv ! 2))]"
proof -
  let ?f = "new_fds e"
  obtain m1 where 1: "open_output e (argv ! 2) (mapreduce_start t) = Inr (?f 0, m1)" "plumbed e t (argv ! 2) 0 m1" "children m1 = []"
    using plumbed_output [OF assms(1)] by blast
  obtain m2 where 2: "open_pipes e n m1 = Inr m2" "plumbed e t (argv ! 2) n m2" "children m2 = []"
    using plumbed_pipes [OF assms(1) 1(2), of n] 1(3) by auto
  obtain m3 where 3: "open_pipe e m2 = Inr ((?f (1 + 2 * n), ?f (2 + 2 * n)), m3)" "plumbed e t (argv ! 2) (Suc n) m3" "children m3 = []"
    using plumbed_pipe [OF assms(1) 2(2)] 2(3) by auto
  define m4 where "m4 = m3\<lparr>children := map (splitter t (argv ! 1) n) [0..<n]\<rparr>"
  have 4: "start_splitters e (argv ! 1) n [0..<n] m3 = Inr m4" "plumbed e t (argv ! 2) (Suc n) m4"
    using start_splitters_ok [OF assms(1) 3(2), of "[0..<n]"] 3(2,3) by (auto simp: m4_def)
  define m5 where "m5 = m4\<lparr>children := children m4 @ map (\<lambda>i. filter_process t (argv ! 3) i (WriteEnd n)) [0..<n]\<rparr>"
  have 5: "start_mappers e (argv ! 3) (?f (2 + 2 * n)) [0..<n] m4 = Inr m5" "plumbed e t (argv ! 2) (Suc n) m5"
    using start_mappers_ok [OF assms(1) 4(2), of "[0..<n]"] 4(2) by (auto simp: m5_def)
  define m6 where "m6 = m5\<lparr>children := children m5 @ [filter_process t (argv ! 4) n (OutFile (argv ! 2))]\<rparr>"
  have "table_of m5 (?f 0) = Some (OutFile (argv ! 2), False)" "?f 0 \<in> ?f ` {..<1 + 2 * Suc n}"
    using 5(2) by (auto simp: plumbed_def)
  from exec_process_ok [OF assms(1) 5(2) lessI this]
  have 6: "exec_process e (argv ! 4) (?f (1 + 2 * n)) (?f 0) m5 = Inr m6" "plumbed e t (argv ! 2) (Suc n) m6"
    using 5(2) by (auto simp: m6_def)
  have "descriptors_closeall (added m6) (table_of m6) = t"
  proof
    fix fd
    have "set (added m6) = ?f ` {..<1 + 2 * Suc n}" using 6(2) by (auto simp: plumbed_def atLeast0LessThan simp del: upt_Suc)
    moreover have "t fd = None" if "fd \<in> ?f ` {..<1 + 2 * Suc n}" using assms(1) that by (auto simp: all_work_def)
    moreover have "table_of m6 fd = t fd" if "fd \<notin> ?f ` {..<1 + 2 * Suc n}" using 6(2) that by (auto simp: plumbed_def)
    ultimately show "descriptors_closeall (added m6) (table_of m6) fd = t fd" by (simp add: descriptors_closeall_def)
  qed
  moreover have "children m6 = map (splitter t (argv ! 1) n) [0..<n] @ map (\<lambda>i. filter_process t (argv ! 3) i (WriteEnd n)) [0..<n]
        @ [filter_process t (argv ! 4) n (OutFile (argv ! 2))]" by (simp add: m6_def m5_def m4_def)
  moreover have "mapreduce_main e argv t = Inr (m6\<lparr>table_of := descriptors_closeall (added m6) (table_of m6)\<rparr>)"
    using assms(2) 1(1) 2(1) 3(1) 4(1) 5(1) 6(1) by (simp add: mapreduce_main_def assms(3) [symmetric])
  ultimately show ?thesis by (intro exI [of _ "m6\<lparr>table_of := t\<rparr>"]) simp
qed

text \<open>The ends of pipes that a process holds.\<close>

definition holds :: "object \<Rightarrow> child \<Rightarrow> bool" where
  "holds ob c \<longleftrightarrow> (case fate_of c of Executes t \<Rightarrow> (\<exists>fd. t fd = Some (ob, False)) | EndsWith _ \<Rightarrow> False)"

definition standard :: "table \<Rightarrow> bool" where
  "standard t \<longleftrightarrow> (\<forall>fd ob c. t fd = Some (ob, c) \<longrightarrow> (\<exists>i. ob = Std i))"

lemma holds_splitter: "standard t \<Longrightarrow> \<forall>j. ob \<noteq> Std j \<Longrightarrow> holds ob (splitter t file n i) \<longleftrightarrow> ob = WriteEnd i"
  by (auto simp: holds_def splitter_def standard_def)

lemma holds_filter:
  assumes "standard t" and "\<forall>j. ob \<noteq> Std j"
  shows "holds ob (filter_process t exe p out) \<longleftrightarrow> ob = ReadEnd p \<or> ob = out"
proof -
  have "(\<exists>fd. (t(0 \<mapsto> (ReadEnd p, False), 1 \<mapsto> (out, False))) fd = Some (ob, False)) \<longleftrightarrow> ob = ReadEnd p \<or> ob = out"
    using assms by (auto simp: standard_def split: if_splits intro: exI [of _ 0] exI [of _ 1])
  then show ?thesis by (simp add: holds_def filter_process_def)
qed

section \<open>Properties\<close>

text \<open>
  C18: when no call fails, the program ends up with the descriptors it had, and of the processes it starts the splitter
  of a mapper is the only one that holds the write end of its pipe, the mapper the only one that holds the read end; the
  mappers hold the write end of the reducer's pipe and the reducer, which alone holds its read end, writes the output file: so a
  reader sees the end of its input as soon as the writers before it have ended.
\<close>

theorem mapreduce_pipes:
  assumes "all_work e t" and "5 < length argv" and "n = nat (atoi (argv ! 5))"
    and "standard t"
  shows "\<exists>m ss ps r. mapreduce_main e argv t = Inr m \<and> table_of m = t \<and> children m = ss @ ps @ [r] \<and> length ss = n \<and> length ps = n
    \<and> (\<forall>c \<in> set (ss @ ps @ [r]). \<forall>i < n. (holds (WriteEnd i) c \<longleftrightarrow> c = ss ! i) \<and> (holds (ReadEnd i) c \<longleftrightarrow> c = ps ! i))
    \<and> (\<forall>c \<in> set (ss @ ps @ [r]). (holds (WriteEnd n) c \<longleftrightarrow> c \<in> set ps) \<and> (holds (ReadEnd n) c \<longleftrightarrow> c = r)
         \<and> (holds (OutFile (argv ! 2)) c \<longleftrightarrow> c = r))"
proof -
  let ?ss = "map (splitter t (argv ! 1) n) [0..<n]" and ?ps = "map (\<lambda>i. filter_process t (argv ! 3) i (WriteEnd n)) [0..<n]"
    and ?r = "filter_process t (argv ! 4) n (OutFile (argv ! 2))"
  obtain m where m: "mapreduce_main e argv t = Inr m" "table_of m = t" "children m = ?ss @ ?ps @ [?r]"
    using mapreduce_wired [OF assms(1-3)] by blast
  note h = holds_splitter [OF assms(4)] holds_filter [OF assms(4)]
  have cases: "(\<exists>j < n. c = ?ss ! j) \<or> (\<exists>j < n. c = ?ps ! j) \<or> c = ?r" if "c \<in> set (?ss @ ?ps @ [?r])" for c
    using that by auto
  have "(holds (WriteEnd i) c \<longleftrightarrow> c = ?ss ! i) \<and> (holds (ReadEnd i) c \<longleftrightarrow> c = ?ps ! i)"
    if c: "c \<in> set (?ss @ ?ps @ [?r])" and i: "i < n" for c i
  proof -
    have own: "holds (WriteEnd i) (?ss ! i)" "holds (ReadEnd i) (?ps ! i)" using i by (simp_all add: h)
    show ?thesis using cases [OF c] own i by (auto simp: h)
  qed
  moreover have "(holds (WriteEnd n) c \<longleftrightarrow> c \<in> set ?ps) \<and> (holds (ReadEnd n) c \<longleftrightarrow> c = ?r) \<and> (holds (OutFile (argv ! 2)) c \<longleftrightarrow> c = ?r)"
    if c: "c \<in> set (?ss @ ?ps @ [?r])" for c
  proof -
    have own: "holds (ReadEnd n) ?r" "holds (OutFile (argv ! 2)) ?r" "\<forall>c \<in> set ?ps. holds (WriteEnd n) c" by (simp_all add: h)
    show ?thesis using cases [OF c] own by (auto simp: h)
  qed
  ultimately show ?thesis using m by (intro exI [of _ m] exI [of _ ?ss] exI [of _ ?ps] exI [of _ ?r]) simp
qed

definition easy_env :: job_env where
  "easy_env = \<lparr>output_opens = True, pipe_opens = (\<lambda>_. True), fork_works = (\<lambda>_. True), dup_works = (\<lambda>_ _. True),
     exec_works = (\<lambda>_. True), new_fds = (\<lambda>k. k + 3)\<rparr>"

definition standard_table :: table where
  "standard_table = [0 \<mapsto> (Std 0, False), 1 \<mapsto> (Std 1, False), 2 \<mapsto> (Std 2, False)]"

theorem mapreduce_pipes_witness:
  "\<exists>m ss ps r. mapreduce_main easy_env [''mapreduce'', ''in'', ''out'', ''map'', ''red'', ''2''] standard_table = Inr m
     \<and> table_of m = standard_table \<and> children m = ss @ ps @ [r] \<and> length ss = 2 \<and> (\<forall>c \<in> set (children m). holds (WriteEnd 1) c \<longleftrightarrow> c = ss ! 1)"
proof -
  have work: "all_work easy_env standard_table"
    by (auto simp: all_work_def easy_env_def standard_table_def inj_def)
  have std: "standard standard_table" by (auto simp: standard_def standard_table_def split: if_splits)
  have "is_digit CHR ''2''" "(of_char CHR ''2'' :: nat) = 50" by (simp_all add: is_digit_def)
  then have two: "2 = nat (atoi (([''mapreduce'', ''in'', ''out'', ''map'', ''red'', ''2''] :: string list) ! 5))" by (simp add: atoi_def)
  obtain m ss ps r where m: "mapreduce_main easy_env [''mapreduce'', ''in'', ''out'', ''map'', ''red'', ''2''] standard_table = Inr m"
    "table_of m = standard_table" "children m = ss @ ps @ [r]" "length ss = 2"
    and h: "\<forall>c \<in> set (ss @ ps @ [r]). \<forall>i < 2. (holds (WriteEnd i) c \<longleftrightarrow> c = ss ! i) \<and> (holds (ReadEnd i) c \<longleftrightarrow> c = ps ! i)"
    using mapreduce_pipes [OF work _ two std] by auto
  then have "\<forall>c \<in> set (children m). holds (WriteEnd 1) c \<longleftrightarrow> c = ss ! 1" by simp
  then show ?thesis using m by blast
qed

end
