(* ===== verification/RuleGraph.thy ===== *)
theory RuleGraph
  imports Prelude
begin

text \<open>
  The dependency graph of \<^verbatim>\<open>parallel_make\<close>: rules (\<^verbatim>\<open>rule.c\<close>) as the values of vertices. The graph, set and queue are
  libraries of which only the documentation is in the repository (\<^verbatim>\<open>includes/graph.h\<close>); what the search and the
  workers rely on is the locale \<open>rule_graph\<close>. Documented: vertices and edges are kept in the order in which they were
  first assigned, \<^verbatim>\<open>graph_neighbors\<close> and \<^verbatim>\<open>graph_antineighbors\<close> list the two ends of the edges; that is the model here,
  and it is an interpretation of the locale.
\<close>

section \<open>Rules and the graph\<close>

record rule =
  target :: "string option"
  commands :: "string list"
  state :: nat

definition rule_init :: rule where
  "rule_init = \<lparr>target = None, commands = [], state = 0\<rparr>"

record rgraph =
  vertex_values :: "(string \<times> rule) list"
  edges :: "(string \<times> string) list"

definition graph_create :: rgraph where
  "graph_create = \<lparr>vertex_values = [], edges = []\<rparr>"

definition graph_vertices :: "rgraph \<Rightarrow> string list" where
  "graph_vertices g = map fst (vertex_values g)"

definition graph_contains_vertex :: "rgraph \<Rightarrow> string \<Rightarrow> bool" where
  "graph_contains_vertex g v \<longleftrightarrow> v \<in> set (graph_vertices g)"

definition graph_get_vertex_value :: "rgraph \<Rightarrow> string \<Rightarrow> rule option" where
  "graph_get_vertex_value g v = map_of (vertex_values g) v"

text \<open>The value is copied by the constructor the graph was created with, \<^verbatim>\<open>str_to_rule_constructor\<close>.\<close>

definition graph_set_vertex_value :: "rgraph \<Rightarrow> string \<Rightarrow> rule \<Rightarrow> rgraph" where
  "graph_set_vertex_value g v r =
     (if graph_contains_vertex g v then g\<lparr>vertex_values := map (\<lambda>(k, r'). (k, if k = v then r else r')) (vertex_values g)\<rparr>
      else g\<lparr>vertex_values := vertex_values g @ [(v, r)]\<rparr>)"

definition graph_add_edge :: "rgraph \<Rightarrow> string \<Rightarrow> string \<Rightarrow> rgraph" where
  "graph_add_edge g a b = (if (a, b) \<in> set (edges g) then g else g\<lparr>edges := edges g @ [(a, b)]\<rparr>)"

definition graph_neighbors :: "rgraph \<Rightarrow> string \<Rightarrow> string list" where
  "graph_neighbors g v = map snd (filter (\<lambda>e. fst e = v) (edges g))"

definition graph_antineighbors :: "rgraph \<Rightarrow> string \<Rightarrow> string list" where
  "graph_antineighbors g v = map fst (filter (\<lambda>e. snd e = v) (edges g))"

section \<open>What the clients rely on\<close>

text \<open>Every neighbour is in a finite universe, and antineighbours are the vertices whose neighbour one is.\<close>

locale rule_graph =
  fixes nbrs :: "string \<Rightarrow> string list" and anti :: "string \<Rightarrow> string list" and universe :: "string list"
  assumes nbrs_universe: "v \<in> set (nbrs u) \<Longrightarrow> v \<in> set universe"
    and anti_nbrs: "u \<in> set (anti v) \<Longrightarrow> v \<in> set (nbrs u)"

text \<open>The edges as a relation; a vertex is blocked when a cycle can be reached from it.\<close>

definition edge_rel :: "('v \<Rightarrow> 'v list) \<Rightarrow> ('v \<times> 'v) set" where
  "edge_rel nbrs = {(u, v). v \<in> set (nbrs u)}"

definition blocked :: "('v \<Rightarrow> 'v list) \<Rightarrow> 'v \<Rightarrow> bool" where
  "blocked nbrs v \<longleftrightarrow> (\<exists>w. (v, w) \<in> (edge_rel nbrs)\<^sup>* \<and> (w, w) \<in> (edge_rel nbrs)\<^sup>+)"

lemma blocked_from: "(u, v) \<in> (edge_rel nbrs)\<^sup>* \<Longrightarrow> blocked nbrs v \<Longrightarrow> blocked nbrs u"
  unfolding blocked_def by (meson rtrancl_trans)

lemma blocked_step: "v \<in> set (nbrs u) \<Longrightarrow> blocked nbrs v \<Longrightarrow> blocked nbrs u"
  by (rule blocked_from [of u v]) (auto simp: edge_rel_def)

text \<open>A blocked vertex has a blocked neighbour, since the cycle can be entered at the next vertex.\<close>

lemma blocked_next: "blocked nbrs u \<Longrightarrow> \<exists>v \<in> set (nbrs u). blocked nbrs v"
proof -
  let ?R = "edge_rel nbrs"
  assume "blocked nbrs u"
  then obtain w where w: "(u, w) \<in> ?R\<^sup>*" "(w, w) \<in> ?R\<^sup>+" unfolding blocked_def by blast
  have "(u, w) \<in> ?R\<^sup>+" using w by (rule rtrancl_trancl_trancl)
  then obtain v where v: "(u, v) \<in> ?R" "(v, w) \<in> ?R\<^sup>*" by (meson tranclD)
  then have "blocked nbrs v" using w(2) unfolding blocked_def by blast
  then show ?thesis using v(1) by (auto simp: edge_rel_def)
qed

lemma blocked_iff: "blocked nbrs u \<longleftrightarrow> (\<exists>v \<in> set (nbrs u). blocked nbrs v)"
  using blocked_next blocked_step by metis

interpretation edge_list: rule_graph "graph_neighbors g" "graph_antineighbors g" "map snd (edges g)" for g
  by unfold_locales (force simp: graph_neighbors_def graph_antineighbors_def)+

end
