(* ===== verification/RuleStore.thy ===== *)
theory RuleStore
  imports Vector
begin

text \<open>
  \<^verbatim>\<open>parallel_make/rule.c\<close> on the store: who owns the strings and the vector of a rule. The structs of the rules and
  of the vectors have stores of their own, addressed by number; the strings are in the store of \<open>Prelude\<close>, and the
  vector of commands is the one of \<open>Vector\<close> with the string callbacks. The graph of \<open>RuleGraph\<close> has the rules by value.
\<close>

section \<open>The store\<close>

record rule_t =
  target :: ptr
  commands :: nat     \<comment> \<open>the vector it points to\<close>
  state :: int
  data :: ptr

record rule_store =
  rules :: "nat \<rightharpoonup> rule_t"
  vectors :: "nat \<rightharpoonup> char vector"
  next_vector :: nat
  strings :: "char heap"

definition string_vector :: "char vector" where
  "string_vector = vector_create (Some string_copy_constructor) (Some hfree) (Some string_default_constructor)"

text \<open>A struct that was not allocated, or is no longer, faults; \<open>None\<close> is \<^verbatim>\<open>NULL\<close>.\<close>

definition the_struct :: "(nat \<rightharpoonup> 'a) \<Rightarrow> nat \<Rightarrow> 'a res" where
  "the_struct m r = (case m r of None \<Rightarrow> Inl UseAfterFree | Some x \<Rightarrow> Inr x)"

section \<open>The operations\<close>

definition rule_init :: "nat option \<Rightarrow> rule_store \<Rightarrow> rule_store res" where
  "rule_init rule s =
     (case rule of None \<Rightarrow> Inl AssertFailed
      | Some r \<Rightarrow> bindE (the_struct (rules s) r) (\<lambda>_.
          Inr (s\<lparr>rules := (rules s)(r \<mapsto> \<lparr>target = Null, commands = next_vector s, state = 0, data = Null\<rparr>),
                 vectors := (vectors s)(next_vector s \<mapsto> string_vector), next_vector := Suc (next_vector s)\<rparr>)))"

text \<open>\<^verbatim>\<open>string_destructor\<close> is \<^verbatim>\<open>free\<close>.\<close>

definition rule_destroy :: "nat option \<Rightarrow> rule_store \<Rightarrow> rule_store res" where
  "rule_destroy rule s =
     (case rule of None \<Rightarrow> Inr s
      | Some r \<Rightarrow>
          bindE (the_struct (rules s) r) (\<lambda>x.
          bindE (hfree (target x) (strings s)) (\<lambda>h.
          bindE (the_struct (vectors s) (commands x)) (\<lambda>v.
          bindE (vector_destroy v h) (\<lambda>h.
          Inr (s\<lparr>rules := (rules s)(r := None), vectors := (vectors s)(commands x := None), strings := h\<rparr>))))))"

definition rule_soft_copy :: "nat \<Rightarrow> nat option \<Rightarrow> rule_store \<Rightarrow> rule_store res" where
  "rule_soft_copy dest src s =
     (case src of None \<Rightarrow> Inl AssertFailed
      | Some r \<Rightarrow>
          bindE (the_struct (rules s) r) (\<lambda>x.
          bindE (the_struct (rules s) dest) (\<lambda>_.
          Inr (s\<lparr>rules := (rules s)(dest \<mapsto> x)\<rparr>))))"

section \<open>Ownership\<close>

text \<open>
  A rule owns its struct, its vector, the blocks \<open>bs\<close> of the commands and the block \<open>t\<close> of the target.
\<close>

definition rule_owns :: "nat \<Rightarrow> rule_store \<Rightarrow> nat \<Rightarrow> string list \<Rightarrow> nat list \<Rightarrow> bool" where
  "rule_owns r s t cmds bs \<longleftrightarrow> (\<exists>x v. rules s r = Some x \<and> target x = Ptr t 0 \<and> vectors s (commands x) = Some v
     \<and> vec_uses v string_copy_constructor hfree string_default_constructor
     \<and> vec_owns enc_str v (strings s) cmds bs \<and> blocks (strings s) t \<noteq> None \<and> t \<notin> set bs)"

lemma vec_owns_drop:
  assumes "vec_owns enc_str v h cmds bs" and "t \<notin> set bs"
  shows "vec_owns enc_str v (h\<lparr>blocks := (blocks h)(t := None)\<rparr>) cmds bs"
  using assms by (intro vec_owns_blocks_cong [OF _ assms(1)]) auto

text \<open>Destroying a rule frees exactly what it owns.\<close>

lemma rule_destroy_owned:
  assumes "rule_owns r s t cmds bs"
  shows "\<exists>s'. rule_destroy (Some r) s = Inr s' \<and> rules s' = (rules s)(r := None)
    \<and> (\<forall>b. blocks (strings s') b = (if b = t \<or> b \<in> set bs then None else blocks (strings s) b))
    \<and> (\<forall>x. rules s r = Some x \<longrightarrow> vectors s' = (vectors s)(commands x := None))"
proof -
  obtain x v where x: "rules s r = Some x" "target x = Ptr t 0" "vectors s (commands x) = Some v"
    "vec_uses v string_copy_constructor hfree string_default_constructor" "vec_owns enc_str v (strings s) cmds bs"
    "blocks (strings s) t \<noteq> None" "t \<notin> set bs"
    using assms by (auto simp: rule_owns_def)
  let ?h = "(strings s)\<lparr>blocks := (blocks (strings s))(t := None)\<rparr>"
  have "vector_destroy v ?h = Inr (hdrop (set bs) ?h)"
    by (rule string_cb.destroy_ok [OF x(4) vec_owns_drop [OF x(5,7)]])
  then show ?thesis using x by (auto simp: rule_destroy_def the_struct_def)
qed

text \<open>
  A soft copy shares all of it: whichever of the two is destroyed first, the strings of the other are gone,
  and destroying that one too frees the target a second time.
\<close>

theorem rule_soft_copy_shares:
  assumes "rule_owns r s t cmds bs" and "rules s dest \<noteq> None" and "dest \<noteq> r"
  shows "\<exists>s1 s2. rule_soft_copy dest (Some r) s = Inr s1 \<and> rules s1 dest = rules s1 r
    \<and> rule_destroy (Some r) s1 = Inr s2 \<and> rule_destroy (Some dest) s2 = Inl BadFree"
proof -
  obtain x where x: "rules s r = Some x" "target x = Ptr t 0" using assms(1) by (auto simp: rule_owns_def)
  let ?s1 = "s\<lparr>rules := (rules s)(dest \<mapsto> x)\<rparr>"
  have c: "rule_soft_copy dest (Some r) s = Inr ?s1"
    using assms(2) x by (auto simp: rule_soft_copy_def the_struct_def)
  have "rule_owns r ?s1 t cmds bs" using assms(1,3) x by (simp add: rule_owns_def)
  from rule_destroy_owned [OF this] obtain s2 where s2: "rule_destroy (Some r) ?s1 = Inr s2"
    "rules s2 = (rules ?s1)(r := None)" "blocks (strings s2) t = None" by auto
  then have "rule_destroy (Some dest) s2 = Inl BadFree"
    using assms(3) x by (simp add: rule_destroy_def the_struct_def)
  then show ?thesis using c s2(1) x assms(3) by auto
qed

text \<open>What \<open>rule_init\<close> makes, once its target is a string, is such a rule: without commands, owned by nobody else.\<close>

lemma rule_init_owns:
  assumes "rules s r \<noteq> None" and "blocks (strings s) t \<noteq> None"
  shows "\<exists>s' x. rule_init (Some r) s = Inr s' \<and> rules s' r = Some x \<and> target x = Null
    \<and> strings s' = strings s \<and> rule_owns r (s'\<lparr>rules := (rules s')(r \<mapsto> x\<lparr>target := Ptr t 0\<rparr>)\<rparr>) t [] []"
proof -
  have "vec_uses string_vector string_copy_constructor hfree string_default_constructor"
    by (simp add: string_vector_def vec_uses_def vector_create_def)
  moreover have "vec_owns enc_str string_vector h [] []" for h
    unfolding string_vector_def by (rule vec_owns_create)
  ultimately show ?thesis using assms by (auto simp: rule_init_def the_struct_def rule_owns_def)
qed

theorem rule_soft_copy_shares_witness:
  "\<exists>s :: rule_store. \<exists>s1 s2. rule_soft_copy 1 (Some 0) s = Inr s1 \<and> rule_destroy (Some 0) s1 = Inr s2
    \<and> rule_destroy (Some 1) s2 = Inl BadFree"
proof -
  let ?e = "\<lparr>target = Null, commands = 0, state = 0, data = Null\<rparr>"
  let ?s = "\<lparr>rules = [0 \<mapsto> ?e, 1 \<mapsto> ?e], vectors = Map.empty, next_vector = 0, strings = sample_heap\<rparr>"
  have "rules ?s 0 \<noteq> None" "blocks (strings ?s) 0 \<noteq> None" by (simp_all add: sample_heap_blocks)
  from rule_init_owns [OF this] obtain s' x where s': "rule_init (Some 0) ?s = Inr s'"
    "rule_owns 0 (s'\<lparr>rules := (rules s')(0 \<mapsto> x\<lparr>target := Ptr 0 0\<rparr>)\<rparr>) 0 [] []" by blast
  have "rules (s'\<lparr>rules := (rules s')(0 \<mapsto> x\<lparr>target := Ptr 0 0\<rparr>)\<rparr>) 1 \<noteq> None"
    using s'(1) by (auto simp: rule_init_def the_struct_def)
  from rule_soft_copy_shares [OF s'(2) this] show ?thesis by auto
qed

end
