(* ===== verification/Parmake.thy ===== *)
theory Parmake
  imports RuleGraph
begin

text \<open>
  \<^verbatim>\<open>parallel_make/parmake.c\<close>: the search for cycles, the loading of the task queue, and the worker threads. The workers
  interleave at every access to what they share: each read or write of a rule's state, each push and pull, each command
  and each increment of \<^verbatim>\<open>goal_count\<close> is a step. The queue is unbounded, first in first out, and a pull waits while it is
  empty (\<^verbatim>\<open>includes/queue.h\<close>); the file system and \<^verbatim>\<open>system\<close> are parameters. \<open>log\<close> records the states set and the commands
  run.
\<close>

section \<open>State\<close>

datatype rule_state = DEFAULT | UNPROCESSED | FAILED | SUCCEEDED | IGNORED | PROCESSING

datatype event = SetState string rule_state | RunCommand string string

text \<open>Where a worker is in \<^verbatim>\<open>rope\<close>; the rule it pulled, and what is left of the loop it is in.\<close>

datatype place =
    Pull
  | Test string                        \<comment> \<open>before \<^verbatim>\<open>get_state(rule)\<close>\<close>
  | Claim string                       \<comment> \<open>before \<^verbatim>\<open>set_state(rule, PROCESSING)\<close>\<close>
  | CheckFailed string "string list"   \<comment> \<open>\<^verbatim>\<open>check_failed_dependencies\<close>\<close>
  | MarkFailed string
  | Decide string                      \<comment> \<open>before \<^verbatim>\<open>changed(rule)\<close>\<close>
  | Execute string "string list"       \<comment> \<open>\<^verbatim>\<open>execute\<close>, with the commands left\<close>
  | CommandFailed string
  | Executed string
  | MarkSucceeded string
  | UpToDate string
  | CountUpToDate string
  | Judge string
  | PushFailed string "string list"    \<comment> \<open>\<^verbatim>\<open>push_failed_antineighbors\<close>\<close>
  | PushSucceeded string "string list" \<comment> \<open>\<^verbatim>\<open>push_successful_antineighbors\<close>\<close>
  | Inspect string string "string list" bool "string list" \<comment> \<open>its inner loop: one antineighbour, its dependencies left, \<^verbatim>\<open>good\<close>\<close>
  | GoalTest string
  | EndTest
  | Leaving
  | Left

record 'w build =
  st :: "string \<Rightarrow> rule_state"
  tasks :: "string option list"
  visited :: "string list"
  valid_goals :: "string list"
  goal_total :: int
  goal_count :: int
  world :: 'w
  places :: "nat \<Rightarrow> place"
  log :: "event list"
  cycle_failures :: "string list"

record 'w project =
  neighbors :: "string \<Rightarrow> string list"
  antineighbors :: "string \<Rightarrow> string list"
  recipe :: "string \<Rightarrow> string list"
  mtime :: "'w \<Rightarrow> string \<Rightarrow> int option"
  system :: "string \<Rightarrow> 'w \<Rightarrow> bool \<times> 'w"   \<comment> \<open>whether the command's status is not 0\<close>

definition get_state :: "string \<Rightarrow> 'w build \<Rightarrow> rule_state" where
  "get_state r s = st s r"

declare get_state_def [simp]

definition set_state :: "string \<Rightarrow> rule_state \<Rightarrow> 'w build \<Rightarrow> 'w build" where
  "set_state r x s = s\<lparr>st := (st s)(r := x), log := log s @ [SetState r x]\<rparr>"

definition push :: "string option \<Rightarrow> 'w build \<Rightarrow> 'w build" where
  "push t s = s\<lparr>tasks := tasks s @ [t]\<rparr>"

section \<open>Searching for cycles\<close>

text \<open>
  The result is whether the code returns \<^verbatim>\<open>IGNORED\<close>. A neighbour that is in \<^verbatim>\<open>visited\<close> makes it return at once and leaves
  the rule's state; on the way back the elements of \<^verbatim>\<open>visited\<close> are not removed. The recursion is cut off at the depth
  \<open>fuel\<close>.
\<close>

fun cycles :: "'w project \<Rightarrow> nat \<Rightarrow> string \<Rightarrow> 'w build \<Rightarrow> (bool \<times> 'w build) option"
and cycles_loop :: "'w project \<Rightarrow> nat \<Rightarrow> string \<Rightarrow> string list \<Rightarrow> 'w build \<Rightarrow> (bool \<times> 'w build) option" where
  "cycles p 0 n s = None"
| "cycles p (Suc fuel) n s =
     (if get_state n s = IGNORED then Some (True, s)
      else cycles_loop p fuel n (neighbors p n) (set_state n UNPROCESSED s))"
| "cycles_loop p fuel n [] s = Some (False, s)"
| "cycles_loop p fuel n (m # ms) s =
     (if m \<in> set (visited s) then Some (True, s)
      else case cycles p fuel m (s\<lparr>visited := m # visited s\<rparr>) of
        None \<Rightarrow> None
      | Some (True, s) \<Rightarrow> Some (True, set_state n IGNORED s)
      | Some (False, s) \<Rightarrow> cycles_loop p fuel n ms (s\<lparr>visited := removeAll m (visited s)\<rparr>))"

section \<open>Loading the tasks\<close>

fun load_goals :: "'w project \<Rightarrow> nat \<Rightarrow> string list \<Rightarrow> 'w build \<Rightarrow> 'w build option" where
  "load_goals p fuel [] s = Some s"
| "load_goals p fuel (t # ts) s =
     (case cycles p fuel t s of
        None \<Rightarrow> None
      | Some (True, s) \<Rightarrow> load_goals p fuel ts (s\<lparr>goal_total := goal_total s - 1, cycle_failures := cycle_failures s @ [t]\<rparr>)
      | Some (False, s) \<Rightarrow> load_goals p fuel ts (s\<lparr>valid_goals := List.insert t (valid_goals s)\<rparr>))"

fun load_leaves :: "'w project \<Rightarrow> string list \<Rightarrow> 'w build \<Rightarrow> 'w build" where
  "load_leaves p [] s = s"
| "load_leaves p (v # vs) s =
     load_leaves p vs (if neighbors p v = [] \<and> get_state v s = UNPROCESSED then push (Some v) s else s)"

definition load_rules :: "'w project \<Rightarrow> nat \<Rightarrow> string list \<Rightarrow> 'w build \<Rightarrow> 'w build option" where
  "load_rules p fuel vertices s =
     (let goals = neighbors p [] in
      case load_goals p fuel goals (s\<lparr>goal_total := int (length goals), goal_count := 0\<rparr>) of
        None \<Rightarrow> None
      | Some s \<Rightarrow> Some (load_leaves p vertices (if goal_total s = 0 then push None s else s)))"

section \<open>The workers\<close>

text \<open>\<^verbatim>\<open>changed\<close> gives 0 at the first dependency that is not newer than the target.\<close>

definition changed :: "'w project \<Rightarrow> 'w \<Rightarrow> string \<Rightarrow> bool" where
  "changed p w r =
     (case mtime p w r of
        None \<Rightarrow> True
      | Some old \<Rightarrow> \<not> list_ex (\<lambda>d. case mtime p w d of None \<Rightarrow> False | Some new \<Rightarrow> old \<ge> new) (neighbors p r))"

text \<open>One step inside each of the helpers of \<^verbatim>\<open>rope\<close>: the loop goes on with what is left of its list.\<close>

definition check_failed_dependencies :: "'w build \<Rightarrow> string \<Rightarrow> string list \<Rightarrow> place" where
  "check_failed_dependencies s r ds =
     (case ds of [] \<Rightarrow> Decide r | d # ds \<Rightarrow> if get_state d s = FAILED then MarkFailed r else CheckFailed r ds)"

definition execute :: "'w project \<Rightarrow> 'w build \<Rightarrow> string \<Rightarrow> string list \<Rightarrow> 'w build \<times> place" where
  "execute p s r cs =
     (case cs of [] \<Rightarrow> (s, Executed r)
      | c # cs \<Rightarrow> (case system p c (world s) of (bad, w) \<Rightarrow>
          (s\<lparr>world := w, log := log s @ [RunCommand r c]\<rparr>, if bad then CommandFailed r else Execute r cs)))"

definition push_failed_antineighbors :: "'w build \<Rightarrow> string \<Rightarrow> string list \<Rightarrow> 'w build \<times> place" where
  "push_failed_antineighbors s r as = (case as of [] \<Rightarrow> (s, GoalTest r) | a # as \<Rightarrow> (push (Some a) s, PushFailed r as))"

definition push_successful_antineighbors :: "'w project \<Rightarrow> 'w build \<Rightarrow> string \<Rightarrow> string list \<Rightarrow> 'w build \<times> place" where
  "push_successful_antineighbors p s r as =
     (case as of [] \<Rightarrow> (s, GoalTest r)
      | a # as \<Rightarrow> (s, if get_state a s = DEFAULT then PushSucceeded r as else Inspect r a (neighbors p a) True as))"

definition inspect_antineighbor :: "'w build \<Rightarrow> string \<Rightarrow> string \<Rightarrow> string list \<Rightarrow> bool \<Rightarrow> string list \<Rightarrow> 'w build \<times> place" where
  "inspect_antineighbor s r a ds good as =
     (case ds of [] \<Rightarrow> (if good then push (Some a) s else s, PushSucceeded r as)
      | d # ds \<Rightarrow> (s, Inspect r a ds (good \<and> get_state d s = SUCCEEDED) as))"

lemmas helper_steps [simp] = check_failed_dependencies_def execute_def push_failed_antineighbors_def
  push_successful_antineighbors_def inspect_antineighbor_def

fun rope :: "'w project \<Rightarrow> place \<Rightarrow> 'w build \<Rightarrow> ('w build \<times> place) option" where
  "rope p Pull s = (case tasks s of [] \<Rightarrow> None
     | None # q \<Rightarrow> Some (s\<lparr>tasks := q\<rparr>, Leaving) | Some r # q \<Rightarrow> Some (s\<lparr>tasks := q\<rparr>, Test r))"
| "rope p (Test r) s = Some (s, if get_state r s = PROCESSING then Pull else Claim r)"
| "rope p (Claim r) s = Some (set_state r PROCESSING s, CheckFailed r (neighbors p r))"
| "rope p (CheckFailed r ds) s = Some (s, check_failed_dependencies s r ds)"
| "rope p (MarkFailed r) s = Some (set_state r FAILED s, Decide r)"
| "rope p (Decide r) s = Some (s, if changed p (world s) r then Execute r (recipe p r) else UpToDate r)"
| "rope p (Execute r cs) s = Some (execute p s r cs)"
| "rope p (CommandFailed r) s = Some (set_state r FAILED s, Executed r)"
| "rope p (Executed r) s = Some (s, if get_state r s \<noteq> FAILED then MarkSucceeded r else Judge r)"
| "rope p (MarkSucceeded r) s = Some (set_state r SUCCEEDED s, Judge r)"
| "rope p (UpToDate r) s = Some (set_state r SUCCEEDED s, CountUpToDate r)"
| "rope p (CountUpToDate r) s = Some (s\<lparr>goal_count := goal_count s + 1\<rparr>, Judge r)"
| "rope p (Judge r) s = Some (s, case get_state r s of FAILED \<Rightarrow> PushFailed r (antineighbors p r)
     | SUCCEEDED \<Rightarrow> PushSucceeded r (antineighbors p r) | _ \<Rightarrow> GoalTest r)"
| "rope p (PushFailed r as) s = Some (push_failed_antineighbors s r as)"
| "rope p (PushSucceeded r as) s = Some (push_successful_antineighbors p s r as)"
| "rope p (Inspect r a ds good as) s = Some (inspect_antineighbor s r a ds good as)"
| "rope p (GoalTest r) s = Some (if r \<in> set (valid_goals s) then s\<lparr>goal_count := goal_count s + 1\<rparr> else s, EndTest)"
| "rope p EndTest s = Some (if goal_count s = goal_total s then push None s else s, Pull)"
| "rope p Leaving s = Some (push None s, Left)"
| "rope p Left s = None"

definition worker_step :: "'w project \<Rightarrow> nat \<Rightarrow> 'w build \<Rightarrow> 'w build option" where
  "worker_step p i s = (case rope p (places s i) s of None \<Rightarrow> None
     | Some (s, place) \<Rightarrow> Some (s\<lparr>places := (places s)(i := place)\<rparr>))"

text \<open>The state in which the workers start: every rule is \<^verbatim>\<open>DEFAULT\<close> until \<^verbatim>\<open>load_rules\<close>; with \<open>n\<close> threads.\<close>

definition build_start :: "'w \<Rightarrow> nat \<Rightarrow> 'w build" where
  "build_start w n = \<lparr>st = (\<lambda>_. DEFAULT), tasks = [], visited = [], valid_goals = [], goal_total = 0, goal_count = 0,
     world = w, places = (\<lambda>i. if i < n then Pull else Left), log = [], cycle_failures = []\<rparr>"

definition parmake :: "'w project \<Rightarrow> nat \<Rightarrow> string list \<Rightarrow> 'w \<Rightarrow> nat \<Rightarrow> 'w build option" where
  "parmake p fuel vertices w num_threads = load_rules p fuel vertices (build_start w num_threads)"

text \<open>\<^verbatim>\<open>parmake\<close> joins the workers one after the other and returns 0 when all have left.\<close>

definition join_workers :: "nat \<Rightarrow> 'w build \<Rightarrow> int option" where
  "join_workers num_threads s = (if list_all (\<lambda>i. places s i = Left) [0..<num_threads] then Some 0 else None)"

section \<open>What the search changes\<close>

text \<open>The search only sets states to \<^verbatim>\<open>UNPROCESSED\<close> and \<^verbatim>\<open>IGNORED\<close>, and only \<open>st\<close>, \<open>visited\<close> and \<open>log\<close>.\<close>

definition calm :: "'w build \<Rightarrow> 'w build \<Rightarrow> bool" where
  "calm s s' \<longleftrightarrow> tasks s' = tasks s \<and> goal_count s' = goal_count s \<and> world s' = world s \<and> places s' = places s
     \<and> (\<forall>v. st s' v = st s v \<or> st s' v = UNPROCESSED \<or> st s' v = IGNORED)
     \<and> (\<forall>r c. RunCommand r c \<in> set (log s') \<longrightarrow> RunCommand r c \<in> set (log s))"

lemma calm_trans: "calm s s' \<Longrightarrow> calm s' s'' \<Longrightarrow> calm s s''"
  unfolding calm_def by metis

definition quiet :: "'w build \<Rightarrow> 'w build \<Rightarrow> bool" where
  "quiet s s' \<longleftrightarrow> calm s s' \<and> valid_goals s' = valid_goals s \<and> goal_total s' = goal_total s \<and> cycle_failures s' = cycle_failures s"

lemma quiet_calm: "quiet s s' \<Longrightarrow> calm s s'"
  by (simp add: quiet_def)

lemma quiet_refl [simp]: "quiet s s"
  by (simp add: quiet_def calm_def)

lemma quiet_trans: "quiet s s' \<Longrightarrow> quiet s' s'' \<Longrightarrow> quiet s s''"
  unfolding quiet_def by (metis calm_trans)

lemma quiet_visited [simp]: "quiet s (s'\<lparr>visited := v\<rparr>) = quiet s s'" "quiet (s\<lparr>visited := v\<rparr>) s' = quiet s s'"
  by (simp_all add: quiet_def calm_def)

lemma quiet_set_state: "quiet s s' \<Longrightarrow> x = UNPROCESSED \<or> x = IGNORED \<Longrightarrow> quiet s (set_state n x s')"
  by (auto simp: quiet_def calm_def set_state_def)

lemma cycles_quiet:
  "cycles p fuel n s = Some (b, s') \<Longrightarrow> quiet s s'"
  "cycles_loop p fuel n ms s = Some (b, s') \<Longrightarrow> quiet s s'"
proof (induction p fuel n s and p fuel n ms s arbitrary: b s' and b s' rule: cycles_cycles_loop.induct)
  case (2 p fuel n s)
  show ?case
  proof (cases "st s n = IGNORED")
    case False
    then show ?thesis using 2 quiet_trans [of s "set_state n UNPROCESSED s"] quiet_set_state [OF quiet_refl] by auto
  qed (use 2 in simp)
next
  case (4 p fuel n m ms s)
  show ?case
  proof (cases "m \<in> set (visited s)")
    case False
    then obtain b1 s1 where c: "cycles p fuel m (s\<lparr>visited := m # visited s\<rparr>) = Some (b1, s1)"
      using 4(3) by (auto split: option.splits)
    then have q: "quiet s s1" using 4(1) False by fastforce
    then show ?thesis
      using 4 False c quiet_set_state [OF q, of IGNORED n] quiet_trans [OF q] by (cases b1) auto
  qed (use 4 in simp)
qed auto

lemma set_state_simps [simp]:
  "visited (set_state n x s) = visited s" "st (set_state n x s) v = (if v = n then x else st s v)"
  "tasks (set_state n x s) = tasks s" "valid_goals (set_state n x s) = valid_goals s" "goal_total (set_state n x s) = goal_total s"
  "goal_count (set_state n x s) = goal_count s" "world (set_state n x s) = world s" "places (set_state n x s) = places s"
  "log (set_state n x s) = log s @ [SetState n x]" "cycle_failures (set_state n x s) = cycle_failures s"
  by (simp_all add: set_state_def)

section \<open>The search is right\<close>

context rule_graph
begin

text \<open>The depth of the recursion is the number of vertices that are not visited.\<close>

lemma cycles_terminates:
  "neighbors p = nbrs \<Longrightarrow> card (set universe - set (visited s)) < fuel
    \<Longrightarrow> \<exists>b s'. cycles p fuel n s = Some (b, s') \<and> (\<not> b \<longrightarrow> set (visited s') = set (visited s))"
  "neighbors p = nbrs \<Longrightarrow> set ms \<subseteq> set universe \<Longrightarrow> card (set universe - set (visited s)) \<le> fuel
    \<Longrightarrow> \<exists>b s'. cycles_loop p fuel n ms s = Some (b, s') \<and> (\<not> b \<longrightarrow> set (visited s') = set (visited s))"
proof (induction p fuel n s and p fuel n ms s rule: cycles_cycles_loop.induct)
  case (2 p fuel n s)
  have "set (neighbors p n) \<subseteq> set universe" using 2(2) nbrs_universe by auto
  with 2 show ?case by (cases "st s n = IGNORED") auto
next
  case (4 p fuel n m ms s)
  show ?case
  proof (cases "m \<in> set (visited s)")
    case False
    have "set universe - set (m # visited s) \<subset> set universe - set (visited s)" using False 4(4) by auto
    then have "card (set universe - set (m # visited s)) < card (set universe - set (visited s))"
      by (intro psubset_card_mono) auto
    with 4(1) [OF False] 4(3,5) obtain b s1 where s1: "cycles p fuel m (s\<lparr>visited := m # visited s\<rparr>) = Some (b, s1)"
      "\<not> b \<longrightarrow> set (visited s1) = set (m # visited s)" by fastforce
    show ?thesis
    proof (cases b)
      case True
      then show ?thesis using s1 False by auto
    next
      case b: False
      have v: "set (removeAll m (visited s1)) = set (visited s)" using s1(2) b False by auto
      then have "\<exists>b s'. cycles_loop p fuel n ms (s1\<lparr>visited := removeAll m (visited s1)\<rparr>) = Some (b, s')
          \<and> (\<not> b \<longrightarrow> set (visited s') = set (visited s))"
        using 4(2) [OF False s1(1), of b s1] 4(3-5) b by auto
      then show ?thesis using s1(1) b False by simp
    qed
  qed auto
qed auto

text \<open>
  Between searches every \<^verbatim>\<open>IGNORED\<close> rule is blocked; in a search from \<open>n\<close> every visited vertex is blocked or leads
  to \<open>n\<close>.
\<close>

definition ignored_ok :: "'w build \<Rightarrow> bool" where
  "ignored_ok s \<longleftrightarrow> (\<forall>v. st s v = IGNORED \<longrightarrow> blocked nbrs v)"

definition leads_to :: "string list \<Rightarrow> string \<Rightarrow> bool" where
  "leads_to vs n \<longleftrightarrow> (\<forall>v \<in> set vs. blocked nbrs v \<or> (v, n) \<in> (edge_rel nbrs)\<^sup>*)"

lemma leads_to_blocked: "leads_to vs n \<Longrightarrow> blocked nbrs n \<Longrightarrow> v \<in> set vs \<Longrightarrow> blocked nbrs v"
  using blocked_from [of v n nbrs] by (auto simp: leads_to_def)

lemma leads_to_next: "leads_to vs n \<Longrightarrow> m \<in> set (nbrs n) \<Longrightarrow> leads_to (m # vs) m"
proof -
  assume l: "leads_to vs n" and m: "m \<in> set (nbrs n)"
  have "(n, m) \<in> edge_rel nbrs" using m by (simp add: edge_rel_def)
  then have "(v, m) \<in> (edge_rel nbrs)\<^sup>*" if "(v, n) \<in> (edge_rel nbrs)\<^sup>*" for v using that by (rule rtrancl_into_rtrancl [rotated])
  then show ?thesis using l by (auto simp: leads_to_def)
qed

lemma leads_to_cong: "set vs = set ws \<Longrightarrow> leads_to vs n = leads_to ws n"
  by (simp add: leads_to_def)

lemma visited_neighbour_blocked:
  assumes "leads_to vs n" and "m \<in> set vs" and "m \<in> set (nbrs n)"
  shows "blocked nbrs n"
proof (cases "blocked nbrs m")
  case True
  then show ?thesis using blocked_step [of m nbrs n] assms(3) by blast
next
  case False
  then have "(m, n) \<in> (edge_rel nbrs)\<^sup>*" using assms(1,2) by (auto simp: leads_to_def)
  moreover have "(n, m) \<in> edge_rel nbrs" using assms(3) by (simp add: edge_rel_def)
  ultimately have "(n, n) \<in> (edge_rel nbrs)\<^sup>+" by (rule rtrancl_into_trancl2 [rotated])
  then show ?thesis unfolding blocked_def by blast
qed

lemma unprocessed_stays:
  assumes "calm s s'" and "ignored_ok s'" and "\<not> blocked nbrs v" and "st s v = UNPROCESSED"
  shows "st s' v = UNPROCESSED"
  using assms unfolding calm_def ignored_ok_def by metis

lemma ignored_ok_set_state:
  "ignored_ok s \<Longrightarrow> x = IGNORED \<longrightarrow> blocked nbrs n \<Longrightarrow> ignored_ok (set_state n x s)"
  by (simp add: ignored_ok_def)

lemma ignored_ok_visited [simp]: "ignored_ok (s\<lparr>visited := vs\<rparr>) = ignored_ok s"
  by (simp add: ignored_ok_def)

lemma cycles_correct:
  "neighbors p = nbrs \<Longrightarrow> ignored_ok s \<Longrightarrow> leads_to (visited s) n \<Longrightarrow> cycles p fuel n s = Some (b, s')
    \<Longrightarrow> ignored_ok s' \<and> (b \<longleftrightarrow> blocked nbrs n)
      \<and> (if b then \<forall>v \<in> set (visited s'). blocked nbrs v
         else set (visited s') = set (visited s) \<and> (\<forall>v. (n, v) \<in> (edge_rel nbrs)\<^sup>* \<longrightarrow> st s' v = UNPROCESSED))"
  "neighbors p = nbrs \<Longrightarrow> ignored_ok s \<Longrightarrow> leads_to (visited s) n \<Longrightarrow> set ms \<subseteq> set (nbrs n)
    \<Longrightarrow> cycles_loop p fuel n ms s = Some (b, s')
    \<Longrightarrow> ignored_ok s' \<and> (b \<longrightarrow> blocked nbrs n) \<and> (\<not> b \<longrightarrow> (\<forall>m \<in> set ms. \<not> blocked nbrs m))
      \<and> (if b then \<forall>v \<in> set (visited s'). blocked nbrs v
         else set (visited s') = set (visited s) \<and> (\<forall>m \<in> set ms. \<forall>v. (m, v) \<in> (edge_rel nbrs)\<^sup>* \<longrightarrow> st s' v = UNPROCESSED))"
proof (induction p fuel n s and p fuel n ms s arbitrary: b s' and b s' rule: cycles_cycles_loop.induct)
  case (2 p fuel n s)
  show ?case
  proof (cases "get_state n s = IGNORED")
    case True
    then have "blocked nbrs n" using 2(3) by (simp add: ignored_ok_def)
    then show ?thesis using 2 True leads_to_blocked by auto
  next
    case False
    let ?s = "set_state n UNPROCESSED s"
    have loop: "cycles_loop p fuel n (nbrs n) ?s = Some (b, s')" using 2(2,5) False by simp
    have "ignored_ok ?s" using 2(3) by (simp add: ignored_ok_set_state)
    then have IH: "ignored_ok s'" "b \<longrightarrow> blocked nbrs n" "\<not> b \<longrightarrow> (\<forall>m \<in> set (nbrs n). \<not> blocked nbrs m)"
      "if b then \<forall>v \<in> set (visited s'). blocked nbrs v
         else set (visited s') = set (visited s) \<and> (\<forall>m \<in> set (nbrs n). \<forall>v. (m, v) \<in> (edge_rel nbrs)\<^sup>* \<longrightarrow> st s' v = UNPROCESSED)"
      using 2(1) [OF False _ _ _ _ loop [folded 2(2)]] 2(2,4) by auto
    then have b: "b \<longleftrightarrow> blocked nbrs n" using blocked_iff by metis
    show ?thesis
    proof (cases b)
      case False
      have n: "st s' n = UNPROCESSED"
        by (rule unprocessed_stays [OF quiet_calm [OF cycles_quiet(2) [OF loop]] IH(1)]) (use b False in simp_all)
      have "st s' v = UNPROCESSED" if "(n, v) \<in> (edge_rel nbrs)\<^sup>*" for v
        using that n IH(4) False by (cases rule: converse_rtranclE) (auto simp: edge_rel_def)
      moreover have "set (visited s') = set (visited s)" using IH(4) False by simp
      moreover have "\<not> blocked nbrs n" using b False by blast
      ultimately show ?thesis using IH(1) False by simp
    next
      case True
      moreover have "\<forall>v \<in> set (visited s'). blocked nbrs v" using IH(4) True by simp
      moreover have "blocked nbrs n" using b True by blast
      ultimately show ?thesis using IH(1) by simp
    qed
  qed
next
  case (4 p fuel n m ms s)
  have m: "m \<in> set (nbrs n)" "set ms \<subseteq> set (nbrs n)" using 4(6) by simp_all
  show ?case
  proof (cases "m \<in> set (visited s)")
    case True
    then have "blocked nbrs n" using visited_neighbour_blocked [OF 4(5)] m by blast
    then show ?thesis using 4(4,5,7) True leads_to_blocked by auto
  next
    case False
    let ?s = "s\<lparr>visited := m # visited s\<rparr>"
    from 4(7) False obtain b1 s1 where c: "cycles p fuel m ?s = Some (b1, s1)" by (auto split: option.splits)
    have l: "leads_to (visited ?s) m" using leads_to_next [OF 4(5) m(1)] by simp
    have IH: "ignored_ok s1" "b1 \<longleftrightarrow> blocked nbrs m"
      "if b1 then \<forall>v \<in> set (visited s1). blocked nbrs v
         else set (visited s1) = set (m # visited s) \<and> (\<forall>v. (m, v) \<in> (edge_rel nbrs)\<^sup>* \<longrightarrow> st s1 v = UNPROCESSED)"
      using 4(1) [OF False 4(3) _ l c] 4(4) by auto
    show ?thesis
    proof (cases b1)
      case True
      then have "blocked nbrs n" using IH(2) blocked_step [of m nbrs n] m(1) by blast
      then show ?thesis using 4(7) False c True IH by (auto intro: ignored_ok_set_state)
    next
      case b1: False
      let ?s1 = "s1\<lparr>visited := removeAll m (visited s1)\<rparr>"
      have v: "set (visited ?s1) = set (visited s)" using IH(3) b1 False by auto
      have loop: "cycles_loop p fuel n ms ?s1 = Some (b, s')" using 4(7) False c b1 by simp
      have IH2: "ignored_ok s'" "b \<longrightarrow> blocked nbrs n" "\<not> b \<longrightarrow> (\<forall>m \<in> set ms. \<not> blocked nbrs m)"
        "if b then \<forall>v \<in> set (visited s'). blocked nbrs v
           else set (visited s') = set (visited s) \<and> (\<forall>m \<in> set ms. \<forall>v. (m, v) \<in> (edge_rel nbrs)\<^sup>* \<longrightarrow> st s' v = UNPROCESSED)"
        using 4(2) [OF False c refl _ 4(3) _ _ m(2) loop] IH(1) v leads_to_cong [OF v] 4(5) b1 by auto
      have "st s' v = UNPROCESSED" if "(m, v) \<in> (edge_rel nbrs)\<^sup>*" for v
      proof (rule unprocessed_stays [OF quiet_calm [OF cycles_quiet(2) [OF loop]] IH2(1)])
        show "\<not> blocked nbrs v" using IH(2) b1 blocked_from [OF that] by blast
        show "st ?s1 v = UNPROCESSED" using IH(3) b1 that by simp
      qed
      then show ?thesis using IH2 IH(2) b1 by auto
    qed
  qed
qed auto

lemma load_goals_ok:
  assumes "neighbors p = nbrs" and "length universe < fuel"
  shows "ignored_ok s \<Longrightarrow> \<forall>v \<in> set (visited s). blocked nbrs v
    \<Longrightarrow> \<exists>s'. load_goals p fuel ts s = Some s' \<and> ignored_ok s' \<and> calm s s'
      \<and> goal_total s' = goal_total s - int (length (filter (blocked nbrs) ts))
      \<and> cycle_failures s' = cycle_failures s @ filter (blocked nbrs) ts
      \<and> set (valid_goals s') = set (valid_goals s) \<union> {t \<in> set ts. \<not> blocked nbrs t}
      \<and> (\<forall>t \<in> set ts. \<not> blocked nbrs t \<longrightarrow> (\<forall>v. (t, v) \<in> (edge_rel nbrs)\<^sup>* \<longrightarrow> st s' v = UNPROCESSED))"
proof (induction ts arbitrary: s)
  case Nil
  then show ?case by (simp add: calm_def)
next
  case (Cons t ts)
  have "card (set universe - set (visited s)) \<le> card (set universe)" by (intro card_mono) auto
  also have "\<dots> \<le> length universe" by (rule card_length)
  finally obtain b s1 where c: "cycles p fuel t s = Some (b, s1)"
    using cycles_terminates(1) [OF assms(1), of s fuel t] assms(2) by auto
  have "leads_to (visited s) t" using Cons.prems(2) by (simp add: leads_to_def)
  note ok = cycles_correct(1) [OF assms(1) Cons.prems(1) this c]
  have q: "quiet s s1" by (rule cycles_quiet(1) [OF c])
  show ?case
  proof (cases b)
    case True
    let ?s = "s1\<lparr>goal_total := goal_total s1 - 1, cycle_failures := cycle_failures s1 @ [t]\<rparr>"
    have t: "blocked nbrs t" using ok True by simp
    have "calm s ?s" using q by (simp add: quiet_def calm_def)
    moreover have "ignored_ok ?s" "\<forall>v \<in> set (visited ?s). blocked nbrs v" using ok True by (simp_all add: ignored_ok_def)
    ultimately show ?thesis
      using Cons.IH [of ?s] c True t q calm_trans [of s ?s] by (auto simp: quiet_def)
  next
    case False
    let ?s = "s1\<lparr>valid_goals := List.insert t (valid_goals s1)\<rparr>"
    have t: "\<not> blocked nbrs t" "ignored_ok s1" "set (visited s1) = set (visited s)"
      "\<And>v. (t, v) \<in> (edge_rel nbrs)\<^sup>* \<Longrightarrow> st s1 v = UNPROCESSED" using ok False by simp_all
    have c1: "calm s ?s" using q by (simp add: quiet_def calm_def)
    have i1: "ignored_ok ?s" "\<forall>v \<in> set (visited ?s). blocked nbrs v" using t Cons.prems(2) by (simp_all add: ignored_ok_def)
    from Cons.IH [OF i1] obtain s' where s': "load_goals p fuel ts ?s = Some s'" "ignored_ok s'" "calm ?s s'"
      "goal_total s' = goal_total s - int (length (filter (blocked nbrs) ts))"
      "cycle_failures s' = cycle_failures s @ filter (blocked nbrs) ts"
      "set (valid_goals s') = insert t (set (valid_goals s)) \<union> {t \<in> set ts. \<not> blocked nbrs t}"
      "\<forall>t \<in> set ts. \<not> blocked nbrs t \<longrightarrow> (\<forall>v. (t, v) \<in> (edge_rel nbrs)\<^sup>* \<longrightarrow> st s' v = UNPROCESSED)"
      using q by (auto simp: quiet_def)
    have "st s' v = UNPROCESSED" if "(t, v) \<in> (edge_rel nbrs)\<^sup>*" for v
    proof (rule unprocessed_stays [OF s'(3,2)])
      show "\<not> blocked nbrs v" using t(1) blocked_from [OF that] by blast
      show "st ?s v = UNPROCESSED" using t(4) [OF that] by simp
    qed
    moreover have "calm s s'" by (rule calm_trans [OF c1 s'(3)])
    moreover have "load_goals p fuel (t # ts) s = Some s'" using c False s'(1) by simp
    ultimately show ?thesis using s' t(1) by auto
  qed
qed

end

lemma load_leaves_fields:
  "load_leaves p vs s = s\<lparr>tasks := tasks s @ map Some (filter (\<lambda>v. neighbors p v = [] \<and> st s v = UNPROCESSED) vs)\<rparr>"
  by (induction vs arbitrary: s) (simp_all add: push_def)

lemma build_start_simps [simp]:
  "st (build_start w n) = (\<lambda>_. DEFAULT)" "tasks (build_start w n) = []" "visited (build_start w n) = []"
  "valid_goals (build_start w n) = []" "log (build_start w n) = []" "cycle_failures (build_start w n) = []"
  "places (build_start w n) = (\<lambda>i. if i < n then Pull else Left)" "world (build_start w n) = w"
  by (simp_all add: build_start_def)

section \<open>The workers respect the order\<close>

text \<open>
  A rule is ready at a point of the log when before it every dependency had been set to \<^verbatim>\<open>SUCCEEDED\<close>, or some dependency
  to \<^verbatim>\<open>FAILED\<close>.
\<close>

definition ready :: "'w project \<Rightarrow> string \<Rightarrow> event list \<Rightarrow> bool" where
  "ready p r l \<longleftrightarrow> (\<forall>d \<in> set (neighbors p r). SetState d SUCCEEDED \<in> set l) \<or> (\<exists>d \<in> set (neighbors p r). SetState d FAILED \<in> set l)"

lemma ready_mono: "ready p r l \<Longrightarrow> set l \<subseteq> set l' \<Longrightarrow> ready p r l'"
  unfolding ready_def by blast

lemma ready_append [intro]: "ready p r l \<Longrightarrow> ready p r (l @ l')"
  by (rule ready_mono) auto

text \<open>What a worker knows at each place.\<close>

fun place_ok :: "'w project \<Rightarrow> event list \<Rightarrow> place \<Rightarrow> bool" where
  "place_ok p l (Test r) = ready p r l"
| "place_ok p l (Claim r) = ready p r l"
| "place_ok p l (CheckFailed r ds) = ready p r l"
| "place_ok p l (MarkFailed r) = ready p r l"
| "place_ok p l (Decide r) = ready p r l"
| "place_ok p l (Execute r cs) = ready p r l"
| "place_ok p l (PushFailed r as) = (SetState r FAILED \<in> set l \<and> set as \<subseteq> set (antineighbors p r))"
| "place_ok p l (Inspect r a ds good as) =
     (good \<longrightarrow> (\<exists>ds'. neighbors p a = ds' @ ds \<and> (\<forall>d \<in> set ds'. SetState d SUCCEEDED \<in> set l)))"
| "place_ok p l _ = True"

lemma place_ok_mono: "place_ok p l a \<Longrightarrow> set l \<subseteq> set l' \<Longrightarrow> place_ok p l' a"
  by (cases a) (auto intro: ready_mono)

definition ordered :: "'w project \<Rightarrow> event list \<Rightarrow> bool" where
  "ordered p l \<longleftrightarrow> (\<forall>l1 r c l2. l = l1 @ RunCommand r c # l2 \<longrightarrow> ready p r l1)"

lemma ordered_snoc: "ordered p l \<Longrightarrow> (\<And>r c. e = RunCommand r c \<Longrightarrow> ready p r l) \<Longrightarrow> ordered p (l @ [e])"
  unfolding ordered_def
proof (intro allI impI)
  fix l1 r c l2
  assume o: "\<forall>l1 r c l2. l = l1 @ RunCommand r c # l2 \<longrightarrow> ready p r l1" and e: "\<And>r c. e = RunCommand r c \<Longrightarrow> ready p r l"
    and s: "l @ [e] = l1 @ RunCommand r c # l2"
  show "ready p r l1"
  proof (cases l2 rule: rev_cases)
    case Nil
    then show ?thesis using s e by simp
  next
    case (snoc l3 x)
    then have "l = l1 @ RunCommand r c # l3" using s by simp
    then show ?thesis using o by blast
  qed
qed

definition workers_ok :: "'w project \<Rightarrow> 'w build \<Rightarrow> bool" where
  "workers_ok p s \<longleftrightarrow> (\<forall>v. st s v = SUCCEEDED \<longrightarrow> SetState v SUCCEEDED \<in> set (log s))
     \<and> (\<forall>v. st s v = FAILED \<longrightarrow> SetState v FAILED \<in> set (log s))
     \<and> (\<forall>r. Some r \<in> set (tasks s) \<longrightarrow> ready p r (log s)) \<and> (\<forall>i. place_ok p (log s) (places s i)) \<and> ordered p (log s)"

lemma workers_okI:
  assumes ok: "workers_ok p s" and l: "log s' = log s @ es" and "ordered p (log s')"
    and "\<And>v. st s' v = SUCCEEDED \<Longrightarrow> SetState v SUCCEEDED \<in> set (log s') \<or> st s v = SUCCEEDED"
    and "\<And>v. st s' v = FAILED \<Longrightarrow> SetState v FAILED \<in> set (log s') \<or> st s v = FAILED"
    and "\<And>r. Some r \<in> set (tasks s') \<Longrightarrow> Some r \<in> set (tasks s) \<or> ready p r (log s')"
    and "\<And>j. places s' j = places s j \<or> place_ok p (log s') (places s' j)"
  shows "workers_ok p s'"
proof -
  have sub: "set (log s) \<subseteq> set (log s')" using l by auto
  have "place_ok p (log s') (places s' j)" for j
  proof -
    have "place_ok p (log s) (places s j)" using ok by (simp add: workers_ok_def)
    then have "place_ok p (log s') (places s j)" by (rule place_ok_mono [OF _ sub])
    then show ?thesis using assms(7) [of j] by auto
  qed
  moreover have "Some r \<in> set (tasks s') \<Longrightarrow> ready p r (log s')" for r
  proof -
    assume "Some r \<in> set (tasks s')"
    with assms(6) [of r] ok have "ready p r (log s) \<or> ready p r (log s')" unfolding workers_ok_def by blast
    then show ?thesis using ready_mono [of p r "log s" "log s'"] sub by blast
  qed
  ultimately show ?thesis using assms(3-5) ok sub unfolding workers_ok_def by blast
qed

lemma rope_ok:
  assumes ok: "workers_ok p s" and anti: "\<And>u v. u \<in> set (antineighbors p v) \<Longrightarrow> v \<in> set (neighbors p u)"
    and step: "rope p a s = Some (s', a')" and a: "place_ok p (log s) a"
  shows "place_ok p (log s') a' \<and> places s' = places s \<and> (\<exists>es. log s' = log s @ es) \<and> ordered p (log s')
    \<and> (\<forall>v. st s' v = SUCCEEDED \<longrightarrow> SetState v SUCCEEDED \<in> set (log s') \<or> st s v = SUCCEEDED)
    \<and> (\<forall>v. st s' v = FAILED \<longrightarrow> SetState v FAILED \<in> set (log s') \<or> st s v = FAILED)
    \<and> (\<forall>r. Some r \<in> set (tasks s') \<longrightarrow> Some r \<in> set (tasks s) \<or> ready p r (log s'))"
proof -
  have ord: "ordered p (log s)" and known: "st s v = SUCCEEDED \<Longrightarrow> SetState v SUCCEEDED \<in> set (log s)"
    "st s v = FAILED \<Longrightarrow> SetState v FAILED \<in> set (log s)" "Some v \<in> set (tasks s) \<Longrightarrow> ready p v (log s)" for v
    using ok by (auto simp: workers_ok_def)
  have set_ord: "ordered p (log s @ [SetState v x])" for v x by (rule ordered_snoc [OF ord]) simp
  show ?thesis
  proof (cases a)
    case Pull
    then show ?thesis using step ord known(3) by (auto split: list.splits option.splits)
  next
    case (CheckFailed r ds)
    then show ?thesis using step a ord by (cases ds) auto
  next
    case (Execute r cs)
    then have "ready p r (log s)" using a by simp
    then have "ready p r (log s @ [RunCommand r c])" "ordered p (log s @ [RunCommand r c])" for c
      using ready_mono [of p r "log s" "log s @ [RunCommand r c]"] by (auto intro: ordered_snoc [OF ord])
    then show ?thesis using step a ord Execute by (cases cs) (auto split: prod.splits if_splits)
  next
    case (PushFailed r as)
    show ?thesis
    proof (cases as)
      case (Cons b bs)
      then have "SetState r FAILED \<in> set (log s)" "r \<in> set (neighbors p b)" using a PushFailed anti [of b r] by auto
      then have "ready p b (log s)" by (auto simp: ready_def)
      then show ?thesis using step a ord PushFailed Cons by (auto simp: push_def)
    qed (use step ord PushFailed in auto)
  next
    case (PushSucceeded r as)
    then show ?thesis using step a ord by (cases as) auto
  next
    case (Inspect r b ds good as)
    show ?thesis
    proof (cases ds)
      case Nil
      then have "good \<Longrightarrow> ready p b (log s)" using a Inspect by (auto simp: ready_def)
      then show ?thesis using step ord Inspect Nil by (cases good) (auto simp: push_def)
    next
      case (Cons d ds')
      have "good \<Longrightarrow> st s d = SUCCEEDED \<Longrightarrow>
          \<exists>xs. neighbors p b = xs @ ds' \<and> (\<forall>d \<in> set xs. SetState d SUCCEEDED \<in> set (log s))"
      proof -
        assume "good" "st s d = SUCCEEDED"
        then obtain xs where "neighbors p b = xs @ d # ds'" "\<forall>d \<in> set xs. SetState d SUCCEEDED \<in> set (log s)"
          using a Inspect Cons by auto
        then show ?thesis using known(1) [OF \<open>st s d = SUCCEEDED\<close>] by (intro exI [of _ "xs @ [d]"]) auto
      qed
      then show ?thesis using step ord Inspect Cons by auto
    qed
  next
    case (Judge r)
    then show ?thesis using step ord known(2) [of r] by (cases "st s r") auto
  qed (use step a ord set_ord known in \<open>auto split: if_splits simp: push_def\<close>)
qed

lemma workers_ok_step:
  assumes "workers_ok p s" and "\<And>u v. u \<in> set (antineighbors p v) \<Longrightarrow> v \<in> set (neighbors p u)" and "worker_step p i s = Some s'"
  shows "workers_ok p s'"
proof -
  from assms(3) obtain t place where r: "rope p (places s i) s = Some (t, place)" and s': "s' = t\<lparr>places := (places t)(i := place)\<rparr>"
    by (auto simp: worker_step_def split: option.splits)
  have "place_ok p (log s) (places s i)" using assms(1) by (simp add: workers_ok_def)
  note ok = rope_ok [OF assms(1,2) r this]
  from ok obtain es where "log s' = log s @ es" unfolding s' by auto
  then show ?thesis by (rule workers_okI [OF assms(1)]) (use ok in \<open>auto simp: s'\<close>)
qed

text \<open>Loading gives a state in which everything queued is a leaf and nothing has run.\<close>

lemma load_goals_calm: "load_goals p fuel ts s = Some s' \<Longrightarrow> calm s s'"
proof (induction ts arbitrary: s)
  case (Cons t ts)
  then obtain b s1 where c: "cycles p fuel t s = Some (b, s1)" by (auto split: option.splits)
  then have q: "calm s s1" by (intro quiet_calm cycles_quiet(1))
  show ?case
  proof (cases b)
    case True
    let ?s = "s1\<lparr>goal_total := goal_total s1 - 1, cycle_failures := cycle_failures s1 @ [t]\<rparr>"
    have "calm ?s s'" using Cons.IH [of ?s] Cons.prems c True by simp
    moreover have "calm s ?s" using q by (simp add: calm_def)
    ultimately show ?thesis by (rule calm_trans [rotated])
  next
    case False
    let ?s = "s1\<lparr>valid_goals := List.insert t (valid_goals s1)\<rparr>"
    have "calm ?s s'" using Cons.IH [of ?s] Cons.prems c False by simp
    moreover have "calm s ?s" using q by (simp add: calm_def)
    ultimately show ?thesis by (rule calm_trans [rotated])
  qed
qed (simp add: calm_def)

lemma parmake_workers_ok:
  assumes "parmake p fuel vs w n = Some s"
  shows "workers_ok p s"
proof -
  let ?s0 = "build_start w n\<lparr>goal_total := int (length (neighbors p [])), goal_count := 0\<rparr>"
  from assms obtain s1 where s1: "load_goals p fuel (neighbors p []) ?s0 = Some s1"
    and s: "s = load_leaves p vs (if goal_total s1 = 0 then push None s1 else s1)"
    by (auto simp: parmake_def load_rules_def Let_def split: option.splits)
  from load_goals_calm [OF s1] have c: "tasks s1 = []" "places s1 = (\<lambda>i. if i < n then Pull else Left)"
    "st s1 v \<noteq> SUCCEEDED" "st s1 v \<noteq> FAILED" "RunCommand r x \<notin> set (log s1)" for v r x
    by (auto simp: calm_def) (metis rule_state.distinct)+
  have "ordered p (log s1)" using c(5) by (fastforce simp: ordered_def)
  then show ?thesis using c by (auto simp: s load_leaves_fields workers_ok_def push_def ready_def)
qed

section \<open>Properties\<close>

lemma parmake_loaded:
  assumes "neighbors p = graph_neighbors g" and "length (edges g) < fuel"
  shows "\<exists>s. parmake p fuel (graph_vertices g) w n = Some s
    \<and> cycle_failures s = filter (blocked (graph_neighbors g)) (graph_neighbors g [])
    \<and> set (valid_goals s) = {t \<in> set (graph_neighbors g []). \<not> blocked (graph_neighbors g) t}
    \<and> goal_total s = int (length (filter (\<lambda>t. \<not> blocked (graph_neighbors g) t) (graph_neighbors g [])))
    \<and> tasks s = (if goal_total s = 0 then [None] else [])
        @ map Some (filter (\<lambda>v. graph_neighbors g v = [] \<and> st s v = UNPROCESSED) (graph_vertices g))
    \<and> goal_count s = 0 \<and> places s = (\<lambda>i. if i < n then Pull else Left) \<and> world s = w
    \<and> (\<forall>v. st s v = DEFAULT \<or> st s v = UNPROCESSED \<or> st s v = IGNORED) \<and> (\<forall>r c. RunCommand r c \<notin> set (log s))
    \<and> (\<forall>t \<in> set (valid_goals s). \<forall>v. (t, v) \<in> (edge_rel (graph_neighbors g))\<^sup>* \<longrightarrow> st s v = UNPROCESSED)"
proof -
  let ?nbrs = "graph_neighbors g" and ?goals = "graph_neighbors g []"
  let ?s0 = "build_start w n\<lparr>goal_total := int (length ?goals), goal_count := 0\<rparr>"
  have "edge_list.ignored_ok g ?s0" by (simp add: edge_list.ignored_ok_def)
  with edge_list.load_goals_ok [OF assms(1), of fuel ?s0 ?goals] assms(2)
  obtain s1 where s1: "load_goals p fuel ?goals ?s0 = Some s1" "calm ?s0 s1"
    "goal_total s1 = int (length ?goals) - int (length (filter (blocked ?nbrs) ?goals))"
    "cycle_failures s1 = filter (blocked ?nbrs) ?goals" "set (valid_goals s1) = {t \<in> set ?goals. \<not> blocked ?nbrs t}"
    "\<forall>t \<in> set ?goals. \<not> blocked ?nbrs t \<longrightarrow> (\<forall>v. (t, v) \<in> (edge_rel ?nbrs)\<^sup>* \<longrightarrow> st s1 v = UNPROCESSED)"
    by auto
  have total: "goal_total s1 = int (length (filter (\<lambda>t. \<not> blocked ?nbrs t) ?goals))"
    using s1(3) sum_length_filter_compl [of "blocked ?nbrs" ?goals] by simp
  define s where "s = load_leaves p (graph_vertices g) (if goal_total s1 = 0 then push None s1 else s1)"
  have run: "parmake p fuel (graph_vertices g) w n = Some s"
    using s1(1) by (simp add: s_def parmake_def load_rules_def assms(1))
  have f: "goal_total s = goal_total s1" "cycle_failures s = cycle_failures s1" "valid_goals s = valid_goals s1"
    "st s = st s1" "log s = log s1" "places s = places s1" "goal_count s = goal_count s1" "world s = world s1"
    by (simp_all add: s_def load_leaves_fields push_def)
  have t: "tasks s = (if goal_total s = 0 then [None] else [])
      @ map Some (filter (\<lambda>v. ?nbrs v = [] \<and> st s v = UNPROCESSED) (graph_vertices g))"
    unfolding f using s1(2) by (simp add: s_def load_leaves_fields push_def calm_def assms(1))
  have c: "goal_count s1 = 0" "places s1 = (\<lambda>i. if i < n then Pull else Left)" "world s1 = w"
    "st s1 v = DEFAULT \<or> st s1 v = UNPROCESSED \<or> st s1 v = IGNORED" "RunCommand r x \<notin> set (log s1)" for v r x
    using s1(2) by (auto simp: calm_def)
  have needed: "\<forall>t \<in> set (valid_goals s). \<forall>v. (t, v) \<in> (edge_rel ?nbrs)\<^sup>* \<longrightarrow> st s v = UNPROCESSED"
    using s1(5,6) by (auto simp: f)
  show ?thesis
    by (intro exI [of _ s] conjI) (fact run t needed | simp only: f s1(4,5) total c(1-3) | use c(4,5) in \<open>simp add: f\<close>)+
qed

lemma load_rules_loads:
  assumes "neighbors p = graph_neighbors g" and "length (edges g) < fuel"
  shows "\<exists>s ls. parmake p fuel (graph_vertices g) w n = Some s
    \<and> cycle_failures s = filter (blocked (graph_neighbors g)) (graph_neighbors g [])
    \<and> set (valid_goals s) = {t \<in> set (graph_neighbors g []). \<not> blocked (graph_neighbors g) t}
    \<and> goal_total s = int (length (filter (\<lambda>t. \<not> blocked (graph_neighbors g) t) (graph_neighbors g [])))
    \<and> tasks s = (if goal_total s = 0 then [None] else []) @ map Some ls
    \<and> (\<forall>v \<in> set ls. v \<in> set (graph_vertices g) \<and> graph_neighbors g v = [])
    \<and> (\<forall>t \<in> set (valid_goals s). \<forall>v \<in> set (graph_vertices g).
        (t, v) \<in> (edge_rel (graph_neighbors g))\<^sup>* \<and> graph_neighbors g v = [] \<longrightarrow> v \<in> set ls)"
proof -
  from parmake_loaded [OF assms] obtain s where s: "parmake p fuel (graph_vertices g) w n = Some s"
    "cycle_failures s = filter (blocked (graph_neighbors g)) (graph_neighbors g [])"
    "set (valid_goals s) = {t \<in> set (graph_neighbors g []). \<not> blocked (graph_neighbors g) t}"
    "goal_total s = int (length (filter (\<lambda>t. \<not> blocked (graph_neighbors g) t) (graph_neighbors g [])))"
    "tasks s = (if goal_total s = 0 then [None] else [])
      @ map Some (filter (\<lambda>v. graph_neighbors g v = [] \<and> st s v = UNPROCESSED) (graph_vertices g))"
    "\<forall>t \<in> set (valid_goals s). \<forall>v. (t, v) \<in> (edge_rel (graph_neighbors g))\<^sup>* \<longrightarrow> st s v = UNPROCESSED" by blast
  show ?thesis
    by (intro exI [of _ s] exI [of _ "filter (\<lambda>v. graph_neighbors g v = [] \<and> st s v = UNPROCESSED) (graph_vertices g)"] conjI)
      (fact s | use s(6) in auto)+
qed

text \<open>
  C24: for the goals of any dependency graph, loading ends; it reports exactly the goals from which a cycle can be reached,
  in order, and counts the others; and it queues rules without dependencies only, among them every one that a valid goal
  needs.
\<close>

theorem load_rules_correct:
  assumes "neighbors p = graph_neighbors g" and "length (edges g) < fuel"
  shows "\<exists>s ls. parmake p fuel (graph_vertices g) w n = Some s
    \<and> cycle_failures s = filter (blocked (graph_neighbors g)) (graph_neighbors g [])
    \<and> set (valid_goals s) = {t \<in> set (graph_neighbors g []). \<not> blocked (graph_neighbors g) t}
    \<and> goal_total s = int (length (filter (\<lambda>t. \<not> blocked (graph_neighbors g) t) (graph_neighbors g [])))
    \<and> tasks s = (if goal_total s = 0 then [None] else []) @ map Some ls
    \<and> (\<forall>v \<in> set ls. v \<in> set (graph_vertices g) \<and> graph_neighbors g v = [])
    \<and> (\<forall>t \<in> set (valid_goals s). \<forall>v \<in> set (graph_vertices g).
        (t, v) \<in> (edge_rel (graph_neighbors g))\<^sup>* \<and> graph_neighbors g v = [] \<longrightarrow> v \<in> set ls)"
  by (rule load_rules_loads [OF assms])

definition worker_run :: "'w project \<Rightarrow> 'w build \<Rightarrow> bool" where
  "worker_run p s \<longleftrightarrow> workers_ok p s \<and> (\<forall>v. \<forall>u \<in> set (antineighbors p v). v \<in> set (neighbors p u))"

interpretation pool: transition_system "worker_step p" "worker_run p" "worker_run p" for p
  by unfold_locales (auto simp: worker_run_def intro: workers_ok_step)

lemma parmake_ordered:
  assumes "neighbors p = graph_neighbors g" and "antineighbors p = graph_antineighbors g"
    and "parmake p fuel (graph_vertices g) w n = Some s0" and "run (worker_step p) is s0 = Some s"
    and "log s = l @ RunCommand r c # l'"
  shows "(\<forall>d \<in> set (graph_neighbors g r). SetState d SUCCEEDED \<in> set l) \<or> (\<exists>d \<in> set (graph_neighbors g r). SetState d FAILED \<in> set l)"
proof -
  have "worker_run p s"
    by (rule pool.reachable [OF assms(4)])
      (use assms(1,2) parmake_workers_ok [OF assms(3)] in \<open>auto simp: worker_run_def dest: edge_list.anti_nbrs\<close>)
  then have "workers_ok p s" by (simp add: worker_run_def)
  then have "ready p r l" using assms(5) unfolding workers_ok_def ordered_def by blast
  then show ?thesis by (simp add: ready_def assms(1))
qed

text \<open>
  Under every interleaving of the workers, whenever a command of a rule is run, before that every dependency of the
  rule had succeeded, or one of them had failed.
\<close>

theorem parmake_order:
  assumes "neighbors p = graph_neighbors g" and "antineighbors p = graph_antineighbors g"
    and "parmake p fuel (graph_vertices g) w n = Some s0" and "run (worker_step p) is s0 = Some s"
    and "log s = l @ RunCommand r c # l'"
  shows "(\<forall>d \<in> set (graph_neighbors g r). SetState d SUCCEEDED \<in> set l) \<or> (\<exists>d \<in> set (graph_neighbors g r). SetState d FAILED \<in> set l)"
  by (rule parmake_ordered [OF assms])

section \<open>One goal with one dependency\<close>

definition chain_graph :: "string \<Rightarrow> string \<Rightarrow> rgraph" where
  "chain_graph a b = \<lparr>vertex_values = [([], rule_init), (a, rule_init), (b, rule_init)], edges = [([], a), (a, b)]\<rparr>"

lemma chain_graph_simps:
  assumes "a \<noteq> []" "b \<noteq> []" "a \<noteq> b"
  shows "graph_neighbors (chain_graph a b) [] = [a]" "graph_neighbors (chain_graph a b) a = [b]" "graph_neighbors (chain_graph a b) b = []"
    "graph_antineighbors (chain_graph a b) b = [a]" "graph_antineighbors (chain_graph a b) a = [[]]"
    "graph_antineighbors (chain_graph a b) [] = []" "graph_vertices (chain_graph a b) = [[], a, b]"
  using assms by (auto simp: graph_neighbors_def graph_antineighbors_def graph_vertices_def chain_graph_def)

lemma chain_loaded:
  assumes "a \<noteq> []" "b \<noteq> []" "a \<noteq> b" and "neighbors p = graph_neighbors (chain_graph a b)" and "2 < fuel"
  shows "\<exists>s. parmake p fuel (graph_vertices (chain_graph a b)) w 1 = Some s \<and> tasks s = [Some b] \<and> valid_goals s = [a]
    \<and> goal_total s = 1 \<and> goal_count s = 0 \<and> world s = w \<and> places s 0 = Pull \<and> st s a = UNPROCESSED \<and> st s b = UNPROCESSED
    \<and> st s [] = DEFAULT"
proof -
  obtain f where "fuel = Suc (Suc (Suc f))" using assms(5) by (metis less_imp_Suc_add add_2_eq_Suc)
  then show ?thesis
    using assms chain_graph_simps [OF assms(1-3)]
    by (simp add: parmake_def load_rules_def load_leaves_fields build_start_def set_state_def)
qed

text \<open>A worker at a place, and what one step makes of it.\<close>

lemma worker_step_at: "rope p (places s i) s = Some (t, q) \<Longrightarrow> worker_step p i s = Some (t\<lparr>places := (places t)(i := q)\<rparr>)"
  by (simp add: worker_step_def)

lemma run_Cons_step: "f l s = Some s' \<Longrightarrow> run f ls s' = Some s'' \<Longrightarrow> run f (l # ls) s = Some s''"
  by simp

text \<open>Commands that succeed and leave the world as it is.\<close>

lemma execute_run:
  assumes "\<And>c. system p c w = (False, w)" and "places s i = Execute r cs" and "world s = w"
  shows "run (worker_step p) (replicate (Suc (length cs)) i) s
    = Some (s\<lparr>log := log s @ map (RunCommand r) cs, places := (places s)(i := Executed r)\<rparr>)"
  using assms(2,3)
proof (induction cs arbitrary: s)
  case Nil
  then show ?case by (simp add: worker_step_def fun_upd_def)
next
  case (Cons c cs)
  let ?s = "s\<lparr>world := w, log := log s @ [RunCommand r c], places := (places s)(i := Execute r cs)\<rparr>"
  have "worker_step p i s = Some ?s" using Cons.prems assms(1) [of c] by (simp add: worker_step_def)
  moreover have "run (worker_step p) (replicate (Suc (length cs)) i) ?s
      = Some (?s\<lparr>log := log ?s @ map (RunCommand r) cs, places := (places ?s)(i := Executed r)\<rparr>)"
    by (rule Cons.IH) simp_all
  moreover have "?s\<lparr>log := log ?s @ map (RunCommand r) cs, places := (places ?s)(i := Executed r)\<rparr>
      = s\<lparr>log := log s @ map (RunCommand r) (c # cs), places := (places s)(i := Executed r)\<rparr>"
    using Cons.prems by (cases s) simp
  ultimately show ?case by (simp add: fun_upd_def)
qed

text \<open>
  One goal that is up to date and has one dependency, one worker, commands that succeed: the goal is counted twice,
  \<^verbatim>\<open>goal_count\<close> passes \<^verbatim>\<open>goal_total\<close>, and the worker waits for ever on the empty queue.
\<close>

theorem parmake_up_to_date_hangs:
  assumes "a \<noteq> []" "b \<noteq> []" "a \<noteq> b" and "neighbors p = graph_neighbors (chain_graph a b)"
    and "antineighbors p = graph_antineighbors (chain_graph a b)" and "\<And>c. system p c w = (False, w)"
    and "mtime p w a = Some old" and "mtime p w b = Some new" and "new \<le> old" and "2 < fuel"
  shows "\<exists>s0 k s. parmake p fuel (graph_vertices (chain_graph a b)) w 1 = Some s0
    \<and> run (worker_step p) (replicate k 0) s0 = Some s \<and> goal_count s = 2 \<and> goal_total s = 1
    \<and> places s 0 = Pull \<and> worker_step p 0 s = None"
proof -
  note nb = chain_graph_simps [OF assms(1-3), folded assms(4,5)]
  obtain s0 where s0: "parmake p fuel (graph_vertices (chain_graph a b)) w 1 = Some s0" "tasks s0 = [Some b]" "valid_goals s0 = [a]"
    "goal_total s0 = 1" "goal_count s0 = 0" "world s0 = w" "places s0 0 = Pull" "st s0 a = UNPROCESSED" "st s0 b = UNPROCESSED"
    "st s0 [] = DEFAULT"
    using chain_loaded [OF assms(1-4,10)] by blast
  have chb: "changed p w b" using nb assms(8) by (simp add: changed_def)
  have cha: "\<not> changed p w a" using nb assms(7-9) by (simp add: changed_def)
  have ne: "b \<noteq> a" using assms(3) by simp
  obtain s1 where s1: "run (worker_step p) (replicate 5 0) s0 = Some s1" "tasks s1 = []" "valid_goals s1 = [a]"
    "goal_total s1 = 1" "goal_count s1 = 0" "world s1 = w" "places s1 0 = Execute b (recipe p b)" "st s1 a = UNPROCESSED"
    "st s1 b = PROCESSING" "st s1 [] = DEFAULT"
    using s0 nb chb ne assms(1-3) by (simp add: worker_step_def numeral_eq_Suc set_state_def)
  let ?s2 = "s1\<lparr>log := log s1 @ map (RunCommand b) (recipe p b), places := (places s1)(0 := Executed b)\<rparr>"
  have s2: "run (worker_step p) (replicate (Suc (length (recipe p b))) 0) s1 = Some ?s2"
    by (rule execute_run [OF assms(6) s1(7,6)])
  obtain s3 where s3: "run (worker_step p) (replicate 9 0) ?s2 = Some s3" "tasks s3 = [Some a]" "valid_goals s3 = [a]"
    "goal_total s3 = 1" "goal_count s3 = 0" "world s3 = w" "places s3 0 = Pull" "st s3 a = UNPROCESSED" "st s3 b = SUCCEEDED"
    "st s3 [] = DEFAULT"
    using s1 nb ne assms(1-3) by (simp add: worker_step_def numeral_eq_Suc set_state_def push_def)
  obtain s4 where s4: "run (worker_step p) (replicate 13 0) s3 = Some s4" "tasks s4 = []" "goal_total s4 = 1" "goal_count s4 = 2"
    "places s4 0 = Pull"
    using s3 nb ne cha assms(1-3) by (simp add: worker_step_def numeral_eq_Suc set_state_def push_def)
  have "run (worker_step p) (replicate (5 + (Suc (length (recipe p b)) + (9 + 13))) 0) s0 = Some s4"
    using s1(1) s2 s3(1) s4(1) by (simp only: replicate_add run_append option.case)
  moreover have "worker_step p 0 s4 = None" using s4 by (simp add: worker_step_def)
  ultimately show ?thesis using s0(1) s4 by blast
qed

section \<open>Examples\<close>

definition graph_project :: "rgraph \<Rightarrow> (string \<Rightarrow> string list) \<Rightarrow> (unit \<Rightarrow> string \<Rightarrow> int option) \<Rightarrow> unit project" where
  "graph_project g rec mt = \<lparr>neighbors = graph_neighbors g, antineighbors = graph_antineighbors g, recipe = rec, mtime = mt,
     system = (\<lambda>c w. (False, w))\<rparr>"

definition loop_graph :: rgraph where
  "loop_graph = \<lparr>vertex_values = [([], rule_init), (''a'', rule_init), (''b'', rule_init), (''c'', rule_init)],
     edges = [([], ''a''), ([], ''c''), (''a'', ''b''), (''c'', ''c''), (''c'', ''b'')]\<rparr>"

theorem load_rules_correct_witness:
  "\<exists>s. parmake (graph_project loop_graph (\<lambda>_. []) (\<lambda>_ _. None)) 6 (graph_vertices loop_graph) () 2 = Some s
    \<and> cycle_failures s = [''c''] \<and> set (valid_goals s) = {''a''} \<and> goal_total s = 1"
proof -
  let ?n = "graph_neighbors loop_graph"
  have n: "?n [] = [''a'', ''c'']" "?n ''a'' = [''b'']" "?n ''b'' = []" "?n ''c'' = [''c'', ''b'']"
    by (simp_all add: graph_neighbors_def loop_graph_def)
  have "\<not> blocked ?n ''b''" using blocked_iff [of ?n "''b''"] n by simp
  then have a: "\<not> blocked ?n ''a''" using blocked_iff [of ?n "''a''"] n by simp
  have "(''c'', ''c'') \<in> edge_rel ?n" using n by (simp add: edge_rel_def)
  then have c: "blocked ?n ''c''" unfolding blocked_def by blast
  have "neighbors (graph_project loop_graph (\<lambda>_. []) (\<lambda>_ _. None)) = ?n" "length (edges loop_graph) < 6"
    by (simp_all add: graph_project_def loop_graph_def)
  from load_rules_correct [OF this, of "()" 2] show ?thesis using n a c by auto
qed

theorem parmake_order_witness:
  "\<exists>fuel s0 k s l c l'. parmake (graph_project (chain_graph ''a'' ''b'') (\<lambda>r. [r]) (\<lambda>_ _. None)) fuel
      (graph_vertices (chain_graph ''a'' ''b'')) () 1 = Some s0
    \<and> run (worker_step (graph_project (chain_graph ''a'' ''b'') (\<lambda>r. [r]) (\<lambda>_ _. None))) (replicate k 0) s0 = Some s
    \<and> log s = l @ RunCommand ''a'' c # l' \<and> (SetState ''b'' SUCCEEDED \<in> set l \<or> SetState ''b'' FAILED \<in> set l)"
proof -
  let ?g = "chain_graph ''a'' ''b''" and ?p = "graph_project (chain_graph ''a'' ''b'') (\<lambda>r. [r]) (\<lambda>_ _. None)"
  have ab: "''a'' \<noteq> []" "''b'' \<noteq> []" "''a'' \<noteq> ''b''" by simp_all
  have pn: "neighbors ?p = graph_neighbors ?g" "antineighbors ?p = graph_antineighbors ?g" "\<And>r. recipe ?p r = [r]"
    "\<And>c w. system ?p c w = (False, w)" "\<And>r. changed ?p () r" by (simp_all add: graph_project_def changed_def)
  note nb = chain_graph_simps [OF ab]
  obtain s0 where s0: "parmake ?p 3 (graph_vertices ?g) () 1 = Some s0" "tasks s0 = [Some ''b'']" "valid_goals s0 = [''a'']"
    "goal_total s0 = 1" "goal_count s0 = 0" "places s0 0 = Pull" "st s0 ''a'' = UNPROCESSED" "st s0 ''b'' = UNPROCESSED"
    using chain_loaded [OF ab pn(1), of 3 "()"] by auto
  obtain s1 where s1: "run (worker_step ?p) (replicate 11 0) s0 = Some s1" "tasks s1 = []" "valid_goals s1 = [''a'']"
    "places s1 0 = Inspect ''b'' ''a'' [''b''] True []" "st s1 ''a'' = UNPROCESSED" "st s1 ''b'' = SUCCEEDED"
    "goal_total s1 = 1" "goal_count s1 = 0"
    using s0 nb pn by (simp add: worker_step_def numeral_eq_Suc set_state_def)
  obtain s2 where s2: "run (worker_step ?p) (replicate 12 0) s1 = Some s2" "\<exists>l. log s2 = l @ [RunCommand ''a'' ''a'']"
    using s1 nb pn by (simp add: worker_step_def numeral_eq_Suc set_state_def push_def)
  have r: "run (worker_step ?p) (replicate (11 + 12) 0) s0 = Some s2"
    using s1(1) s2(1) by (simp only: replicate_add run_append option.case)
  from s2(2) obtain l where l: "log s2 = l @ RunCommand ''a'' ''a'' # []" by blast
  from parmake_order [OF pn(1,2) s0(1) r l] have "SetState ''b'' SUCCEEDED \<in> set l \<or> SetState ''b'' FAILED \<in> set l" using nb by simp
  then show ?thesis using s0(1) r l by blast
qed

theorem parmake_up_to_date_hangs_witness:
  "\<exists>s0 k s. parmake (graph_project (chain_graph ''a'' ''b'') (\<lambda>r. [r]) (\<lambda>_ r. if r = ''a'' then Some 2 else Some 1)) 3
      (graph_vertices (chain_graph ''a'' ''b'')) () 1 = Some s0
    \<and> run (worker_step (graph_project (chain_graph ''a'' ''b'') (\<lambda>r. [r]) (\<lambda>_ r. if r = ''a'' then Some 2 else Some 1)))
        (replicate k 0) s0 = Some s \<and> places s 0 = Pull
    \<and> worker_step (graph_project (chain_graph ''a'' ''b'') (\<lambda>r. [r]) (\<lambda>_ r. if r = ''a'' then Some 2 else Some 1)) 0 s = None"
proof -
  let ?p = "graph_project (chain_graph ''a'' ''b'') (\<lambda>r. [r]) (\<lambda>_ r. if r = ''a'' then Some 2 else Some 1)"
  have "neighbors ?p = graph_neighbors (chain_graph ''a'' ''b'')" "antineighbors ?p = graph_antineighbors (chain_graph ''a'' ''b'')"
    "\<And>c. system ?p c () = (False, ())" "mtime ?p () ''a'' = Some 2" "mtime ?p () ''b'' = Some 1"
    by (simp_all add: graph_project_def)
  from parmake_up_to_date_hangs [OF _ _ _ this, of 3] show ?thesis by auto
qed

end
