(* ===== verification/ParmakeBuilds.thy ===== *)
theory ParmakeBuilds
  imports Parmake
begin

text \<open>
  What \<open>parmake\<close> builds. One worker, commands that succeed and targets that are never up to date: every valid goal is
  built, each rule once and after its dependencies, and the call returns. Two workers: a run in which the call returns
  before a goal is built, because the rule of another goal is queued twice and counted twice.
\<close>

section \<open>What a single worker does with a task\<close>

definition at_place :: "place \<Rightarrow> 'w build \<Rightarrow> 'w build" where
  "at_place a s = s\<lparr>places := (places s)(0 := a)\<rparr>"

definition reaches :: "'w project \<Rightarrow> 'w build \<Rightarrow> 'w build \<Rightarrow> bool" where
  "reaches p s s' \<longleftrightarrow> (\<exists>k. run (worker_step p) (replicate k 0) s = Some s')"

lemma reaches_refl [simp]: "reaches p s s"
  unfolding reaches_def by (rule exI [of _ 0]) simp

lemma reaches_trans: "reaches p s s' \<Longrightarrow> reaches p s' s'' \<Longrightarrow> reaches p s s''"
  unfolding reaches_def
proof (elim exE)
  fix k l assume "run (worker_step p) (replicate k 0) s = Some s'" "run (worker_step p) (replicate l 0) s' = Some s''"
  then have "run (worker_step p) (replicate (k + l) 0) s = Some s''" by (simp add: replicate_add run_append)
  then show "\<exists>k. run (worker_step p) (replicate k 0) s = Some s''" by blast
qed

lemma at_place_simps [simp]:
  "st (at_place a s) = st s" "tasks (at_place a s) = tasks s" "valid_goals (at_place a s) = valid_goals s"
  "goal_total (at_place a s) = goal_total s" "goal_count (at_place a s) = goal_count s" "world (at_place a s) = world s"
  "log (at_place a s) = log s" "at_place b (at_place a s) = at_place b s" "places (at_place a s) 0 = a"
  by (simp_all add: at_place_def)

lemma at_place_update [simp]:
  "(at_place a s)\<lparr>tasks := x\<rparr> = at_place a (s\<lparr>tasks := x\<rparr>)"
  "(at_place a s)\<lparr>goal_count := c\<rparr> = at_place a (s\<lparr>goal_count := c\<rparr>)"
  "(at_place a s)\<lparr>world := w, log := l\<rparr> = at_place a (s\<lparr>world := w, log := l\<rparr>)"
  "set_state r y (at_place a s) = at_place a (set_state r y s)" "push t (at_place a s) = at_place a (push t s)"
  by (simp_all add: at_place_def set_state_def push_def)

lemma at_place_again: "(at_place a s)\<lparr>places := (places (at_place a s))(0 := b)\<rparr> = at_place b s"
  by (simp add: at_place_def)

text \<open>The worker goes from one place to another.\<close>

lemma reaches_step:
  assumes "rope p a (at_place a s) = Some (at_place a t, b)" and "reaches p (at_place b t) s'"
  shows "reaches p (at_place a s) s'"
proof -
  have "worker_step p 0 (at_place a s) = Some (at_place b t)"
    unfolding worker_step_def using assms(1) at_place_again [of a t b] by simp
  then have "reaches p (at_place a s) (at_place b t)" unfolding reaches_def by (intro exI [of _ "Suc 0"]) simp
  then show ?thesis using assms(2) by (rule reaches_trans)
qed

lemma reaches_check:
  "\<forall>d \<in> set ds. st s d \<noteq> FAILED \<Longrightarrow> reaches p (at_place (CheckFailed r ds) s) (at_place (Decide r) s)"
proof (induction ds)
  case (Cons d ds)
  then show ?case by - (rule reaches_step [where t = s and b = "CheckFailed r ds"], simp_all)
qed (rule reaches_step [where t = s and b = "Decide r"]; simp)

lemma reaches_execute:
  assumes "\<And>c w. \<not> fst (system p c w)"
  shows "\<exists>w. reaches p (at_place (Execute r cs) s) (at_place (Executed r) (s\<lparr>world := w, log := log s @ map (RunCommand r) cs\<rparr>))"
proof (induction cs arbitrary: s)
  case Nil
  have "reaches p (at_place (Execute r []) s) (at_place (Executed r) s)"
    by (rule reaches_step [where t = s and b = "Executed r"]) simp_all
  then show ?case by (intro exI [of _ "world s"]) simp
next
  case (Cons c cs)
  obtain w where w: "system p c (world s) = (False, w)" using assms [of c "world s"] by (metis prod.collapse)
  let ?s = "s\<lparr>world := w, log := log s @ [RunCommand r c]\<rparr>"
  from Cons.IH [of ?s] obtain w' where
    "reaches p (at_place (Execute r cs) ?s) (at_place (Executed r) (?s\<lparr>world := w', log := log ?s @ map (RunCommand r) cs\<rparr>))" by blast
  then have "reaches p (at_place (Execute r (c # cs)) s)
      (at_place (Executed r) (?s\<lparr>world := w', log := log ?s @ map (RunCommand r) cs\<rparr>))"
    by - (rule reaches_step [where t = ?s and b = "Execute r cs"], simp_all add: w)
  moreover have "?s\<lparr>world := w', log := log ?s @ map (RunCommand r) cs\<rparr> = s\<lparr>world := w', log := log s @ map (RunCommand r) (c # cs)\<rparr>"
    by simp
  ultimately show ?case by metis
qed

lemma reaches_inspect:
  "reaches p (at_place (Inspect r a ds good as) s)
     (at_place (PushSucceeded r as) (if good \<and> (\<forall>d \<in> set ds. st s d = SUCCEEDED) then push (Some a) s else s))"
proof (induction ds arbitrary: good)
  case Nil
  show ?case by (rule reaches_step [where t = "if good then push (Some a) s else s" and b = "PushSucceeded r as"]) simp_all
next
  case (Cons d ds)
  from Cons.IH [of "good \<and> st s d = SUCCEEDED"] show ?case
    by - (rule reaches_step [where t = s and b = "Inspect r a ds (good \<and> st s d = SUCCEEDED) as"], simp_all)
qed

definition pushable :: "'w project \<Rightarrow> 'w build \<Rightarrow> string \<Rightarrow> bool" where
  "pushable p s a \<longleftrightarrow> st s a \<noteq> DEFAULT \<and> (\<forall>d \<in> set (neighbors p a). st s d = SUCCEEDED)"

lemma reaches_push:
  "reaches p (at_place (PushSucceeded r as) s) (at_place (GoalTest r) (s\<lparr>tasks := tasks s @ map Some (filter (pushable p s) as)\<rparr>))"
proof (induction as arbitrary: s)
  case Nil
  show ?case by (rule reaches_step [where t = s and b = "GoalTest r"]) simp_all
next
  case (Cons a as)
  show ?case
  proof (cases "st s a = DEFAULT")
    case True
    then show ?thesis
      using Cons.IH [of s] by - (rule reaches_step [where t = s and b = "PushSucceeded r as"], simp_all add: pushable_def)
  next
    case False
    let ?t = "if pushable p s a then push (Some a) s else s"
    have p: "pushable p ?t = pushable p s" by (auto simp: pushable_def push_def fun_eq_iff)
    have i: "reaches p (at_place (Inspect r a (neighbors p a) True as) s) (at_place (PushSucceeded r as) ?t)"
      using reaches_inspect [of p r a "neighbors p a" True as s] False by (simp add: pushable_def)
    have "reaches p (at_place (PushSucceeded r as) ?t) (at_place (GoalTest r) (?t\<lparr>tasks := tasks ?t @ map Some (filter (pushable p s) as)\<rparr>))"
      using Cons.IH [of ?t] unfolding p .
    moreover have "?t\<lparr>tasks := tasks ?t @ map Some (filter (pushable p s) as)\<rparr>
        = s\<lparr>tasks := tasks s @ map Some (filter (pushable p s) (a # as))\<rparr>" by (simp add: push_def)
    ultimately show ?thesis
      using False reaches_trans [OF i]
      by - (rule reaches_step [where t = s and b = "Inspect r a (neighbors p a) True as"], simp_all)
  qed
qed

text \<open>One task from the pull to the next: the rule succeeds, is counted if it is a goal, and the rules it was the last to block are queued.\<close>

lemma reaches_task:
  assumes sys: "\<And>c w. \<not> fst (system p c w)" and old: "\<And>w r. changed p w r"
    and t: "tasks s = Some r # q" and r: "st s r \<noteq> PROCESSING" "r \<notin> set (neighbors p r)" "\<forall>d \<in> set (neighbors p r). st s d \<noteq> FAILED"
    and s': "S = (st s)(r := SUCCEEDED)" "C = goal_count s + (if r \<in> set (valid_goals s) then 1 else 0)"
    and new: "N = filter (\<lambda>a. S a \<noteq> DEFAULT \<and> (\<forall>d \<in> set (neighbors p a). S d = SUCCEEDED)) (antineighbors p r)"
  shows "\<exists>w. reaches p (at_place Pull s) (at_place Pull (s\<lparr>st := S,
    tasks := q @ map Some N @ (if C = goal_total s then [None] else []), goal_count := C, world := w,
    log := log s @ SetState r PROCESSING # map (RunCommand r) (recipe p r) @ [SetState r SUCCEEDED]\<rparr>))"
proof -
  let ?s1 = "s\<lparr>tasks := q\<rparr>" let ?s2 = "set_state r PROCESSING ?s1"
  obtain w where w: "reaches p (at_place (Execute r (recipe p r)) ?s2)
      (at_place (Executed r) (?s2\<lparr>world := w, log := log ?s2 @ map (RunCommand r) (recipe p r)\<rparr>))"
    using reaches_execute [OF sys] by blast
  let ?s3 = "?s2\<lparr>world := w, log := log ?s2 @ map (RunCommand r) (recipe p r)\<rparr>" let ?s4 = "set_state r SUCCEEDED ?s3"
  have S: "st ?s4 = S" by (simp add: fun_eq_iff s')
  let ?s5 = "?s4\<lparr>tasks := tasks ?s4 @ map Some N\<rparr>" let ?s6 = "?s5\<lparr>goal_count := C\<rparr>"
  let ?s7 = "if C = goal_total s then push None ?s6 else ?s6"
  have N: "N = filter (pushable p ?s4) (antineighbors p r)" unfolding new by (rule arg_cong [where f = "\<lambda>f. filter f _"]) (simp only: pushable_def [abs_def] S)
  have count: "?s6 = (if r \<in> set (valid_goals s) then ?s5\<lparr>goal_count := goal_count s + 1\<rparr> else ?s5)"
    by (rule build.equality) (simp_all add: s'(2))
  note step = reaches_step [where p = p]
  have "reaches p (at_place EndTest ?s6) (at_place Pull ?s7)"
    by (rule step [where t = ?s7 and b = Pull]) simp_all
  then have "reaches p (at_place (GoalTest r) ?s5) (at_place Pull ?s7)"
    by (rule step [where t = ?s6 and b = EndTest, rotated]) (subst count, simp)
  then have "reaches p (at_place (PushSucceeded r (antineighbors p r)) ?s4) (at_place Pull ?s7)"
    using reaches_push [of p r "antineighbors p r" ?s4] reaches_trans unfolding N by blast
  then have "reaches p (at_place (Judge r) ?s4) (at_place Pull ?s7)"
    by (rule step [where t = ?s4 and b = "PushSucceeded r (antineighbors p r)", rotated]) simp
  then have "reaches p (at_place (MarkSucceeded r) ?s3) (at_place Pull ?s7)"
    by (rule step [where t = ?s4 and b = "Judge r", rotated]) simp
  then have "reaches p (at_place (Executed r) ?s3) (at_place Pull ?s7)"
    by (rule step [where t = ?s3 and b = "MarkSucceeded r", rotated]) simp
  then have "reaches p (at_place (Execute r (recipe p r)) ?s2) (at_place Pull ?s7)"
    by (rule reaches_trans [OF w])
  then have "reaches p (at_place (Decide r) ?s2) (at_place Pull ?s7)"
    by (rule step [where t = ?s2 and b = "Execute r (recipe p r)", rotated]) (simp add: old)
  then have "reaches p (at_place (CheckFailed r (neighbors p r)) ?s2) (at_place Pull ?s7)"
    by (rule reaches_trans [OF reaches_check, rotated]) (use r in auto)
  then have "reaches p (at_place (Claim r) ?s1) (at_place Pull ?s7)"
    by (rule step [where t = ?s2 and b = "CheckFailed r (neighbors p r)", rotated]) simp
  then have "reaches p (at_place (Test r) ?s1) (at_place Pull ?s7)"
    by (rule step [where t = ?s1 and b = "Claim r", rotated]) (simp add: r(1))
  then have "reaches p (at_place Pull s) (at_place Pull ?s7)"
    by (rule step [where t = ?s1 and b = "Test r", rotated]) (simp add: t)
  moreover have "?s7 = s\<lparr>st := S, tasks := q @ map Some N @ (if C = goal_total s then [None] else []), goal_count := C, world := w,
      log := log s @ SetState r PROCESSING # map (RunCommand r) (recipe p r) @ [SetState r SUCCEEDED]\<rparr>"
    by (simp add: push_def set_state_def s')
  ultimately show ?thesis by (intro exI [of _ w]) (simp only:)
qed

section \<open>The order in which the rules are built\<close>

fun dependencies_first :: "(string \<Rightarrow> string list) \<Rightarrow> string list \<Rightarrow> string list \<Rightarrow> bool" where
  "dependencies_first nbrs seen [] = True"
| "dependencies_first nbrs seen (r # rs) = (set (nbrs r) \<subseteq> set seen \<and> dependencies_first nbrs (r # seen) rs)"

lemma dependencies_first_snoc:
  "dependencies_first nbrs seen (rs @ [r]) \<longleftrightarrow> dependencies_first nbrs seen rs \<and> set (nbrs r) \<subseteq> set seen \<union> set rs"
  by (induction rs arbitrary: seen) auto

lemma dependencies_first_closed:
  "dependencies_first nbrs seen rs \<Longrightarrow> r \<in> set rs \<Longrightarrow> set (nbrs r) \<subseteq> set seen \<union> set rs"
  by (induction rs arbitrary: seen) fastforce+

lemma dependencies_first_split:
  "dependencies_first nbrs seen (xs @ r # ys) \<Longrightarrow> set (nbrs r) \<subseteq> set seen \<union> set xs"
  by (induction xs arbitrary: seen) fastforce+

fun commands_run :: "event list \<Rightarrow> (string \<times> string) list" where
  "commands_run [] = []"
| "commands_run (RunCommand r c # l) = (r, c) # commands_run l"
| "commands_run (SetState r x # l) = commands_run l"

lemma commands_run_append [simp]: "commands_run (l @ l') = commands_run l @ commands_run l'"
  by (induction l rule: commands_run.induct) simp_all

lemma commands_run_map [simp]: "commands_run (map (RunCommand r) cs) = map (Pair r) cs"
  by (induction cs) simp_all

lemma commands_run_none: "(\<And>r c. RunCommand r c \<notin> set l) \<Longrightarrow> commands_run l = []"
  by (induction l rule: commands_run.induct) auto

text \<open>What the parser's graph satisfies: no vertex and no edge twice, and the ends of the edges are vertices.\<close>

definition graph_ok :: "rgraph \<Rightarrow> bool" where
  "graph_ok g \<longleftrightarrow> distinct (graph_vertices g) \<and> distinct (edges g)
     \<and> fst ` set (edges g) \<subseteq> set (graph_vertices g) \<and> snd ` set (edges g) \<subseteq> set (graph_vertices g)"

lemma graph_ok_ends:
  assumes "graph_ok g"
  shows "distinct (graph_antineighbors g r)" "set (graph_antineighbors g r) \<subseteq> set (graph_vertices g)"
    "set (graph_neighbors g r) \<subseteq> set (graph_vertices g)" "distinct (graph_neighbors g r)"
proof -
  have "inj_on fst {e \<in> set (edges g). snd e = r}" "inj_on snd {e \<in> set (edges g). fst e = r}"
    by (auto simp: inj_on_def prod_eq_iff)
  then show "distinct (graph_antineighbors g r)" "distinct (graph_neighbors g r)"
    using assms by (simp_all add: graph_ok_def graph_antineighbors_def graph_neighbors_def distinct_map)
qed (use assms in \<open>auto simp: graph_ok_def graph_antineighbors_def graph_neighbors_def\<close>)

lemma anti_iff: "a \<in> set (graph_antineighbors g r) \<longleftrightarrow> r \<in> set (graph_neighbors g a)"
  by (force simp: graph_antineighbors_def graph_neighbors_def)

text \<open>
  Between two tasks: the rules of \<open>order\<close> are built, those of \<open>ls\<close> are queued and ready; as long as a goal is left
  there is nothing else in the queue and every rule that is ready is in it, and after the last goal \<^verbatim>\<open>NULL\<close> follows.
\<close>

definition building :: "'w project \<Rightarrow> rgraph \<Rightarrow> 'w build \<Rightarrow> string list \<Rightarrow> string list \<Rightarrow> string option list \<Rightarrow> 'w build \<Rightarrow> bool" where
  "building p g s0 order ls rest s \<longleftrightarrow>
     (places s 0 = Pull \<and> valid_goals s = valid_goals s0 \<and> goal_total s = int (card (set (valid_goals s0)))
      \<and> tasks s = map Some ls @ rest \<and> st s = (\<lambda>v. if v \<in> set order then SUCCEEDED else st s0 v))
   \<and> commands_run (log s) = concat (map (\<lambda>r. map (Pair r) (recipe p r)) order)
   \<and> (distinct (order @ ls) \<and> set (order @ ls) \<subseteq> set (graph_vertices g))
   \<and> (dependencies_first (graph_neighbors g) [] order \<and> (\<forall>r \<in> set ls. set (graph_neighbors g r) \<subseteq> set order))
   \<and> goal_count s = int (card (set order \<inter> set (valid_goals s0)))
   \<and> (rest = [] \<longrightarrow> goal_count s \<noteq> goal_total s \<and> (\<forall>v \<in> set (graph_vertices g).
        st s0 v = UNPROCESSED \<and> set (graph_neighbors g v) \<subseteq> set order \<longrightarrow> v \<in> set (order @ ls)))
   \<and> (rest \<noteq> [] \<longrightarrow> hd rest = None \<and> goal_count s = goal_total s)"

definition fresh_states :: "'w build \<Rightarrow> bool" where
  "fresh_states s \<longleftrightarrow> (\<forall>v. st s v = DEFAULT \<or> st s v = UNPROCESSED \<or> st s v = IGNORED)"

lemma building_step:
  assumes p: "neighbors p = graph_neighbors g" "antineighbors p = graph_antineighbors g"
    and sys: "\<And>c w. \<not> fst (system p c w)" and old: "\<And>w r. changed p w r"
    and g: "graph_ok g" and fresh: "fresh_states s0" and b: "building p g s0 order (r # ls) rest s"
  shows "\<exists>ls rest s'. reaches p s s' \<and> building p g s0 (order @ [r]) ls rest s'"
proof -
  let ?n = "graph_neighbors g" and ?a = "graph_antineighbors g r" and ?vg = "set (valid_goals s0)"
  have bs: "places s 0 = Pull" "valid_goals s = valid_goals s0" "goal_total s = int (card ?vg)"
    "tasks s = Some r # map Some ls @ rest" "st s = (\<lambda>v. if v \<in> set order then SUCCEEDED else st s0 v)"
    and cmds: "commands_run (log s) = concat (map (\<lambda>r. map (Pair r) (recipe p r)) order)"
    and dist: "distinct (order @ r # ls)" "set (order @ r # ls) \<subseteq> set (graph_vertices g)"
    and deps: "dependencies_first ?n [] order" "set (?n r) \<subseteq> set order" "\<forall>x \<in> set ls. set (?n x) \<subseteq> set order"
    and count: "goal_count s = int (card (set order \<inter> ?vg))"
    and open_rest: "rest = [] \<Longrightarrow> \<forall>v \<in> set (graph_vertices g).
        st s0 v = UNPROCESSED \<and> set (?n v) \<subseteq> set order \<longrightarrow> v \<in> set (order @ r # ls)"
    and end_rest: "rest \<noteq> [] \<Longrightarrow> hd rest = None \<and> goal_count s = goal_total s"
    using b by (auto simp: building_def)
  define S where "S = (\<lambda>v. if v \<in> set (order @ [r]) then SUCCEEDED else st s0 v)"
  define C where "C = int (card (set (order @ [r]) \<inter> ?vg))"
  define N where "N = filter (\<lambda>a. S a \<noteq> DEFAULT \<and> (\<forall>d \<in> set (?n a). S d = SUCCEEDED)) ?a"
  have S1: "S = (st s)(r := SUCCEEDED)" by (auto simp: S_def bs(5))
  have C1: "C = goal_count s + (if r \<in> set (valid_goals s) then 1 else 0)"
    using dist(1) by (simp add: C_def count bs(2) Int_insert_left)
  have notS: "st s0 v \<noteq> SUCCEEDED" "st s0 v \<noteq> FAILED" "st s0 v \<noteq> PROCESSING" for v
    using fresh by (auto simp: fresh_states_def) (metis rule_state.distinct)+
  have r: "st s r \<noteq> PROCESSING" "r \<notin> set (neighbors p r)" "\<forall>d \<in> set (neighbors p r). st s d \<noteq> FAILED"
    using dist(1) deps(2) notS by (auto simp: bs(5) p)
  from reaches_task [OF sys old bs(4) r S1 C1] obtain w where w: "reaches p (at_place Pull s) (at_place Pull (s\<lparr>st := S,
      tasks := (map Some ls @ rest) @ map Some N @ (if C = goal_total s then [None] else []), goal_count := C, world := w,
      log := log s @ SetState r PROCESSING # map (RunCommand r) (recipe p r) @ [SetState r SUCCEEDED]\<rparr>))"
    unfolding N_def p by blast
  have S_iff: "S d = SUCCEEDED \<longleftrightarrow> d \<in> set (order @ [r])" for d using notS by (simp add: S_def)
  have N1: "a \<in> set ?a" "set (?n a) \<subseteq> set (order @ [r])" if "a \<in> set N" for a
    using that by (auto simp: N_def S_iff simp del: set_append)
  have fresh_N: "a \<notin> set (order @ r # ls)" if "a \<in> set N" for a
  proof
    assume a: "a \<in> set (order @ r # ls)"
    have "r \<in> set (?n a)" using N1(1) [OF that] by (simp add: anti_iff)
    moreover have "set (?n a) \<subseteq> set order" using a deps dependencies_first_closed [OF deps(1), of a] by auto
    ultimately show False using dist(1) by auto
  qed
  have dN: "distinct (order @ [r] @ ls @ N)" using dist(1) fresh_N graph_ok_ends(1) [OF g] by (auto simp: N_def)
  have vN: "set (order @ [r] @ ls @ N) \<subseteq> set (graph_vertices g)"
    using dist(2) N1(1) graph_ok_ends(2) [OF g] by auto
  have first: "dependencies_first ?n [] (order @ [r])" using deps(1,2) by (simp add: dependencies_first_snoc)
  let ?s = "\<lambda>ts. at_place Pull (s\<lparr>st := S, tasks := ts, goal_count := C, world := w,
      log := log s @ SetState r PROCESSING # map (RunCommand r) (recipe p r) @ [SetState r SUCCEEDED]\<rparr>)"
  have s: "at_place Pull s = s" using bs(1) by (simp add: at_place_def fun_upd_idem)
  have common: "commands_run (log (?s ts)) = concat (map (\<lambda>r. map (Pair r) (recipe p r)) (order @ [r]))" for ts
    by (simp add: cmds)
  show ?thesis
  proof (cases "rest = []")
    case True
    let ?rest = "if C = goal_total s then [None] else []"
    have complete: "v \<in> set ((order @ [r]) @ ls @ N)"
      if v: "v \<in> set (graph_vertices g)" "st s0 v = UNPROCESSED" "set (?n v) \<subseteq> set (order @ [r])" for v
    proof (cases "set (?n v) \<subseteq> set order")
      case True
      then show ?thesis using open_rest [OF \<open>rest = []\<close>] v by auto
    next
      case False
      then have "v \<in> set ?a" using v(3) by (auto simp: anti_iff)
      then show ?thesis using v by (auto simp: N_def S_def)
    qed
    have "building p g s0 (order @ [r]) (ls @ N) ?rest (?s (map Some (ls @ N) @ ?rest))"
      unfolding building_def using dN vN first common N1(2) deps(3) complete bs
      by (intro conjI) (auto simp: S_def C_def)
    then show ?thesis using w unfolding s True by (simp del: map_append) (metis append.assoc append_Nil2 map_append)
  next
    case False
    let ?rest = "rest @ map Some N @ (if C = goal_total s then [None] else [])"
    have "int (card (set order \<inter> ?vg)) = int (card ?vg)" using end_rest [OF False] count bs(3) by simp
    then have "set order \<inter> ?vg = ?vg" by (intro card_subset_eq) auto
    then have "r \<notin> ?vg" using dist(1) by auto
    then have C: "C = goal_total s" using C1 bs(2) end_rest [OF False] by simp
    have "building p g s0 (order @ [r]) ls ?rest (?s (map Some ls @ ?rest))"
      unfolding building_def using dN vN first common deps(3) bs C end_rest [OF False] False
      by (intro conjI) (auto simp: S_def C_def)
    then show ?thesis using w unfolding s by (metis append.assoc)
  qed
qed

section \<open>One worker builds everything\<close>

text \<open>As long as a goal is left, a rule is ready: otherwise the rules left below the goal would go round in a cycle.\<close>

lemma ready_rule_left:
  assumes g: "graph_ok g" and t: "\<not> blocked (graph_neighbors g) t" "t \<notin> set order" "t \<in> set (graph_vertices g)"
  shows "\<exists>v. (t, v) \<in> (edge_rel (graph_neighbors g))\<^sup>* \<and> v \<in> set (graph_vertices g) \<and> v \<notin> set order
    \<and> set (graph_neighbors g v) \<subseteq> set order"
proof -
  let ?R = "edge_rel (graph_neighbors g)"
  let ?r = "{(u, v) \<in> ?R. (t, u) \<in> ?R\<^sup>*}"
  have "?R \<subseteq> set (edges g)" by (auto simp: edge_rel_def graph_neighbors_def)
  then have "?r \<subseteq> set (edges g)" by blast
  then have "finite ?r" by (rule finite_subset) simp
  moreover have "acyclic ?r"
  proof (rule acyclicI, intro allI notI)
    fix w assume w: "(w, w) \<in> ?r\<^sup>+"
    from tranclD [OF w] have "(t, w) \<in> ?R\<^sup>*" by auto
    moreover have "(w, w) \<in> ?R\<^sup>+" by (rule trancl_mono [OF w]) auto
    ultimately show False using t(1) unfolding blocked_def by blast
  qed
  ultimately have wf: "wf (?r\<inverse>)" by (rule finite_acyclic_wf_converse)
  let ?X = "{v. (t, v) \<in> ?R\<^sup>* \<and> v \<in> set (graph_vertices g) \<and> v \<notin> set order}"
  have "t \<in> ?X" using t by simp
  from wfE_min [OF wf this] obtain v where v: "v \<in> ?X" "\<And>d. (d, v) \<in> ?r\<inverse> \<Longrightarrow> d \<notin> ?X" by blast
  have "d \<in> set order" if d: "d \<in> set (graph_neighbors g v)" for d
  proof (rule ccontr)
    assume "d \<notin> set order"
    moreover have "(v, d) \<in> ?R" using d by (simp add: edge_rel_def)
    moreover have "d \<in> set (graph_vertices g)" using graph_ok_ends(3) [OF g, of v] d by blast
    ultimately show False using v by (auto intro: rtrancl_into_rtrancl)
  qed
  then show ?thesis using v(1) by blast
qed

definition all_built :: "'w project \<Rightarrow> rgraph \<Rightarrow> string list \<Rightarrow> 'w build \<Rightarrow> bool" where
  "all_built p g order s \<longleftrightarrow> join_workers 1 s = Some 0 \<and> distinct order \<and> dependencies_first (graph_neighbors g) [] order
     \<and> commands_run (log s) = concat (map (\<lambda>r. map (Pair r) (recipe p r)) order)
     \<and> (\<forall>r. st s r = SUCCEEDED \<longleftrightarrow> r \<in> set order) \<and> set (valid_goals s) \<subseteq> set order"

text \<open>After the last goal the worker works off the queue up to \<^verbatim>\<open>NULL\<close> and leaves.\<close>

lemma building_leaves:
  assumes b: "building p g s0 order [] rest s" and rest: "rest \<noteq> []" and fresh: "fresh_states s0"
  shows "\<exists>s'. reaches p s s' \<and> all_built p g order s'"
proof -
  obtain q where q: "tasks s = None # q" using b rest by (cases rest) (auto simp: building_def)
  have s: "at_place Pull s = s" using b by (simp add: building_def at_place_def fun_upd_idem)
  let ?t = "s\<lparr>tasks := q\<rparr>"
  have "reaches p (at_place Leaving ?t) (at_place Left (push None ?t))"
    by (rule reaches_step [where t = "push None ?t" and b = Left]) simp_all
  then have r: "reaches p (at_place Pull s) (at_place Left (push None ?t))"
    by (rule reaches_step [where t = ?t and b = Leaving, rotated]) (simp add: q)
  have n: "st s0 v \<noteq> SUCCEEDED" for v using fresh by (auto simp: fresh_states_def) (metis rule_state.distinct)
  have "card (set order \<inter> set (valid_goals s0)) = card (set (valid_goals s0))" using b rest by (auto simp: building_def)
  then have "set order \<inter> set (valid_goals s0) = set (valid_goals s0)" by (intro card_subset_eq) auto
  then have "all_built p g order (at_place Left (push None ?t))"
    using b n by (auto simp: building_def all_built_def join_workers_def push_def)
  then show ?thesis using r unfolding s by blast
qed

lemma building_ends:
  assumes p: "neighbors p = graph_neighbors g" "antineighbors p = graph_antineighbors g"
    and sys: "\<And>c w. \<not> fst (system p c w)" and old: "\<And>w r. changed p w r"
    and g: "graph_ok g" and fresh: "fresh_states s0"
    and goals: "\<And>t. t \<in> set (valid_goals s0) \<Longrightarrow> t \<in> set (graph_vertices g) \<and> \<not> blocked (graph_neighbors g) t"
    and needed: "\<And>t v. t \<in> set (valid_goals s0) \<Longrightarrow> (t, v) \<in> (edge_rel (graph_neighbors g))\<^sup>* \<Longrightarrow> st s0 v = UNPROCESSED"
    and b: "building p g s0 order ls rest s"
  shows "\<exists>s' order'. reaches p s s' \<and> all_built p g order' s'"
  using b
proof (induction "length (graph_vertices g) - length order" arbitrary: order ls rest s rule: less_induct)
  case less
  show ?case
  proof (cases ls)
    case (Cons r ls')
    from building_step [OF p sys old g fresh less.prems [unfolded Cons]] obtain ls2 rest2 s2 where
      s2: "reaches p s s2" "building p g s0 (order @ [r]) ls2 rest2 s2" by blast
    have d: "distinct (order @ [r])" "set (order @ [r]) \<subseteq> set (graph_vertices g)"
      using less.prems Cons by (auto simp: building_def)
    then have "length (order @ [r]) \<le> length (graph_vertices g)"
      using card_mono [OF finite_set d(2)] card_length [of "graph_vertices g"] distinct_card [OF d(1)] by linarith
    then have "length (graph_vertices g) - length (order @ [r]) < length (graph_vertices g) - length order" by simp
    from less.hyps [OF this s2(2)] show ?thesis using s2(1) reaches_trans by blast
  next
    case Nil
    have "rest \<noteq> []"
    proof
      assume r: "rest = []"
      have "set order \<inter> set (valid_goals s0) \<noteq> set (valid_goals s0)"
        using less.prems r by (auto simp: building_def)
      then obtain t where t: "t \<in> set (valid_goals s0)" "t \<notin> set order" by blast
      from ready_rule_left [OF g _ t(2)] goals [OF t(1)] obtain v where
        v: "(t, v) \<in> (edge_rel (graph_neighbors g))\<^sup>*" "v \<in> set (graph_vertices g)" "v \<notin> set order" "set (graph_neighbors g v) \<subseteq> set order"
        by blast
      then show False using needed [OF t(1) v(1)] less.prems r Nil by (auto simp: building_def)
    qed
    then show ?thesis using building_leaves [OF less.prems [unfolded Nil] _ fresh] by blast
  qed
qed

lemma parmake_building:
  assumes p: "neighbors p = graph_neighbors g" and fuel: "length (edges g) < fuel" and g: "graph_ok g"
  shows "\<exists>s0 ls rest. parmake p fuel (graph_vertices g) w 1 = Some s0 \<and> building p g s0 [] ls rest s0 \<and> fresh_states s0
    \<and> (\<forall>t \<in> set (valid_goals s0). t \<in> set (graph_vertices g) \<and> \<not> blocked (graph_neighbors g) t
        \<and> (\<forall>v. (t, v) \<in> (edge_rel (graph_neighbors g))\<^sup>* \<longrightarrow> st s0 v = UNPROCESSED))
    \<and> set (valid_goals s0) = {t \<in> set (graph_neighbors g []). \<not> blocked (graph_neighbors g) t}"
proof -
  from parmake_loaded [OF p fuel] obtain s0 where s0: "parmake p fuel (graph_vertices g) w 1 = Some s0"
    "set (valid_goals s0) = {t \<in> set (graph_neighbors g []). \<not> blocked (graph_neighbors g) t}"
    "goal_total s0 = int (length (filter (\<lambda>t. \<not> blocked (graph_neighbors g) t) (graph_neighbors g [])))"
    "tasks s0 = (if goal_total s0 = 0 then [None] else [])
      @ map Some (filter (\<lambda>v. graph_neighbors g v = [] \<and> st s0 v = UNPROCESSED) (graph_vertices g))"
    "goal_count s0 = 0" "places s0 = (\<lambda>i. if i < 1 then Pull else Left)" "fresh_states s0" "\<And>r c. RunCommand r c \<notin> set (log s0)"
    "\<forall>t \<in> set (valid_goals s0). \<forall>v. (t, v) \<in> (edge_rel (graph_neighbors g))\<^sup>* \<longrightarrow> st s0 v = UNPROCESSED"
    unfolding fresh_states_def by blast
  have "card (set (filter (\<lambda>t. \<not> blocked (graph_neighbors g) t) (graph_neighbors g []))) = nat (goal_total s0)"
    using graph_ok_ends(4) [OF g] s0(3) by (simp only: distinct_card distinct_filter nat_int)
  then have total: "goal_total s0 = int (card (set (valid_goals s0)))" using s0(2,3) by simp
  define leaves where "leaves = filter (\<lambda>v. graph_neighbors g v = [] \<and> st s0 v = UNPROCESSED) (graph_vertices g)"
  define ls where "ls = (if goal_total s0 = 0 then [] else leaves)"
  define rest where "rest = (if goal_total s0 = 0 then None # map Some leaves else [])"
  have "building p g s0 [] ls rest s0"
    unfolding building_def using s0 total commands_run_none [OF s0(8)] g
    by (intro conjI) (auto simp: ls_def rest_def leaves_def graph_ok_def)
  moreover have "t \<in> set (graph_vertices g)" if "t \<in> set (valid_goals s0)" for t
    using that s0(2) graph_ok_ends(3) [OF g] by blast
  ultimately show ?thesis using s0(1,2,7,9) by blast
qed

lemma goals_kept:
  assumes "run (worker_step p) is s = Some s'"
  shows "valid_goals s' = valid_goals s"
proof (rule run_invariant [where I = "\<lambda>t. valid_goals t = valid_goals s", OF assms refl])
  fix l t t' assume "valid_goals t = valid_goals s" and "worker_step p l t = Some t'"
  then show "valid_goals t' = valid_goals s"
    by (cases "(p, places t l, t)" rule: rope.cases)
      (auto simp: worker_step_def push_def split: list.splits option.splits prod.splits if_splits)
qed

lemma one_worker_builds:
  assumes p: "neighbors p = graph_neighbors g" "antineighbors p = graph_antineighbors g" and fuel: "length (edges g) < fuel"
    and g: "graph_ok g" and sys: "\<And>c w. \<not> fst (system p c w)" and old: "\<And>w r. changed p w r"
  shows "\<exists>s0 k s order. parmake p fuel (graph_vertices g) w 1 = Some s0 \<and> run (worker_step p) (replicate k 0) s0 = Some s
    \<and> all_built p g order s \<and> {t \<in> set (graph_neighbors g []). \<not> blocked (graph_neighbors g) t} \<subseteq> set order"
proof -
  from parmake_building [OF p(1) fuel g] obtain s0 ls rest where s0: "parmake p fuel (graph_vertices g) w 1 = Some s0"
    "building p g s0 [] ls rest s0" "fresh_states s0"
    "\<And>t. t \<in> set (valid_goals s0) \<Longrightarrow> t \<in> set (graph_vertices g) \<and> \<not> blocked (graph_neighbors g) t"
    "\<And>t v. t \<in> set (valid_goals s0) \<Longrightarrow> (t, v) \<in> (edge_rel (graph_neighbors g))\<^sup>* \<Longrightarrow> st s0 v = UNPROCESSED"
    "set (valid_goals s0) = {t \<in> set (graph_neighbors g []). \<not> blocked (graph_neighbors g) t}" by blast
  have "\<exists>s order. reaches p s0 s \<and> all_built p g order s"
    by (rule building_ends [OF p sys old g s0(3) _ _ s0(2)]) (fact s0(4), rule s0(5))
  then obtain s order where s: "reaches p s0 s" "all_built p g order s" by blast
  then obtain k where k: "run (worker_step p) (replicate k 0) s0 = Some s" unfolding reaches_def by blast
  have "valid_goals s = valid_goals s0" using k by (rule goals_kept)
  then have "{t \<in> set (graph_neighbors g []). \<not> blocked (graph_neighbors g) t} \<subseteq> set order"
    using s0(6) s(2) by (simp add: all_built_def)
  then show ?thesis using s0(1) s(2) k by blast
qed

section \<open>Two workers stop too early\<close>

definition twin_graph :: rgraph where
  "twin_graph = \<lparr>vertex_values = map (\<lambda>v. (v, rule_init)) [[], ''a'', ''d'', ''e'', ''b'', ''c''],
     edges = [([], ''a''), ([], ''b''), (''a'', ''d''), (''a'', ''e''), (''b'', ''c'')]\<rparr>"

definition twin_project :: "unit project" where
  "twin_project = graph_project twin_graph (\<lambda>r. [r]) (\<lambda>_ _. None)"

definition twin_schedule :: "nat list" where
  "twin_schedule = replicate 10 0 @ replicate 10 1 @ replicate 7 0 @ replicate 7 1 @ replicate 6 0 @ replicate 34 1 @ replicate 12 0"

text \<open>
  The goals \<^verbatim>\<open>a: d e\<close> and \<^verbatim>\<open>b: c\<close>. The two workers finish \<^verbatim>\<open>d\<close> and \<^verbatim>\<open>e\<close> together, both find \<^verbatim>\<open>a\<close> ready and queue it;
  while the first worker is busy with \<^verbatim>\<open>c\<close> the second builds \<^verbatim>\<open>a\<close> twice and counts it twice, which are as many as there
  are goals. The call returns 0 with \<^verbatim>\<open>b\<close> not built, although no command failed.
\<close>

theorem parmake_stops_early:
  "\<exists>s0 s. parmake twin_project 6 (graph_vertices twin_graph) () 2 = Some s0
    \<and> run (worker_step twin_project) twin_schedule s0 = Some s \<and> join_workers 2 s = Some 0
    \<and> list_all (\<lambda>t. t \<in> set (valid_goals s)) [''a'', ''b'']
    \<and> commands_run (log s) = map (\<lambda>r. (r, r)) [''d'', ''e'', ''c'', ''a'', ''a''] \<and> st s ''b'' = UNPROCESSED"
proof -
  have "case parmake twin_project 6 (graph_vertices twin_graph) () 2 of None \<Rightarrow> False
    | Some s0 \<Rightarrow> (case run (worker_step twin_project) twin_schedule s0 of None \<Rightarrow> False
      | Some s \<Rightarrow> join_workers 2 s = Some 0 \<and> list_all (\<lambda>t. t \<in> set (valid_goals s)) [''a'', ''b'']
        \<and> commands_run (log s) = map (\<lambda>r. (r, r)) [''d'', ''e'', ''c'', ''a'', ''a''] \<and> st s ''b'' = UNPROCESSED)"
    by code_simp
  then show ?thesis by (auto split: option.splits)
qed

end
