(* ===== verification/MakeParser.thy ===== *)
theory MakeParser
  imports RuleGraph CamelCaser
begin

text \<open>
  \<^verbatim>\<open>parallel_make/parser.c\<close>: a makefile, line by line, into the dependency graph. A file is its characters, without zero
  bytes; \<^verbatim>\<open>getline\<close> gives its lines. Strings the code cuts by writing zero bytes are prefixes here. Reporting an error and
  stopping is the fault \<open>ProcessExit\<close>; the warnings are recorded by the two line numbers they print. Line numbers fit an
  \<^verbatim>\<open>int\<close>.
\<close>

section \<open>Strings\<close>

definition newline :: char where
  "newline = CHR 0x0A"

definition tab :: char where
  "tab = CHR 0x09"

definition isalnum :: "char \<Rightarrow> bool" where
  "isalnum c \<longleftrightarrow> isalpha c \<or> isdigit c"

text \<open>The tokens of \<^verbatim>\<open>strtok\<close> with the delimiter space, which are never empty.\<close>

function split_line_on_spaces :: "string \<Rightarrow> string list" where
  "split_line_on_spaces s =
     (let t = dropWhile (\<lambda>c. c = CHR '' '') s in
      if t = [] then []
      else takeWhile (\<lambda>c. c \<noteq> CHR '' '') t # split_line_on_spaces (dropWhile (\<lambda>c. c \<noteq> CHR '' '') t))"
  by pat_completeness auto
termination
proof (relation "measure length")
  fix s t :: string
  assume t: "t = dropWhile (\<lambda>c. c = CHR '' '') s" "t \<noteq> []"
  then have "hd t \<noteq> CHR '' ''" using hd_dropWhile [of "\<lambda>c. c = CHR '' ''" s] by simp
  then have "length (dropWhile (\<lambda>c. c \<noteq> CHR '' '') t) < length t"
    using t(2) length_dropWhile_le [of "\<lambda>c. c \<noteq> CHR '' ''" "tl t"] by (cases t) (simp_all add: less_Suc_eq_le)
  then show "(dropWhile (\<lambda>c. c \<noteq> CHR '' '') t, s) \<in> measure length"
    using length_dropWhile_le [of "\<lambda>c. c = CHR '' ''" s] t(1) by simp
qed simp

declare split_line_on_spaces.simps [simp del]

definition is_makefile_target :: "string \<Rightarrow> bool" where
  "is_makefile_target line \<longleftrightarrow> line \<noteq> [] \<and> (isalnum (hd line) \<or> hd line = CHR ''.'' \<or> hd line = CHR ''/'')"

definition skip_whitespace :: "string \<Rightarrow> string" where
  "skip_whitespace s = dropWhile isspace s"

text \<open>The pointer \<open>find_whitespace\<close> returns, as an offset, and what is left when the character there is set to \<open>NUL\<close>.\<close>

fun find_whitespace :: "string \<Rightarrow> nat" where
  "find_whitespace [] = 0"
| "find_whitespace (c # s) = (if isspace c then 0 else Suc (find_whitespace s))"

definition terminate_whitespace :: "string \<Rightarrow> string" where
  "terminate_whitespace s = take (find_whitespace s) s"

lemma terminate_whitespace_takeWhile: "terminate_whitespace s = takeWhile (\<lambda>c. \<not> isspace c) s"
  by (induction s) (simp_all add: terminate_whitespace_def)

definition strip_back_whitespace :: "string \<Rightarrow> string" where
  "strip_back_whitespace s = rev (dropWhile isspace (rev s))"

text \<open>A backslash skips the next character, which may be past the place in question.\<close>

fun quote_state :: "bool \<Rightarrow> string \<Rightarrow> bool" where
  "quote_state q [] = q"
| "quote_state q [c] = (if c = CHR 0x5C then q else if c = CHR 0x22 then \<not> q else q)"
| "quote_state q (c # d # s) =
     (if c = CHR 0x5C then quote_state q s else if c = CHR 0x22 then quote_state (\<not> q) (d # s) else quote_state q (d # s))"

definition in_quotes :: "string \<Rightarrow> nat \<Rightarrow> bool" where
  "in_quotes s i = quote_state False (take i s)"

text \<open>The search goes on at the index \<open>i\<close>.\<close>

function strip_comments_from :: "nat \<Rightarrow> string \<Rightarrow> string" where
  "strip_comments_from i s =
     (if i < length s
      then if s ! i = CHR ''#'' \<and> \<not> in_quotes s i then take i s else strip_comments_from (Suc i) s
      else s)"
  by pat_completeness auto
termination by (relation "measure (\<lambda>(i, s). length s - i)") auto

declare strip_comments_from.simps [simp del]

definition strip_back_comments :: "string \<Rightarrow> string" where
  "strip_back_comments s = strip_comments_from 0 s"

text \<open>The next line with its newline, and the rest of the file.\<close>

definition getline :: "string \<Rightarrow> (string \<times> string) option" where
  "getline s =
     (if s = [] then None
      else let l = takeWhile (\<lambda>c. c \<noteq> newline) s; r = dropWhile (\<lambda>c. c \<noteq> newline) s in
           if r = [] then Some (l, []) else Some (l @ [newline], tl r))"

section \<open>The graph of a makefile\<close>

definition str_to_rule_constructor :: "string \<Rightarrow> rule" where
  "str_to_rule_constructor s = rule_init\<lparr>target := Some s\<rparr>"

definition add_vertex :: "rgraph \<Rightarrow> string \<Rightarrow> rgraph" where
  "add_vertex g v = graph_set_vertex_value g v (str_to_rule_constructor v)"

definition zero_out_states :: "rgraph \<Rightarrow> rgraph" where
  "zero_out_states g = g\<lparr>vertex_values := map (\<lambda>(v, r). (v, r\<lparr>state := 0\<rparr>)) (vertex_values g)\<rparr>"

text \<open>The code holds a pointer to the rule in the graph: a change of the rule is a change of the vertex.\<close>

definition update_rule :: "rgraph \<Rightarrow> string \<Rightarrow> (rule \<Rightarrow> rule) \<Rightarrow> rgraph" where
  "update_rule g v f = g\<lparr>vertex_values := map (\<lambda>(k, r). (k, if k = v then f r else r)) (vertex_values g)\<rparr>"

record parser =
  dependency_graph :: rgraph
  first_target :: "string option"
  curr_rule :: "string option"
  line_number :: nat
  in_command_block :: bool
  warnings :: "(nat \<times> nat) list"

definition parser_start :: parser where
  "parser_start = \<lparr>dependency_graph = add_vertex graph_create [], first_target = None, curr_rule = None, line_number = 0,
     in_command_block = False, warnings = []\<rparr>"

text \<open>A missing makefile stops with 2, whatever the reason.\<close>

definition open_makefile :: "string option \<Rightarrow> (string \<Rightarrow> string option) \<Rightarrow> string list \<Rightarrow> string res" where
  "open_makefile name disk goals =
     (case name of None \<Rightarrow> Inl (ProcessExit 2)
      | Some n \<Rightarrow> (case disk n of None \<Rightarrow> Inl (ProcessExit 2) | Some content \<Rightarrow> Inr content))"

definition recipe_line :: "string \<Rightarrow> parser \<Rightarrow> parser res" where
  "recipe_line line s =
     (case curr_rule s of
        None \<Rightarrow> Inl (ProcessExit 2)
      | Some v \<Rightarrow>
          let s = (if in_command_block s then s
                   else case graph_get_vertex_value (dependency_graph s) v of None \<Rightarrow> s
                     | Some r \<Rightarrow>
                        if state r = 0
                        then s\<lparr>dependency_graph := update_rule (dependency_graph s) v (\<lambda>r. r\<lparr>state := line_number s\<rparr>)\<rparr>
                        else s\<lparr>warnings := warnings s @ [(line_number s, state r)],
                               dependency_graph := update_rule (dependency_graph s) v
                                 (\<lambda>r. r\<lparr>state := line_number s, commands := []\<rparr>)\<rparr>)
          in Inr (s\<lparr>in_command_block := True,
                dependency_graph := update_rule (dependency_graph s) v (\<lambda>r. r\<lparr>commands := commands r @ [line]\<rparr>)\<rparr>))"

fun add_dependencies :: "string \<Rightarrow> string list \<Rightarrow> rgraph \<Rightarrow> rgraph" where
  "add_dependencies v [] g = g"
| "add_dependencies v (d # ds) g =
     add_dependencies v ds (graph_add_edge (if graph_contains_vertex g d then g else add_vertex g d) v d)"

definition target_line :: "string \<Rightarrow> parser \<Rightarrow> parser res" where
  "target_line line s =
     (if CHR '':'' \<notin> set line then Inl (ProcessExit 2)
      else
        let v = terminate_whitespace (takeWhile (\<lambda>c. c \<noteq> CHR '':'') line);
            dep_line = tl (dropWhile (\<lambda>c. c \<noteq> CHR '':'') line);
            g = dependency_graph s;
            s = (if graph_contains_vertex g v then s
                 else s\<lparr>dependency_graph := add_vertex g v,
                        first_target := (case first_target s of None \<Rightarrow> Some v | Some t \<Rightarrow> Some t)\<rparr>)
        in Inr (s\<lparr>in_command_block := False, curr_rule := Some v,
              dependency_graph := add_dependencies v (split_line_on_spaces dep_line) (dependency_graph s)\<rparr>))"

definition strip_newline :: "string \<Rightarrow> string" where
  "strip_newline l =
     (if l \<noteq> [] \<and> last l = newline
      then let l = butlast l in if l \<noteq> [] \<and> last l = CHR 0x0D then butlast l else l
      else l)"

definition parse_line :: "string \<Rightarrow> parser \<Rightarrow> parser res" where
  "parse_line l s =
     (let s = s\<lparr>line_number := Suc (line_number s)\<rparr>;
          buf = strip_back_whitespace (strip_newline l);
          line = strip_back_comments (skip_whitespace buf)
      in if line = [] then Inr s
         else if hd buf = tab then recipe_line line s
         else if is_makefile_target line then target_line line s
         else Inl (ProcessExit 2))"

function parse_lines :: "string \<Rightarrow> parser \<Rightarrow> parser res" where
  "parse_lines content s =
     (case getline content of None \<Rightarrow> Inr s
      | Some (l, rest) \<Rightarrow> bindE (parse_line l s) (parse_lines rest))"
  by pat_completeness auto
termination
proof (relation "measure (\<lambda>(c, s). length c)")
  fix content l rest :: string and s s' :: parser and x
  assume x: "getline content = Some x" "(l, rest) = x"
  have "length rest < length content"
  proof -
    have d: "length (dropWhile (\<lambda>c. c \<noteq> newline) content) \<le> length content" by (rule length_dropWhile_le)
    show ?thesis using x d by (cases "dropWhile (\<lambda>c. c \<noteq> newline) content") (auto simp: getline_def Let_def split: if_splits)
  qed
  then show "((rest, s'), content, s) \<in> measure (\<lambda>(c, s). length c)" by simp
qed simp

declare parse_lines.simps [simp del]

fun add_goals :: "string list \<Rightarrow> rgraph \<Rightarrow> rgraph res" where
  "add_goals [] g = Inr g"
| "add_goals (t # ts) g = (if graph_contains_vertex g t then add_goals ts (graph_add_edge g [] t) else Inl (ProcessExit 1))"

definition parser_parse_makefile :: "string option \<Rightarrow> (string \<Rightarrow> string option) \<Rightarrow> string list \<Rightarrow> rgraph res" where
  "parser_parse_makefile name disk goals =
     bindE (open_makefile name disk goals) (\<lambda>content.
     bindE (parse_lines content parser_start) (\<lambda>s.
     bindE (if goals \<noteq> [] then Inr goals else case first_target s of None \<Rightarrow> Inl (ProcessExit 2) | Some t \<Rightarrow> Inr [t]) (\<lambda>goals.
     bindE (add_goals goals (dependency_graph s)) (\<lambda>g. Inr (zero_out_states g)))))"

section \<open>The command line\<close>

text \<open>
  \<^verbatim>\<open>parse_args\<close> of \<^verbatim>\<open>parmake_main.c\<close>. \<^verbatim>\<open>getopt\<close> gives the options with their arguments, \<^verbatim>\<open>access\<close> says which files can be
  read. \<^verbatim>\<open>strtol\<close> in base 10: white space, a sign, the digits; the value is cut to the range of \<^verbatim>\<open>long\<close>, and without a digit
  nothing is read.
\<close>

definition strtol :: "string \<Rightarrow> int \<times> string" where
  "strtol s =
     (let t = dropWhile isspace s;
          neg = (t \<noteq> [] \<and> hd t = CHR ''-'');
          u = (if t \<noteq> [] \<and> (hd t = CHR ''-'' \<or> hd t = CHR ''+'') then tl t else t);
          ds = takeWhile isdigit u;
          n = foldl (\<lambda>n d. 10 * n + (int (code d) - 48)) 0 ds
      in if ds = [] then (0, s)
         else (if neg then max (- (2 ^ 63)) (- n) else min (2 ^ 63 - 1) n, dropWhile isdigit u))"

fun parse_options :: "(char \<times> string) list \<Rightarrow> string option \<Rightarrow> nat \<Rightarrow> (string option \<times> nat) res" where
  "parse_options [] makefile num_threads = Inr (makefile, num_threads)"
| "parse_options ((c, optarg) # os) makefile num_threads =
     (if c = CHR ''f'' then parse_options os (Some optarg) num_threads
      else if c = CHR ''j''
      then (case strtol optarg of (value, rest) \<Rightarrow>
              if rest \<noteq> [] \<or> value < 1 then Inl (ProcessExit 2) else parse_options os makefile (nat value))
      else parse_options os makefile num_threads)"

definition parse_args :: "(char \<times> string) list \<Rightarrow> (string \<Rightarrow> bool) \<Rightarrow> (string option \<times> nat) res" where
  "parse_args os readable =
     bindE (parse_options os None 1) (\<lambda>(makefile, num_threads).
       Inr (case makefile of Some f \<Rightarrow> Some f
            | None \<Rightarrow> if readable ''makefile'' then Some ''makefile''
                      else if readable ''Makefile'' then Some ''Makefile'' else None, num_threads))"

text \<open>The number of threads that comes out is at least one.\<close>

lemma parse_options_threads: "parse_options os f n = Inr (f', n') \<Longrightarrow> 1 \<le> n \<Longrightarrow> 1 \<le> n'"
  by (induction os f n rule: parse_options.induct) (auto split: if_splits prod.splits)

lemma parse_args_threads: "parse_args os readable = Inr (f, n) \<Longrightarrow> 1 \<le> n"
  unfolding parse_args_def by (auto simp: bindE_eq_Inr_iff dest: parse_options_threads)

section \<open>Writing a makefile\<close>

text \<open>A target with its dependencies and commands, and the makefile of a list of these.\<close>

type_synonym entry = "string \<times> string list \<times> string list"

definition dep_text :: "string list \<Rightarrow> string" where
  "dep_text ds = concat (map (\<lambda>d. CHR '' '' # d) ds)"

definition recipe_text :: "string list \<Rightarrow> string" where
  "recipe_text cs = concat (map (\<lambda>c. tab # c @ [newline]) cs)"

fun entry_text :: "entry \<Rightarrow> string" where
  "entry_text (t, ds, cs) = t @ CHR '':'' # dep_text ds @ newline # recipe_text cs"

definition makefile_text :: "entry list \<Rightarrow> string" where
  "makefile_text es = concat (map entry_text es)"

definition word_ok :: "string \<Rightarrow> bool" where
  "word_ok w \<longleftrightarrow> w \<noteq> [] \<and> (\<forall>c \<in> set w. \<not> isspace c \<and> c \<noteq> CHR '':'' \<and> c \<noteq> CHR ''#'')"

definition command_ok :: "string \<Rightarrow> bool" where
  "command_ok c \<longleftrightarrow> c \<noteq> [] \<and> \<not> isspace (hd c) \<and> \<not> isspace (last c) \<and> newline \<notin> set c \<and> CHR ''#'' \<notin> set c"

fun entry_ok :: "entry \<Rightarrow> bool" where
  "entry_ok (t, ds, cs) \<longleftrightarrow> word_ok t \<and> is_makefile_target t \<and> (\<forall>d \<in> set ds. word_ok d) \<and> (\<forall>c \<in> set cs. command_ok c)"

section \<open>Lines and words\<close>

lemma space_chars [simp]: "isspace newline" "isspace tab" "isspace (CHR '' '')" "\<not> isspace (CHR '':'')" "\<not> isspace (CHR ''#'')"
  by (simp_all add: char_class_defs newline_def tab_def)

lemma char_neqs [simp]: "newline \<noteq> CHR '':''" "CHR '':'' \<noteq> newline" "newline \<noteq> CHR '' ''" "CHR '' '' \<noteq> newline" "tab \<noteq> newline" "newline \<noteq> tab"
    "tab \<noteq> CHR '':''" "tab \<noteq> CHR '' ''" "tab \<noteq> CHR ''#''" "CHR ''#'' \<noteq> tab" "isspace (CHR 0x0D)"
  by (simp_all add: newline_def tab_def char_class_defs)

lemma parse_lines_cons:
  assumes "newline \<notin> set l"
  shows "parse_lines (l @ newline # rest) s = bindE (parse_line (l @ [newline]) s) (parse_lines rest)"
proof -
  have "takeWhile (\<lambda>c. c \<noteq> newline) (l @ newline # rest) = l" "dropWhile (\<lambda>c. c \<noteq> newline) (l @ newline # rest) = newline # rest"
    using assms by (auto simp: takeWhile_append dropWhile_append takeWhile_eq_all_conv)
  then show ?thesis by (subst parse_lines.simps) (simp add: getline_def)
qed

lemma strip_comments_id: "CHR ''#'' \<notin> set s \<Longrightarrow> strip_back_comments s = s"
proof -
  assume h: "CHR ''#'' \<notin> set s"
  have "strip_comments_from i s = s" for i
    using h by (induction i s rule: strip_comments_from.induct) (subst strip_comments_from.simps, auto simp: in_set_conv_nth)
  then show ?thesis by (simp add: strip_back_comments_def)
qed

lemma strip_back_id: "s \<noteq> [] \<Longrightarrow> \<not> isspace (last s) \<Longrightarrow> strip_back_whitespace s = s"
  by (cases s rule: rev_cases) (simp_all add: strip_back_whitespace_def)

lemma parse_line_plain:
  assumes "l \<noteq> []" and "\<not> isspace (last l)" and "CHR ''#'' \<notin> set l"
  shows "parse_line (l @ [newline]) s = (let s = s\<lparr>line_number := Suc (line_number s)\<rparr>; line = dropWhile isspace l in
     if line = [] then Inr s else if hd l = tab then recipe_line line s
     else if is_makefile_target line then target_line line s else Inl (ProcessExit 2))"
proof -
  have "last l \<noteq> CHR 0x0D" using assms(2) by auto
  then have "strip_newline (l @ [newline]) = l" by (simp add: strip_newline_def Let_def)
  moreover have "CHR ''#'' \<notin> set (dropWhile isspace l)" using assms(3) by (auto dest: set_dropWhileD)
  ultimately show ?thesis
    using assms strip_back_id by (simp add: parse_line_def skip_whitespace_def strip_comments_id Let_def)
qed

lemma word_okD:
  assumes "word_ok w"
  shows "w \<noteq> []" "CHR '' '' \<notin> set w" "CHR '':'' \<notin> set w" "CHR ''#'' \<notin> set w" "newline \<notin> set w" "c \<in> set w \<Longrightarrow> \<not> isspace c"
proof -
  have w: "\<not> isspace c \<and> c \<noteq> CHR '':'' \<and> c \<noteq> CHR ''#''" if "c \<in> set w" for c using assms that by (simp add: word_ok_def)
  show "w \<noteq> []" using assms by (simp add: word_ok_def)
  show "CHR '' '' \<notin> set w" using w [of "CHR '' ''"] by auto
  show "CHR '':'' \<notin> set w" using w [of "CHR '':''"] by auto
  show "CHR ''#'' \<notin> set w" using w [of "CHR ''#''"] by auto
  show "newline \<notin> set w" using w [of newline] by auto
  show "c \<in> set w \<Longrightarrow> \<not> isspace c" using w by blast
qed

lemma takeWhile_word:
  "\<forall>c \<in> set d. P c \<Longrightarrow> xs = [] \<or> \<not> P (hd xs) \<Longrightarrow> takeWhile P (d @ xs) = d \<and> dropWhile P (d @ xs) = xs"
  by (induction d) (cases xs, auto)

lemma split_words:
  assumes "\<forall>d \<in> set ds. word_ok d"
  shows "split_line_on_spaces (dep_text ds) = ds"
  using assms
proof (induction ds)
  case Nil
  then show ?case by (simp add: dep_text_def split_line_on_spaces.simps)
next
  case (Cons d ds)
  have d: "d \<noteq> []" "CHR '' '' \<notin> set d" using Cons.prems word_okD(1,2) [of d] by simp_all
  have r: "dep_text ds = [] \<or> (\<exists>xs. dep_text ds = CHR '' '' # xs)" by (cases ds) (simp_all add: dep_text_def)
  have "dropWhile (\<lambda>c. c = CHR '' '') (CHR '' '' # d @ dep_text ds) = d @ dep_text ds"
    using d by (cases d) auto
  moreover have "takeWhile (\<lambda>c. c \<noteq> CHR '' '') (d @ dep_text ds) = d" "dropWhile (\<lambda>c. c \<noteq> CHR '' '') (d @ dep_text ds) = dep_text ds"
    using takeWhile_word [of d "\<lambda>c. c \<noteq> CHR '' ''" "dep_text ds"] d(2) r by (metis list.sel(1))+
  moreover have "dep_text (d # ds) = CHR '' '' # d @ dep_text ds" by (simp add: dep_text_def)
  ultimately show ?case using Cons d by (subst split_line_on_spaces.simps) (simp add: Let_def)
qed

section \<open>Looking up in the graph\<close>

lemma map_of_map_values: "map_of (map (\<lambda>(k, r). (k, f k r)) xs) v = map_option (f v) (map_of xs v)"
  by (induction xs) auto

lemma contains_iff: "graph_contains_vertex g v \<longleftrightarrow> graph_get_vertex_value g v \<noteq> None"
  by (auto simp: graph_contains_vertex_def graph_vertices_def graph_get_vertex_value_def map_of_eq_None_iff)

lemma get_add_vertex:
  "\<not> graph_contains_vertex g v \<Longrightarrow>
     graph_get_vertex_value (add_vertex g v) u = (if u = v then Some (str_to_rule_constructor v) else graph_get_vertex_value g u)"
proof -
  assume n: "\<not> graph_contains_vertex g v"
  then have "map_of (vertex_values g) v = None" by (simp add: contains_iff graph_get_vertex_value_def)
  then show ?thesis
    using n by (simp add: add_vertex_def graph_set_vertex_value_def graph_get_vertex_value_def map_add_def split: option.split)
qed

lemma get_update_rule:
  "graph_get_vertex_value (update_rule g v f) u = (if u = v then map_option f (graph_get_vertex_value g u) else graph_get_vertex_value g u)"
proof -
  have "map_of (map (\<lambda>(k, r). (k, if k = v then f r else r)) xs) u = map_option (\<lambda>r. if u = v then f r else r) (map_of xs u)" for xs
    using map_of_map_values [of "\<lambda>k r. if k = v then f r else r" xs u] by simp
  then show ?thesis by (simp add: update_rule_def graph_get_vertex_value_def option.map_ident)
qed

lemma get_add_edge [simp]: "graph_get_vertex_value (graph_add_edge g a b) u = graph_get_vertex_value g u"
  by (simp add: graph_add_edge_def graph_get_vertex_value_def)

lemma neighbors_add_edge: "set (graph_neighbors (graph_add_edge g a b) u) = set (graph_neighbors g u) \<union> (if u = a then {b} else {})"
  by (auto simp: graph_add_edge_def graph_neighbors_def image_iff)

lemma neighbors_simps [simp]:
  "graph_neighbors (add_vertex g v) u = graph_neighbors g u" "graph_neighbors (update_rule g v f) u = graph_neighbors g u"
  by (simp_all add: graph_neighbors_def add_vertex_def graph_set_vertex_value_def update_rule_def)

lemma get_zero_out: "graph_get_vertex_value (zero_out_states g) v = map_option (\<lambda>r. r\<lparr>state := 0\<rparr>) (graph_get_vertex_value g v)"
  using map_of_map_values [of "\<lambda>k r. r\<lparr>state := 0\<rparr>" "vertex_values g" v] by (simp add: zero_out_states_def graph_get_vertex_value_def)

lemma neighbors_zero_out [simp]: "graph_neighbors (zero_out_states g) v = graph_neighbors g v"
  by (simp add: zero_out_states_def graph_neighbors_def)

text \<open>The vertices, commands and dependencies of a list of entries.\<close>

definition named :: "entry list \<Rightarrow> string set" where
  "named es = insert [] (\<Union>(t, ds, cs) \<in> set es. insert t (set ds))"

definition commands_of :: "entry list \<Rightarrow> string \<Rightarrow> string list" where
  "commands_of es v = (case map_of es v of None \<Rightarrow> [] | Some (ds, cs) \<Rightarrow> cs)"

definition deps_of :: "entry list \<Rightarrow> string \<Rightarrow> string set" where
  "deps_of es v = (case map_of es v of None \<Rightarrow> {} | Some (ds, cs) \<Rightarrow> set ds)"

definition depicts :: "rgraph \<Rightarrow> entry list \<Rightarrow> bool" where
  "depicts g es \<longleftrightarrow>
     (\<forall>v. if v \<in> named es
          then \<exists>n. graph_get_vertex_value g v = Some \<lparr>target = Some v, commands = commands_of es v, state = n\<rparr>
                 \<and> (v \<notin> fst ` set es \<longrightarrow> n = 0)
          else graph_get_vertex_value g v = None)
     \<and> (\<forall>v. set (graph_neighbors g v) = deps_of es v)"

lemma depicts_contains: "depicts g es \<Longrightarrow> graph_contains_vertex g v \<longleftrightarrow> v \<in> named es"
  by (auto simp: depicts_def contains_iff split: if_splits)

section \<open>One entry\<close>

lemma update_rule_update_rule: "update_rule (update_rule g v f) v h = update_rule g v (\<lambda>r. h (f r))"
proof -
  have "map (\<lambda>(k, r). (k, if k = v then h r else r)) (map (\<lambda>(k, r). (k, if k = v then f r else r)) xs)
      = map (\<lambda>(k, r). (k, if k = v then h (f r) else r)) xs" for xs :: "(string \<times> rule) list"
    by (induction xs) auto
  then show ?thesis by (simp only: update_rule_def) simp
qed

lemma update_rule_id: "(\<And>r. f r = r) \<Longrightarrow> update_rule g v f = g"
proof -
  assume f: "\<And>r. f r = r"
  have "map (\<lambda>(k, r). (k, if k = v then f r else r)) xs = xs" for xs by (induction xs) (auto simp: f)
  then show ?thesis by (simp add: update_rule_def)
qed

lemma recipe_text_simps [simp]: "recipe_text [] = []" "recipe_text (c # cs) = tab # c @ newline # recipe_text cs"
  by (simp_all add: recipe_text_def)

lemma parse_command:
  assumes "command_ok c"
  shows "parse_line (tab # c @ [newline]) s = recipe_line c (s\<lparr>line_number := Suc (line_number s)\<rparr>)"
proof -
  have "dropWhile isspace (tab # c) = c" using assms by (cases c) (auto simp: command_ok_def)
  moreover have "parse_line ((tab # c) @ [newline]) s = (let s = s\<lparr>line_number := Suc (line_number s)\<rparr>; line = dropWhile isspace (tab # c) in
     if line = [] then Inr s else if hd (tab # c) = tab then recipe_line line s
     else if is_makefile_target line then target_line line s else Inl (ProcessExit 2))"
    using assms by (intro parse_line_plain) (auto simp: command_ok_def)
  ultimately show ?thesis using assms by (simp add: command_ok_def Let_def)
qed

lemma parse_lines_command:
  assumes "command_ok c"
  shows "parse_lines (recipe_text (c # cs) @ rest) s
    = bindE (recipe_line c (s\<lparr>line_number := Suc (line_number s)\<rparr>)) (parse_lines (recipe_text cs @ rest))"
  using parse_lines_cons [of "tab # c" "recipe_text cs @ rest" s] parse_command [OF assms, of s] assms
  by (simp add: command_ok_def)

lemma parse_more_commands:
  assumes "\<forall>c \<in> set cs. command_ok c" and "curr_rule s = Some t" and "in_command_block s"
  shows "\<exists>k. parse_lines (recipe_text cs @ rest) s = parse_lines rest
    (s\<lparr>line_number := k, dependency_graph := update_rule (dependency_graph s) t (\<lambda>r. r\<lparr>commands := commands r @ cs\<rparr>)\<rparr>)"
  using assms
proof (induction cs arbitrary: s)
  case Nil
  have eq: "s\<lparr>line_number := line_number s, dependency_graph := update_rule (dependency_graph s) t (\<lambda>r. r\<lparr>commands := commands r @ []\<rparr>)\<rparr> = s"
    using update_rule_id [of "\<lambda>r. r\<lparr>commands := commands r @ []\<rparr>"] by simp
  show ?case by (rule exI [of _ "line_number s"]) (simp only: eq recipe_text_simps append_Nil)
next
  case (Cons c cs)
  let ?s = "s\<lparr>line_number := Suc (line_number s), dependency_graph := update_rule (dependency_graph s) t (\<lambda>r. r\<lparr>commands := commands r @ [c]\<rparr>)\<rparr>"
  have "recipe_line c (s\<lparr>line_number := Suc (line_number s)\<rparr>) = Inr (?s\<lparr>in_command_block := True\<rparr>)"
    using Cons.prems by (simp add: recipe_line_def)
  moreover have "?s\<lparr>in_command_block := True\<rparr> = ?s" using Cons.prems(3) by (cases s) simp
  ultimately have "parse_lines (recipe_text (c # cs) @ rest) s = parse_lines (recipe_text cs @ rest) ?s"
    using Cons.prems(1) by (subst parse_lines_command) simp_all
  moreover obtain k where "parse_lines (recipe_text cs @ rest) ?s = parse_lines rest
      (?s\<lparr>line_number := k, dependency_graph := update_rule (dependency_graph ?s) t (\<lambda>r. r\<lparr>commands := commands r @ cs\<rparr>)\<rparr>)"
    using Cons.IH [of ?s] Cons.prems by auto
  ultimately show ?case by (auto simp: update_rule_update_rule)
qed

lemma parse_commands:
  assumes "\<forall>c \<in> set (c # cs). command_ok c" and "curr_rule s = Some t" and "\<not> in_command_block s"
    and "graph_get_vertex_value (dependency_graph s) t = Some r" and "state r = 0"
  shows "\<exists>k n. parse_lines (recipe_text (c # cs) @ rest) s = parse_lines rest
    (s\<lparr>in_command_block := True, line_number := k,
       dependency_graph := update_rule (dependency_graph s) t (\<lambda>r. r\<lparr>state := n, commands := commands r @ (c # cs)\<rparr>)\<rparr>)"
proof -
  let ?n = "Suc (line_number s)"
  let ?s = "s\<lparr>line_number := ?n, in_command_block := True,
      dependency_graph := update_rule (dependency_graph s) t (\<lambda>r. r\<lparr>state := ?n, commands := commands r @ [c]\<rparr>)\<rparr>"
  have "recipe_line c (s\<lparr>line_number := ?n\<rparr>) = Inr ?s"
    using assms by (simp add: recipe_line_def update_rule_update_rule)
  then have "parse_lines (recipe_text (c # cs) @ rest) s = parse_lines (recipe_text cs @ rest) ?s"
    using assms(1) by (subst parse_lines_command) simp_all
  moreover obtain k where "parse_lines (recipe_text cs @ rest) ?s = parse_lines rest
      (?s\<lparr>line_number := k, dependency_graph := update_rule (dependency_graph ?s) t (\<lambda>r. r\<lparr>commands := commands r @ cs\<rparr>)\<rparr>)"
    using parse_more_commands [of cs ?s t rest] assms(1,2) by auto
  ultimately show ?thesis by (auto simp: update_rule_update_rule)
qed

lemma add_dependencies_get:
  "graph_get_vertex_value (add_dependencies v ds g) u =
     (case graph_get_vertex_value g u of Some r \<Rightarrow> Some r
      | None \<Rightarrow> if u \<in> set ds then Some (str_to_rule_constructor u) else None)"
  by (induction ds arbitrary: g) (auto simp: get_add_vertex contains_iff split: option.splits)

lemma add_dependencies_neighbors:
  "set (graph_neighbors (add_dependencies v ds g) u) = set (graph_neighbors g u) \<union> (if u = v then set ds else {})"
  by (induction ds arbitrary: g) (auto simp: neighbors_add_edge)

lemma parse_target:
  assumes "entry_ok (t, ds, cs)"
  shows "newline \<notin> set (t @ CHR '':'' # dep_text ds)"
    and "parse_line ((t @ CHR '':'' # dep_text ds) @ [newline]) s =
      (let g = dependency_graph s; new = \<not> graph_contains_vertex g t in
       Inr (s\<lparr>line_number := Suc (line_number s), in_command_block := False, curr_rule := Some t,
          first_target := (if new \<and> first_target s = None then Some t else first_target s),
          dependency_graph := add_dependencies t ds (if new then add_vertex g t else g)\<rparr>))"
proof -
  let ?l = "t @ CHR '':'' # dep_text ds"
  have t: "word_ok t" "is_makefile_target t" and ds: "\<forall>d \<in> set ds. word_ok d" using assms by simp_all
  note wt = word_okD [OF t(1)]
  have dt: "newline \<notin> set (dep_text ds)" "CHR ''#'' \<notin> set (dep_text ds)"
    using ds word_okD(4,5) by (auto simp: dep_text_def)
  then show nl: "newline \<notin> set ?l" using wt by simp
  have "\<not> isspace (last ?l)"
  proof (cases ds rule: rev_cases)
    case Nil
    then show ?thesis by (simp add: dep_text_def)
  next
    case (snoc xs d)
    then have "d \<noteq> []" "last ?l = last d" using ds word_okD(1) [of d] by (simp_all add: dep_text_def)
    then show ?thesis using ds snoc word_okD(6) [of d "last d"] by simp
  qed
  moreover have "CHR ''#'' \<notin> set ?l" using wt dt by simp
  moreover have hd: "hd ?l = hd t" "\<not> isspace (hd t)" using wt(1) wt(6) [of "hd t"] by (cases t, simp_all)
  moreover have "dropWhile isspace ?l = ?l" using hd wt(1) by (cases t) simp_all
  moreover have "hd t \<noteq> tab" using hd by auto
  moreover have "is_makefile_target ?l" using t(2) hd by (simp add: is_makefile_target_def)
  ultimately have p: "parse_line (?l @ [newline]) s = target_line ?l (s\<lparr>line_number := Suc (line_number s)\<rparr>)"
    using parse_line_plain [of ?l s] by (simp add: Let_def)
  have "takeWhile (\<lambda>c. c \<noteq> CHR '':'') ?l = t" "dropWhile (\<lambda>c. c \<noteq> CHR '':'') ?l = CHR '':'' # dep_text ds"
    using takeWhile_word [of t "\<lambda>c. c \<noteq> CHR '':''" "CHR '':'' # dep_text ds"] wt(3) by (metis list.sel(1))+
  moreover have "terminate_whitespace t = t" using wt(6) by (simp add: terminate_whitespace_takeWhile takeWhile_eq_all_conv)
  ultimately show "parse_line (?l @ [newline]) s =
      (let g = dependency_graph s; new = \<not> graph_contains_vertex g t in
       Inr (s\<lparr>line_number := Suc (line_number s), in_command_block := False, curr_rule := Some t,
          first_target := (if new \<and> first_target s = None then Some t else first_target s),
          dependency_graph := add_dependencies t ds (if new then add_vertex g t else g)\<rparr>))"
    unfolding p by (auto simp: target_line_def Let_def split_words [OF ds] split: option.split)
qed

section \<open>A whole makefile\<close>

lemma map_of_fresh: "t \<notin> fst ` set es \<Longrightarrow> map_of (es @ [(t, x)]) v = (if v = t then Some x else map_of es v)"
  by (auto simp: map_add_def map_of_eq_None_iff [symmetric] split: option.split)

lemma depicts_entry:
  assumes "depicts g es" and "t \<notin> fst ` set es"
    and get: "\<And>v. graph_get_vertex_value g' v = (if v = t then Some \<lparr>target = Some t, commands = cs, state = n\<rparr>
      else case graph_get_vertex_value g v of Some r \<Rightarrow> Some r | None \<Rightarrow> if v \<in> set ds then Some (str_to_rule_constructor v) else None)"
    and nbrs: "\<And>v. set (graph_neighbors g' v) = set (graph_neighbors g v) \<union> (if v = t then set ds else {})"
  shows "depicts g' (es @ [(t, ds, cs)])"
proof -
  have c: "commands_of (es @ [(t, ds, cs)]) v = (if v = t then cs else commands_of es v)" for v
    using map_of_fresh [OF assms(2), of "(ds, cs)" v] by (simp add: commands_of_def)
  have d: "deps_of (es @ [(t, ds, cs)]) v = (if v = t then set ds else deps_of es v)" for v
    using map_of_fresh [OF assms(2), of "(ds, cs)" v] by (simp add: deps_of_def)
  have n: "named (es @ [(t, ds, cs)]) = insert t (named es \<union> set ds)" by (auto simp: named_def)
  have new: "commands_of es v = []" if "v \<notin> named es" for v
  proof -
    have "v \<notin> fst ` set es" using that by (force simp: named_def)
    then show ?thesis by (simp add: commands_of_def map_of_eq_None_iff [symmetric])
  qed
  have old: "v \<in> named es \<Longrightarrow> \<exists>n. graph_get_vertex_value g v = Some \<lparr>target = Some v, commands = commands_of es v, state = n\<rparr>
      \<and> (v \<notin> fst ` set es \<longrightarrow> n = 0)" "v \<notin> named es \<Longrightarrow> graph_get_vertex_value g v = None" for v
    using assms(1) unfolding depicts_def by (auto dest!: spec [of _ v])
  have "deps_of es t = {}" using assms(2) by (simp add: deps_of_def map_of_eq_None_iff [symmetric])
  then have "set (graph_neighbors g' v) = deps_of (es @ [(t, ds, cs)]) v" for v
    using assms(1) nbrs [of v] by (simp add: depicts_def d)
  moreover have "if v \<in> named (es @ [(t, ds, cs)])
      then \<exists>n. graph_get_vertex_value g' v = Some \<lparr>target = Some v, commands = commands_of (es @ [(t, ds, cs)]) v, state = n\<rparr>
        \<and> (v \<notin> fst ` set (es @ [(t, ds, cs)]) \<longrightarrow> n = 0)
      else graph_get_vertex_value g' v = None" for v
    using old [of v] new [of v]
    by (cases "v \<in> named es"; cases "v = t")
      (auto simp: get c n str_to_rule_constructor_def rule_init_def)
  ultimately show ?thesis unfolding depicts_def by blast
qed

lemma parse_entry:
  assumes "depicts (dependency_graph s) es" and "t \<notin> fst ` set es" and "entry_ok (t, ds, cs)"
  shows "\<exists>s'. parse_lines (entry_text (t, ds, cs) @ rest) s = parse_lines rest s' \<and> depicts (dependency_graph s') (es @ [(t, ds, cs)])
    \<and> first_target s' = (if t \<notin> named es \<and> first_target s = None then Some t else first_target s)"
proof -
  let ?g = "dependency_graph s" and ?new = "\<not> graph_contains_vertex (dependency_graph s) t"
  let ?g1 = "add_dependencies t ds (if ?new then add_vertex ?g t else ?g)"
  let ?s1 = "s\<lparr>line_number := Suc (line_number s), in_command_block := False, curr_rule := Some t,
    first_target := (if ?new \<and> first_target s = None then Some t else first_target s), dependency_graph := ?g1\<rparr>"
  have run: "parse_lines (entry_text (t, ds, cs) @ rest) s = parse_lines (recipe_text cs @ rest) ?s1"
    using parse_lines_cons [OF parse_target(1) [OF assms(3)], of "recipe_text cs @ rest" s] parse_target(2) [OF assms(3), of s]
    by (simp add: Let_def)
  have new: "?new \<longleftrightarrow> t \<notin> named es" by (simp add: depicts_contains [OF assms(1)])
  have nt: "commands_of es t = []" using assms(2) by (simp add: commands_of_def map_of_eq_None_iff [symmetric])
  have gt: "graph_get_vertex_value (if ?new then add_vertex ?g t else ?g) t = Some \<lparr>target = Some t, commands = [], state = 0\<rparr>"
  proof (cases ?new)
    case True
    then show ?thesis by (simp add: get_add_vertex str_to_rule_constructor_def rule_init_def)
  next
    case False
    then show ?thesis using assms(1,2) new nt unfolding depicts_def by (auto dest!: spec [of _ t])
  qed
  have get1: "graph_get_vertex_value ?g1 v = (if v = t then Some \<lparr>target = Some t, commands = [], state = 0\<rparr>
      else case graph_get_vertex_value ?g v of Some r \<Rightarrow> Some r | None \<Rightarrow> if v \<in> set ds then Some (str_to_rule_constructor v) else None)" for v
  proof (cases "v = t")
    case True
    then show ?thesis using gt by (simp add: add_dependencies_get)
  next
    case False
    then show ?thesis by (simp add: add_dependencies_get get_add_vertex)
  qed
  have nb1: "set (graph_neighbors ?g1 v) = set (graph_neighbors ?g v) \<union> (if v = t then set ds else {})" for v
    by (simp add: add_dependencies_neighbors)
  show ?thesis
  proof (cases cs)
    case Nil
    have "depicts ?g1 (es @ [(t, ds, cs)])" by (rule depicts_entry [OF assms(1,2) get1 [folded Nil] nb1])
    then show ?thesis using run new Nil by (intro exI [of _ ?s1]) simp
  next
    case (Cons c cs')
    have "\<forall>c \<in> set (c # cs'). command_ok c" using assms(3) Cons by simp
    then obtain k n where more: "parse_lines (recipe_text (c # cs') @ rest) ?s1 = parse_lines rest
      (?s1\<lparr>in_command_block := True, line_number := k,
         dependency_graph := update_rule (dependency_graph ?s1) t (\<lambda>r. r\<lparr>state := n, commands := commands r @ (c # cs')\<rparr>)\<rparr>)"
      (is "_ = parse_lines rest ?s2")
      using parse_commands [of c cs' ?s1 t _ rest] get1 [of t] by auto
    have "depicts (update_rule ?g1 t (\<lambda>r. r\<lparr>state := n, commands := commands r @ (c # cs')\<rparr>)) (es @ [(t, ds, cs)])"
      by (rule depicts_entry [OF assms(1,2), where n = n]) (simp_all add: get_update_rule get1 nb1 Cons)
    then have "depicts (dependency_graph ?s2) (es @ [(t, ds, cs)])" by simp
    moreover have "parse_lines (entry_text (t, ds, cs) @ rest) s = parse_lines rest ?s2" using run more Cons by simp
    moreover have "first_target ?s2 = (if t \<notin> named es \<and> first_target s = None then Some t else first_target s)" using new by simp
    ultimately show ?thesis by blast
  qed
qed

lemma parse_entries:
  assumes "\<forall>e \<in> set es'. entry_ok e" and "distinct (map fst (es @ es'))" and "depicts (dependency_graph s) es"
  shows "\<exists>s'. parse_lines (makefile_text es') s = Inr s' \<and> depicts (dependency_graph s') (es @ es')
    \<and> (first_target s \<noteq> None \<longrightarrow> first_target s' = first_target s)
    \<and> (first_target s = None \<and> es' \<noteq> [] \<and> fst (hd es') \<notin> named es \<longrightarrow> first_target s' = Some (fst (hd es')))"
  using assms
proof (induction es' arbitrary: es s)
  case Nil
  have "parse_lines [] s = Inr s" by (simp add: parse_lines.simps getline_def)
  then show ?case using Nil by (simp add: makefile_text_def)
next
  case (Cons e es')
  obtain t ds cs where e: "e = (t, ds, cs)" by (cases e)
  have ok: "entry_ok (t, ds, cs)" "t \<notin> fst ` set es" using Cons.prems(1,2) e by auto
  from parse_entry [OF Cons.prems(3) ok(2,1)] obtain s1 where s1:
    "parse_lines (entry_text (t, ds, cs) @ makefile_text es') s = parse_lines (makefile_text es') s1"
    "depicts (dependency_graph s1) (es @ [(t, ds, cs)])"
    "first_target s1 = (if t \<notin> named es \<and> first_target s = None then Some t else first_target s)" by blast
  from Cons.IH [of "es @ [(t, ds, cs)]" s1] Cons.prems(1,2) s1(2) e obtain s' where s':
    "parse_lines (makefile_text es') s1 = Inr s'" "depicts (dependency_graph s') (es @ e # es')"
    "first_target s1 \<noteq> None \<longrightarrow> first_target s' = first_target s1" by auto
  have "parse_lines (makefile_text (e # es')) s = Inr s'" using s1(1) s'(1) e by (simp add: makefile_text_def del: entry_text.simps)
  then show ?case using s'(2,3) s1(3) e by auto
qed

lemma depicts_start: "depicts (dependency_graph parser_start) []"
  by (auto simp: depicts_def parser_start_def add_vertex_def graph_set_vertex_value_def graph_create_def graph_contains_vertex_def
      graph_vertices_def graph_get_vertex_value_def named_def commands_of_def deps_of_def graph_neighbors_def
      str_to_rule_constructor_def rule_init_def)

lemma add_goals_known:
  "\<forall>t \<in> set ts. graph_contains_vertex g t \<Longrightarrow> \<exists>g'. add_goals ts g = Inr g'
    \<and> (\<forall>v. graph_get_vertex_value g' v = graph_get_vertex_value g v)
    \<and> (\<forall>v. set (graph_neighbors g' v) = set (graph_neighbors g v) \<union> (if v = [] then set ts else {}))"
proof (induction ts arbitrary: g)
  case (Cons t ts)
  have "\<forall>t' \<in> set ts. graph_contains_vertex (graph_add_edge g [] t) t'" using Cons.prems by (simp add: contains_iff)
  from Cons.IH [OF this] show ?case using Cons.prems by (auto simp: neighbors_add_edge)
qed simp

lemma add_goals_unknown: "\<exists>t \<in> set ts. \<not> graph_contains_vertex g t \<Longrightarrow> add_goals ts g = Inl (ProcessExit 1)"
proof (induction ts arbitrary: g)
  case (Cons t ts)
  then show ?case
  proof (cases "graph_contains_vertex g t")
    case True
    with Cons have "\<exists>t' \<in> set ts. \<not> graph_contains_vertex (graph_add_edge g [] t) t'" by (auto simp: contains_iff)
    then show ?thesis using Cons.IH True by simp
  qed simp
qed simp

lemma parse_makefile_graph:
  assumes "\<forall>e \<in> set es. entry_ok e" and "distinct (map fst es)" and "disk name = Some (makefile_text es)"
    and "set goals \<subseteq> named es" and "goals \<noteq> [] \<or> es \<noteq> []"
  shows "\<exists>g. parser_parse_makefile (Some name) disk goals = Inr g
    \<and> (\<forall>v. graph_get_vertex_value g v
         = (if v \<in> named es then Some \<lparr>target = Some v, commands = commands_of es v, state = 0\<rparr> else None))
    \<and> (\<forall>v. set (graph_neighbors g v) = deps_of es v \<union> (if v = [] then if goals = [] then {fst (hd es)} else set goals else {}))"
proof -
  have "distinct (map fst ([] @ es))" using assms(2) by simp
  from parse_entries [OF assms(1) this depicts_start] obtain s where
    s: "parse_lines (makefile_text es) parser_start = Inr s" "depicts (dependency_graph s) es"
    "es \<noteq> [] \<and> fst (hd es) \<notin> named [] \<longrightarrow> first_target s = Some (fst (hd es))" by (auto simp: parser_start_def)
  have hd: "es \<noteq> [] \<Longrightarrow> fst (hd es) \<noteq> [] \<and> fst (hd es) \<in> named es"
    using assms(1) by (cases es) (auto simp: named_def is_makefile_target_def)
  let ?goals = "if goals = [] then [fst (hd es)] else goals"
  have ft: "es \<noteq> [] \<Longrightarrow> first_target s = Some (fst (hd es))" using s(3) hd by (simp add: named_def)
  have "\<forall>t \<in> set ?goals. graph_contains_vertex (dependency_graph s) t"
    using assms(4,5) hd by (auto simp: depicts_contains [OF s(2)])
  from add_goals_known [OF this] obtain g where g: "add_goals ?goals (dependency_graph s) = Inr g"
    "\<And>v. graph_get_vertex_value g v = graph_get_vertex_value (dependency_graph s) v"
    "\<And>v. set (graph_neighbors g v) = set (graph_neighbors (dependency_graph s) v) \<union> (if v = [] then set ?goals else {})" by blast
  have run: "parser_parse_makefile (Some name) disk goals = Inr (zero_out_states g)"
    using s(1) g(1) assms(3,5) ft by (auto simp: parser_parse_makefile_def open_makefile_def)
  have "graph_get_vertex_value (zero_out_states g) v
      = (if v \<in> named es then Some \<lparr>target = Some v, commands = commands_of es v, state = 0\<rparr> else None)" for v
    using s(2) by (auto simp: get_zero_out g(2) depicts_def dest!: spec [of _ v])
  moreover have "set (graph_neighbors (zero_out_states g) v)
      = deps_of es v \<union> (if v = [] then if goals = [] then {fst (hd es)} else set goals else {})" for v
    using s(2) by (simp add: g(3) depicts_def)
  ultimately show ?thesis using run by blast
qed

text \<open>
  C9: the makefile written for a list of targets with their dependencies and commands (distinct targets, plain words and
  commands) is parsed into the graph that has exactly these vertices, commands and edges, and an edge from the sentinel
  to each goal, or to the first target if none is given.
\<close>

theorem parse_makefile_roundtrip:
  assumes "\<forall>e \<in> set es. entry_ok e" and "distinct (map fst es)" and "disk name = Some (makefile_text es)"
    and "set goals \<subseteq> named es" and "goals \<noteq> [] \<or> es \<noteq> []"
  shows "\<exists>g. parser_parse_makefile (Some name) disk goals = Inr g
    \<and> (\<forall>v. graph_get_vertex_value g v
         = (if v \<in> named es then Some \<lparr>target = Some v, commands = commands_of es v, state = 0\<rparr> else None))
    \<and> (\<forall>v. set (graph_neighbors g v) = deps_of es v \<union> (if v = [] then if goals = [] then {fst (hd es)} else set goals else {}))"
  by (rule parse_makefile_graph [of es disk name goals, OF assms])

text \<open>A goal that the makefile does not name stops the program with status 1.\<close>

theorem parse_unknown_goal:
  assumes "\<forall>e \<in> set es. entry_ok e" and "distinct (map fst es)" and "disk name = Some (makefile_text es)"
    and "\<not> set goals \<subseteq> named es"
  shows "parser_parse_makefile (Some name) disk goals = Inl (ProcessExit 1)"
proof -
  have "distinct (map fst ([] @ es))" using assms(2) by simp
  from parse_entries [OF assms(1) this depicts_start] obtain s where
    s: "parse_lines (makefile_text es) parser_start = Inr s" "depicts (dependency_graph s) es" by auto
  have "add_goals goals (dependency_graph s) = Inl (ProcessExit 1)"
    by (rule add_goals_unknown) (use assms(4) in \<open>auto simp: depicts_contains [OF s(2)]\<close>)
  then show ?thesis using s(1) assms(3,4) by (auto simp: parser_parse_makefile_def open_makefile_def)
qed

definition sample_entries :: "entry list" where
  "sample_entries = [(''all'', [''a.o'', ''b.o''], [''ld a.o b.o'']), (''a.o'', [], [''cc a.c'', ''touch a.o''])]"

lemma sample_entries_ok: "\<forall>e \<in> set sample_entries. entry_ok e" "distinct (map fst sample_entries)"
  by code_simp+

theorem parse_makefile_roundtrip_witness:
  "\<exists>g. parser_parse_makefile (Some ''m'') [''m'' \<mapsto> makefile_text sample_entries] [] = Inr g
    \<and> graph_get_vertex_value g ''a.o'' = Some \<lparr>target = Some ''a.o'', commands = [''cc a.c'', ''touch a.o''], state = 0\<rparr>
    \<and> set (graph_neighbors g []) = {''all''} \<and> set (graph_neighbors g ''all'') = {''a.o'', ''b.o''}"
proof -
  have "[''m'' \<mapsto> makefile_text sample_entries] ''m'' = Some (makefile_text sample_entries)" "set [] \<subseteq> named sample_entries"
    "[] \<noteq> ([] :: string list) \<or> sample_entries \<noteq> []" by (simp_all add: sample_entries_def)
  from parse_makefile_roundtrip [OF sample_entries_ok, of "[''m'' \<mapsto> makefile_text sample_entries]" "''m''" "[]"] this obtain g where
    g: "parser_parse_makefile (Some ''m'') [''m'' \<mapsto> makefile_text sample_entries] [] = Inr g"
    "\<forall>v. graph_get_vertex_value g v = (if v \<in> named sample_entries
       then Some \<lparr>target = Some v, commands = commands_of sample_entries v, state = 0\<rparr> else None)"
    "\<forall>v. set (graph_neighbors g v) = deps_of sample_entries v \<union> (if v = [] then {fst (hd sample_entries)} else {})" by auto
  have "''a.o'' \<in> named sample_entries" "commands_of sample_entries ''a.o'' = [''cc a.c'', ''touch a.o'']"
    "deps_of sample_entries [] = {}" "deps_of sample_entries ''all'' = {''a.o'', ''b.o''}" "fst (hd sample_entries) = ''all''"
    by (simp_all add: named_def commands_of_def deps_of_def sample_entries_def)
  then show ?thesis using g(1) g(2) [rule_format, of "''a.o''"] g(3) [rule_format, of "[]"] g(3) [rule_format, of "''all''"]
    by (intro exI [of _ g]) simp
qed

theorem parse_unknown_goal_witness:
  "parser_parse_makefile (Some ''m'') [''m'' \<mapsto> makefile_text sample_entries] [''all'', ''c.o''] = Inl (ProcessExit 1)"
  by (rule parse_unknown_goal [OF sample_entries_ok]) (simp_all add: sample_entries_def named_def)

end
