(* ===== verification/Make.thy ===== *)
theory Make
  imports ParmakeBuilds MakeParser
begin

text \<open>
  The two halves of \<^verbatim>\<open>parallel_make\<close> together: \<^verbatim>\<open>parmake\<close> parses the makefile, loads the tasks and starts the workers. The
  depth of the search for cycles is cut off at one more than the number of edges, which \<open>load_rules_loads\<close> shows to be
  enough.
\<close>

definition graph_recipe :: "rgraph \<Rightarrow> string \<Rightarrow> string list" where
  "graph_recipe g v = (case graph_get_vertex_value g v of None \<Rightarrow> [] | Some r \<Rightarrow> commands r)"

definition make_project :: "rgraph \<Rightarrow> ('w \<Rightarrow> string \<Rightarrow> int option) \<Rightarrow> (string \<Rightarrow> 'w \<Rightarrow> bool \<times> 'w) \<Rightarrow> 'w project" where
  "make_project g mt sys = \<lparr>neighbors = graph_neighbors g, antineighbors = graph_antineighbors g, recipe = graph_recipe g,
     mtime = mt, system = sys\<rparr>"

definition make_build :: "string option \<Rightarrow> (string \<Rightarrow> string option) \<Rightarrow> nat \<Rightarrow> string list
    \<Rightarrow> ('w \<Rightarrow> string \<Rightarrow> int option) \<Rightarrow> (string \<Rightarrow> 'w \<Rightarrow> bool \<times> 'w) \<Rightarrow> 'w \<Rightarrow> ('w project \<times> 'w build) res" where
  "make_build makefile disk num_threads targets mt sys w =
     bindE (parser_parse_makefile makefile disk targets) (\<lambda>g.
       case parmake (make_project g mt sys) (Suc (length (edges g))) (graph_vertices g) w num_threads of
         None \<Rightarrow> Inl Diverges
       | Some s \<Rightarrow> Inr (make_project g mt sys, s))"

text \<open>\<^verbatim>\<open>main\<close>: the options, then the build; \<open>targets\<close> is what \<^verbatim>\<open>getopt\<close> left.\<close>

definition parmake_main :: "(char \<times> string) list \<Rightarrow> (string \<Rightarrow> string option) \<Rightarrow> string list
    \<Rightarrow> ('w \<Rightarrow> string \<Rightarrow> int option) \<Rightarrow> (string \<Rightarrow> 'w \<Rightarrow> bool \<times> 'w) \<Rightarrow> 'w \<Rightarrow> ('w project \<times> 'w build) res" where
  "parmake_main options disk targets mt sys w =
     bindE (parse_args options (\<lambda>f. disk f \<noteq> None)) (\<lambda>(makefile, num_threads).
       make_build makefile disk num_threads targets mt sys w)"

text \<open>The edges that a list of entries and goals stand for.\<close>

definition entry_rel :: "entry list \<Rightarrow> string list \<Rightarrow> (string \<times> string) set" where
  "entry_rel es goals = {(t, d). d \<in> deps_of es t \<or> t = [] \<and> d \<in> set goals}"

lemma deps_of_entry: "distinct (map fst es) \<Longrightarrow> (t, ds, cs) \<in> set es \<Longrightarrow> deps_of es t = set ds"
  by (simp add: deps_of_def)

lemma sentinel_no_deps: "\<forall>e \<in> set es. entry_ok e \<Longrightarrow> deps_of es [] = {}"
proof -
  assume ok: "\<forall>e \<in> set es. entry_ok e"
  have "map_of es [] = None"
  proof (rule ccontr)
    assume "map_of es [] \<noteq> None"
    then obtain ds cs where "([], ds, cs) \<in> set es" by (auto dest: map_of_SomeD)
    then show False using ok by (auto simp: is_makefile_target_def)
  qed
  then show ?thesis by (simp add: deps_of_def)
qed

text \<open>
  C7: \<^verbatim>\<open>parmake\<close> on a written makefile with goals it names: the build starts, the goals from which a cycle of the written
  dependencies can be reached are reported and all others counted; and however the workers interleave, a command of a target is run only after
  each of its written dependencies succeeded, or one of them failed.
\<close>

theorem make_respects_makefile:
  assumes "\<forall>e \<in> set es. entry_ok e" and "distinct (map fst es)" and "disk name = Some (makefile_text es)"
    and "set goals \<subseteq> named es" and "goals \<noteq> []"
  shows "\<exists>p s0. make_build (Some name) disk n goals mt sys w = Inr (p, s0)
    \<and> set (cycle_failures s0) = {t \<in> set goals. \<exists>v. (t, v) \<in> (entry_rel es goals)\<^sup>* \<and> (v, v) \<in> (entry_rel es goals)\<^sup>+}
    \<and> set (valid_goals s0) = set goals - set (cycle_failures s0)
    \<and> (\<forall>is s l t c l' ds cs. run (worker_step p) is s0 = Some s \<and> log s = l @ RunCommand t c # l' \<and> (t, ds, cs) \<in> set es
        \<longrightarrow> (\<forall>d \<in> set ds. SetState d SUCCEEDED \<in> set l) \<or> (\<exists>d \<in> set ds. SetState d FAILED \<in> set l))"
proof -
  from parse_makefile_graph [of es disk name goals, OF assms(1-4)] assms(5) obtain g where
    g: "parser_parse_makefile (Some name) disk goals = Inr g"
    "\<forall>v. set (graph_neighbors g v) = deps_of es v \<union> (if v = [] then set goals else {})" by auto
  let ?p = "make_project g mt sys"
  have p: "neighbors ?p = graph_neighbors g" "antineighbors ?p = graph_antineighbors g" by (simp_all add: make_project_def)
  have rel: "edge_rel (graph_neighbors g) = entry_rel es goals"
    using g(2) by (auto simp: edge_rel_def entry_rel_def split: if_splits)
  have goals: "set (graph_neighbors g []) = set goals" using g(2) sentinel_no_deps [OF assms(1)] by simp
  obtain s0 where s0: "parmake ?p (Suc (length (edges g))) (graph_vertices g) w n = Some s0"
    "cycle_failures s0 = filter (blocked (graph_neighbors g)) (graph_neighbors g [])"
    "set (valid_goals s0) = {t \<in> set (graph_neighbors g []). \<not> blocked (graph_neighbors g) t}"
    using load_rules_loads [OF p(1), of "Suc (length (edges g))" w n] by auto
  have order: "(\<forall>d \<in> set ds. SetState d SUCCEEDED \<in> set l) \<or> (\<exists>d \<in> set ds. SetState d FAILED \<in> set l)"
    if "run (worker_step ?p) is s0 = Some s" "log s = l @ RunCommand t c # l'" "(t, ds, cs) \<in> set es" for "is" s l t c l' ds cs
  proof -
    have "t \<noteq> []" using assms(1) that(3) by (auto simp: is_makefile_target_def)
    then have "set (graph_neighbors g t) = set ds" using g(2) deps_of_entry [OF assms(2) that(3)] by simp
    then show ?thesis using parmake_ordered [OF p s0(1) that(1,2)] by simp
  qed
  have "make_build (Some name) disk n goals mt sys w = Inr (?p, s0)" using g(1) s0(1) by (simp add: make_build_def)
  moreover have "set (cycle_failures s0) = {t \<in> set goals. \<exists>v. (t, v) \<in> (entry_rel es goals)\<^sup>* \<and> (v, v) \<in> (entry_rel es goals)\<^sup>+}"
    using s0(2) goals by (auto simp: blocked_def rel)
  moreover have "set (valid_goals s0) = set goals - set (cycle_failures s0)" using s0(2,3) goals by auto
  ultimately show ?thesis using order by blast
qed

theorem make_respects_makefile_witness:
  "\<exists>p s0. make_build (Some ''m'') [''m'' \<mapsto> makefile_text sample_entries] 2 [''all''] (\<lambda>_ _. None) (\<lambda>_ _. (False, ())) () = Inr (p, s0)
    \<and> set (cycle_failures s0) \<subseteq> {''all''}"
proof -
  have "[''m'' \<mapsto> makefile_text sample_entries] ''m'' = Some (makefile_text sample_entries)" "set [''all''] \<subseteq> named sample_entries"
    "[''all''] \<noteq> []" by (simp_all add: sample_entries_def named_def)
  from make_respects_makefile [OF sample_entries_ok, of "[''m'' \<mapsto> makefile_text sample_entries]" "''m''" "[''all'']" 2
      "\<lambda>_ _. None" "\<lambda>_ _. (False, ())" "()"] this
  show ?thesis by auto
qed

section \<open>What the parser hands over\<close>

text \<open>
  Every graph the parser returns is well-formed, whatever the makefile: a vertex is added once, an edge is added
  between vertices and once, and the changes of the rules leave both alone. The sentinel is a vertex from the start.
\<close>

definition parsed_ok :: "rgraph \<Rightarrow> bool" where
  "parsed_ok g \<longleftrightarrow> graph_ok g \<and> [] \<in> set (graph_vertices g)"

lemma vertices_simps [simp]:
  "graph_vertices (g\<lparr>edges := es\<rparr>) = graph_vertices g"
  "graph_vertices (graph_add_edge g a b) = graph_vertices g" "graph_vertices (update_rule g v f) = graph_vertices g"
  "graph_vertices (zero_out_states g) = graph_vertices g"
  by (auto simp: graph_vertices_def graph_add_edge_def update_rule_def zero_out_states_def)

lemma vertices_add_vertex [simp]: "set (graph_vertices (add_vertex g v)) = insert v (set (graph_vertices g))"
  by (force simp: graph_vertices_def add_vertex_def graph_set_vertex_value_def graph_contains_vertex_def)

lemma parsed_ok_steps:
  "parsed_ok g \<Longrightarrow> parsed_ok (update_rule g v f)" "parsed_ok g \<Longrightarrow> parsed_ok (zero_out_states g)"
  "parsed_ok g \<Longrightarrow> a \<in> set (graph_vertices g) \<Longrightarrow> b \<in> set (graph_vertices g) \<Longrightarrow> parsed_ok (graph_add_edge g a b)"
  "parsed_ok g \<Longrightarrow> \<not> graph_contains_vertex g v \<Longrightarrow> parsed_ok (add_vertex g v)"
proof -
  show "parsed_ok g \<Longrightarrow> parsed_ok (update_rule g v f)" "parsed_ok g \<Longrightarrow> parsed_ok (zero_out_states g)"
    by (simp_all add: parsed_ok_def graph_ok_def) (simp_all add: update_rule_def zero_out_states_def)
  show "parsed_ok g \<Longrightarrow> a \<in> set (graph_vertices g) \<Longrightarrow> b \<in> set (graph_vertices g) \<Longrightarrow> parsed_ok (graph_add_edge g a b)"
    by (cases "(a, b) \<in> set (edges g)") (auto simp: parsed_ok_def graph_ok_def graph_add_edge_def)
  show "parsed_ok g \<Longrightarrow> \<not> graph_contains_vertex g v \<Longrightarrow> parsed_ok (add_vertex g v)"
    by (auto simp: parsed_ok_def graph_ok_def add_vertex_def graph_set_vertex_value_def graph_contains_vertex_def graph_vertices_def)
qed

lemma add_dependencies_ok:
  "parsed_ok g \<Longrightarrow> v \<in> set (graph_vertices g) \<Longrightarrow> parsed_ok (add_dependencies v ds g)"
proof (induction ds arbitrary: g)
  case (Cons d ds)
  have "parsed_ok (graph_add_edge (if graph_contains_vertex g d then g else add_vertex g d) v d)"
    using Cons.prems by (intro parsed_ok_steps(3)) (auto intro: parsed_ok_steps(4) simp: graph_contains_vertex_def)
  then show ?case using Cons.IH Cons.prems(2) by simp
qed simp

lemma add_goals_ok: "add_goals ts g = Inr g' \<Longrightarrow> parsed_ok g \<Longrightarrow> parsed_ok g'"
proof (induction ts arbitrary: g)
  case (Cons t ts)
  then have t: "graph_contains_vertex g t" "add_goals ts (graph_add_edge g [] t) = Inr g'" by (auto split: if_splits)
  have "parsed_ok (graph_add_edge g [] t)"
    using Cons.prems(2) t(1) by (intro parsed_ok_steps(3)) (simp_all add: parsed_ok_def graph_contains_vertex_def)
  then show ?case by (rule Cons.IH [OF t(2)])
qed simp

lemma parse_line_ok:
  assumes "parse_line l s = Inr s'" and "parsed_ok (dependency_graph s)"
  shows "parsed_ok (dependency_graph s')"
proof -
  have "parsed_ok (dependency_graph t')" if "recipe_line line t = Inr t'" "parsed_ok (dependency_graph t)" for line t t'
    using that by (auto simp: recipe_line_def Let_def intro!: parsed_ok_steps(1) split: option.splits if_splits)
  moreover have "parsed_ok (dependency_graph t')" if "target_line line t = Inr t'" "parsed_ok (dependency_graph t)" for line t t'
    using that by (auto simp: target_line_def Let_def graph_contains_vertex_def intro!: add_dependencies_ok parsed_ok_steps(4) split: if_splits)
  ultimately show ?thesis using assms by (auto simp: parse_line_def Let_def split: if_splits)
qed

lemma parse_lines_ok: "parse_lines content s = Inr s' \<Longrightarrow> parsed_ok (dependency_graph s) \<Longrightarrow> parsed_ok (dependency_graph s')"
proof (induction content s rule: parse_lines.induct)
  case (1 content s)
  show ?case
  proof (cases "getline content")
    case None
    then show ?thesis using "1.prems" by (simp add: parse_lines.simps)
  next
    case (Some x)
    then obtain l rest where x: "getline content = Some (l, rest)" by (cases x) auto
    with "1.prems"(1) obtain s1 where "parse_line l s = Inr s1" "parse_lines rest s1 = Inr s'"
      by (auto simp: parse_lines.simps [of content] bindE_eq_Inr_iff)
    then show ?thesis using "1.IH" [OF x refl] parse_line_ok [OF _ "1.prems"(2)] by blast
  qed
qed

lemma parser_graph_ok:
  assumes "parser_parse_makefile name disk goals = Inr g"
  shows "graph_ok g"
proof -
  have start: "parsed_ok (dependency_graph parser_start)"
    by (simp add: parsed_ok_def graph_ok_def parser_start_def add_vertex_def graph_set_vertex_value_def graph_create_def
        graph_contains_vertex_def graph_vertices_def)
  from assms obtain content s goals' g' where
    "parse_lines content parser_start = Inr s" "add_goals goals' (dependency_graph s) = Inr g'" "g = zero_out_states g'"
    by (auto simp: parser_parse_makefile_def bindE_eq_Inr_iff)
  then have "parsed_ok g" using add_goals_ok parse_lines_ok [OF _ start] parsed_ok_steps(2) by blast
  then show ?thesis by (simp add: parsed_ok_def)
qed

section \<open>From the makefile to what is built\<close>

lemma commands_of_unnamed: "v \<notin> named es \<Longrightarrow> commands_of es v = []"
  by (auto simp: commands_of_def named_def split: option.splits dest!: map_of_SomeD)

lemma make_builds:
  assumes es: "\<forall>e \<in> set es. entry_ok e" "distinct (map fst es)" "disk name = Some (makefile_text es)"
    and goals: "set goals \<subseteq> named es" "goals \<noteq> []" and sys: "\<And>c w. \<not> fst (sys c w)"
  shows "\<exists>p s0 k s order. make_build (Some name) disk 1 goals (\<lambda>_ _. None) sys w = Inr (p, s0)
    \<and> run (worker_step p) (replicate k 0) s0 = Some s \<and> join_workers 1 s = Some 0 \<and> distinct order
    \<and> (\<forall>xs t ys. order = xs @ t # ys \<longrightarrow> deps_of es t \<subseteq> set xs)
    \<and> commands_run (log s) = concat (map (\<lambda>t. map (Pair t) (commands_of es t)) order)
    \<and> {t \<in> set goals. \<not> (\<exists>v. (t, v) \<in> (entry_rel es goals)\<^sup>* \<and> (v, v) \<in> (entry_rel es goals)\<^sup>+)} \<subseteq> set order"
proof -
  from parse_makefile_graph [of es disk name goals, OF es goals(1)] goals(2) obtain g where
    g: "parser_parse_makefile (Some name) disk goals = Inr g"
    "\<And>v. graph_get_vertex_value g v
         = (if v \<in> named es then Some \<lparr>target = Some v, commands = commands_of es v, state = 0\<rparr> else None)"
    "\<And>v. set (graph_neighbors g v) = deps_of es v \<union> (if v = [] then set goals else {})" by auto
  let ?p = "make_project g (\<lambda>_ _. None) sys"
  have p: "neighbors ?p = graph_neighbors g" "antineighbors ?p = graph_antineighbors g" "system ?p = sys"
    "\<And>w r. changed ?p w r" by (simp_all add: make_project_def changed_def)
  have rec: "recipe ?p = commands_of es"
    by (rule ext) (simp add: make_project_def graph_recipe_def g(2) commands_of_unnamed)
  have rel: "edge_rel (graph_neighbors g) = entry_rel es goals"
    using g(3) by (auto simp: edge_rel_def entry_rel_def split: if_splits)
  have root: "set (graph_neighbors g []) = set goals" using g(3) sentinel_no_deps [OF es(1)] by simp
  obtain s0 k s order where b: "parmake ?p (Suc (length (edges g))) (graph_vertices g) w 1 = Some s0"
    "run (worker_step ?p) (replicate k 0) s0 = Some s" "all_built ?p g order s"
    "{t \<in> set goals. \<not> blocked (graph_neighbors g) t} \<subseteq> set order"
    using one_worker_builds [OF p(1,2) _ parser_graph_ok [OF g(1)], of "Suc (length (edges g))" w] sys p(3,4) root by auto
  have "make_build (Some name) disk 1 goals (\<lambda>_ _. None) sys w = Inr (?p, s0)" using g(1) b(1) by (simp add: make_build_def)
  moreover have "deps_of es t \<subseteq> set xs" if "order = xs @ t # ys" for xs t ys
    using b(3) dependencies_first_split [of "graph_neighbors g" "[]" xs t ys] g(3) [of t] that by (auto simp: all_built_def)
  moreover have "{t \<in> set goals. \<not> (\<exists>v. (t, v) \<in> (entry_rel es goals)\<^sup>* \<and> (v, v) \<in> (entry_rel es goals)\<^sup>+)} \<subseteq> set order"
    using b(4) by (simp add: blocked_def rel)
  moreover have "commands_run (log s) = concat (map (\<lambda>t. map (Pair t) (commands_of es t)) order)"
      "join_workers 1 s = Some 0" "distinct order" using b(3) rec by (simp_all add: all_built_def)
  ultimately show ?thesis using b(2) by blast
qed



end
