(* ===== verification/Net.thy ===== *)
theory Net
  imports Prelude
begin

text \<open>
  The loops that read and write whole messages: \<^verbatim>\<open>read_all_from_socket\<close> and
  \<^verbatim>\<open>write_all_to_socket\<close> of \<^verbatim>\<open>nonstop_networking/server.c\<close> and of
  \<^verbatim>\<open>charming_chatroom/utils.c\<close>, and the message sizes. A socket is a script of what the
  successive \<^verbatim>\<open>read\<close>s or \<^verbatim>\<open>write\<close>s do: some bytes, an interruption (\<^verbatim>\<open>EINTR\<close>) or another error; a read after
  the end of the script finds the end of the stream, a write after it takes everything.
  A byte is a \<open>char\<close>.
\<close>

type_synonym size_t = "64 word"

section \<open>Reading\<close>

datatype read_event = Got string | ReadIntr | ReadErr

datatype read_result = RData string | RZero | RIntr | RFail

fun sread :: "nat \<Rightarrow> read_event list \<Rightarrow> read_result \<times> read_event list" where
  "sread n [] = (RZero, [])"
| "sread n (Got bs # es) =
     (if bs = [] then (RZero, es)
      else if n = 0 then (RZero, Got bs # es)
      else (RData (take n bs), if n < length bs then Got (drop n bs) # es else es))"
| "sread n (ReadIntr # es) = (RIntr, es)"
| "sread n (ReadErr # es) = (RFail, es)"

lemma sread_less:
  "sread n es = (RIntr, es') \<Longrightarrow> length es' < length es"
  "sread n es = (RFail, es') \<Longrightarrow> length es' < length es"
  "sread n es = (RData d, es') \<Longrightarrow> length es' \<le> length es \<and> d \<noteq> []"
  by (cases "(n, es)" rule: sread.cases; auto split: if_splits)+

text \<open>
  The server's loop: \<open>acc\<close> is what is in the buffer. The result is the value returned, the bytes
  that reached the buffer and the rest of the script.
\<close>

function server_read_all :: "nat \<Rightarrow> string \<Rightarrow> read_event list \<Rightarrow> size_t \<times> string \<times> read_event list" where
  "server_read_all count acc es =
     (if length acc < count
      then (case sread (count - length acc) es of
              (RZero, es') \<Rightarrow> (0, acc, es')
            | (RIntr, es') \<Rightarrow> server_read_all count acc es'
            | (RData d, es') \<Rightarrow> server_read_all count (acc @ d) es'
            | (RFail, es') \<Rightarrow> (-1, acc, es'))
      else (of_nat (length acc), acc, es))"
  by pat_completeness auto
termination
proof (relation "measure (\<lambda>(count, acc, es). count - length acc + length es)", goal_cases)
  case (2 count acc es x es' d)
  then show ?case using sread_less(3) [of "count - length acc" es d es'] by (cases d) auto
next
  case (3 count acc es x es')
  then show ?case using sread_less(1) [of "count - length acc" es es'] by auto
qed simp

declare server_read_all.simps [simp del]

text \<open>
  The loop of the chat room (and of the client) goes on after every error as long as bytes are missing. With
  nothing to read it tests \<^verbatim>\<open>read_retval\<close> before it has a value.
\<close>

function chat_read_loop :: "nat \<Rightarrow> string \<Rightarrow> read_event list \<Rightarrow> int \<times> string \<times> read_event list" where
  "chat_read_loop count acc es =
     (if length acc < count
      then (case sread (count - length acc) es of
              (RZero, es') \<Rightarrow> (0, acc, es')
            | (RIntr, es') \<Rightarrow> chat_read_loop count acc es'
            | (RData d, es') \<Rightarrow> chat_read_loop count (acc @ d) es'
            | (RFail, es') \<Rightarrow> chat_read_loop count acc es')
      else (int (length acc), acc, es))"
  by pat_completeness auto
termination
proof (relation "measure (\<lambda>(count, acc, es). count - length acc + length es)", goal_cases)
  case (2 count acc es x es' d)
  then show ?case using sread_less(3) [of "count - length acc" es d es'] by (cases d) auto
next
  case (3 count acc es x es')
  then show ?case using sread_less(1) [of "count - length acc" es es'] by auto
next
  case (4 count acc es x es')
  then show ?case using sread_less(2) [of "count - length acc" es es'] by auto
qed simp

declare chat_read_loop.simps [simp del]

definition chat_read_all :: "nat \<Rightarrow> read_event list \<Rightarrow> (int \<times> string \<times> read_event list) res" where
  "chat_read_all count es = (if count = 0 then Inl Uninitialised else Inr (chat_read_loop count [] es))"

section \<open>Writing\<close>

datatype write_event = Accept nat | WriteIntr | WriteErr

text \<open>The value returned and the bytes that went out.\<close>

function server_write_all :: "string \<Rightarrow> string \<Rightarrow> write_event list \<Rightarrow> size_t \<times> string" where
  "server_write_all sent buffer ws =
     (if buffer = [] then (of_nat (length sent), sent)
      else (case ws of
              [] \<Rightarrow> (of_nat (length (sent @ buffer)), sent @ buffer)
            | Accept k # ws' \<Rightarrow>
                if k = 0 then (0, sent)
                else server_write_all (sent @ take k buffer) (drop k buffer) ws'
            | WriteIntr # ws' \<Rightarrow> server_write_all sent buffer ws'
            | WriteErr # ws' \<Rightarrow> (-1, sent)))"
  by pat_completeness auto
termination
  by (relation "measure (\<lambda>(sent, buffer, ws). length ws)") auto

function chat_write_loop :: "nat \<Rightarrow> string \<Rightarrow> string \<Rightarrow> write_event list \<Rightarrow> int \<times> string" where
  "chat_write_loop count sent buffer ws =
     (if buffer = [] then (int count, sent)
      else (case ws of
              [] \<Rightarrow> (int count, sent @ buffer)
            | Accept k # ws' \<Rightarrow>
                if k = 0 then (0, sent)
                else chat_write_loop count (sent @ take k buffer) (drop k buffer) ws'
            | WriteIntr # ws' \<Rightarrow> chat_write_loop count sent buffer ws'
            | WriteErr # ws' \<Rightarrow> chat_write_loop count sent buffer ws'))"
  by pat_completeness auto
termination
  by (relation "measure (\<lambda>(count, sent, buffer, ws). length ws)") auto

declare server_write_all.simps [simp del] chat_write_loop.simps [simp del]

definition chat_write_all :: "string \<Rightarrow> write_event list \<Rightarrow> (int \<times> string) res" where
  "chat_write_all buffer ws =
     (if buffer = [] then Inl Uninitialised else Inr (chat_write_loop (length buffer) [] buffer ws))"

section \<open>Streams that deliver\<close>

text \<open>A script without errors, and the bytes it delivers before the stream ends.\<close>

fun clean :: "read_event list \<Rightarrow> bool" where
  "clean [] = True"
| "clean (Got bs # es) = (bs \<noteq> [] \<and> clean es)"
| "clean (ReadIntr # es) = clean es"
| "clean (ReadErr # es) = False"

fun stream :: "read_event list \<Rightarrow> string" where
  "stream [] = []"
| "stream (Got bs # es) = bs @ stream es"
| "stream (_ # es) = stream es"

lemma sread_clean:
  assumes "clean es" and "0 < n"
  shows "sread n es = (RZero, []) \<and> stream es = []
    \<or> (\<exists>es'. sread n es = (RIntr, es') \<and> clean es' \<and> stream es' = stream es)
    \<or> (\<exists>d es'. sread n es = (RData d, es') \<and> clean es' \<and> stream es = d @ stream es' \<and> d \<noteq> [] \<and> length d \<le> n)"
  using assms by (cases "(n, es)" rule: sread.cases) (auto simp: min_def)

lemma server_read_all_clean:
  assumes "clean es" and "length acc \<le> count"
  shows "if count - length acc \<le> length (stream es)
         then \<exists>es'. server_read_all count acc es = (of_nat count, acc @ take (count - length acc) (stream es), es')
                \<and> clean es' \<and> stream es' = drop (count - length acc) (stream es)
         else server_read_all count acc es = (0, acc @ stream es, [])"
  using assms
proof (induction count acc es rule: server_read_all.induct)
  case (1 count acc es)
  show ?case
  proof (cases "length acc < count")
    case False
    then show ?thesis using "1.prems" by (subst (1 2) server_read_all.simps) auto
  next
    case True
    then have n: "0 < count - length acc" by simp
    from sread_clean [OF "1.prems"(1) n] consider
        "sread (count - length acc) es = (RZero, [])" "stream es = []"
      | es' where "sread (count - length acc) es = (RIntr, es')" "clean es'" "stream es' = stream es"
      | d es' where "sread (count - length acc) es = (RData d, es')" "clean es'" "stream es = d @ stream es'"
          "d \<noteq> []" "length d \<le> count - length acc" by blast
    then show ?thesis
    proof cases
      case 1
      then show ?thesis using True by (simp add: server_read_all.simps [of count acc es])
    next
      case (2 es')
      then have "server_read_all count acc es = server_read_all count acc es'"
        using True by (simp add: server_read_all.simps [of count acc es])
      then show ?thesis using "1.IH"(2) [OF True 2(1) [symmetric] refl] 2 "1.prems"(2) by (auto split: if_splits)
    next
      case (3 d es')
      then have "server_read_all count acc es = server_read_all count (acc @ d) es'"
        using True by (simp add: server_read_all.simps [of count acc es])
      moreover have "length (acc @ d) \<le> count" using 3(5) True by simp
      moreover have "count - length acc \<le> length (stream es) \<longleftrightarrow> count - length (acc @ d) \<le> length (stream es')"
          "(acc @ d) @ take (count - length (acc @ d)) (stream es') = acc @ take (count - length acc) (stream es)"
          "drop (count - length (acc @ d)) (stream es') = drop (count - length acc) (stream es)"
        using 3(3,5) by auto
      ultimately show ?thesis
        using "1.IH"(1) [OF True 3(1) [symmetric] refl 3(2)] 3(3) by (simp split: if_splits)
    qed
  qed
qed

text \<open>The chat room's loop skips every error.\<close>

fun patient :: "read_event list \<Rightarrow> bool" where
  "patient [] = True"
| "patient (Got bs # es) = (bs \<noteq> [] \<and> patient es)"
| "patient (_ # es) = patient es"

lemma clean_patient: "clean es \<Longrightarrow> patient es"
  by (induction es rule: clean.induct) auto

lemma sread_patient:
  assumes "patient es" and "0 < n"
  shows "sread n es = (RZero, []) \<and> stream es = []
    \<or> (\<exists>es'. (sread n es = (RIntr, es') \<or> sread n es = (RFail, es')) \<and> patient es' \<and> stream es' = stream es)
    \<or> (\<exists>d es'. sread n es = (RData d, es') \<and> patient es' \<and> stream es = d @ stream es' \<and> d \<noteq> [] \<and> length d \<le> n)"
  using assms by (cases "(n, es)" rule: sread.cases) (auto simp: min_def)

lemma chat_read_loop_clean:
  assumes "patient es" and "length acc \<le> count"
  shows "if count - length acc \<le> length (stream es)
         then \<exists>es'. chat_read_loop count acc es = (int count, acc @ take (count - length acc) (stream es), es')
                \<and> patient es' \<and> stream es' = drop (count - length acc) (stream es)
         else chat_read_loop count acc es = (0, acc @ stream es, [])"
  using assms
proof (induction count acc es rule: chat_read_loop.induct)
  case (1 count acc es)
  show ?case
  proof (cases "length acc < count")
    case False
    then show ?thesis using "1.prems" by (subst (1 2) chat_read_loop.simps) auto
  next
    case True
    then have n: "0 < count - length acc" by simp
    from sread_patient [OF "1.prems"(1) n] consider
        "sread (count - length acc) es = (RZero, [])" "stream es = []"
      | es' where "sread (count - length acc) es = (RIntr, es') \<or> sread (count - length acc) es = (RFail, es')"
          "patient es'" "stream es' = stream es"
      | d es' where "sread (count - length acc) es = (RData d, es')" "patient es'" "stream es = d @ stream es'"
          "d \<noteq> []" "length d \<le> count - length acc" by blast
    then show ?thesis
    proof cases
      case 1
      then show ?thesis using True by (simp add: chat_read_loop.simps [of count acc es])
    next
      case (2 es')
      then have "chat_read_loop count acc es = chat_read_loop count acc es'"
        using True by (auto simp: chat_read_loop.simps [of count acc es])
      moreover from 2(1) have "patient es' \<Longrightarrow> length acc \<le> count \<Longrightarrow>
          if count - length acc \<le> length (stream es')
          then \<exists>es''. chat_read_loop count acc es' = (int count, acc @ take (count - length acc) (stream es'), es'')
                \<and> patient es'' \<and> stream es'' = drop (count - length acc) (stream es')
          else chat_read_loop count acc es' = (0, acc @ stream es', [])"
        using "1.IH"(2) [OF True _ refl] "1.IH"(3) [OF True _ refl] by metis
      ultimately show ?thesis using 2(2,3) "1.prems"(2) by (auto split: if_splits)
    next
      case (3 d es')
      then have "chat_read_loop count acc es = chat_read_loop count (acc @ d) es'"
        using True by (simp add: chat_read_loop.simps [of count acc es])
      moreover have "length (acc @ d) \<le> count" using 3(5) True by simp
      moreover have "count - length acc \<le> length (stream es) \<longleftrightarrow> count - length (acc @ d) \<le> length (stream es')"
          "(acc @ d) @ take (count - length (acc @ d)) (stream es') = acc @ take (count - length acc) (stream es)"
          "drop (count - length (acc @ d)) (stream es') = drop (count - length acc) (stream es)"
        using 3(3,5) by auto
      ultimately show ?thesis
        using "1.IH"(1) [OF True 3(1) [symmetric] refl 3(2)] 3(3) by (simp split: if_splits)
    qed
  qed
qed

text \<open>Writes that are never refused send everything.\<close>

definition fair_write :: "write_event \<Rightarrow> bool" where
  "fair_write w \<longleftrightarrow> (case w of Accept k \<Rightarrow> 0 < k | WriteIntr \<Rightarrow> True | WriteErr \<Rightarrow> False)"

lemma server_write_all_fair:
  "\<forall>w \<in> set ws. fair_write w \<Longrightarrow>
     server_write_all sent buffer ws = (of_nat (length (sent @ buffer)), sent @ buffer)"
proof (induction sent buffer ws rule: server_write_all.induct)
  case (1 sent buffer ws)
  then show ?case
    by (subst server_write_all.simps) (auto simp: fair_write_def split: list.splits write_event.splits)
qed

definition patient_write :: "write_event \<Rightarrow> bool" where
  "patient_write w \<longleftrightarrow> w \<noteq> Accept 0"

lemma chat_write_loop_patient:
  "\<forall>w \<in> set ws. patient_write w \<Longrightarrow> chat_write_loop count sent buffer ws = (int count, sent @ buffer)"
proof (induction count sent buffer ws rule: chat_write_loop.induct)
  case (1 count sent buffer ws)
  then show ?case
    by (subst chat_write_loop.simps) (auto simp: patient_write_def split: list.splits write_event.splits)
qed

section \<open>Sizes on the wire\<close>

text \<open>
  The bytes of a number, lowest first. A \<^verbatim>\<open>size_t\<close> is sent as it lies in memory (a little-endian
  machine), the chat room's sizes are 32-bit numbers in network order, highest byte first.
\<close>

fun enc_le :: "nat \<Rightarrow> nat \<Rightarrow> string" where
  "enc_le 0 n = []"
| "enc_le (Suc k) n = char_of (n mod 256) # enc_le k (n div 256)"

fun dec_le :: "string \<Rightarrow> nat" where
  "dec_le [] = 0"
| "dec_le (c # cs) = of_char c + 256 * dec_le cs"

definition enc_size :: "size_t \<Rightarrow> string" where
  "enc_size n = enc_le 8 (unat n)"

definition dec_size :: "string \<Rightarrow> size_t" where
  "dec_size bs = of_nat (dec_le bs)"

lemma length_enc_le [simp]: "length (enc_le k n) = k"
  by (induction k arbitrary: n) simp_all

lemma dec_enc_le: "n < 256 ^ k \<Longrightarrow> dec_le (enc_le k n) = n"
proof (induction k arbitrary: n)
  case (Suc k)
  then have "n div 256 < 256 ^ k" by (simp add: less_mult_imp_div_less mult.commute)
  then show ?case using Suc.IH by simp
qed simp

lemma dec_enc_size [simp]: "dec_size (enc_size n) = n"
proof -
  have "unat n < 2 ^ LENGTH(64)" by (rule unsigned_less)
  then have "unat n < 256 ^ 8" by simp
  then show ?thesis by (simp add: dec_size_def enc_size_def dec_enc_le)
qed

lemma length_enc_size [simp]: "length (enc_size n) = 8"
  by (simp add: enc_size_def)

section \<open>The chat room's messages\<close>

definition write_message_size :: "nat \<Rightarrow> write_event list \<Rightarrow> (int \<times> string) res" where
  "write_message_size n ws = chat_write_all (rev (enc_le 4 (n mod 2 ^ 32))) ws"

definition get_message_size :: "read_event list \<Rightarrow> (int \<times> read_event list) res" where
  "get_message_size es =
     bindE (chat_read_all 4 es) (\<lambda>(read_bytes, size, es').
       Inr (if read_bytes = 0 \<or> read_bytes = -1 then read_bytes else int (dec_le (rev size)), es'))"

definition create_message :: "string \<Rightarrow> string \<Rightarrow> string" where
  "create_message name msg = name @ '': '' @ msg"

lemma chat_read_all_patient:
  "patient es \<Longrightarrow> 0 < count \<Longrightarrow> count \<le> length (stream es) \<Longrightarrow>
     \<exists>es'. chat_read_all count es = Inr (int count, take count (stream es), es')
       \<and> patient es' \<and> stream es' = drop count (stream es)"
  using chat_read_loop_clean [of es "[]" count] by (simp add: chat_read_all_def)

lemma chat_write_all_patient:
  "buffer \<noteq> [] \<Longrightarrow> \<forall>w \<in> set ws. patient_write w \<Longrightarrow> chat_write_all buffer ws = Inr (int (length buffer), buffer)"
  by (simp add: chat_write_all_def chat_write_loop_patient)

lemma write_message_size_patient:
  "n < 2 ^ 32 \<Longrightarrow> \<forall>w \<in> set ws. patient_write w \<Longrightarrow> write_message_size n ws = Inr (4, rev (enc_le 4 n))"
proof -
  assume a: "n < 2 ^ 32" "\<forall>w \<in> set ws. patient_write w"
  have ne: "rev (enc_le 4 n) \<noteq> []" by (metis length_enc_le length_rev list.size(3) zero_neq_numeral)
  show ?thesis
    using a chat_write_all_patient [OF ne a(2)] by (simp add: write_message_size_def)
qed

lemma get_message_size_patient:
  assumes "patient es" and "stream es = rev (enc_le 4 n) @ rest" and "n < 2 ^ 32"
  shows "\<exists>es'. get_message_size es = Inr (int n, es') \<and> patient es' \<and> stream es' = rest"
proof -
  have "4 \<le> length (stream es)" using assms(2) by simp
  then obtain es' where "chat_read_all 4 es = Inr (4, rev (enc_le 4 n), es')" "patient es'" "stream es' = rest"
    using chat_read_all_patient [OF assms(1), of 4] assms(2) by auto
  moreover have "dec_le (enc_le 4 n) = n" using assms(3) by (intro dec_enc_le) simp
  ultimately show ?thesis by (simp add: get_message_size_def)
qed

section \<open>Properties\<close>

text \<open>
  C37: the server's read loop does not depend on how the bytes arrive: whatever the pieces and interruptions,
  asking for \<open>count\<close> bytes gives the first \<open>count\<close> of the stream and leaves the rest, or 0 when the
  stream is shorter; an error that comes before that gives -1.
\<close>

theorem server_read_all_correct:
  assumes "clean es"
  shows "(if count \<le> length (stream es)
          then \<exists>es'. server_read_all count [] es = (of_nat count, take count (stream es), es')
                \<and> clean es' \<and> stream es' = drop count (stream es)
          else server_read_all count [] es = (0, stream es, []))
       \<and> (length (stream es) < count \<longrightarrow> server_read_all count [] (es @ [ReadErr]) = (-1, stream es, []))"
proof -
  have err: "server_read_all count acc (es @ [ReadErr]) = (-1, acc @ stream es, [])"
    if "clean es" "length acc + length (stream es) < count" for acc
    using that
  proof (induction es arbitrary: acc)
    case Nil
    then show ?case by (simp add: server_read_all.simps)
  next
    case (Cons e es)
    then show ?case by (subst server_read_all.simps) (cases e; auto)
  qed
  show ?thesis
    using server_read_all_clean [OF assms, of "[]" count] err [OF assms, of "[]"] by (auto split: if_splits)
qed

theorem server_read_all_correct_witness:
  "\<exists>es'. server_read_all 3 [] [Got ''P'', ReadIntr, Got ''UT x''] = (3, ''PUT'', es') \<and> stream es' = '' x''"
proof -
  have "clean [Got ''P'', ReadIntr, Got ''UT x'']" by simp
  from server_read_all_correct [OF this, of 3] show ?thesis by auto
qed

text \<open>
  A chat message framed with its size and written through any partial writes is what the
  other side reads, size and text, however the bytes arrive; the bytes that follow are left.
\<close>

theorem chat_message_roundtrip:
  assumes "msg \<noteq> []" and "length msg < 2 ^ 32" and "\<forall>w \<in> set ws. patient_write w"
    and "\<forall>w \<in> set ws'. patient_write w"
    and "write_message_size (length msg) ws = Inr (a, bytes)" and "chat_write_all msg ws' = Inr (b, bytes')"
    and "patient es" and "stream es = bytes @ bytes' @ rest"
  shows "\<exists>es1 es2. get_message_size es = Inr (int (length msg), es1)
           \<and> chat_read_all (length msg) es1 = Inr (int (length msg), msg, es2)
           \<and> patient es2 \<and> stream es2 = rest"
proof -
  have "bytes = rev (enc_le 4 (length msg))" "bytes' = msg"
    using assms write_message_size_patient [OF assms(2,3)] chat_write_all_patient [OF assms(1,4)] by simp_all
  then obtain es1 where e: "get_message_size es = Inr (int (length msg), es1)" "patient es1"
      "stream es1 = msg @ rest"
    using get_message_size_patient [OF assms(7) _ assms(2), of "msg @ rest"] assms(8) by auto
  then show ?thesis using chat_read_all_patient [OF e(2), of "length msg"] assms(1) by auto
qed

theorem chat_message_roundtrip_witness:
  "\<exists>es1 es2. get_message_size [Got [NUL, NUL], ReadErr, Got [NUL, CHR 0x02, CHR ''h''], Got ''i!''] = Inr (2, es1)
     \<and> chat_read_all 2 es1 = Inr (2, ''hi'', es2) \<and> stream es2 = ''!''"
proof -
  have len: "length ''hi'' = 2" by simp
  have "enc_le 4 2 = [CHR 0x02, NUL, NUL, NUL]" by code_simp
  then have w: "write_message_size (length ''hi'') [] = Inr (4, [NUL, NUL, NUL, CHR 0x02])"
    using write_message_size_patient [of 2 "[]"] by (simp only: len) simp
  have c: "chat_write_all ''hi'' [Accept 1, WriteIntr] = Inr (2, ''hi'')"
    by (simp add: chat_write_all_def chat_write_loop.simps)
  have "\<exists>es1 es2. get_message_size [Got [NUL, NUL], ReadErr, Got [NUL, CHR 0x02, CHR ''h''], Got ''i!'']
        = Inr (int (length ''hi''), es1)
     \<and> chat_read_all (length ''hi'') es1 = Inr (int (length ''hi''), ''hi'', es2) \<and> patient es2 \<and> stream es2 = ''!''"
    by (rule chat_message_roundtrip [OF _ _ _ _ w c]) (simp_all add: patient_write_def)
  then show ?thesis unfolding len by auto
qed

end
