(* ===== verification/Hooks.thy ===== *)
theory Hooks
  imports Net
begin

text \<open>
  \<^verbatim>\<open>charming_chatroom/user_hooks.c\<close>: \<open>my_read\<close>, a \<^verbatim>\<open>read\<close> that makes every tenth call fail or deliver less, so that
  the chat room's loops are tested on partial and interrupted reads, and the reading loop of \<^verbatim>\<open>utils.c\<close> when its
  \<^verbatim>\<open>read\<close> is the hook. \<open>rnd\<close> gives the results of the successive calls of \<^verbatim>\<open>rand\<close>.
\<close>

section \<open>The hook\<close>

definition READ_FAIL_NUM :: size_t where
  "READ_FAIL_NUM = 10"

record hooks =
  read_counter :: size_t
  rand_calls :: nat

definition no_reads :: hooks where
  "no_reads = \<lparr>read_counter = 0, rand_calls = 0\<rparr>"

definition my_read :: "(nat \<Rightarrow> nat) \<Rightarrow> nat \<Rightarrow> read_event list \<Rightarrow> hooks \<Rightarrow> read_result \<times> read_event list \<times> hooks" where
  "my_read rnd count es h =
     (let h = h\<lparr>read_counter := read_counter h + 1\<rparr> in
      if read_counter h = READ_FAIL_NUM
      then (let r = rnd (rand_calls h); h = h\<lparr>read_counter := 0, rand_calls := Suc (rand_calls h)\<rparr> in
        if 0 < r mod 2 then (case sread (count div 2 + 1) es of (x, es') \<Rightarrow> (x, es', h))
        else (RIntr, es, h))
      else (case sread count es of (x, es') \<Rightarrow> (x, es', h)))"

text \<open>A failure that is made up is never followed by another one, so every second call makes progress.\<close>

definition due :: "hooks \<Rightarrow> nat" where
  "due h = (if read_counter h + 1 = READ_FAIL_NUM then 1 else 0)"

lemma my_read_progress:
  "my_read rnd n es h = (RIntr, es', h') \<Longrightarrow> 2 * length es' + due h' < 2 * length es + due h"
  "my_read rnd n es h = (RFail, es', h') \<Longrightarrow> 2 * length es' + due h' < 2 * length es + due h"
  "my_read rnd n es h = (RData d, es', h') \<Longrightarrow> length es' \<le> length es \<and> d \<noteq> [] \<and> due h' \<le> 1"
  using sread_less [of n es] sread_less [of "n div 2 + 1" es]
  by (fastforce simp: my_read_def due_def READ_FAIL_NUM_def Let_def split: if_splits prod.splits)+

section \<open>The reading loop on the hook\<close>

text \<open>\<open>chat_read_loop\<close> with \<open>my_read\<close> in the place of \<^verbatim>\<open>read\<close>.\<close>

function hooked_read_loop ::
  "(nat \<Rightarrow> nat) \<Rightarrow> nat \<Rightarrow> string \<Rightarrow> read_event list \<Rightarrow> hooks \<Rightarrow> int \<times> string \<times> read_event list \<times> hooks" where
  "hooked_read_loop rnd count acc es h =
     (if length acc < count
      then (case my_read rnd (count - length acc) es h of
              (RZero, es', h') \<Rightarrow> (0, acc, es', h')
            | (RIntr, es', h') \<Rightarrow> hooked_read_loop rnd count acc es' h'
            | (RData d, es', h') \<Rightarrow> hooked_read_loop rnd count (acc @ d) es' h'
            | (RFail, es', h') \<Rightarrow> hooked_read_loop rnd count acc es' h')
      else (int (length acc), acc, es, h))"
  by pat_completeness auto
termination
proof (relation "measure (\<lambda>(rnd, count, acc, es, h). 2 * (count - length acc + length es) + due h)", goal_cases)
  case (2 rnd count acc es h x y d es' h')
  then show ?case
    using my_read_progress(3) [of rnd "count - length acc" es h d es' h'] by (cases d) auto
next
  case (3 rnd count acc es h x y es' h')
  then show ?case using my_read_progress(1) [of rnd "count - length acc" es h es' h'] by auto
next
  case (4 rnd count acc es h x y es' h')
  then show ?case using my_read_progress(2) [of rnd "count - length acc" es h es' h'] by auto
qed simp

declare hooked_read_loop.simps [simp del]

definition hooked_read_all ::
  "(nat \<Rightarrow> nat) \<Rightarrow> nat \<Rightarrow> read_event list \<Rightarrow> hooks \<Rightarrow> (int \<times> string \<times> read_event list \<times> hooks) res" where
  "hooked_read_all rnd count es h = (if count = 0 then Inl Uninitialised else Inr (hooked_read_loop rnd count [] es h))"

section \<open>The loop does not notice\<close>

text \<open>On a stream that goes on after errors the hook is one more such stream.\<close>

lemma my_read_patient:
  assumes "patient es" and "0 < n"
  shows "(\<exists>h'. my_read rnd n es h = (RZero, [], h')) \<and> stream es = []
    \<or> (\<exists>es' h'. (my_read rnd n es h = (RIntr, es', h') \<or> my_read rnd n es h = (RFail, es', h')) \<and> patient es' \<and> stream es' = stream es)
    \<or> (\<exists>d es' h'. my_read rnd n es h = (RData d, es', h') \<and> patient es' \<and> stream es = d @ stream es' \<and> d \<noteq> [] \<and> length d \<le> n)"
proof -
  have "\<exists>k h'. 0 < k \<and> k \<le> n \<and> (my_read rnd n es h = (fst (sread k es), snd (sread k es), h')) \<or> my_read rnd n es h = (RIntr, es, h')"
  proof (cases "0 < rnd (rand_calls h) mod 2 \<and> read_counter h + 1 = READ_FAIL_NUM")
    case True
    have "n div 2 + 1 \<le> n" using assms(2) by (cases n) auto
    then show ?thesis using True by (intro exI [of _ "n div 2 + 1"]) (auto simp: my_read_def Let_def split: prod.splits)
  next
    case False
    then show ?thesis using assms(2) by (intro exI [of _ n]) (auto simp: my_read_def Let_def split: prod.splits)
  qed
  then consider k h' where "0 < k" "k \<le> n" "my_read rnd n es h = (fst (sread k es), snd (sread k es), h')"
    | h' where "my_read rnd n es h = (RIntr, es, h')" by blast
  then show ?thesis
  proof cases
    case 1
    then show ?thesis using sread_patient [OF assms(1) 1(1)] by auto
  qed (use assms(1) in auto)
qed

lemma hooked_read_loop_patient:
  assumes "patient es" and "length acc \<le> count"
  shows "if count - length acc \<le> length (stream es)
         then \<exists>es' h'. hooked_read_loop rnd count acc es h = (int count, acc @ take (count - length acc) (stream es), es', h')
                \<and> patient es' \<and> stream es' = drop (count - length acc) (stream es)
         else \<exists>h'. hooked_read_loop rnd count acc es h = (0, acc @ stream es, [], h')"
  using assms
proof (induction rnd count acc es h rule: hooked_read_loop.induct)
  case (1 rnd count acc es h)
  note loop = hooked_read_loop.simps [of rnd count acc es h]
  show ?case
  proof (cases "length acc < count")
    case False
    then show ?thesis using "1.prems" by (simp add: loop)
  next
    case True
    then have n: "0 < count - length acc" by simp
    from my_read_patient [OF "1.prems"(1) n, of rnd h] consider
        h' where "my_read rnd (count - length acc) es h = (RZero, [], h')" "stream es = []"
      | es' h' where "my_read rnd (count - length acc) es h = (RIntr, es', h') \<or> my_read rnd (count - length acc) es h = (RFail, es', h')"
          "patient es'" "stream es' = stream es"
      | d es' h' where "my_read rnd (count - length acc) es h = (RData d, es', h')" "patient es'" "stream es = d @ stream es'"
          "d \<noteq> []" "length d \<le> count - length acc" by blast
    then show ?thesis
    proof cases
      case (1 h')
      then show ?thesis using True by (simp add: loop)
    next
      case (2 es' h')
      then have "hooked_read_loop rnd count acc es h = hooked_read_loop rnd count acc es' h'"
        using True by (auto simp: loop)
      then show ?thesis
        using 2 "1.IH"(2) [OF True _ refl refl, of es' h'] "1.IH"(3) [OF True _ refl refl, of es' h'] "1.prems"(2)
        by (metis 2(3))
    next
      case (3 d es' h')
      then have step: "hooked_read_loop rnd count acc es h = hooked_read_loop rnd count (acc @ d) es' h'"
        using True by (simp add: loop)
      have "length (acc @ d) \<le> count" using 3(5) True by simp
      note "1.IH"(1) [OF True 3(1) [symmetric] refl refl 3(2) this]
      moreover have "count - length acc \<le> length (stream es) \<longleftrightarrow> count - length (acc @ d) \<le> length (stream es')"
          "(acc @ d) @ take (count - length (acc @ d)) (stream es') = acc @ take (count - length acc) (stream es)"
          "drop (count - length (acc @ d)) (stream es') = drop (count - length acc) (stream es)"
          "(acc @ d) @ stream es' = acc @ stream es"
        using 3(3,5) by auto
      ultimately show ?thesis
        unfolding step by (simp only:)
    qed
  qed
qed

text \<open>
  C33: the chat room's reading loop gives the same value and the same bytes with the hook as with the real
  \<^verbatim>\<open>read\<close>, and the bytes that follow are still to be read, whatever \<^verbatim>\<open>rand\<close> gives and wherever the counter
  of the hook stands: it ends, and no failure that is made up is seen by its callers.
\<close>

theorem hooked_read_same:
  assumes "patient es"
  shows "case (chat_read_all count es, hooked_read_all rnd count es h) of
      (Inr (n, bytes, rest), Inr (n', bytes', rest', h')) \<Rightarrow> n' = n \<and> bytes' = bytes \<and> stream rest' = stream rest
    | (Inl e, Inl e') \<Rightarrow> e' = e \<and> count = 0
    | _ \<Rightarrow> False"
  using chat_read_loop_clean [OF assms, of "[]" count] hooked_read_loop_patient [OF assms, of "[]" count rnd h]
  by (auto simp: chat_read_all_def hooked_read_all_def split: if_splits)

theorem hooked_read_same_witness:
  "\<exists>rest h'. hooked_read_all (\<lambda>i. i) 3 [Got ''a'', ReadErr, Got ''bcd''] \<lparr>read_counter = 9, rand_calls = 1\<rparr>
     = Inr (3, ''abc'', rest, h') \<and> stream rest = ''d''"
proof -
  have p: "patient [Got ''a'', ReadErr, Got ''bcd'']" by simp
  have c: "chat_read_all 3 [Got ''a'', ReadErr, Got ''bcd''] = Inr (3, ''abc'', [Got ''d''])"
    by (simp add: chat_read_all_def chat_read_loop.simps)
  from hooked_read_same [OF p, of 3 "\<lambda>i. i" "\<lparr>read_counter = 9, rand_calls = 1\<rparr>"] show ?thesis
    unfolding c by (auto split: sum.splits prod.splits)
qed

text \<open>The hook asks for more than it was asked for when nothing was asked for: it writes one byte to a buffer of none.\<close>

lemma my_read_zero:
  assumes "read_counter h = 9" and "rnd (rand_calls h) mod 2 = 1"
  shows "fst (my_read rnd 0 (Got (b # bs) # es) h) = RData [b]"
  using assms by (simp add: my_read_def READ_FAIL_NUM_def Let_def)

end
