(* ===== verification/Sockets.thy ===== *)
theory Sockets
  imports Prelude
begin

text \<open>
  Sockets before they carry data: what the system keeps of a descriptor, and the functions that set up a connection.
  \<^verbatim>\<open>connect_to_server\<close> is the same text in \<^verbatim>\<open>nonstop_networking/client.c\<close> and \<^verbatim>\<open>charming_chatroom/client.c\<close>; the servers'
  set-up (\<^verbatim>\<open>start_socket\<close> of the nonstop server and the beginning of the chat room's \<^verbatim>\<open>run_server\<close>) is here for both. Whether a
  call succeeds is the environment's choice; what a call that succeeds does to its descriptor, and how the functions
  leave, is the code.
\<close>

section \<open>Descriptors\<close>

datatype sock_state = Foreign | Unbound | Bound string | Listening string nat | Connected string string

record descriptor =
  state_of :: sock_state
  options :: "32 word set"   \<comment> \<open>the option numbers that \<^verbatim>\<open>setsockopt\<close> switched on\<close>

text \<open>The descriptors that are open, and the address lists that \<^verbatim>\<open>getaddrinfo\<close> gave and nobody freed.\<close>

record kernel =
  fds :: "nat \<rightharpoonup> descriptor"
  addr_lists :: nat

record outcomes =
  new_socket :: "nat option"
  resolves :: bool
  option_taken :: bool
  binds :: bool
  listens :: bool
  connects :: bool

definition all_succeed :: "outcomes \<Rightarrow> bool" where
  "all_succeed oc \<longleftrightarrow> new_socket oc \<noteq> None \<and> resolves oc \<and> option_taken oc \<and> binds oc \<and> listens oc"

definition sys_socket :: "nat \<Rightarrow> kernel \<Rightarrow> kernel" where
  "sys_socket s k = k\<lparr>fds := (fds k)(s \<mapsto> \<lparr>state_of = Unbound, options = {}\<rparr>)\<rparr>"

definition sys_set_state :: "nat \<Rightarrow> sock_state \<Rightarrow> kernel \<Rightarrow> kernel" where
  "sys_set_state s x k = k\<lparr>fds := (fds k)(s := map_option (\<lambda>d. d\<lparr>state_of := x\<rparr>) (fds k s))\<rparr>"

definition sys_setsockopt :: "nat \<Rightarrow> 32 word \<Rightarrow> kernel \<Rightarrow> kernel" where
  "sys_setsockopt s opt k = k\<lparr>fds := (fds k)(s := map_option (\<lambda>d. d\<lparr>options := insert opt (options d)\<rparr>) (fds k s))\<rparr>"

definition sys_close :: "nat \<Rightarrow> kernel \<Rightarrow> kernel" where
  "sys_close s k = k\<lparr>fds := (fds k)(s := None)\<rparr>"

definition sys_getaddrinfo :: "kernel \<Rightarrow> kernel" where
  "sys_getaddrinfo k = k\<lparr>addr_lists := Suc (addr_lists k)\<rparr>"

definition sys_freeaddrinfo :: "kernel \<Rightarrow> kernel" where
  "sys_freeaddrinfo k = k\<lparr>addr_lists := addr_lists k - 1\<rparr>"

lemma kernel_simps [simp]:
  "fds (sys_socket s k) = (fds k)(s \<mapsto> \<lparr>state_of = Unbound, options = {}\<rparr>)" "addr_lists (sys_socket s k) = addr_lists k"
  "fds (sys_set_state s x k) = (fds k)(s := map_option (\<lambda>d. d\<lparr>state_of := x\<rparr>) (fds k s))"
  "addr_lists (sys_set_state s x k) = addr_lists k"
  "fds (sys_setsockopt s opt k) = (fds k)(s := map_option (\<lambda>d. d\<lparr>options := insert opt (options d)\<rparr>) (fds k s))"
  "addr_lists (sys_setsockopt s opt k) = addr_lists k"
  "fds (sys_close s k) = (fds k)(s := None)" "addr_lists (sys_close s k) = addr_lists k"
  "fds (sys_getaddrinfo k) = fds k" "addr_lists (sys_getaddrinfo k) = Suc (addr_lists k)"
  "fds (sys_freeaddrinfo k) = fds k" "addr_lists (sys_freeaddrinfo k) = addr_lists k - 1"
  by (simp_all add: sys_socket_def sys_set_state_def sys_setsockopt_def sys_close_def sys_getaddrinfo_def sys_freeaddrinfo_def)

text \<open>The numbers of the two options, as Linux has them.\<close>

definition SO_REUSEADDR :: "32 word" where
  "SO_REUSEADDR = 2"

definition SO_REUSEPORT :: "32 word" where
  "SO_REUSEPORT = 15"

section \<open>Clients\<close>

text \<open>\<^verbatim>\<open>head\<close> has no value before \<^verbatim>\<open>getaddrinfo\<close> succeeds; the error branch tests it.\<close>

definition connect_to_server :: "outcomes \<Rightarrow> string \<Rightarrow> string \<Rightarrow> kernel \<Rightarrow> nat res \<times> kernel" where
  "connect_to_server oc host port k =
     (case new_socket oc of
        None \<Rightarrow> (Inl (ProcessExit 1), k)
      | Some socket_id \<Rightarrow>
          let k = sys_socket socket_id k in
          if \<not> resolves oc then (Inl Uninitialised, k)
          else let k = sys_getaddrinfo k in
          if \<not> connects oc then (Inl (ProcessExit 1), sys_freeaddrinfo k)
          else (Inr socket_id, sys_freeaddrinfo (sys_set_state socket_id (Connected host port) k)))"

section \<open>Servers\<close>

text \<open>
  The nonstop server: every failure after the first runs \<^verbatim>\<open>close_server\<close>, of which the two last calls concern the
  kernel: \<open>sfd\<close> is the value of that global, \<open>head\<close> whether the static address list is there (freeing the null list does
  nothing). The two options are one number, their bitwise or.
\<close>

unbundle bit_operations_syntax

definition close_listener :: "nat \<Rightarrow> bool \<Rightarrow> kernel \<Rightarrow> kernel" where
  "close_listener sfd head k = sys_close sfd (if head then sys_freeaddrinfo k else k)"

definition start_socket :: "outcomes \<Rightarrow> string \<Rightarrow> nat \<Rightarrow> kernel \<Rightarrow> nat res \<times> kernel" where
  "start_socket oc port sfd k =
     (case new_socket oc of
        None \<Rightarrow> (Inl (ProcessExit 1), k)
      | Some socket_id \<Rightarrow>
          let k = sys_socket socket_id k in
          if \<not> resolves oc then (Inl (ProcessExit 1), close_listener sfd False k)
          else let k = sys_getaddrinfo k in
          if \<not> option_taken oc then (Inl (ProcessExit 1), close_listener sfd True k)
          else let k = sys_setsockopt socket_id (SO_REUSEADDR OR SO_REUSEPORT) k in
          if \<not> binds oc then (Inl (ProcessExit 1), close_listener sfd True k)
          else let k = sys_set_state socket_id (Bound port) k in
          if \<not> listens oc then (Inl (ProcessExit 1), close_listener sfd True k)
          else (Inr socket_id, sys_set_state socket_id (Listening port 1024) k))"

text \<open>
  The chat room: the address list is freed on the way out of a failure and kept otherwise; \<^verbatim>\<open>close_server\<close> only sets a
  flag of a process that exits.
\<close>

definition start_room_socket :: "outcomes \<Rightarrow> string \<Rightarrow> kernel \<Rightarrow> nat res \<times> kernel" where
  "start_room_socket oc port k =
     (case new_socket oc of
        None \<Rightarrow> (Inl (ProcessExit 1), k)
      | Some socket_id \<Rightarrow>
          let k = sys_socket socket_id k in
          if \<not> resolves oc then (Inl Uninitialised, k)
          else let k = sys_getaddrinfo k in
          if \<not> option_taken oc then (Inl (ProcessExit 1), sys_freeaddrinfo k)
          else let k = sys_setsockopt socket_id SO_REUSEPORT k in
          if \<not> binds oc then (Inl (ProcessExit 1), sys_freeaddrinfo k)
          else let k = sys_set_state socket_id (Bound port) k in
          if \<not> listens oc then (Inl (ProcessExit 1), sys_freeaddrinfo k)
          else (Inr socket_id, sys_set_state socket_id (Listening port 8) k))"

section \<open>What they leave\<close>

lemma both_options: "SO_REUSEADDR OR SO_REUSEPORT = SO_REUSEPORT"
  by (simp add: SO_REUSEADDR_def SO_REUSEPORT_def)

lemma connect_to_server_connects:
  assumes "connect_to_server oc host port k = (r, k')"
  shows "r = Inr s \<longleftrightarrow> new_socket oc = Some s \<and> resolves oc \<and> connects oc"
    and "r = Inr s \<Longrightarrow> fds k' = (fds k)(s \<mapsto> \<lparr>state_of = Connected host port, options = {}\<rparr>) \<and> addr_lists k' = addr_lists k"
    and "r = Inl f \<Longrightarrow> f = (if new_socket oc \<noteq> None \<and> \<not> resolves oc then Uninitialised else ProcessExit 1)
      \<and> addr_lists k' = addr_lists k"
  using assms by (auto simp: connect_to_server_def Let_def split: option.splits if_splits)

lemma start_socket_listens:
  assumes "start_socket oc port sfd k = (r, k')"
  shows "r = Inr s \<longleftrightarrow> all_succeed oc \<and> new_socket oc = Some s"
    and "r = Inr s \<Longrightarrow> fds k' = (fds k)(s \<mapsto> \<lparr>state_of = Listening port 1024, options = {SO_REUSEPORT}\<rparr>)
      \<and> addr_lists k' = Suc (addr_lists k)"
    and "r = Inl f \<Longrightarrow> f = ProcessExit 1 \<and> addr_lists k' = addr_lists k
      \<and> (\<forall>s. new_socket oc = Some s \<and> s \<noteq> sfd \<longrightarrow> fds k' sfd = None \<and> fds k' s \<noteq> None)"
  using assms by (auto simp: close_listener_def start_socket_def all_succeed_def both_options Let_def split: option.splits if_splits)

lemma start_room_socket_listens:
  assumes "start_room_socket oc port k = (r, k')"
  shows "r = Inr s \<longleftrightarrow> all_succeed oc \<and> new_socket oc = Some s"
    and "r = Inr s \<Longrightarrow> fds k' = (fds k)(s \<mapsto> \<lparr>state_of = Listening port 8, options = {SO_REUSEPORT}\<rparr>)
      \<and> addr_lists k' = Suc (addr_lists k)"
    and "r = Inl f \<Longrightarrow> addr_lists k' = addr_lists k"
  using assms by (auto simp: start_room_socket_def all_succeed_def Let_def split: option.splits if_splits)

end
