(* ===== verification/NonstopServer.thy ===== *)
theory NonstopServer
  imports Net
begin

text \<open>
  \<^verbatim>\<open>nonstop_networking/server.c\<close>: the header of a request, the four commands and the
  handling of one connection. A connection is the script of its reads and the bytes sent; what
  is sent is taken to be accepted (\<open>server_write_all\<close> on an empty script). The names are kept in
  a vector of the course's library (documented to erase and append as a list does), the
  directory is a map from file names to contents: a name with a slash in it, which the code
  does not reject, would denote a file elsewhere. \<^verbatim>\<open>open\<close>, \<^verbatim>\<open>write\<close> and \<^verbatim>\<open>remove\<close> on the directory succeed.
\<close>

section \<open>Connections\<close>

datatype verb = GET | PUT | DELETE | LIST | V_UNKNOWN

record info =
  cmd :: verb
  file_name :: "string option"
  file_size :: size_t

definition calloc_info :: info where
  "calloc_info = \<lparr>cmd = GET, file_name = None, file_size = 0\<rparr>"

record conn =
  incoming :: "read_event list"
  outgoing :: string
  closed :: bool

definition recv :: "nat \<Rightarrow> conn \<Rightarrow> size_t \<times> string \<times> conn" where
  "recv n c = (let (r, bs, es) = server_read_all n [] (incoming c) in (r, bs, c\<lparr>incoming := es\<rparr>))"

definition send :: "string \<Rightarrow> conn \<Rightarrow> conn" where
  "send bs c = c\<lparr>outgoing := outgoing c @ snd (server_write_all [] bs [])\<rparr>"

text \<open>The string in a buffer that was zeroed and then received these bytes.\<close>

definition c_string :: "string \<Rightarrow> string" where
  "c_string bs = takeWhile (\<lambda>c. c \<noteq> NUL) bs"

abbreviation newline :: char where
  "newline \<equiv> CHR 0x0A"

section \<open>The header\<close>

definition get_cmd :: "conn \<Rightarrow> verb option \<times> conn" where
  "get_cmd c =
     (let (_, bs, c1) = recv 3 c; buf = c_string bs in
      if buf = ''PUT'' then (let (_, _, c2) = recv 1 c1 in (Some PUT, c2))
      else if buf = ''GET'' then (let (_, _, c2) = recv 1 c1 in (Some GET, c2))
      else if buf = ''DEL'' then (let (_, _, c2) = recv 4 c1 in (Some DELETE, c2))
      else if buf = ''LIS'' then (Some LIST, c1)
      else (None, c1))"

definition server_message_size :: "conn \<Rightarrow> size_t \<times> conn" where
  "server_message_size c =
     (let (read_bytes, bs, c') = recv 8 c in
      (if read_bytes = 0 \<or> read_bytes = -1 then read_bytes else dec_size bs, c'))"

text \<open>
  One character at a time into a zeroed buffer of 256 bytes; \<open>k\<close> rounds are left. In the last
  cell, \<^verbatim>\<open>strcmp\<close> finds no terminator after a newline.
\<close>

fun file_name_loop :: "nat \<Rightarrow> string \<Rightarrow> conn \<Rightarrow> (string option \<times> conn) res" where
  "file_name_loop 0 buf c = Inr (None, c)"
| "file_name_loop (Suc k) buf c =
     (let i = 255 - k; (_, bs, c') = recv 1 c;
          buf' = (case bs of [] \<Rightarrow> buf | b # _ \<Rightarrow> buf[i := b]) in
      if buf' ! i = newline
      then if k = 0 then Inl OutOfBounds
           else if buf' ! Suc i = NUL then Inr (Some (c_string (buf'[i := NUL])), c')
           else file_name_loop k buf' c'
      else file_name_loop k buf' c')"

definition get_file_name :: "conn \<Rightarrow> (string option \<times> conn) res" where
  "get_file_name c = file_name_loop 256 (replicate 256 NUL) c"

definition process_header :: "conn \<Rightarrow> (bool \<times> info \<times> conn) res" where
  "process_header c =
     (case get_cmd c of
        (None, c1) \<Rightarrow> Inr (False, calloc_info, c1)
      | (Some v, c1) \<Rightarrow>
          bindE (get_file_name c1) (\<lambda>(name, c2).
            if name = None then Inr (False, calloc_info\<lparr>cmd := v\<rparr>, c2)
            else if v = PUT
            then (let (sz, c3) = server_message_size c2
                  in Inr (True, \<lparr>cmd = v, file_name = name, file_size = sz\<rparr>, c3))
            else Inr (True, \<lparr>cmd = v, file_name = name, file_size = 0\<rparr>, c2)))"

section \<open>The commands\<close>

record server =
  files :: "string list"
  dir :: "string \<rightharpoonup> string"

text \<open>The messages of \<^verbatim>\<open>format.c\<close>, which is not in the repository.\<close>

record messages =
  err_bad_request :: string
  err_bad_file_size :: string
  err_no_such_file :: string

fun send_names :: "size_t \<Rightarrow> string list \<Rightarrow> conn \<Rightarrow> conn" where
  "send_names i [] c = c"
| "send_names i (n # ns) c =
     send_names (i - 1) ns (if 0 < i then send [newline] (send n c) else send n c)"

definition server_list :: "server \<Rightarrow> conn \<Rightarrow> conn" where
  "server_list s c =
     (let c1 = send (''OK'' @ [newline]) c;
          list_size = sum_list (map (\<lambda>n. of_nat (length n) + 1) (files s)) - 1;
          list_size' = (if files s = [] then 0 else list_size);
          c2 = send (enc_size list_size') c1
      in send_names (of_nat (length (files s)) - 1) (files s) c2)"

definition server_delete :: "messages \<Rightarrow> string \<Rightarrow> server \<Rightarrow> conn \<Rightarrow> bool \<times> server \<times> conn" where
  "server_delete ms name s c =
     (if name \<in> set (files s)
      then (True, s\<lparr>dir := (dir s)(name := None), files := remove1 name (files s)\<rparr>,
            send (''OK'' @ [newline]) c)
      else (False, s, send (err_no_such_file ms) (send (''ERROR'' @ [newline]) c)))"

text \<open>The file goes out in pieces of 1024 bytes.\<close>

function get_loop :: "string \<Rightarrow> conn \<Rightarrow> conn" where
  "get_loop left c = (if left = [] then c else get_loop (drop 1024 left) (send (take 1024 left) c))"
  by pat_completeness auto
termination
  by (relation "measure (\<lambda>(left, c). length left)") auto

declare get_loop.simps [simp del]

text \<open>When the file is not in the directory, \<^verbatim>\<open>stat\<close> fails and its size is read uninitialised.\<close>

definition server_get :: "string \<Rightarrow> server \<Rightarrow> conn \<Rightarrow> (bool \<times> conn) res" where
  "server_get name s c =
     (if name \<notin> set (files s) then Inr (False, c)
      else case dir s name of
        None \<Rightarrow> Inl Uninitialised
      | Some content \<Rightarrow>
          Inr (True, get_loop content (send (enc_size (of_nat (length content))) (send (''OK'' @ [newline]) c))))"

lemma server_read_all_result:
  "server_read_all n acc es = (r, bs, es') \<Longrightarrow> length acc \<le> n \<Longrightarrow> r = 0 \<or> r = -1 \<or> length bs = n"
proof (induction n acc es rule: server_read_all.induct)
  case (1 n acc es)
  show ?case
  proof (cases "length acc < n")
    case False
    then show ?thesis using "1.prems" by (auto simp: server_read_all.simps [of n acc es])
  next
    case True
    obtain x es1 where s: "sread (n - length acc) es = (x, es1)" by fastforce
    show ?thesis
    proof (cases x)
      case (RData d)
      have "length d \<le> n - length acc"
        using s RData by (cases "(n - length acc, es)" rule: sread.cases) (auto split: if_splits)
      then show ?thesis
        using "1.IH"(1) [OF True s [symmetric] RData] "1.prems" True s RData
        by (simp add: server_read_all.simps [of n acc es])
    next
      case RIntr
      then show ?thesis
        using "1.IH"(2) [OF True s [symmetric] RIntr] "1.prems" True s
        by (simp add: server_read_all.simps [of n acc es])
    qed (use "1.prems" True s in \<open>auto simp: server_read_all.simps [of n acc es]\<close>)
  qed
qed

lemma recv_result: "recv n c = (r, bs, c') \<Longrightarrow> r \<noteq> 0 \<Longrightarrow> r \<noteq> -1 \<Longrightarrow> length bs = n"
  using server_read_all_result [of n "[]" "incoming c" r bs]
  by (auto simp: recv_def split: prod.splits)

text \<open>
  The body of a PUT, in pieces of 1024 bytes; \<open>left\<close> bytes are missing. \<open>None\<close>: the data ended too early.
  After an error of the read the count -1 is handed to \<^verbatim>\<open>write_to_file\<close>, which
  then tests a variable that has no value.
\<close>

function put_loop :: "nat \<Rightarrow> string \<Rightarrow> conn \<Rightarrow> (string option \<times> conn) res" where
  "put_loop left written c =
     (if left = 0 then Inr (Some written, c)
      else (case recv (min 1024 left) c of
              (retval, bs, c') \<Rightarrow>
                if retval = 0 then Inr (None, c')
                else if retval = -1 then Inl Uninitialised
                else put_loop (left - length bs) (written @ bs) c'))"
  by pat_completeness auto
termination
proof (relation "measure (\<lambda>(left, written, c). left)", goal_cases)
  case (2 left written c x y bs c')
  from 2(2) have "recv (min 1024 left) c = (x, bs, c')" unfolding 2(3) by simp
  from recv_result [OF this 2(4,5)] show ?case using 2(1) by simp
qed simp

declare put_loop.simps [simp del]

definition server_put :: "messages \<Rightarrow> string \<Rightarrow> size_t \<Rightarrow> server \<Rightarrow> conn \<Rightarrow> (bool \<times> server \<times> conn) res" where
  "server_put ms name sz s c =
     bindE (put_loop (unat sz) [] c) (\<lambda>(content, c1).
       case content of
         None \<Rightarrow> Inr (False, s\<lparr>dir := (dir s)(name := None)\<rparr>,
                   send (err_bad_file_size ms) (send (''ERROR'' @ [newline]) c1))
       | Some data \<Rightarrow>
           let (actual, _, c2) = recv 1 c1 in
           if actual \<noteq> 0
           then Inr (False, s\<lparr>dir := (dir s)(name := None)\<rparr>,
                     send (err_bad_file_size ms) (send (''ERROR'' @ [newline]) c2))
           else Inr (True, s\<lparr>dir := (dir s)(name \<mapsto> data), files := files s @ [name]\<rparr>, c2))"

text \<open>
  One connection. The answer to a bad header has the length of another message; it is cut
  off or runs past the end of the text. That connection is not closed.
\<close>

definition serve :: "messages \<Rightarrow> server \<Rightarrow> conn \<Rightarrow> (server \<times> conn) res" where
  "serve ms s c =
     bindE (process_header c) (\<lambda>(ok, stuff, c1).
       if \<not> ok
       then if length (err_no_such_file ms) \<le> length (err_bad_request ms) + 1
            then Inr (s, send (take (length (err_no_such_file ms)) (err_bad_request ms @ [NUL])) c1)
            else Inl OutOfBounds
       else (case cmd stuff of
           LIST \<Rightarrow> Inr (s, (server_list s c1)\<lparr>closed := True\<rparr>)
         | DELETE \<Rightarrow> (let (_, s', c2) = server_delete ms (the (file_name stuff)) s c1
                      in Inr (s', c2\<lparr>closed := True\<rparr>))
         | GET \<Rightarrow> bindE (server_get (the (file_name stuff)) s c1) (\<lambda>(_, c2). Inr (s, c2\<lparr>closed := True\<rparr>))
         | PUT \<Rightarrow> bindE (server_put ms (the (file_name stuff)) (file_size stuff) s c1) (\<lambda>(_, s', c2).
                   Inr (s', c2\<lparr>closed := True\<rparr>))
         | V_UNKNOWN \<Rightarrow> Inr (s, c1)))"

text \<open>
  \<^verbatim>\<open>close_server\<close>, the handler of \<^verbatim>\<open>SIGINT\<close>, unlinks the file of every name in the list. A server's life is the
  connections it accepts, one after the other.
\<close>

definition close_server :: "server \<Rightarrow> server" where
  "close_server s = s\<lparr>dir := fold (\<lambda>n d. d(n := None)) (files s) (dir s), files := []\<rparr>"

fun run_server :: "messages \<Rightarrow> server \<Rightarrow> conn list \<Rightarrow> (server \<times> conn list) res" where
  "run_server ms s [] = Inr (s, [])"
| "run_server ms s (c # cs) =
     bindE (serve ms s c) (\<lambda>(s', c'). bindE (run_server ms s' cs) (\<lambda>(s'', cs'). Inr (s'', c' # cs')))"

section \<open>Connections that deliver\<close>

definition feeds :: "conn \<Rightarrow> string \<Rightarrow> bool" where
  "feeds c data \<longleftrightarrow> clean (incoming c) \<and> stream (incoming c) = data"

text \<open>\<open>c'\<close> differs from \<open>c\<close> only in what is left to read.\<close>

definition same_out :: "conn \<Rightarrow> conn \<Rightarrow> bool" where
  "same_out c c' \<longleftrightarrow> outgoing c' = outgoing c \<and> closed c' = closed c"

lemma same_out_refl [simp]: "same_out c c"
  by (simp add: same_out_def)

lemma same_out_trans: "same_out a b \<Longrightarrow> same_out b c \<Longrightarrow> same_out a c"
  by (simp add: same_out_def)

lemma recv_feeds:
  assumes "feeds c (bs @ rest)" and "length bs = n"
  shows "\<exists>c'. recv n c = (of_nat n, bs, c') \<and> feeds c' rest \<and> same_out c c'"
  using server_read_all_clean [of "incoming c" "[]" n] assms by (auto simp: recv_def feeds_def same_out_def)

lemma recv_short:
  assumes "feeds c data" and "length data < n"
  shows "\<exists>c'. recv n c = (0, data, c') \<and> feeds c' [] \<and> same_out c c'"
  using server_read_all_clean [of "incoming c" "[]" n] assms by (auto simp: recv_def feeds_def same_out_def)

lemma send_simps [simp]:
  "outgoing (send bs c) = outgoing c @ bs" "incoming (send bs c) = incoming c" "closed (send bs c) = closed c"
  by (simp_all add: send_def server_write_all_fair)

lemma of_nat_not_special:
  assumes "0 < n" and "n \<le> 1024"
  shows "(of_nat n :: size_t) \<noteq> 0 \<and> (of_nat n :: size_t) \<noteq> -1"
proof -
  have small: "unat (of_nat m :: size_t) = m" if "m \<le> 1025" for m
    using that by (subst unat_of_nat) simp
  have "(of_nat n :: size_t) \<noteq> 0" using small [of n] assms by auto
  moreover have "(of_nat n :: size_t) + 1 \<noteq> 0" using small [of "Suc n"] assms by (auto simp: add.commute)
  then have "(of_nat n :: size_t) \<noteq> -1" by auto
  ultimately show ?thesis by simp
qed

text \<open>A file name the header can carry.\<close>

definition name_ok :: "string \<Rightarrow> bool" where
  "name_ok name \<longleftrightarrow> newline \<notin> set name \<and> NUL \<notin> set name \<and> length name \<le> 254"

lemma file_name_loop_ok:
  assumes "feeds c (suf @ newline # rest)" and "newline \<notin> set suf" and "NUL \<notin> set (pre @ suf)"
    and "length pre + k = 256" and "length suf + 2 \<le> k"
  shows "\<exists>c'. file_name_loop k (pre @ replicate k NUL) c = Inr (Some (pre @ suf), c') \<and> feeds c' rest \<and> same_out c c'"
  using assms
proof (induction suf arbitrary: pre k c)
  case Nil
  then obtain k' where k: "k = Suc (Suc k')" by (metis add_2_eq_Suc le_Suc_ex list.size(3) plus_nat.add_0)
  have i: "255 - Suc k' = length pre" using Nil.prems(4) k by simp
  have "feeds c ([newline] @ rest)" using Nil.prems(1) by simp
  from recv_feeds [OF this, of 1] obtain c' where c': "recv 1 c = (1, [newline], c')" "feeds c' rest" "same_out c c'"
    by auto
  have "c_string (pre @ NUL # NUL # replicate k' NUL) = pre"
    using Nil.prems(3) by (subst c_string_def, subst takeWhile_append2) auto
  moreover have "newline \<noteq> NUL" by (simp add: NUL_def)
  ultimately show ?case using c' k i by (simp add: Let_def nth_append list_update_append)
next
  case (Cons b suf)
  then obtain k' where k: "k = Suc k'" by (cases k) auto
  have i: "255 - k' = length pre" using Cons.prems(4) k by simp
  have "feeds c ([b] @ (suf @ newline # rest))" using Cons.prems(1) by simp
  from recv_feeds [OF this, of 1] obtain c1 where c1: "recv 1 c = (1, [b], c1)" "feeds c1 (suf @ newline # rest)" "same_out c c1"
    by auto
  have "file_name_loop k (pre @ replicate k NUL) c = file_name_loop k' ((pre @ [b]) @ replicate k' NUL) c1"
    using c1(1) k i Cons.prems(2) by (auto simp: Let_def nth_append list_update_append)
  moreover have "\<exists>c'. file_name_loop k' ((pre @ [b]) @ replicate k' NUL) c1 = Inr (Some ((pre @ [b]) @ suf), c')
      \<and> feeds c' rest \<and> same_out c1 c'"
    using Cons.prems k by (intro Cons.IH c1(2)) auto
  ultimately show ?case using c1(3) by (auto intro: same_out_trans)
qed

lemma get_file_name_ok:
  assumes "feeds c (name @ newline # rest)" and "name_ok name"
  shows "\<exists>c'. get_file_name c = Inr (Some name, c') \<and> feeds c' rest \<and> same_out c c'"
  using file_name_loop_ok [of c name rest "[]" 256] assms by (simp add: get_file_name_def name_ok_def)

text \<open>The request line a client sends for a command.\<close>

definition request_line :: "verb \<Rightarrow> string \<Rightarrow> string" where
  "request_line v name = (case v of GET \<Rightarrow> ''GET '' @ name | PUT \<Rightarrow> ''PUT '' @ name
     | DELETE \<Rightarrow> ''DELETE '' @ name | _ \<Rightarrow> ''LIST'') @ [newline]"

lemma get_cmd_ok:
  assumes "feeds c (request_line v name @ rest)" and "v \<noteq> V_UNKNOWN"
  shows "\<exists>c'. get_cmd c = (Some v, c') \<and> same_out c c'
    \<and> feeds c' ((if v = LIST then ''T'' else name) @ newline # rest)"
proof -
  have nn: "CHR ''P'' \<noteq> NUL" "CHR ''U'' \<noteq> NUL" "CHR ''T'' \<noteq> NUL" "CHR ''G'' \<noteq> NUL" "CHR ''E'' \<noteq> NUL"
      "CHR ''D'' \<noteq> NUL" "CHR ''L'' \<noteq> NUL" "CHR ''I'' \<noteq> NUL" "CHR ''S'' \<noteq> NUL"
    by (simp_all add: NUL_def)
  have step: "\<exists>c1 c2. recv 3 c = (3, w, c1) \<and> recv n c1 = (of_nat n, skip, c2) \<and> feeds c2 data
      \<and> feeds c1 (skip @ data) \<and> same_out c c1 \<and> same_out c c2"
    if d: "feeds c (w @ skip @ data)" and l: "length w = 3" "length skip = n" for w skip data n
  proof -
    from recv_feeds [OF d l(1)] obtain c1 where c1: "recv 3 c = (3, w, c1)" "feeds c1 (skip @ data)" "same_out c c1"
      by auto
    from recv_feeds [OF c1(2) l(2)] obtain c2 where c2: "recv n c1 = (of_nat n, skip, c2)" "feeds c2 data" "same_out c1 c2"
      by auto
    from c1 c2 same_out_trans [OF c1(3) c2(3)] show ?thesis by blast
  qed
  show ?thesis
  proof (cases v)
    case GET
    then have "feeds c (''GET'' @ '' '' @ (name @ newline # rest))" using assms(1) by (simp add: request_line_def)
    from step [OF this, of 1] obtain c1 c2 where "recv 3 c = (3, ''GET'', c1)" "recv 1 c1 = (1, '' '', c2)"
      "feeds c2 (name @ newline # rest)" "same_out c c2" by auto
    then show ?thesis using GET nn by (simp add: get_cmd_def c_string_def)
  next
    case PUT
    then have "feeds c (''PUT'' @ '' '' @ (name @ newline # rest))" using assms(1) by (simp add: request_line_def)
    from step [OF this, of 1] obtain c1 c2 where "recv 3 c = (3, ''PUT'', c1)" "recv 1 c1 = (1, '' '', c2)"
      "feeds c2 (name @ newline # rest)" "same_out c c2" by auto
    then show ?thesis using PUT nn by (simp add: get_cmd_def c_string_def)
  next
    case DELETE
    then have "feeds c (''DEL'' @ ''ETE '' @ (name @ newline # rest))" using assms(1) by (simp add: request_line_def)
    from step [OF this, of 4] obtain c1 c2 where "recv 3 c = (3, ''DEL'', c1)" "recv 4 c1 = (4, ''ETE '', c2)"
      "feeds c2 (name @ newline # rest)" "same_out c c2" by auto
    then show ?thesis using DELETE nn by (simp add: get_cmd_def c_string_def)
  next
    case LIST
    then have "feeds c (''LIS'' @ [] @ (''T'' @ newline # rest))" using assms(1) by (simp add: request_line_def)
    from step [OF this, of 0] obtain c1 where "recv 3 c = (3, ''LIS'', c1)"
      "feeds c1 (''T'' @ newline # rest)" "same_out c c1" by auto
    then show ?thesis using LIST nn by (simp add: get_cmd_def c_string_def)
  qed (use assms(2) in simp)
qed

lemma server_message_size_ok:
  assumes "feeds c (enc_size n @ rest)"
  shows "\<exists>c'. server_message_size c = (n, c') \<and> feeds c' rest \<and> same_out c c'"
  using recv_feeds [OF assms, of 8] of_nat_not_special [of 8] by (auto simp: server_message_size_def Let_def)

lemma process_header_ok:
  assumes "feeds c (request_line v name @ rest)" and "name_ok name" and "v \<noteq> V_UNKNOWN"
    and "v = PUT \<Longrightarrow> rest = enc_size n @ rest'"
  shows "\<exists>c'. process_header c = Inr (True, \<lparr>cmd = v, file_name = Some (if v = LIST then ''T'' else name),
             file_size = (if v = PUT then n else 0)\<rparr>, c')
    \<and> feeds c' (if v = PUT then rest' else rest) \<and> same_out c c'"
proof -
  from get_cmd_ok [OF assms(1,3)] obtain c1 where c1: "get_cmd c = (Some v, c1)" "same_out c c1"
    "feeds c1 ((if v = LIST then ''T'' else name) @ newline # rest)" by auto
  have "name_ok (if v = LIST then ''T'' else name)" using assms(2) by (simp add: name_ok_def NUL_def)
  from get_file_name_ok [OF c1(3) this] obtain c2 where c2:
    "get_file_name c1 = Inr (Some (if v = LIST then ''T'' else name), c2)" "feeds c2 rest" "same_out c1 c2" by auto
  show ?thesis
  proof (cases "v = PUT")
    case True
    then obtain c3 where "server_message_size c2 = (n, c3)" "feeds c3 rest'" "same_out c2 c3"
      using server_message_size_ok [of c2 n rest'] c2(2) assms(4) by auto
    then show ?thesis using c1 c2 True by (simp add: process_header_def same_out_def)
  next
    case False
    then show ?thesis using c1 c2 same_out_trans by (auto simp: process_header_def)
  qed
qed

section \<open>Files in and out\<close>

lemma put_loop_ok:
  "feeds c data \<Longrightarrow> left \<le> length data \<Longrightarrow>
     \<exists>c'. put_loop left written c = Inr (Some (written @ take left data), c')
       \<and> feeds c' (drop left data) \<and> same_out c c'"
proof (induction left arbitrary: written c data rule: less_induct)
  case (less left)
  show ?case
  proof (cases "left = 0")
    case True
    then show ?thesis using less.prems by (simp add: put_loop.simps)
  next
    case False
    let ?n = "min 1024 left"
    have "feeds c (take ?n data @ drop ?n data)" "length (take ?n data) = ?n" using less.prems by simp_all
    from recv_feeds [OF this] obtain c1 where c1: "recv ?n c = (of_nat ?n, take ?n data, c1)"
        "feeds c1 (drop ?n data)" "same_out c c1" by blast
    have ns: "(of_nat ?n :: size_t) \<noteq> 0" "(of_nat ?n :: size_t) \<noteq> -1"
      using of_nat_not_special [of ?n] False by simp_all
    have "put_loop left written c = put_loop (left - ?n) (written @ take ?n data) c1"
      using False c1(1) ns less.prems(2) by (subst put_loop.simps) simp
    moreover have le: "left - ?n < left" "left - ?n \<le> length (drop ?n data)"
      using False less.prems(2) by (auto simp: min_def)
    moreover obtain c2 where "put_loop (left - ?n) (written @ take ?n data) c1
        = Inr (Some ((written @ take ?n data) @ take (left - ?n) (drop ?n data)), c2)"
        "feeds c2 (drop (left - ?n) (drop ?n data))" "same_out c1 c2"
      using less.IH [OF le(1) c1(2) le(2), of "written @ take ?n data"] by blast
    moreover have "take ?n data @ take (left - ?n) (drop ?n data) = take left data"
      by (metis le_add_diff_inverse min.cobounded2 take_add)
    ultimately show ?thesis using c1(3) by (auto intro: same_out_trans)
  qed
qed

lemma put_loop_short:
  "feeds c data \<Longrightarrow> length data < left \<Longrightarrow>
     \<exists>c'. put_loop left written c = Inr (None, c') \<and> same_out c c'"
proof (induction left arbitrary: written c data rule: less_induct)
  case (less left)
  let ?n = "min 1024 left"
  have left: "left \<noteq> 0" using less.prems(2) by simp
  show ?case
  proof (cases "length data < ?n")
    case True
    from recv_short [OF less.prems(1) True] obtain c1 where "recv ?n c = (0, data, c1)" "same_out c c1" by blast
    then show ?thesis using left by (subst put_loop.simps) simp
  next
    case False
    have "feeds c (take ?n data @ drop ?n data)" "length (take ?n data) = ?n" using less.prems False by (auto simp: min_def)
    from recv_feeds [OF this] obtain c1 where c1: "recv ?n c = (of_nat ?n, take ?n data, c1)"
        "feeds c1 (drop ?n data)" "same_out c c1" by blast
    have ns: "(of_nat ?n :: size_t) \<noteq> 0" "(of_nat ?n :: size_t) \<noteq> -1"
      using of_nat_not_special [of ?n] left by simp_all
    have "length (take ?n data) = ?n" using False by (auto simp: min_def)
    then have "put_loop left written c = put_loop (left - ?n) (written @ take ?n data) c1"
      using left c1(1) ns by (subst put_loop.simps) (simp del: length_take)
    moreover have "left - ?n < left" "length (drop ?n data) < left - ?n" using left less.prems(2) False by auto
    ultimately show ?thesis
      using less.IH [OF _ c1(2), of "left - ?n" "written @ take ?n data"] same_out_trans [OF c1(3)] by metis
  qed
qed

lemma get_loop_out: "outgoing (get_loop data c) = outgoing c @ data \<and> closed (get_loop data c) = closed c"
proof (induction data c rule: get_loop.induct)
  case (1 data c)
  show ?case
  proof (cases "data = []")
    case False
    then show ?thesis using 1 by (subst (1 2) get_loop.simps) simp
  qed (simp add: get_loop.simps)
qed

text \<open>The listing: the names with a newline between each two.\<close>

fun listing :: "string list \<Rightarrow> string" where
  "listing [] = []"
| "listing [n] = n"
| "listing (n # ns) = n @ newline # listing ns"

lemma send_names_out:
  "length ns < 2 ^ 63 \<Longrightarrow> ns \<noteq> [] \<Longrightarrow>
     outgoing (send_names (of_nat (length ns) - 1) ns c) = outgoing c @ listing ns
     \<and> closed (send_names (of_nat (length ns) - 1) ns c) = closed c"
proof (induction ns arbitrary: c)
  case (Cons n ns)
  show ?case
  proof (cases ns)
    case Nil
    then show ?thesis by simp
  next
    case (Cons m ms)
    have "unat (of_nat (length ns) :: size_t) = length ns" using Cons.prems(1) by (subst unat_of_nat) simp
    then have "(of_nat (length ns) :: size_t) \<noteq> 0" using Cons by auto
    then have "0 < (of_nat (length ns) :: size_t)" by (simp add: word_gt_0)
    then have "send_names (of_nat (length (n # ns)) - 1) (n # ns) c
        = send_names (of_nat (length ns) - 1) ns (send [newline] (send n c))" by simp
    then show ?thesis using Cons.IH [of "send [newline] (send n c)"] Cons.prems(1) Cons by simp
  qed
qed simp

lemma list_size_eq:
  "ns \<noteq> [] \<Longrightarrow> sum_list (map (\<lambda>n. of_nat (length n) + 1) ns) - 1 = (of_nat (length (listing ns)) :: size_t)"
  by (induction ns rule: listing.induct) (auto simp: algebra_simps)

section \<open>Properties\<close>

lemma serve_put_ok:
  assumes "feeds c (request_line PUT name @ enc_size (of_nat (length data)) @ data)" and "name_ok name"
    and "length data < 2 ^ 63"
  shows "\<exists>c'. serve ms s c = Inr (s\<lparr>dir := (dir s)(name \<mapsto> data), files := files s @ [name]\<rparr>, c')
           \<and> outgoing c' = outgoing c \<and> closed c'"
proof -
  from process_header_ok [OF assms(1,2) _ refl] obtain c1 where h:
    "process_header c = Inr (True, \<lparr>cmd = PUT, file_name = Some name, file_size = of_nat (length data)\<rparr>, c1)"
    "feeds c1 data" "same_out c c1" by auto
  have u: "unat (of_nat (length data) :: size_t) = length data" using assms(3) by (subst unat_of_nat) simp
  from put_loop_ok [OF h(2) order_refl, of "[]"] obtain c2 where p: "put_loop (length data) [] c1 = Inr (Some data, c2)"
      "feeds c2 []" "same_out c1 c2" by auto
  from recv_short [OF p(2), of 1] obtain c3 where r: "recv 1 c2 = (0, [], c3)" "same_out c2 c3" by auto
  show ?thesis
    using h p r u by (simp add: serve_def server_put_def same_out_def)
qed

lemma serve_get_ok:
  assumes "feeds c (request_line GET name @ rest)" and "name_ok name" and "name \<in> set (files s)"
    and "dir s name = Some data"
  shows "\<exists>c'. serve ms s c = Inr (s, c')
           \<and> outgoing c' = outgoing c @ ''OK'' @ [newline] @ enc_size (of_nat (length data)) @ data \<and> closed c'"
proof -
  from process_header_ok [OF assms(1,2)] obtain c1 where
    "process_header c = Inr (True, \<lparr>cmd = GET, file_name = Some name, file_size = 0\<rparr>, c1)" "same_out c c1" by auto
  then show ?thesis
    using assms(3,4) get_loop_out by (simp add: serve_def server_get_def same_out_def)
qed

text \<open>
  What a client puts under a name is what any later client gets: however the two requests arrive in
  pieces, the file is stored under its name, and the answer to the get is \<open>OK\<close>, the size and the same bytes.
\<close>

theorem server_put_then_get:
  assumes "feeds c1 (request_line PUT name @ enc_size (of_nat (length data)) @ data)" and "name_ok name"
    and "length data < 2 ^ 63" and "feeds c2 (request_line GET name)" and "outgoing c2 = []"
  shows "\<exists>s' c1' c2'. serve ms s c1 = Inr (s', c1') \<and> dir s' = (dir s)(name \<mapsto> data) \<and> closed c1'
           \<and> serve ms s' c2 = Inr (s', c2')
           \<and> outgoing c2' = ''OK'' @ [newline] @ enc_size (of_nat (length data)) @ data \<and> closed c2'"
proof -
  let ?s = "s\<lparr>dir := (dir s)(name \<mapsto> data), files := files s @ [name]\<rparr>"
  from serve_put_ok [OF assms(1-3)] obtain c1' where "serve ms s c1 = Inr (?s, c1')" "closed c1'" by blast
  moreover have "name \<in> set (files ?s)" "dir ?s name = Some data" by simp_all
  from serve_get_ok [of c2 name "[]" ?s data ms, OF _ assms(2) this] assms(4,5) obtain c2' where
    "serve ms ?s c2 = Inr (?s, c2')" "closed c2'"
    "outgoing c2' = ''OK'' @ [newline] @ enc_size (of_nat (length data)) @ data" by auto
  ultimately show ?thesis by fastforce
qed

definition empty_server :: server where
  "empty_server = \<lparr>files = [], dir = Map.empty\<rparr>"

definition script :: "read_event list \<Rightarrow> conn" where
  "script es = \<lparr>incoming = es, outgoing = [], closed = False\<rparr>"

theorem server_put_then_get_witness:
  "\<forall>ms. \<exists>s' c1' c2'. serve ms empty_server
        (script [Got ''PU'', ReadIntr, Got (''T a'' @ [newline]), Got (enc_size 2 @ ''h''), Got ''i'']) = Inr (s', c1')
     \<and> serve ms s' (script [Got (''GET a'' @ [newline])]) = Inr (s', c2')
     \<and> outgoing c2' = ''OK'' @ [newline] @ enc_size 2 @ ''hi''"
    (is "\<forall>ms. ?P ms")
proof
  fix ms
  let ?c1 = "script [Got ''PU'', ReadIntr, Got (''T a'' @ [newline]), Got (enc_size 2 @ ''h''), Got ''i'']"
  let ?c2 = "script [Got (''GET a'' @ [newline])]"
  have two: "of_nat (length ''hi'') = (2 :: size_t)" by simp
  have "feeds ?c1 (request_line PUT ''a'' @ enc_size (of_nat (length ''hi'')) @ ''hi'')"
    unfolding two by (simp add: feeds_def script_def request_line_def)
  moreover have "name_ok ''a''" by (simp add: name_ok_def NUL_def)
  moreover have "length ''hi'' < 2 ^ 63" by simp
  moreover have "feeds ?c2 (request_line GET ''a'')" "outgoing ?c2 = []"
    by (simp_all add: feeds_def script_def request_line_def)
  ultimately have "\<exists>s' c1' c2'. serve ms empty_server ?c1 = Inr (s', c1') \<and> dir s' = (dir empty_server)(''a'' \<mapsto> ''hi'')
     \<and> closed c1' \<and> serve ms s' ?c2 = Inr (s', c2')
     \<and> outgoing c2' = ''OK'' @ [newline] @ enc_size (of_nat (length ''hi'')) @ ''hi'' \<and> closed c2'"
    by (rule server_put_then_get)
  then show "?P ms" unfolding two by auto
qed

text \<open>
  A put whose data are shorter or longer than the size it announced is refused: the answer is the error, the
  list of names is unchanged and the directory has no file of that name, not even one that was there before.
\<close>

theorem server_put_wrong_size:
  assumes "feeds c (request_line PUT name @ enc_size n @ data)" and "name_ok name" and "unat n \<noteq> length data"
  shows "\<exists>c'. serve ms s c = Inr (s\<lparr>dir := (dir s)(name := None)\<rparr>, c')
           \<and> outgoing c' = outgoing c @ ''ERROR'' @ [newline] @ err_bad_file_size ms \<and> closed c'"
proof -
  from process_header_ok [OF assms(1,2) _ refl] obtain c1 where h:
    "process_header c = Inr (True, \<lparr>cmd = PUT, file_name = Some name, file_size = n\<rparr>, c1)"
    "feeds c1 data" "same_out c c1" by auto
  show ?thesis
  proof (cases "length data < unat n")
    case True
    from put_loop_short [OF h(2) this, of "[]"] obtain c2 where "put_loop (unat n) [] c1 = Inr (None, c2)" "same_out c1 c2"
      by auto
    then show ?thesis using h by (simp add: serve_def server_put_def same_out_def)
  next
    case False
    then have le: "unat n \<le> length data" by simp
    from put_loop_ok [OF h(2) le, of "[]"] obtain c2 where p:
      "put_loop (unat n) [] c1 = Inr (Some (take (unat n) data), c2)" "feeds c2 (drop (unat n) data)" "same_out c1 c2"
      by auto
    obtain b bs where "drop (unat n) data = b # bs" using False assms(3) by (cases "drop (unat n) data") auto
    then have "feeds c2 ([b] @ bs)" using p(2) by simp
    from recv_feeds [OF this, of 1] obtain c3 where "recv 1 c2 = (1, [b], c3)" "same_out c2 c3" by auto
    then show ?thesis using h p by (simp add: serve_def server_put_def same_out_def)
  qed
qed

theorem server_put_wrong_size_witness:
  "\<forall>ms. \<exists>c'. serve ms empty_server (script [Got (''PUT a'' @ newline # enc_size 3 @ ''hi'')])
      = Inr (empty_server\<lparr>dir := Map.empty(''a'' := None)\<rparr>, c')
    \<and> outgoing c' = ''ERROR'' @ [newline] @ err_bad_file_size ms"
    (is "\<forall>ms. ?P ms")
proof
  fix ms
  let ?c = "script [Got (''PUT a'' @ newline # enc_size 3 @ ''hi'')]"
  have "feeds ?c (request_line PUT ''a'' @ enc_size 3 @ ''hi'')" "name_ok ''a''" "unat (3 :: size_t) \<noteq> length ''hi''"
    by (simp_all add: feeds_def script_def request_line_def name_ok_def NUL_def)
  from server_put_wrong_size [OF this, of ms empty_server] show "?P ms"
    by (auto simp: empty_server_def script_def)
qed

text \<open>
  The answer to a list is \<open>OK\<close>, the length of the listing and the names with a newline between
  each two, nothing when there is no file.
\<close>

theorem server_list_correct:
  assumes "feeds c (request_line LIST name @ rest)" and "length (files s) < 2 ^ 63"
  shows "\<exists>c'. serve ms s c = Inr (s, c') \<and> closed c'
           \<and> outgoing c' = outgoing c @ ''OK'' @ [newline]
                @ enc_size (of_nat (length (listing (files s)))) @ listing (files s)"
proof -
  have "feeds c (request_line LIST [] @ rest)" "name_ok []"
    using assms(1) by (simp_all add: request_line_def name_ok_def)
  from process_header_ok [OF this] obtain c1 where
    "process_header c = Inr (True, \<lparr>cmd = LIST, file_name = Some ''T'', file_size = 0\<rparr>, c1)" "same_out c c1" by auto
  then show ?thesis
    using send_names_out [of "files s"] list_size_eq [of "files s"] assms(2)
    by (cases "files s = []") (simp_all add: serve_def server_list_def same_out_def)
qed

theorem server_list_correct_witness:
  "\<forall>ms. \<exists>c'. serve ms \<lparr>files = [''a'', ''b''], dir = Map.empty\<rparr> (script [Got ''LI'', Got (''ST'' @ [newline])])
       = Inr (\<lparr>files = [''a'', ''b''], dir = Map.empty\<rparr>, c')
    \<and> outgoing c' = ''OK'' @ [newline] @ enc_size 3 @ ''a'' @ [newline] @ ''b''"
    (is "\<forall>ms. ?P ms")
proof
  fix ms
  let ?c = "script [Got ''LI'', Got (''ST'' @ [newline])]"
  have "feeds ?c (request_line LIST [] @ [])" "length (files \<lparr>files = [''a'', ''b''], dir = Map.empty\<rparr>) < 2 ^ 63"
    by (simp_all add: feeds_def script_def request_line_def)
  from server_list_correct [OF this, of ms] show "?P ms" by (auto simp: script_def)
qed

text \<open>
  A name put twice is listed twice, so deleting it leaves it in the list without its file; a get of
  it then reads the size of a file that is not there.
\<close>

theorem server_put_twice_delete:
  assumes "name_ok name" and "files s = [name, name]" and "feeds c (request_line DELETE name)"
    and "feeds c2 (request_line GET name)"
  shows "\<exists>s' c'. serve ms s c = Inr (s', c') \<and> files s' = [name] \<and> dir s' name = None
           \<and> serve ms s' c2 = Inl Uninitialised"
proof -
  from process_header_ok [of c DELETE name "[]"] assms(1,3) obtain c1 where h:
    "process_header c = Inr (True, \<lparr>cmd = DELETE, file_name = Some name, file_size = 0\<rparr>, c1)" by auto
  from process_header_ok [of c2 GET name "[]"] assms(1,4) obtain c3 where g:
    "process_header c2 = Inr (True, \<lparr>cmd = GET, file_name = Some name, file_size = 0\<rparr>, c3)" by auto
  let ?s = "s\<lparr>dir := (dir s)(name := None), files := [name]\<rparr>"
  have "\<exists>c'. serve ms s c = Inr (?s, c')" using h assms(2) by (simp add: serve_def server_delete_def)
  moreover have "serve ms ?s c2 = Inl Uninitialised" using g by (simp add: serve_def server_get_def)
  ultimately show ?thesis by fastforce
qed

theorem server_put_twice_delete_witness:
  "\<forall>ms. \<exists>s' c'. serve ms \<lparr>files = [''a'', ''a''], dir = [''a'' \<mapsto> ''hi'']\<rparr> (script [Got (''DELETE a'' @ [newline])]) = Inr (s', c')
     \<and> serve ms s' (script [Got (''GET a'' @ [newline])]) = Inl Uninitialised"
    (is "\<forall>ms. ?P ms")
proof
  fix ms
  have "name_ok ''a''" "files \<lparr>files = [''a'', ''a''], dir = [''a'' \<mapsto> ''hi'']\<rparr> = [''a'', ''a'']"
    "feeds (script [Got (''DELETE a'' @ [newline])]) (request_line DELETE ''a'')"
    "feeds (script [Got (''GET a'' @ [newline])]) (request_line GET ''a'')"
    by (simp_all add: name_ok_def NUL_def feeds_def script_def request_line_def)
  from server_put_twice_delete [OF this, of ms] show "?P ms" by blast
qed

text \<open>
  Every file of the directory is listed, whatever a connection does.
\<close>

definition listed :: "server \<Rightarrow> bool" where
  "listed s \<longleftrightarrow> (\<forall>n. dir s n \<noteq> None \<longrightarrow> n \<in> set (files s))"

lemma server_delete_listed: "server_delete ms name s c = (b, s', c') \<Longrightarrow> listed s \<Longrightarrow> listed s'"
  by (auto simp: server_delete_def listed_def in_set_remove1 split: if_splits)

lemma server_put_listed:
  assumes "server_put ms name sz s c = Inr (b, s', c')" and "listed s"
  shows "listed s'"
proof -
  obtain content c1 where l: "put_loop (unat sz) [] c = Inr (content, c1)"
    using assms(1) by (auto simp: server_put_def bindE_eq_Inr_iff)
  obtain actual bs c2 where r: "recv 1 c1 = (actual, bs, c2)" by (cases "recv 1 c1")
  have "s' = s\<lparr>dir := (dir s)(name := None)\<rparr> \<or> (\<exists>data. s' = s\<lparr>dir := (dir s)(name \<mapsto> data), files := files s @ [name]\<rparr>)"
    using assms(1) l r by (auto simp: server_put_def split: option.splits if_splits)
  then show ?thesis using assms(2) by (auto simp: listed_def split: if_splits)
qed

lemma serve_listed:
  assumes "serve ms s c = Inr (s', c')" and "listed s"
  shows "listed s'"
proof -
  obtain ok stuff c1 where h: "process_header c = Inr (ok, stuff, c1)"
    using assms(1) by (auto simp: serve_def bindE_eq_Inr_iff)
  show ?thesis
  proof (cases "\<not> ok")
    case True
    then show ?thesis using assms h by (auto simp: serve_def split: if_splits)
  next
    case False
    then show ?thesis
      using assms h server_delete_listed server_put_listed
      by (cases "cmd stuff") (fastforce simp: serve_def bindE_eq_Inr_iff split: prod.splits)+
  qed
qed

lemma run_server_listed: "run_server ms s cs = Inr (s', cs') \<Longrightarrow> listed s \<Longrightarrow> listed s'"
proof (induction cs arbitrary: s cs')
  case (Cons c cs)
  then obtain s1 c1 cs1 where "serve ms s c = Inr (s1, c1)" "run_server ms s1 cs = Inr (s', cs1)"
    by (auto simp: bindE_eq_Inr_iff)
  then show ?case using Cons.IH Cons.prems(2) serve_listed by blast
qed simp

lemma fold_unlink: "dom (fold (\<lambda>n d. d(n := None)) ns d) = dom d - set ns"
  by (induction ns arbitrary: d) auto

text \<open>
  Whatever the connections send, in whatever pieces and with whatever errors, a server that started with an
  empty directory lists every file it has, and closing it leaves the directory empty.
\<close>

theorem server_close_leaves_nothing:
  assumes "run_server ms empty_server cs = Inr (s, cs')"
  shows "dom (dir s) \<subseteq> set (files s) \<and> dir (close_server s) = Map.empty"
proof -
  have "dom (dir s) \<subseteq> set (files s)"
    using run_server_listed [OF assms] by (auto simp: empty_server_def listed_def)
  moreover from this have "dom (dir (close_server s)) = {}" by (auto simp: close_server_def fold_unlink)
  ultimately show ?thesis by simp
qed

theorem server_close_leaves_nothing_witness:
  "\<forall>ms. \<exists>s cs'. run_server ms empty_server [script [Got (''PUT a'' @ newline # enc_size 2 @ ''hi'')]] = Inr (s, cs')
     \<and> dir s = [''a'' \<mapsto> ''hi''] \<and> dir (close_server s) = Map.empty"
    (is "\<forall>ms. ?P ms")
proof
  fix ms
  let ?c = "script [Got (''PUT a'' @ newline # enc_size 2 @ ''hi'')]"
  have two: "of_nat (length ''hi'') = (2 :: size_t)" by simp
  have "feeds ?c (request_line PUT ''a'' @ enc_size (of_nat (length ''hi'')) @ ''hi'')" "name_ok ''a''" "length ''hi'' < 2 ^ 63"
    unfolding two by (simp_all add: feeds_def script_def request_line_def name_ok_def NUL_def)
  from serve_put_ok [OF this, of ms empty_server] obtain c' where
    "serve ms empty_server ?c = Inr (\<lparr>files = [''a''], dir = [''a'' \<mapsto> ''hi'']\<rparr>, c')" by (auto simp: empty_server_def)
  then have r: "run_server ms empty_server [?c] = Inr (\<lparr>files = [''a''], dir = [''a'' \<mapsto> ''hi'']\<rparr>, [c'])" by simp
  show "?P ms" using r server_close_leaves_nothing [OF r] by auto
qed

end
