(* ===== verification/NonstopClient.thy ===== *)
theory NonstopClient
  imports NonstopServer CamelCaser
begin

text \<open>
  \<^verbatim>\<open>nonstop_networking/client.c\<close>: the command line, the requests and what the client does with
  the answer, over the same scripted sockets as the server. The buffer \<^verbatim>\<open>buf\<close> is the list of its cells, so
  writing and reading past its end are faults. Printing is recorded. The loops that read and write are the text of the chat
  room's.
\<close>

section \<open>The command line\<close>

text \<open>\<^verbatim>\<open>strtok\<close> at colons: the next token and what is left.\<close>

definition strtok_colon :: "string \<Rightarrow> (string \<times> string) option" where
  "strtok_colon s =
     (let t = dropWhile (\<lambda>c. c = CHR '':'') s; tok = takeWhile (\<lambda>c. c \<noteq> CHR '':'') t in
      if t = [] then None else Some (tok, drop (Suc (length tok)) t))"

record client_args =
  host :: string
  port :: string
  http_method :: string
  remote :: "string option"
  local_name :: "string option"

definition parse_args :: "string list \<Rightarrow> client_args option" where
  "parse_args argv =
     (if length argv < 3 then None
      else case strtok_colon (argv ! 1) of
        None \<Rightarrow> None
      | Some (h, rest) \<Rightarrow>
          (case strtok_colon rest of
             None \<Rightarrow> None
           | Some (p, _) \<Rightarrow>
               Some \<lparr>host = h, port = p, http_method = map toupper (argv ! 2),
                     remote = (if 3 < length argv then Some (argv ! 3) else None),
                     local_name = (if 4 < length argv then Some (argv ! 4) else None)\<rparr>))"

definition check_args :: "client_args option \<Rightarrow> verb res" where
  "check_args args =
     (case args of None \<Rightarrow> Inl (ProcessExit 1)
      | Some a \<Rightarrow>
          if http_method a = ''LIST'' then Inr LIST
          else if http_method a = ''GET''
          then if remote a \<noteq> None \<and> local_name a \<noteq> None then Inr GET else Inl (ProcessExit 1)
          else if http_method a = ''DELETE''
          then if remote a \<noteq> None then Inr DELETE else Inl (ProcessExit 1)
          else if http_method a = ''PUT''
          then if remote a = None \<or> local_name a = None then Inl (ProcessExit 1) else Inr PUT
          else Inl (ProcessExit 1))"

definition message :: "verb \<Rightarrow> string \<Rightarrow> string" where
  "message command rem =
     (case command of GET \<Rightarrow> ''GET '' @ rem @ [newline]
      | PUT \<Rightarrow> ''PUT '' @ rem @ [newline]
      | DELETE \<Rightarrow> ''DELETE '' @ rem @ [newline]
      | _ \<Rightarrow> ''LIST'' @ [newline])"

section \<open>The client's state\<close>

datatype report = Success | ErrorMessage string | InvalidResponse | Printed string | TooLittle | TooMuch

record client =
  buf :: string
  answer :: "read_event list"
  sent :: string
  outputs :: "report list"
  local_file :: "string option"

definition client_start :: "verb \<Rightarrow> string \<Rightarrow> read_event list \<Rightarrow> string option \<Rightarrow> client" where
  "client_start v rem es file = \<lparr>buf = message v rem @ [NUL], answer = es, sent = [], outputs = [], local_file = file\<rparr>"

definition put_out :: "report \<Rightarrow> client \<Rightarrow> client" where
  "put_out x k = k\<lparr>outputs := outputs k @ [x]\<rparr>"

definition client_read_all :: "nat \<Rightarrow> client \<Rightarrow> (int \<times> string \<times> client) res" where
  "client_read_all n k = bindE (chat_read_all n (answer k)) (\<lambda>(r, bs, es). Inr (r, bs, k\<lparr>answer := es\<rparr>))"

definition client_write_all :: "string \<Rightarrow> client \<Rightarrow> client res" where
  "client_write_all bs k = bindE (chat_write_all bs []) (\<lambda>(r, out). Inr (k\<lparr>sent := sent k @ out\<rparr>))"

text \<open>Bytes that arrive at an offset of the buffer; the whole C string in it; \<^verbatim>\<open>strcmp\<close> for equality.\<close>

definition store :: "nat \<Rightarrow> string \<Rightarrow> client \<Rightarrow> client res" where
  "store off bs k =
     (if off + length bs \<le> length (buf k)
      then Inr (k\<lparr>buf := take off (buf k) @ bs @ drop (off + length bs) (buf k)\<rparr>) else Inl OutOfBounds)"

definition buf_string :: "client \<Rightarrow> string res" where
  "buf_string k = bindE (scan_nul (buf k)) (\<lambda>n. Inr (take n (buf k)))"

fun strcmp_eq :: "string \<Rightarrow> string \<Rightarrow> bool res" where
  "strcmp_eq [] cs = Inl OutOfBounds"
| "strcmp_eq (b # bs) [] = Inr (b = NUL)"
| "strcmp_eq (b # bs) (c # cs) = (if b = c then strcmp_eq bs cs else Inr False)"

section \<open>The commands\<close>

definition read_into :: "nat \<Rightarrow> nat \<Rightarrow> client \<Rightarrow> client res" where
  "read_into off n k = bindE (client_read_all n k) (\<lambda>(r, bs, k'). store off bs k')"

definition check_error :: "client \<Rightarrow> client res" where
  "check_error k =
     bindE (read_into 3 3 k) (\<lambda>k1.
     bindE (buf_string k1) (\<lambda>s.
     bindE (strcmp_eq (buf k1) (''ERROR'' @ [newline])) (\<lambda>err.
       if err
       then bindE (read_into 0 1024 (put_out (Printed s) k1)) (\<lambda>k2.
            bindE (buf_string k2) (\<lambda>m. Inr (put_out (ErrorMessage m) k2)))
       else Inr (put_out InvalidResponse (put_out (Printed s) k1)))))"

text \<open>The request is sent, the buffer cleared and the first three bytes of the answer read.\<close>

definition clear_buf :: "client \<Rightarrow> client res" where
  "clear_buf k = bindE (scan_nul (buf k)) (\<lambda>n. Inr (k\<lparr>buf := replicate n NUL @ drop n (buf k)\<rparr>))"

definition send_request :: "client \<Rightarrow> client res" where
  "send_request k = bindE (buf_string k) (\<lambda>s. client_write_all s k)"

definition read_status :: "client \<Rightarrow> (bool \<times> client) res" where
  "read_status k =
     bindE (clear_buf k) (\<lambda>k1.
     bindE (read_into 0 3 k1) (\<lambda>k2.
     bindE (strcmp_eq (buf k2) (''OK'' @ [newline])) (\<lambda>ok. Inr (ok, k2))))"

definition client_message_size :: "client \<Rightarrow> (size_t \<times> client) res" where
  "client_message_size k =
     bindE (client_read_all 8 k) (\<lambda>(r, bs, k').
       Inr (if r = 0 \<or> r = -1 then of_int r else dec_size bs, k'))"

definition client_delete :: "client \<Rightarrow> client res" where
  "client_delete k =
     bindE (send_request k) (\<lambda>k1.
     bindE (read_status k1) (\<lambda>(ok, k2).
       if ok then Inr (put_out Success k2) else check_error k2))"

text \<open>\<open>jk\<close> is what the cells that \<^verbatim>\<open>realloc\<close> adds hold.\<close>

definition client_list :: "(nat \<Rightarrow> char) \<Rightarrow> client \<Rightarrow> client res" where
  "client_list jk k =
     bindE (send_request k) (\<lambda>k1.
     bindE (read_status k1) (\<lambda>(ok, k2).
       if ok
       then bindE (client_message_size k2) (\<lambda>(sz, k3).
            if sz \<noteq> 0
            then let n = unat sz; b = take n (buf k3) @ map jk [length (buf k3)..<n] in
                 bindE (read_into 0 n (k3\<lparr>buf := b\<rparr>)) (\<lambda>k4.
                 bindE (buf_string k4) (\<lambda>s. Inr (put_out (Printed (s @ [newline])) k4)))
            else Inr k3)
       else check_error k2))"

definition client_get :: "client \<Rightarrow> client res" where
  "client_get k =
     bindE (send_request k) (\<lambda>k1.
     bindE (read_status k1) (\<lambda>(ok, k2).
       if ok
       then bindE (client_message_size k2) (\<lambda>(sz, k3).
            bindE (client_read_all (unat sz) (k3\<lparr>buf := replicate (unat (sz + 1)) NUL\<rparr>)) (\<lambda>(actual, bs, k4).
            bindE (store 0 bs k4) (\<lambda>k5.
            let k6 = (if (of_int actual :: size_t) < sz then put_out TooLittle k5 else k5) in
            bindE (client_read_all 1 k6) (\<lambda>(actual', _, k7).
              if (of_int actual' :: size_t) \<noteq> 0 then Inr (put_out TooMuch k7)
              else bindE (buf_string k7) (\<lambda>s. Inr (k7\<lparr>local_file := Some s\<rparr>))))))
       else check_error k2))"

text \<open>Without the local file, \<^verbatim>\<open>read_file\<close> closes a null stream.\<close>

definition client_put :: "client \<Rightarrow> client res" where
  "client_put k =
     (case local_file k of
        None \<Rightarrow> Inl NullDeref
      | Some content \<Rightarrow>
          bindE (send_request k) (\<lambda>k1.
          bindE (client_write_all (enc_size (of_nat (length content))) k1) (\<lambda>k2.
          bindE (client_write_all content k2) (\<lambda>k3.
          bindE (read_status k3) (\<lambda>(ok, k4).
            if ok then Inr (put_out Success k4) else check_error k4)))))"

section \<open>What the pieces do\<close>

lemma message_request_line: "v \<noteq> V_UNKNOWN \<Longrightarrow> message v name = request_line v name"
  by (cases v) (simp_all add: message_def request_line_def)

lemma message_not_empty [simp]: "message v name \<noteq> []"
  by (cases v) (simp_all add: message_def)

lemma message_no_NUL: "NUL \<notin> set name \<Longrightarrow> NUL \<notin> set (message v name)"
  by (cases v) (auto simp: message_def NUL_def)

lemma length_message: "5 \<le> length (message v name)"
  by (cases v) (simp_all add: message_def)

lemma send_request_ok:
  assumes "buf k = m @ [NUL]" and "NUL \<notin> set m" and "m \<noteq> []"
  shows "send_request k = Inr (k\<lparr>sent := sent k @ m\<rparr>)"
  using assms chat_write_all_patient [OF assms(3), of "[]"]
  by (simp add: send_request_def buf_string_def client_write_all_def)

lemma client_read_all_ok:
  assumes "patient (answer k)" and "stream (answer k) = bs @ rest" and "0 < length bs"
  shows "\<exists>es. client_read_all (length bs) k = Inr (int (length bs), bs, k\<lparr>answer := es\<rparr>)
    \<and> patient es \<and> stream es = rest"
  using chat_read_all_patient [OF assms(1), of "length bs"] assms(2,3) by (auto simp: client_read_all_def)

lemma client_read_all_short:
  assumes "patient (answer k)" and "length (stream (answer k)) < n"
  shows "client_read_all n k = Inr (0, stream (answer k), k\<lparr>answer := []\<rparr>)"
  using chat_read_loop_clean [OF assms(1), of "[]" n] assms(2) by (simp add: client_read_all_def chat_read_all_def)

lemma clear_buf_ok:
  assumes "buf k = m @ [NUL]" and "NUL \<notin> set m"
  shows "clear_buf k = Inr (k\<lparr>buf := replicate (length m + 1) NUL\<rparr>)"
  using assms by (simp add: clear_buf_def replicate_append_same)

lemma strcmp_zeros: "0 < n \<Longrightarrow> c \<noteq> NUL \<Longrightarrow> strcmp_eq (replicate n NUL) (c # cs) = Inr False"
  by (cases n) auto

lemma letters_not_NUL [simp]: "CHR ''O'' \<noteq> NUL" "CHR ''E'' \<noteq> NUL" "CHR ''R'' \<noteq> NUL" "CHR ''K'' \<noteq> NUL"
  "CHR 0x0A \<noteq> NUL" "NUL \<noteq> CHR ''O''" "NUL \<noteq> CHR ''E''"
  by (simp_all add: NUL_def)

text \<open>The answer is empty; or it begins with \<open>OK\<close>.\<close>

lemma read_status_empty:
  assumes "buf k = m @ [NUL]" and "NUL \<notin> set m" and "patient (answer k)" and "stream (answer k) = []"
  shows "read_status k = Inr (False, k\<lparr>buf := replicate (length m + 1) NUL, answer := []\<rparr>)"
  using assms clear_buf_ok [OF assms(1,2)]
  by (simp add: read_status_def read_into_def client_read_all_short store_def strcmp_zeros)

lemma read_status_OK:
  assumes "buf k = m @ [NUL]" and "NUL \<notin> set m" and "length m = 3 + n"
    and "patient (answer k)" and "stream (answer k) = ''OK'' @ [newline] @ rest"
  shows "\<exists>es. read_status k = Inr (True, k\<lparr>buf := ''OK'' @ [newline] @ replicate (Suc n) NUL, answer := es\<rparr>)
    \<and> patient es \<and> stream es = rest"
proof -
  let ?k = "k\<lparr>buf := replicate (length m + 1) NUL\<rparr>"
  have "stream (answer ?k) = (''OK'' @ [newline]) @ rest" "0 < length (''OK'' @ [newline])" using assms(5) by simp_all
  from client_read_all_ok [OF _ this] assms(4) obtain es where es:
    "client_read_all 3 ?k = Inr (3, (''OK'' @ [newline]), ?k\<lparr>answer := es\<rparr>)" "patient es" "stream es = rest"
    by (auto simp: numeral_eq_Suc)
  have len: "length (''OK'' @ [newline]) = 3" by simp
  have drop3: "drop (0 + 3) (replicate (length m + 1) NUL) = replicate (Suc n) NUL" using assms(3) by simp
  have "store 0 (''OK'' @ [newline]) (?k\<lparr>answer := es\<rparr>)
      = Inr (k\<lparr>buf := ''OK'' @ [newline] @ replicate (Suc n) NUL, answer := es\<rparr>)"
    using assms(3) unfolding store_def len by (simp add: numeral_eq_Suc)
  then have "read_into 0 3 ?k = Inr (k\<lparr>buf := ''OK'' @ [newline] @ replicate (Suc n) NUL, answer := es\<rparr>)"
    using es(1) by (simp add: read_into_def)
  then have "read_status k = Inr (True, k\<lparr>buf := ''OK'' @ [newline] @ replicate (Suc n) NUL, answer := es\<rparr>)"
    using clear_buf_ok [OF assms(1,2)] by (simp add: read_status_def)
  then show ?thesis using es(2,3) by blast
qed

text \<open>No answer at all is reported as an invalid one.\<close>

lemma check_error_empty:
  assumes "buf k = replicate (3 + n) NUL" and "answer k = []"
  shows "check_error k = Inr (k\<lparr>outputs := outputs k @ [Printed [], InvalidResponse]\<rparr>)"
proof -
  have "client_read_all 3 k = Inr (0, [], k)"
    using client_read_all_short [of k 3] assms(2) by simp
  moreover have "take 3 (buf k) @ [] @ drop (3 + length []) (buf k) = buf k" by simp
  ultimately have "read_into 3 3 k = Inr k"
    using assms(1) by (simp add: read_into_def store_def)
  then show ?thesis
    using assms(1) by (simp add: check_error_def buf_string_def put_out_def numeral_eq_Suc)
qed

section \<open>Properties\<close>

lemma client_start_ok:
  assumes "NUL \<notin> set name" and "v \<noteq> V_UNKNOWN"
  shows "send_request (client_start v name es c) = Inr ((client_start v name es c)\<lparr>sent := request_line v name\<rparr>)"
  using send_request_ok [of "client_start v name es c" "message v name"] message_no_NUL [OF assms(1), of v]
    message_request_line [OF assms(2), of name] message_not_empty [of v name]
  by (simp add: client_start_def)

lemma message_3: obtains n where "length (message v name) = 3 + n"
  using le_Suc_ex [of 3 "length (message v name)"] length_message [of v name] by auto

lemma client_write_all_ok:
  "bs \<noteq> [] \<Longrightarrow> client_write_all bs k = Inr (k\<lparr>sent := sent k @ bs\<rparr>)"
  using chat_write_all_patient [of bs "[]"] by (simp add: client_write_all_def)

text \<open>
  The client sends a put as its request line, the size and the bytes of the file, and, as the server answers a
  successful put with nothing, reports an invalid response.
\<close>

theorem client_put_reports_invalid:
  assumes "NUL \<notin> set name" and "data \<noteq> []" and "patient es" and "stream es = []"
  shows "\<exists>k. client_put (client_start PUT name es (Some data)) = Inr k
           \<and> sent k = request_line PUT name @ enc_size (of_nat (length data)) @ data
           \<and> outputs k = [Printed [], InvalidResponse]"
proof -
  let ?m = "message PUT name" and ?d = "request_line PUT name @ enc_size (of_nat (length data)) @ data"
  let ?k = "(client_start PUT name es (Some data))\<lparr>sent := ?d\<rparr>"
  obtain n where n: "length ?m = 3 + n" by (rule message_3)
  have e: "enc_size (of_nat (length data)) \<noteq> []" by (metis length_enc_size list.size(3) zero_neq_numeral)
  have "read_status ?k = Inr (False, ?k\<lparr>buf := replicate (length ?m + 1) NUL, answer := []\<rparr>)"
    using assms message_no_NUL [OF assms(1)] by (intro read_status_empty) (simp_all add: client_start_def)
  moreover have "length ?m + 1 = 3 + Suc n" using n by simp
  ultimately have "client_put (client_start PUT name es (Some data))
      = check_error (?k\<lparr>buf := replicate (3 + Suc n) NUL, answer := []\<rparr>)"
    using client_start_ok [OF assms(1), of PUT es "Some data"] client_write_all_ok e assms(2)
    by (simp add: client_put_def client_start_def numeral_eq_Suc)
  also have "\<dots> = Inr (?k\<lparr>buf := replicate (3 + Suc n) NUL, answer := [], outputs := [Printed [], InvalidResponse]\<rparr>)"
    by (subst check_error_empty) (simp_all add: client_start_def)
  finally show ?thesis by (simp add: client_start_def)
qed

lemma client_get_stores:
  assumes "NUL \<notin> set name" and "data \<noteq> []" and "NUL \<notin> set data" and "length data < 2 ^ 63" and "patient es"
    and "stream es = ''OK'' @ [newline] @ enc_size (of_nat (length data)) @ data"
  shows "\<exists>k. client_get (client_start GET name es old) = Inr k \<and> sent k = request_line GET name
           \<and> local_file k = Some data \<and> outputs k = []"
proof -
  let ?m = "message GET name"
  let ?k = "(client_start GET name es old)\<lparr>sent := request_line GET name\<rparr>"
  let ?sz = "of_nat (length data) :: size_t"
  obtain n where n: "length ?m = 3 + n" by (rule message_3)
  have u: "unat ?sz = length data" "unat (?sz + 1) = Suc (length data)"
  proof -
    show "unat ?sz = length data" using assms(4) by (subst unat_of_nat) simp
    have "?sz + 1 = of_nat (Suc (length data))" by simp
    then show "unat (?sz + 1) = Suc (length data)" using assms(4) by (simp only:) (subst unat_of_nat, simp)
  qed
  have "\<exists>es1. read_status ?k = Inr (True, ?k\<lparr>buf := ''OK'' @ [newline] @ replicate (Suc n) NUL, answer := es1\<rparr>)
      \<and> patient es1 \<and> stream es1 = enc_size ?sz @ data"
    using assms(5,6) message_no_NUL [OF assms(1)] n by (intro read_status_OK [of ?k ?m]) (simp_all add: client_start_def)
  then obtain es1 where r: "read_status ?k = Inr (True, ?k\<lparr>buf := ''OK'' @ [newline] @ replicate (Suc n) NUL, answer := es1\<rparr>)"
    "patient es1" "stream es1 = enc_size ?sz @ data" by blast
  let ?k1 = "?k\<lparr>buf := ''OK'' @ [newline] @ replicate (Suc n) NUL, answer := es1\<rparr>"
  from client_read_all_ok [of ?k1 "enc_size ?sz" data] r obtain es2 where s:
    "client_message_size ?k1 = Inr (?sz, ?k1\<lparr>answer := es2\<rparr>)" "patient es2" "stream es2 = data"
    by (auto simp: client_message_size_def)
  let ?k2 = "?k1\<lparr>answer := es2, buf := replicate (Suc (length data)) NUL\<rparr>"
  from client_read_all_ok [of ?k2 data "[]"] s assms(2) obtain es3 where t:
    "client_read_all (length data) ?k2 = Inr (int (length data), data, ?k2\<lparr>answer := es3\<rparr>)" "patient es3" "stream es3 = []"
    by auto
  let ?k3 = "?k2\<lparr>answer := es3, buf := data @ [NUL]\<rparr>"
  have st: "store 0 data (?k2\<lparr>answer := es3\<rparr>) = Inr ?k3"
  proof -
    have "drop (length data) (replicate (Suc (length data)) NUL) = [NUL]" by (simp only: drop_replicate) simp
    then show ?thesis by (simp add: store_def del: replicate.simps)
  qed
  have z: "client_read_all 1 ?k3 = Inr (0, [], ?k3\<lparr>answer := []\<rparr>)"
    using client_read_all_short [of ?k3 1] t by simp
  show ?thesis
    using client_start_ok [OF assms(1), of GET es old] r(1) s(1) t(1) st z u assms(3)
    by (simp add: client_get_def buf_string_def client_start_def)
qed

text \<open>
  When the server answers a get with \<open>OK\<close>, the size and that many bytes, in whatever pieces, and closes,
  the client's local file holds those bytes, provided there is at least one and no zero byte among them.
\<close>

theorem client_get_correct:
  assumes "NUL \<notin> set name" and "data \<noteq> []" and "NUL \<notin> set data" and "length data < 2 ^ 63" and "patient es"
    and "stream es = ''OK'' @ [newline] @ enc_size (of_nat (length data)) @ data"
  shows "\<exists>k. client_get (client_start GET name es old) = Inr k \<and> sent k = request_line GET name
           \<and> local_file k = Some data \<and> outputs k = []"
  by (rule client_get_stores [OF assms])

theorem client_get_correct_witness:
  "\<exists>k. client_get (client_start GET ''a'' [Got ''O'', ReadIntr, Got (''K'' @ newline # enc_size 2), Got ''hi''] None) = Inr k
     \<and> local_file k = Some ''hi''"
proof -
  let ?es = "[Got ''O'', ReadIntr, Got (''K'' @ newline # enc_size 2), Got ''hi'']"
  have two: "of_nat (length ''hi'') = (2 :: size_t)" by simp
  have "NUL \<notin> set ''a''" "''hi'' \<noteq> []" "NUL \<notin> set ''hi''" "length ''hi'' < 2 ^ 63" "patient ?es"
    "stream ?es = ''OK'' @ [newline] @ enc_size (of_nat (length ''hi'')) @ ''hi''"
    unfolding two by (simp_all add: NUL_def)
  from client_get_correct [OF this, of None] show ?thesis by blast
qed

theorem client_put_reports_invalid_witness:
  "\<exists>k. client_put (client_start PUT ''a'' [ReadIntr] (Some ''hi'')) = Inr k
     \<and> sent k = ''PUT a'' @ [newline] @ enc_size 2 @ ''hi'' \<and> outputs k = [Printed [], InvalidResponse]"
proof -
  have two: "of_nat (length ''hi'') = (2 :: size_t)" by simp
  have "NUL \<notin> set ''a''" "''hi'' \<noteq> []" "patient [ReadIntr]" "stream [ReadIntr] = []" by (simp_all add: NUL_def)
  from client_put_reports_invalid [OF this] show ?thesis unfolding two by (simp add: request_line_def)
qed

text \<open>
  The answer to a list is printed as a string although it was read into a buffer of exactly its length: whenever the
  listing is not empty, the client reads past the end of the buffer.
\<close>

theorem client_list_overreads:
  assumes "patient es" and "stream es = ''OK'' @ [newline] @ enc_size (of_nat (length l)) @ l"
    and "l \<noteq> []" and "NUL \<notin> set l" and "length l < 2 ^ 63"
  shows "client_list jk (client_start LIST [] es None) = Inl OutOfBounds"
proof -
  let ?m = "message LIST []"
  let ?k = "(client_start LIST [] es None)\<lparr>sent := request_line LIST []\<rparr>"
  let ?sz = "of_nat (length l) :: size_t"
  obtain n where n: "length ?m = 3 + n" by (rule message_3)
  have u: "unat ?sz = length l" using assms(5) by (subst unat_of_nat) simp
  then have nz: "?sz \<noteq> 0" using assms(3) by auto
  have "\<exists>es1. read_status ?k = Inr (True, ?k\<lparr>buf := ''OK'' @ [newline] @ replicate (Suc n) NUL, answer := es1\<rparr>)
      \<and> patient es1 \<and> stream es1 = enc_size ?sz @ l"
    using assms(1,2) message_no_NUL [of "[]" LIST] n by (intro read_status_OK [of ?k ?m]) (simp_all add: client_start_def)
  then obtain es1 where r: "read_status ?k = Inr (True, ?k\<lparr>buf := ''OK'' @ [newline] @ replicate (Suc n) NUL, answer := es1\<rparr>)"
    "patient es1" "stream es1 = enc_size ?sz @ l" by blast
  let ?k1 = "?k\<lparr>buf := ''OK'' @ [newline] @ replicate (Suc n) NUL, answer := es1\<rparr>"
  from client_read_all_ok [of ?k1 "enc_size ?sz" l] r obtain es2 where s:
    "client_message_size ?k1 = Inr (?sz, ?k1\<lparr>answer := es2\<rparr>)" "patient es2" "stream es2 = l"
    by (auto simp: client_message_size_def)
  let ?b = "take (length l) (buf ?k1) @ map jk [length (buf ?k1)..<length l]"
  let ?k2 = "?k1\<lparr>answer := es2, buf := ?b\<rparr>"
  from client_read_all_ok [of ?k2 l "[]"] s assms(3) obtain es3 where t:
    "client_read_all (length l) ?k2 = Inr (int (length l), l, ?k2\<lparr>answer := es3\<rparr>)" by auto
  have lb: "length ?b = length l" by (simp only: length_append length_take length_map length_upt min_def) arith
  have st: "read_into 0 (length l) ?k2 = Inr (?k2\<lparr>answer := es3, buf := l\<rparr>)"
    using t lb by (simp add: read_into_def store_def del: length_append)
  show ?thesis
    using client_start_ok [of "[]" LIST es None] r(1) s(1) st u nz scan_nul_no_NUL [OF assms(4)]
    by (simp add: client_list_def buf_string_def Let_def)
qed

theorem client_list_overreads_witness:
  "client_list jk (client_start LIST [] [Got (''OK'' @ newline # enc_size 1 @ ''a'')] None) = Inl OutOfBounds"
proof -
  have one: "of_nat (length ''a'') = (1 :: size_t)" by simp
  have "patient [Got (''OK'' @ newline # enc_size 1 @ ''a'')]"
    "stream [Got (''OK'' @ newline # enc_size 1 @ ''a'')] = ''OK'' @ [newline] @ enc_size (of_nat (length ''a'')) @ ''a''"
    "''a'' \<noteq> []" "NUL \<notin> set ''a''" "length ''a'' < 2 ^ 63"
    unfolding one by (simp_all add: NUL_def)
  then show ?thesis by (rule client_list_overreads)
qed

end
