(* ===== verification/NonstopLoop.thy ===== *)
theory NonstopLoop
  imports NonstopServer Sockets
begin

text \<open>
  \<^verbatim>\<open>nonstop_networking/server.c\<close> as a process: \<^verbatim>\<open>main\<close>, the loop of \<^verbatim>\<open>run_server\<close> with its calls of \<^verbatim>\<open>accept\<close> and
  \<^verbatim>\<open>epoll_wait\<close>, the structures it allocates for its clients, and \<^verbatim>\<open>close_server\<close> as the handler of \<^verbatim>\<open>SIGINT\<close>. The
  environment chooses what the two calls return and when a signal comes (between the system calls of the loop, not while a
  request is answered). What one request does is \<open>serve\<close> of theory NonstopServer.
\<close>

section \<open>Files\<close>

text \<open>The loops on files are the text of the chat room's loops on sockets.\<close>

definition read_from_file :: "nat \<Rightarrow> read_event list \<Rightarrow> (int \<times> string \<times> read_event list) res" where
  "read_from_file n es = chat_read_all n es"

definition write_to_file :: "string \<Rightarrow> write_event list \<Rightarrow> (int \<times> string) res" where
  "write_to_file buffer ws = chat_write_all buffer ws"

definition get_file_path :: "string \<Rightarrow> string \<Rightarrow> string" where
  "get_file_path directory name = directory @ ''/'' @ name"

section \<open>The process\<close>

text \<open>\<open>Testing\<close>: at the head of the loop; the other phases name the call the process is in.\<close>

datatype loop_phase = Testing | Accepting | Polling | Stopped

record daemon =
  srv :: server
  alive :: bool          \<comment> \<open>the vector of names is not destroyed\<close>
  go :: bool
  phase :: loop_phase
  next_info :: nat
  infos :: "nat \<rightharpoonup> nat \<times> conn"     \<comment> \<open>the \<^verbatim>\<open>info\<close> structures not freed: descriptor and connection\<close>
  watched :: "nat list"  \<comment> \<open>the ones registered with \<^verbatim>\<open>epoll\<close>\<close>
  curr_event :: "nat option"
  open_fds :: "nat set"
  served :: "(nat \<times> conn \<times> conn) list"   \<comment> \<open>who was served, and its connection before and after\<close>
  dfault :: "fault option"

definition daemon_start :: "server \<Rightarrow> daemon" where
  "daemon_start s = \<lparr>srv = s, alive = True, go = True, phase = Testing, next_info = 0, infos = Map.empty, watched = [],
     curr_event = None, open_fds = {}, served = [], dfault = None\<rparr>"

definition server_main :: "outcomes \<Rightarrow> bool \<Rightarrow> string list \<Rightarrow> kernel \<Rightarrow> (nat \<times> daemon) res \<times> kernel" where
  "server_main oc handlers argv k =
     (if length argv \<noteq> 2 then (Inl (ProcessExit 255), k)
      else if \<not> handlers then (Inl (ProcessExit 1), k)
      else case start_socket oc (argv ! 1) 0 k of
        (Inl f, k') \<Rightarrow> (Inl f, k')
      | (Inr sfd, k') \<Rightarrow> (Inr (sfd, daemon_start \<lparr>files = [], dir = Map.empty\<rparr>), k'))"

section \<open>One request\<close>

text \<open>
  After \<^verbatim>\<open>close_server\<close> the vector is freed and the directory is gone: a PUT opens nothing, so writing a first piece
  is retried for ever, and the other commands read the freed vector.
\<close>

definition put_closed :: "messages \<Rightarrow> size_t \<Rightarrow> conn \<Rightarrow> conn res" where
  "put_closed ms sz c =
     (let refuse = (\<lambda>c. send (err_bad_file_size ms) (send (''ERROR'' @ [newline]) c)) in
      if sz = 0
      then let (actual, _, c1) = recv 1 c in if actual \<noteq> 0 then Inr (refuse c1) else Inl UseAfterFree
      else let (retval, _, c1) = recv (min 1024 (unat sz)) c in
           if retval = 0 then Inr (refuse c1)
           else if retval = -1 then Inl Uninitialised else Inl Diverges)"

definition serve_closed :: "messages \<Rightarrow> server \<Rightarrow> conn \<Rightarrow> (server \<times> conn) res" where
  "serve_closed ms s c =
     bindE (process_header c) (\<lambda>(ok, stuff, c1).
       if \<not> ok then serve ms s c
       else if cmd stuff = PUT then bindE (put_closed ms (file_size stuff) c1) (\<lambda>c2. Inr (s, c2\<lparr>closed := True\<rparr>))
       else Inl UseAfterFree)"

text \<open>The loop breaks on a command that is none of the four.\<close>

definition breaks :: "conn \<Rightarrow> bool" where
  "breaks c = (case process_header c of Inr (True, stuff, _) \<Rightarrow> cmd stuff = V_UNKNOWN | _ \<Rightarrow> False)"

text \<open>
  The end of a round for the structure \<open>i\<close>: the descriptor is deregistered and, unless the header was bad, closed; the
  structure is freed.
\<close>

definition finish_round :: "nat \<Rightarrow> nat \<Rightarrow> conn \<Rightarrow> server \<times> conn \<Rightarrow> daemon \<Rightarrow> daemon" where
  "finish_round i fd c r d =
     d\<lparr>srv := fst r, phase := (if breaks c then Stopped else Testing), infos := (infos d)(i := None),
       watched := (if breaks c then watched d else removeAll i (watched d)),
       open_fds := (if closed (snd r) then open_fds d - {fd} else open_fds d),
       served := served d @ [(i, c, snd r)]\<rparr>"

text \<open>\<^verbatim>\<open>get_info\<close> is whatever the last event left in \<^verbatim>\<open>curr_event\<close>.\<close>

definition serve_current :: "messages \<Rightarrow> daemon \<Rightarrow> daemon" where
  "serve_current ms d =
     (case curr_event d of
        None \<Rightarrow> d\<lparr>dfault := Some NullDeref\<rparr>
      | Some i \<Rightarrow>
          (case infos d i of
             None \<Rightarrow> d\<lparr>dfault := Some UseAfterFree\<rparr>
           | Some (fd, c) \<Rightarrow>
               (case (if alive d then serve ms (srv d) c else serve_closed ms (srv d) c) of
                  Inl f \<Rightarrow> d\<lparr>dfault := Some f\<rparr>
                | Inr r \<Rightarrow> finish_round i fd c r d)))"

section \<open>The loop\<close>

definition accept_client :: "nat \<Rightarrow> conn \<Rightarrow> daemon \<Rightarrow> daemon" where
  "accept_client fd c d =
     d\<lparr>phase := Polling, next_info := Suc (next_info d), infos := (infos d)(next_info d \<mapsto> (fd, c)),
       watched := watched d @ [next_info d], open_fds := insert fd (open_fds d)\<rparr>"

definition on_sigint :: "daemon \<Rightarrow> daemon" where
  "on_sigint d =
     (if alive d then d\<lparr>go := False, srv := close_server (srv d), alive := False\<rparr>
      else d\<lparr>go := False, dfault := Some UseAfterFree\<rparr>)"

text \<open>
  What the calls return: \<^verbatim>\<open>accept\<close> an error or a new descriptor with its connection (only an error once
  \<^verbatim>\<open>close_server\<close> has closed the listening socket); \<^verbatim>\<open>epoll_wait\<close> nothing within its
  time, one of the registered structures, or an error because a signal interrupted it.
\<close>

datatype daemon_label = TestGo | AcceptFails | Accepts nat conn | PollTimeout | PollReady nat | PollInterrupted | Sigint

fun daemon_step :: "messages \<Rightarrow> daemon_label \<Rightarrow> daemon \<Rightarrow> daemon option" where
  "daemon_step ms l d =
     (if dfault d \<noteq> None \<or> phase d = Stopped then None
      else case l of
        TestGo \<Rightarrow> if phase d = Testing then Some (d\<lparr>phase := (if go d then Accepting else Stopped)\<rparr>) else None
      | AcceptFails \<Rightarrow> if phase d = Accepting then Some (d\<lparr>phase := Testing\<rparr>) else None
      | Accepts fd c \<Rightarrow>
          if phase d = Accepting \<and> alive d \<and> fd \<notin> open_fds d \<and> \<not> closed c then Some (accept_client fd c d) else None
      | PollTimeout \<Rightarrow> if phase d = Polling then Some (d\<lparr>phase := Testing\<rparr>) else None
      | PollReady i \<Rightarrow>
          if phase d = Polling \<and> i \<in> set (watched d)
          then Some (serve_current ms (d\<lparr>curr_event := Some i\<rparr>)) else None
      | PollInterrupted \<Rightarrow> if phase d = Polling then Some (serve_current ms d) else None
      | Sigint \<Rightarrow> Some (on_sigint d))"

section \<open>What a header decides\<close>

definition bad_header :: "conn \<Rightarrow> bool" where
  "bad_header c = (case process_header c of Inr (ok, _, _) \<Rightarrow> \<not> ok | Inl _ \<Rightarrow> False)"

lemma recv_closed: "recv n c = (r, bs, c') \<Longrightarrow> closed c' = closed c"
  by (auto simp: recv_def split: prod.splits)

lemma get_cmd_result: "get_cmd c = (v, c') \<Longrightarrow> closed c' = closed c \<and> v \<noteq> Some V_UNKNOWN"
  by (auto simp: get_cmd_def Let_def dest!: recv_closed split: prod.splits if_splits)

lemma file_name_loop_closed: "file_name_loop k buf c = Inr (name, c') \<Longrightarrow> closed c' = closed c"
  by (induction k buf c rule: file_name_loop.induct)
    (auto simp: Let_def dest!: recv_closed split: prod.splits if_splits)

lemma process_header_result:
  assumes "process_header c = Inr (ok, stuff, c')"
  shows "closed c' = closed c \<and> (ok \<longrightarrow> cmd stuff \<noteq> V_UNKNOWN)"
proof -
  obtain v c1 where g: "get_cmd c = (v, c1)" by (cases "get_cmd c")
  note r = get_cmd_result [OF g]
  show ?thesis
  proof (cases v)
    case None
    then show ?thesis using assms g r by (auto simp: process_header_def)
  next
    case (Some w)
    obtain name c2 where n: "get_file_name c1 = Inr (name, c2)"
      using assms g Some by (auto simp: process_header_def bindE_eq_Inr_iff)
    then have "closed c2 = closed c" using r file_name_loop_closed unfolding get_file_name_def by metis
    then show ?thesis
      using assms g Some n r
      by (auto simp: process_header_def server_message_size_def Let_def dest!: recv_closed split: prod.splits if_splits)
  qed
qed

lemma never_breaks [simp]: "\<not> breaks c"
  using process_header_result [of c] by (auto simp: breaks_def split: sum.splits prod.splits bool.splits)

lemma serve_closes:
  assumes "serve ms s c = Inr (s', c')" and "\<not> closed c"
  shows "closed c' \<longleftrightarrow> \<not> bad_header c"
proof -
  obtain ok stuff c1 where h: "process_header c = Inr (ok, stuff, c1)"
    using assms(1) by (auto simp: serve_def bindE_eq_Inr_iff)
  note r = process_header_result [OF h]
  show ?thesis
  proof (cases ok)
    case True
    then show ?thesis
      using assms h r by (cases "cmd stuff") (auto simp: serve_def bad_header_def bindE_eq_Inr_iff split: prod.splits)
  next
    case False
    then show ?thesis using assms h r by (auto simp: serve_def bad_header_def split: if_splits)
  qed
qed

lemma serve_closed_closes:
  assumes "serve_closed ms s c = Inr (s', c')" and "\<not> closed c"
  shows "closed c' \<longleftrightarrow> \<not> bad_header c"
proof -
  obtain ok stuff c1 where h: "process_header c = Inr (ok, stuff, c1)"
    using assms(1) by (auto simp: serve_closed_def bindE_eq_Inr_iff)
  show ?thesis
    using assms h serve_closes [OF _ assms(2), of ms s s' c']
    by (auto simp: serve_closed_def bad_header_def bindE_eq_Inr_iff split: if_splits)
qed

section \<open>Every client once\<close>

lemma run_server_snoc:
  "run_server ms s cs = Inr (s', cs') \<Longrightarrow> serve ms s' c = Inr (s'', c') \<Longrightarrow> run_server ms s (cs @ [c]) = Inr (s'', cs' @ [c'])"
  by (induction cs arbitrary: s cs') (auto simp: bindE_eq_Inr_iff)

definition served_ids :: "daemon \<Rightarrow> nat list" where
  "served_ids d = map fst (served d)"

definition befores :: "daemon \<Rightarrow> conn list" where
  "befores d = map (\<lambda>(i, c, c'). c) (served d)"

definition afters :: "daemon \<Rightarrow> conn list" where
  "afters d = map (\<lambda>(i, c, c'). c') (served d)"

text \<open>The descriptors of the waiting clients, and of the ones whose header was bad.\<close>

definition fd_of :: "daemon \<Rightarrow> nat \<Rightarrow> nat" where
  "fd_of d i = (case infos d i of Some (fd, _) \<Rightarrow> fd | None \<Rightarrow> 0)"

definition bad_requests :: "daemon \<Rightarrow> nat" where
  "bad_requests d = length (filter bad_header (befores d))"

definition daemon_inv :: "messages \<Rightarrow> server \<Rightarrow> daemon \<Rightarrow> bool" where
  "daemon_inv ms s0 d \<longleftrightarrow>
     distinct (served_ids d @ watched d) \<and> set (served_ids d @ watched d) = {..<next_info d}
   \<and> dom (infos d) = set (watched d) \<and> (\<forall>i fd c. infos d i = Some (fd, c) \<longrightarrow> \<not> closed c)
   \<and> (dfault d = None \<longrightarrow> curr_event d = (if served d = [] then None else Some (fst (last (served d)))))
   \<and> (alive d \<longrightarrow> run_server ms s0 (befores d) = Inr (srv d, afters d))
   \<and> finite (open_fds d) \<and> inj_on (fd_of d) (set (watched d)) \<and> fd_of d ` set (watched d) \<subseteq> open_fds d
   \<and> card (open_fds d) = length (watched d) + bad_requests d"

lemma daemon_inv_start: "daemon_inv ms s (daemon_start s)"
  by (simp add: daemon_inv_def daemon_start_def served_ids_def befores_def afters_def bad_requests_def)

lemma daemon_inv_cong:
  assumes "daemon_inv ms s d" and "served d' = served d" "watched d' = watched d" "next_info d' = next_info d" "infos d' = infos d"
    "dfault d' = None \<Longrightarrow> dfault d = None \<and> curr_event d' = curr_event d" "alive d' \<Longrightarrow> alive d \<and> srv d' = srv d"
    "open_fds d' = open_fds d"
  shows "daemon_inv ms s d'"
proof -
  have f: "served_ids d' = served_ids d" "befores d' = befores d" "afters d' = afters d" "fd_of d' = fd_of d"
    "bad_requests d' = bad_requests d"
    using assms(2,5) by (simp_all add: served_ids_def befores_def afters_def fd_of_def fun_eq_iff bad_requests_def)
  have "dfault d' = None \<longrightarrow> curr_event d' = (if served d' = [] then None else Some (fst (last (served d'))))"
    using assms(1,2,6) unfolding daemon_inv_def by auto
  moreover have "alive d' \<longrightarrow> run_server ms s (befores d') = Inr (srv d', afters d')"
    using assms(1,7) f unfolding daemon_inv_def by auto
  ultimately show ?thesis
    using assms(1) [unfolded daemon_inv_def] by (simp add: daemon_inv_def f assms(3-5,8))
qed

lemma daemon_inv_accept:
  assumes "daemon_inv ms s d" and "fd \<notin> open_fds d" and "\<not> closed c"
  shows "daemon_inv ms s (accept_client fd c d)"
proof -
  let ?n = "next_info d" and ?d = "accept_client fd c d"
  note inv = assms(1) [unfolded daemon_inv_def]
  have f: "served_ids ?d = served_ids d" "befores ?d = befores d" "afters ?d = afters d" "bad_requests ?d = bad_requests d"
    "watched ?d = watched d @ [?n]" "infos ?d = (infos d)(?n \<mapsto> (fd, c))" "next_info ?d = Suc ?n" "alive ?d = alive d"
    "served ?d = served d" "srv ?d = srv d" "curr_event ?d = curr_event d" "dfault ?d = dfault d" "open_fds ?d = insert fd (open_fds d)"
    by (simp_all add: accept_client_def served_ids_def befores_def afters_def bad_requests_def)
  have new: "?n \<notin> set (watched d)" "?n \<notin> set (served_ids d)" using inv by auto
  have fd: "fd_of ?d i = (if i = ?n then fd else fd_of d i)" for i by (simp add: fd_of_def f)
  then have img: "fd_of ?d ` set (watched d) = fd_of d ` set (watched d)" using new by (auto simp: image_iff)
  have "inj_on (fd_of ?d) (set (watched d @ [?n]))"
    using inv new fd img assms(2) by (auto simp: inj_on_def)
  moreover have "infos d ?n = None" using inv new by (auto simp: domIff)
  moreover have "card (insert fd (open_fds d)) = Suc (card (open_fds d))" using inv assms(2) by simp
  moreover have "fd_of ?d ` set (watched d @ [?n]) \<subseteq> insert fd (open_fds d)" using inv img fd by auto
  ultimately show ?thesis
    using inv new assms(3) unfolding daemon_inv_def f by (simp add: lessThan_Suc)
qed

lemma daemon_inv_finish:
  assumes "daemon_inv ms s d" and "infos d i = Some (fd, c)"
    and "alive d \<Longrightarrow> serve ms (srv d) c = Inr r" and "closed (snd r) \<longleftrightarrow> \<not> bad_header c"
  shows "daemon_inv ms s (finish_round i fd c r (d\<lparr>curr_event := Some i\<rparr>))"
proof -
  let ?d = "finish_round i fd c r (d\<lparr>curr_event := Some i\<rparr>)"
  note inv = assms(1) [unfolded daemon_inv_def]
  have f: "served_ids ?d = served_ids d @ [i]" "befores ?d = befores d @ [c]" "afters ?d = afters d @ [snd r]"
    "bad_requests ?d = bad_requests d + (if bad_header c then 1 else 0)"
    "watched ?d = removeAll i (watched d)" "infos ?d = (infos d)(i := None)" "next_info ?d = next_info d"
    "alive ?d = alive d" "served ?d = served d @ [(i, c, snd r)]" "srv ?d = fst r" "curr_event ?d = Some i" "dfault ?d = dfault d"
    "open_fds ?d = (if closed (snd r) then open_fds d - {fd} else open_fds d)"
    by (simp_all add: finish_round_def served_ids_def befores_def afters_def bad_requests_def)
  have i: "i \<in> set (watched d)" using inv assms(2) by auto
  have fi: "fd_of d i = fd" using assms(2) by (simp add: fd_of_def)
  have fd: "fd_of ?d j = (if j = i then 0 else fd_of d j)" for j by (simp add: fd_of_def f)
  have img: "fd_of ?d ` (set (watched d) - {i}) = fd_of d ` (set (watched d) - {i})" using fd by (auto simp: image_iff)
  have inj: "inj_on (fd_of d) (set (watched d))" and sub: "fd_of d ` set (watched d) \<subseteq> open_fds d" using inv by auto
  have fdin: "fd \<in> open_fds d" using sub i fi by auto
  have notin: "fd \<notin> fd_of d ` (set (watched d) - {i})" using inj i fi by (auto simp: inj_on_def)
  have "inj_on (fd_of ?d) (set (watched d) - {i})" using inj fd by (auto simp: inj_on_def)
  moreover have "fd_of ?d ` (set (watched d) - {i}) \<subseteq> open_fds ?d" unfolding img f(13) using sub notin by auto
  moreover have "card (open_fds ?d) = length (removeAll i (watched d)) + bad_requests ?d"
  proof -
    have "removeAll i (watched d) = remove1 i (watched d)" using inv by (simp add: distinct_remove1_removeAll)
    then have "length (watched d) = Suc (length (removeAll i (watched d)))"
      using i by (metis One_nat_def Suc_pred length_pos_if_in_set length_remove1)
    moreover have "card (open_fds d) = Suc (card (open_fds d - {fd}))" using fdin inv by (metis card.remove)
    moreover have "card (open_fds d) = length (watched d) + bad_requests d" using inv by simp
    ultimately show ?thesis using assms(4) by (simp add: f)
  qed
  moreover have "distinct (served_ids d @ [i] @ removeAll i (watched d))" using inv i by (auto simp: distinct_removeAll)
  moreover have "set (served_ids d @ [i] @ removeAll i (watched d)) = {..<next_info d}" using inv i by auto
  moreover have "alive d \<longrightarrow> run_server ms s (befores d @ [c]) = Inr (fst r, afters d @ [snd r])"
    using inv assms(3) run_server_snoc [of ms s "befores d" "srv d" "afters d" c "fst r" "snd r"] by simp
  moreover have "dom ((infos d)(i := None)) = set (watched d) - {i}" using inv by simp
  moreover have "finite (open_fds ?d)" using inv f(13) by simp
  moreover have "\<forall>j fd c. ((infos d)(i := None)) j = Some (fd, c) \<longrightarrow> \<not> closed c" using inv by simp
  ultimately show ?thesis
    unfolding daemon_inv_def f(1-3,5-12) by simp
qed

lemma daemon_inv_serve:
  assumes "daemon_inv ms s d" and "i \<in> set (watched d)"
  shows "daemon_inv ms s (serve_current ms (d\<lparr>curr_event := Some i\<rparr>))"
proof -
  obtain fd c where c: "infos d i = Some (fd, c)" "\<not> closed c" using assms unfolding daemon_inv_def by (metis domD surj_pair)
  show ?thesis
  proof (cases "if alive d then serve ms (srv d) c else serve_closed ms (srv d) c")
    case (Inl f)
    then have "serve_current ms (d\<lparr>curr_event := Some i\<rparr>) = d\<lparr>curr_event := Some i, dfault := Some f\<rparr>"
      using c by (auto simp: serve_current_def split: if_splits)
    then show ?thesis by (intro daemon_inv_cong [OF assms(1)]) simp_all
  next
    case (Inr r)
    have "closed (snd r) \<longleftrightarrow> \<not> bad_header c"
      using Inr c(2) serve_closes [of ms "srv d" c "fst r" "snd r"] serve_closed_closes [of ms "srv d" c "fst r" "snd r"]
      by (simp split: if_splits)
    then show ?thesis
      using daemon_inv_finish [OF assms(1) c(1), of r] Inr c(1) by (auto simp: serve_current_def split: if_splits)
  qed
qed

text \<open>An event that was served is never a live structure, so \<^verbatim>\<open>get_info\<close> after an error of \<^verbatim>\<open>epoll_wait\<close> is of no use.\<close>

lemma serve_stale:
  assumes "daemon_inv ms s d" and "dfault d = None"
  shows "serve_current ms d = d\<lparr>dfault := Some (if served d = [] then NullDeref else UseAfterFree)\<rparr>"
proof -
  note inv = assms(1) [unfolded daemon_inv_def]
  have "infos d (fst (last (served d))) = None" if "served d \<noteq> []"
  proof -
    have "fst (last (served d)) \<in> set (served_ids d)" using that by (simp add: served_ids_def)
    then show ?thesis using inv by (auto simp: domIff)
  qed
  then show ?thesis using inv assms(2) by (simp add: serve_current_def)
qed

lemma daemon_inv_step:
  assumes "daemon_inv ms s d" and "daemon_step ms l d = Some d'"
  shows "daemon_inv ms s d'"
proof -
  have ok: "dfault d = None" using assms(2) by (auto split: if_splits)
  show ?thesis
  proof (cases l)
    case (Accepts fd c)
    then show ?thesis using assms daemon_inv_accept by (auto split: if_splits)
  next
    case (PollReady i)
    then show ?thesis using assms daemon_inv_serve by (auto split: if_splits)
  next
    case PollInterrupted
    then have "d' = d\<lparr>dfault := Some (if served d = [] then NullDeref else UseAfterFree)\<rparr>"
      using assms(2) serve_stale [OF assms(1) ok] by (auto split: if_splits)
    then show ?thesis by (intro daemon_inv_cong [OF assms(1)]) simp_all
  qed (use assms ok in \<open>auto intro!: daemon_inv_cong [OF assms(1)] simp: on_sigint_def split: if_splits\<close>)
qed

interpretation nonstop_loop: transition_system "daemon_step ms" "\<lambda>d. d = daemon_start s" "daemon_inv ms s" for ms s
  by unfold_locales (simp add: daemon_inv_start, rule daemon_inv_step)

section \<open>Starting\<close>

lemma server_main_starts:
  assumes "server_main oc handlers argv k = (Inr (sfd, d), k')"
  shows "length argv = 2 \<and> all_succeed oc \<and> d = daemon_start \<lparr>files = [], dir = Map.empty\<rparr>
    \<and> fds k' = (fds k)(sfd \<mapsto> \<lparr>state_of = Listening (argv ! 1) 1024, options = {SO_REUSEPORT}\<rparr>)"
proof -
  obtain r k1 where r: "start_socket oc (argv ! 1) 0 k = (r, k1)" by (cases "start_socket oc (argv ! 1) 0 k")
  then show ?thesis
    using assms start_socket_listens(1,2) [OF r, of sfd] by (auto simp: server_main_def split: if_splits sum.splits)
qed

text \<open>A failure after the address was resolved closes descriptor 0: \<^verbatim>\<open>sfd\<close> is not assigned yet.\<close>

lemma server_main_closes_stdin:
  assumes "server_main oc True argv k = (Inl f, k')" and "length argv = 2" and "new_socket oc = Some s" and "0 < s"
  shows "f = ProcessExit 1 \<and> fds k' 0 = None \<and> fds k' s \<noteq> None"
proof -
  obtain r k1 where r: "start_socket oc (argv ! 1) 0 k = (r, k1)" by (cases "start_socket oc (argv ! 1) 0 k")
  then show ?thesis
    using assms start_socket_listens(3) [OF r, of f] by (auto simp: server_main_def split: sum.splits)
qed

lemma get_file_path_inj: "get_file_path d n = get_file_path d n' \<longleftrightarrow> n = n'"
  by (simp add: get_file_path_def)

section \<open>Properties\<close>


definition put_a :: conn where
  "put_a = script [Got (''PUT a'' @ newline # enc_size 2 @ ''hi'')]"

lemma serve_put_a: "\<exists>c'. serve ms empty_server put_a = Inr (\<lparr>files = [''a''], dir = [''a'' \<mapsto> ''hi'']\<rparr>, c') \<and> closed c'"
proof -
  have two: "of_nat (length ''hi'') = (2 :: size_t)" by simp
  have "feeds put_a (request_line PUT ''a'' @ enc_size (of_nat (length ''hi'')) @ ''hi'')" "name_ok ''a''" "length ''hi'' < 2 ^ 63"
    unfolding two by (simp_all add: put_a_def feeds_def script_def request_line_def name_ok_def NUL_def)
  from serve_put_ok [OF this, of ms empty_server] show ?thesis by (auto simp: empty_server_def)
qed

text \<open>One client is not ready in time and waits while a second one puts a file.\<close>

lemma two_clients:
  "\<exists>d. run (daemon_step ms) [TestGo, Accepts 4 put_a, PollTimeout, TestGo, Accepts 5 put_a, PollReady 1] (daemon_start empty_server)
       = Some d \<and> served_ids d = [1] \<and> watched d = [0] \<and> alive d \<and> files (srv d) = [''a'']
       \<and> phase d = Testing \<and> dfault d = None \<and> go d \<and> next_info d = 2 \<and> 7 \<notin> open_fds d"
proof -
  obtain c' where c: "serve ms empty_server put_a = Inr (\<lparr>files = [''a''], dir = [''a'' \<mapsto> ''hi'']\<rparr>, c')" "closed c'"
    using serve_put_a by blast
  have "\<not> closed put_a" by (simp add: put_a_def script_def)
  then show ?thesis using c
    by (simp add: daemon_start_def accept_client_def serve_current_def finish_round_def served_ids_def)
qed


text \<open>
  C39: when a signal interrupts \<^verbatim>\<open>epoll_wait\<close>, the server goes on with the event before: it reads through a null pointer
  when there was none, and otherwise a structure that was freed, whoever is waiting.
\<close>

theorem daemon_stale_event:
  assumes "run (daemon_step ms) ls (daemon_start s) = Some d" and "phase d = Polling" and "dfault d = None"
  shows "\<exists>d'. daemon_step ms PollInterrupted d = Some d'
    \<and> dfault d' = Some (if served d = [] then NullDeref else UseAfterFree)"
  using assms(2,3) serve_stale [OF nonstop_loop.reachable [OF assms(1) refl] assms(3)] by simp

theorem daemon_stale_event_witness:
  "\<forall>ms. \<exists>d d'. daemon_step ms PollInterrupted d = Some d' \<and> served_ids d = [1] \<and> watched d = [0, 2]
     \<and> dfault d' = Some UseAfterFree"
    (is "\<forall>ms. ?P ms")
proof
  fix ms
  obtain ls d where d: "run (daemon_step ms) ls (daemon_start empty_server) = Some d" "served_ids d = [1]" "watched d = [0]"
    "alive d" "phase d = Testing" "dfault d = None" "go d" "next_info d = 2" "7 \<notin> open_fds d" using two_clients by blast
  let ?d = "accept_client 7 put_a (d\<lparr>phase := Accepting\<rparr>)"
  have "run (daemon_step ms) (ls @ [TestGo, Accepts 7 put_a]) (daemon_start empty_server) = Some ?d"
    using d by (simp add: run_append put_a_def script_def)
  moreover have "phase ?d = Polling" "dfault ?d = None" "served_ids ?d = [1]" "watched ?d = [0, 2]"
    using d by (simp_all add: accept_client_def served_ids_def)
  ultimately show "?P ms"
    using daemon_stale_event [of ms "ls @ [TestGo, Accepts 7 put_a]" empty_server ?d] by (force simp: served_ids_def)
qed

end
