(* ===== verification/NonstopMain.thy ===== *)
theory NonstopMain
  imports NonstopClient NonstopLoop
begin

text \<open>
  \<^verbatim>\<open>nonstop_networking/client.c\<close> as a program: the command line, the connection, the command and the files on the disk; and the
  two programs of \<^verbatim>\<open>nonstop_networking\<close> together.
\<close>

section \<open>The client program\<close>

type_synonym disk = "string \<rightharpoonup> string"

text \<open>A file that cannot be opened makes \<^verbatim>\<open>read_file\<close> close a null stream.\<close>

definition read_file :: "disk \<Rightarrow> string \<Rightarrow> string res" where
  "read_file disk name = (case disk name of None \<Rightarrow> Inl NullDeref | Some content \<Rightarrow> Inr content)"

definition file_bytes :: "disk \<Rightarrow> string \<Rightarrow> size_t" where
  "file_bytes disk name = (case disk name of None \<Rightarrow> 0 | Some content \<Rightarrow> of_nat (length content))"

definition run_command :: "(nat \<Rightarrow> char) \<Rightarrow> disk \<Rightarrow> client_args \<Rightarrow> verb \<Rightarrow> client \<Rightarrow> client res" where
  "run_command jk disk a command c =
     (case command of
        DELETE \<Rightarrow> client_delete c
      | LIST \<Rightarrow> client_list jk c
      | GET \<Rightarrow> client_get c
      | PUT \<Rightarrow> bindE (read_file disk (the (local_name a))) (\<lambda>content. client_put (c\<lparr>local_file := Some content\<rparr>))
      | V_UNKNOWN \<Rightarrow> Inr c)"

text \<open>The end: \<^verbatim>\<open>close_client\<close> exits with 1 whatever has happened.\<close>

definition close_client :: nat where
  "close_client = 1"

text \<open>The client when it ends, the disk then and the exit status.\<close>

definition nonstop_client_main ::
    "(nat \<Rightarrow> char) \<Rightarrow> outcomes \<Rightarrow> string list \<Rightarrow> disk \<Rightarrow> read_event list \<Rightarrow> kernel \<Rightarrow> (client \<times> disk \<times> nat) res" where
  "nonstop_client_main jk oc argv disk es k =
     bindE (check_args (parse_args argv)) (\<lambda>command.
       case parse_args argv of
         None \<Rightarrow> Inl (ProcessExit 1)
       | Some a \<Rightarrow>
           (case connect_to_server oc (host a) (port a) k of
              (Inl f, _) \<Rightarrow> Inl f
            | (Inr serverSocket, _) \<Rightarrow>
                bindE (run_command jk disk a command
                    (client_start command (case remote a of None \<Rightarrow> [] | Some r \<Rightarrow> r) es (Option.bind (local_name a) disk)))
                  (\<lambda>c. Inr (c, if command = GET then disk(the (local_name a) := local_file c) else disk, close_client))))"

section \<open>The command line\<close>

lemma strtok_colon_token:
  assumes "h \<noteq> []" and "CHR '':'' \<notin> set h"
  shows "strtok_colon (h @ CHR '':'' # rest) = Some (h, rest)" and "strtok_colon h = Some (h, [])"
proof -
  obtain c h' where h: "h = c # h'" "c \<noteq> CHR '':''" using assms by (cases h) auto
  have d: "dropWhile (\<lambda>c. c = CHR '':'') (h @ x) = h @ x" for x using h by simp
  have t: "takeWhile (\<lambda>c. c \<noteq> CHR '':'') (h @ CHR '':'' # rest) = h" using assms(2) by (subst takeWhile_append2) auto
  have tk: "takeWhile (\<lambda>c. c \<noteq> CHR '':'') h = h" using assms(2) by (auto simp: takeWhile_eq_all_conv)
  show "strtok_colon (h @ CHR '':'' # rest) = Some (h, rest)" "strtok_colon h = Some (h, [])"
    using d [of "CHR '':'' # rest"] d [of "[]"] assms(1) t tk by (simp_all only: strtok_colon_def Let_def append_Nil2) simp_all
qed

definition address_ok :: "string \<Rightarrow> string \<Rightarrow> bool" where
  "address_ok h p \<longleftrightarrow> h \<noteq> [] \<and> CHR '':'' \<notin> set h \<and> p \<noteq> [] \<and> CHR '':'' \<notin> set p"

lemma parse_args_ok:
  "address_ok h p \<Longrightarrow> parse_args [prog, h @ CHR '':'' # p, m, name, l] =
     Some \<lparr>host = h, port = p, http_method = map toupper m, remote = Some name, local_name = Some l\<rparr>"
  by (simp add: parse_args_def strtok_colon_token address_ok_def)

lemma check_args_ok:
  "check_args (Some \<lparr>host = h, port = p, http_method = ''GET'', remote = Some name, local_name = Some l\<rparr>) = Inr GET"
  "check_args (Some \<lparr>host = h, port = p, http_method = ''PUT'', remote = Some name, local_name = Some l\<rparr>) = Inr PUT"
  by (simp_all add: check_args_def)

lemma upper_commands: "map toupper ''put'' = ''PUT''" "map toupper ''get'' = ''GET''"
  by code_simp+

lemma parse_put_get:
  assumes "address_ok h p"
  shows "parse_args [prog, h @ CHR '':'' # p, ''put'', name, l] =
      Some \<lparr>host = h, port = p, http_method = ''PUT'', remote = Some name, local_name = Some l\<rparr>"
    and "parse_args [prog, h @ CHR '':'' # p, ''get'', name, l] =
      Some \<lparr>host = h, port = p, http_method = ''GET'', remote = Some name, local_name = Some l\<rparr>"
  unfolding parse_args_ok [OF assms] upper_commands by (rule refl)+

section \<open>Properties\<close>

definition connectable :: "outcomes \<Rightarrow> bool" where
  "connectable oc \<longleftrightarrow> new_socket oc \<noteq> None \<and> resolves oc \<and> connects oc"

lemma connect_ok: "connectable oc \<Longrightarrow> \<exists>s k'. connect_to_server oc h p k = (Inr s, k')"
  by (auto simp: connectable_def connect_to_server_def Let_def)

lemma client_puts:
  assumes "connectable oc" and "address_ok h p" and "NUL \<notin> set name" and "disk l = Some data" and "data \<noteq> []"
    and "patient es" and "stream es = []"
  shows "\<exists>c. nonstop_client_main jk oc [prog, h @ CHR '':'' # p, ''put'', name, l] disk es k = Inr (c, disk, 1)
    \<and> sent c = request_line PUT name @ enc_size (of_nat (length data)) @ data"
proof -
  obtain s k' where conn: "connect_to_server oc h p k = (Inr s, k')" using connect_ok [OF assms(1)] by blast
  have start: "(client_start PUT name es (Some data))\<lparr>local_file := Some data\<rparr> = client_start PUT name es (Some data)"
    by (simp add: client_start_def)
  obtain c where "client_put (client_start PUT name es (Some data)) = Inr c"
    "sent c = request_line PUT name @ enc_size (of_nat (length data)) @ data"
    using client_put_reports_invalid [OF assms(3,5,6,7)] by blast
  then show ?thesis
    using conn assms(4) start parse_put_get(1) [OF assms(2), of prog name l]
    by (simp add: nonstop_client_main_def check_args_ok run_command_def read_file_def close_client_def)
qed

lemma client_gets:
  assumes "connectable oc" and "address_ok h p" and "NUL \<notin> set name" and "data \<noteq> []" and "NUL \<notin> set data" and "length data < 2 ^ 63"
    and "patient es" and "stream es = ''OK'' @ [newline] @ enc_size (of_nat (length data)) @ data"
  shows "\<exists>c. nonstop_client_main jk oc [prog, h @ CHR '':'' # p, ''get'', name, l] disk es k = Inr (c, disk(l \<mapsto> data), 1)
    \<and> sent c = request_line GET name \<and> outputs c = []"
proof -
  obtain s k' where conn: "connect_to_server oc h p k = (Inr s, k')" using connect_ok [OF assms(1)] by blast
  obtain c where "client_get (client_start GET name es (disk l)) = Inr c" "local_file c = Some data" "sent c = request_line GET name" "outputs c = []"
    using client_get_stores [OF assms(3-8)] by blast
  then show ?thesis
    using conn parse_put_get(2) [OF assms(2), of prog name l]
    by (simp add: nonstop_client_main_def check_args_ok run_command_def close_client_def)
qed


definition all_at_once :: "string \<Rightarrow> read_event list" where
  "all_at_once bs = (if bs = [] then [] else [Got bs])"

lemma all_at_once: "feeds (script (all_at_once bs)) bs" "patient (all_at_once bs)" "stream (all_at_once bs) = bs" "outgoing (script es) = []"
  by (simp_all add: all_at_once_def feeds_def script_def)


end
