(* ===== verification/ChatServer.thy ===== *)
theory ChatServer
  imports Net
begin

text \<open>
  \<^verbatim>\<open>charming_chatroom/server.c\<close>: the table of clients, the main loop that fills it, and the thread that serves each
  client. A run interleaves the steps of the main thread and of the client threads; what happens under the
  mutex is one step, and so is everything a thread does between two such sections. \<open>open_fds\<close> are the open connections and
  \<open>received\<close> the bytes written to them. A connection is the script of its reads; writing to an open one succeeds. On a
  descriptor that was closed every \<^verbatim>\<open>write\<close> fails, and \<^verbatim>\<open>write_all_to_socket\<close> tries again for ever.
\<close>

definition MAX_CLIENTS :: nat where
  "MAX_CLIENTS = 8"

text \<open>A client's thread is at the test of its loop, past it, or has closed its connection.\<close>

datatype client_thread = NoThread | Serving "read_event list" | Reading "read_event list" | Closing

datatype main_thread = Accepting | Accepted nat "read_event list"

record room =
  clients :: "nat option list"
  clientsCount :: int
  endSession :: bool
  main :: main_thread
  threads :: "nat \<Rightarrow> client_thread"
  open_fds :: "nat set"
  received :: "nat \<Rightarrow> string list"
  fault :: "fault option"

definition room_start :: room where
  "room_start = \<lparr>clients = replicate MAX_CLIENTS None, clientsCount = 0, endSession = False, main = Accepting,
     threads = (\<lambda>_. NoThread), open_fds = {}, received = (\<lambda>_. []), fault = None\<rparr>"

section \<open>The table\<close>

text \<open>The first free slot.\<close>

fun free_slot :: "nat option list \<Rightarrow> nat option" where
  "free_slot [] = None"
| "free_slot (c # cs) = (if c = None then Some 0 else map_option Suc (free_slot cs))"

text \<open>A thread started with the index -1 reads \<^verbatim>\<open>clients[-1]\<close>.\<close>

definition register_client :: "nat \<Rightarrow> read_event list \<Rightarrow> room \<Rightarrow> room" where
  "register_client client_id es r =
     (let r = r\<lparr>main := Accepting, clientsCount := clientsCount r + 1\<rparr> in
      case free_slot (clients r) of
        None \<Rightarrow> r\<lparr>fault := Some OutOfBounds\<rparr>
      | Some i \<Rightarrow> r\<lparr>clients := (clients r)[i := Some client_id], threads := (threads r)(i := Serving es)\<rparr>)"

section \<open>Broadcasting\<close>

text \<open>The size and the message, as the loops of \<^verbatim>\<open>utils.c\<close> write them.\<close>

definition frame_of :: "string \<Rightarrow> string res" where
  "frame_of message =
     bindE (write_message_size (length message) []) (\<lambda>(retval, header).
       if 0 < retval then bindE (chat_write_all message []) (\<lambda>(_, body). Inr (header @ body)) else Inr header)"

fun write_to_slots :: "string \<Rightarrow> nat option list \<Rightarrow> room \<Rightarrow> room res" where
  "write_to_slots message [] r = Inr r"
| "write_to_slots message (None # cs) r = write_to_slots message cs r"
| "write_to_slots message (Some fd # cs) r =
     (if fd \<notin> open_fds r then Inl Diverges
      else bindE (frame_of message) (\<lambda>bytes.
        write_to_slots message cs (r\<lparr>received := (received r)(fd := received r fd @ [bytes])\<rparr>)))"

definition write_to_clients :: "string \<Rightarrow> room \<Rightarrow> room res" where
  "write_to_clients message r = write_to_slots message (clients r) r"

section \<open>A client's thread\<close>

text \<open>What one round reads: a message, or \<open>None\<close> when the loop ends.\<close>

definition read_message :: "read_event list \<Rightarrow> (string option \<times> read_event list) res" where
  "read_message es =
     bindE (get_message_size es) (\<lambda>(retval, es1).
       if 0 < retval
       then bindE (chat_read_all (nat retval) es1) (\<lambda>(retval', buffer, es2).
         Inr (if 0 < retval' then Some buffer else None, es2))
       else Inr (None, es1))"

definition set_fault :: "fault \<Rightarrow> room \<Rightarrow> room" where
  "set_fault f r = r\<lparr>fault := Some f\<rparr>"

text \<open>The end of the loop: the descriptor is closed before the slot is given up.\<close>

definition close_client :: "nat \<Rightarrow> room \<Rightarrow> room" where
  "close_client i r =
     r\<lparr>open_fds := (case clients r ! i of None \<Rightarrow> open_fds r | Some fd \<Rightarrow> open_fds r - {fd}),
       threads := (threads r)(i := Closing)\<rparr>"

definition client_round :: "nat \<Rightarrow> read_event list \<Rightarrow> room \<Rightarrow> room" where
  "client_round i es r =
     (case read_message es of
        Inl f \<Rightarrow> set_fault f r
      | Inr (None, es') \<Rightarrow> close_client i r
      | Inr (Some message, es') \<Rightarrow>
          (case write_to_clients message (r\<lparr>threads := (threads r)(i := Serving es')\<rparr>) of
             Inl f \<Rightarrow> set_fault f r
           | Inr r' \<Rightarrow> r'))"

definition client_test :: "nat \<Rightarrow> read_event list \<Rightarrow> room \<Rightarrow> room" where
  "client_test i es r =
     (if endSession r then close_client i r else r\<lparr>threads := (threads r)(i := Reading es)\<rparr>)"

definition leave :: "nat \<Rightarrow> room \<Rightarrow> room" where
  "leave i r = r\<lparr>clients := (clients r)[i := None], clientsCount := clientsCount r - 1, threads := (threads r)(i := NoThread)\<rparr>"

section \<open>Runs\<close>

text \<open>\<open>Accept fd es\<close>: \<^verbatim>\<open>accept\<close> returns a descriptor that is not open; when it fails before the session ends, the process exits.\<close>

datatype room_label = Accept nat "read_event list" | AcceptFails | Register | Test nat | Round nat | Leave nat | Interrupt

fun room_step :: "room_label \<Rightarrow> room \<Rightarrow> room option" where
  "room_step (Accept fd es) r =
     (if fault r = None \<and> main r = Accepting \<and> \<not> endSession r \<and> clientsCount r < int MAX_CLIENTS \<and> fd \<notin> open_fds r
      then Some (r\<lparr>main := Accepted fd es, open_fds := insert fd (open_fds r), received := (received r)(fd := [])\<rparr>) else None)"
| "room_step AcceptFails r =
     (if fault r = None \<and> main r = Accepting \<and> \<not> endSession r \<and> clientsCount r < int MAX_CLIENTS
      then Some (set_fault (ProcessExit 1) r) else None)"
| "room_step Register r =
     (case main r of
        Accepted fd es \<Rightarrow> if fault r = None \<and> \<not> endSession r then Some (register_client fd es r) else None
      | Accepting \<Rightarrow> None)"
| "room_step (Test i) r =
     (case threads r i of Serving es \<Rightarrow> if fault r = None then Some (client_test i es r) else None | _ \<Rightarrow> None)"
| "room_step (Round i) r =
     (case threads r i of Reading es \<Rightarrow> if fault r = None then Some (client_round i es r) else None | _ \<Rightarrow> None)"
| "room_step (Leave i) r = (if fault r = None \<and> threads r i = Closing then Some (leave i r) else None)"
| "room_step Interrupt r = Some (r\<lparr>endSession := True\<rparr>)"

section \<open>Messages\<close>

lemma chat_read_loop_result:
  "chat_read_loop count acc es = (r, bs, es') \<Longrightarrow> r = 0 \<or> r = int (length bs)"
proof (induction count acc es rule: chat_read_loop.induct)
  case (1 count acc es)
  obtain x es1 where s: "sread (count - length acc) es = (x, es1)" by fastforce
  show ?case
  proof (cases "length acc < count")
    case True
    then show ?thesis using 1 s by (cases x) (simp_all add: chat_read_loop.simps [of count acc es])
  next
    case False
    then show ?thesis using "1.prems" by (auto simp: chat_read_loop.simps [of count acc es])
  qed
qed

lemma read_message_total:
  "\<exists>x es'. read_message es = Inr (x, es') \<and> (\<forall>m. x = Some m \<longrightarrow> m \<noteq> [])"
proof -
  obtain n bs es1 where "chat_read_loop 4 [] es = (n, bs, es1)" by (cases "chat_read_loop 4 [] es")
  then obtain r es1 where g: "get_message_size es = Inr (r, es1)"
    by (auto simp: get_message_size_def chat_read_all_def split: if_splits)
  show ?thesis
  proof (cases "0 < r")
    case True
    obtain r' m es2 where l: "chat_read_loop (nat r) [] es1 = (r', m, es2)" by (cases "chat_read_loop (nat r) [] es1")
    then have "r' = 0 \<or> r' = int (length m)" by (rule chat_read_loop_result)
    then show ?thesis using g True l by (auto simp: read_message_def chat_read_all_def)
  next
    case False
    then show ?thesis using g by (simp add: read_message_def)
  qed
qed

lemma read_message_ok:
  assumes "patient es" and "stream es = rev (enc_le 4 (length m)) @ m @ rest" and "m \<noteq> []" and "length m < 2 ^ 32"
  shows "\<exists>es'. read_message es = Inr (Some m, es') \<and> patient es' \<and> stream es' = rest"
proof -
  obtain es1 where 1: "get_message_size es = Inr (int (length m), es1)" "patient es1" "stream es1 = m @ rest"
    using get_message_size_patient [OF assms(1,2,4)] by blast
  obtain es2 where "chat_read_all (length m) es1 = Inr (int (length m), m, es2)" "patient es2" "stream es2 = rest"
    using chat_read_all_patient [OF 1(2), of "length m"] 1(3) assms(3) by auto
  then show ?thesis using 1(1) assms(3) by (simp add: read_message_def)
qed

lemma frame_of_ok:
  assumes "m \<noteq> []"
  shows "frame_of m = Inr (rev (enc_le 4 (length m mod 2 ^ 32)) @ m)"
proof -
  have ne: "rev (enc_le 4 (length m mod 2 ^ 32)) \<noteq> []" by (metis length_enc_le length_rev list.size(3) zero_neq_numeral)
  show ?thesis
    using chat_write_all_patient [OF ne, of "[]"] chat_write_all_patient [OF assms, of "[]"]
    by (simp add: frame_of_def write_message_size_def)
qed

text \<open>Writing to the slots changes only what is received.\<close>

lemma write_to_slots_fields:
  "write_to_slots m cs r = Inr r' \<Longrightarrow> clients r' = clients r \<and> clientsCount r' = clientsCount r \<and> threads r' = threads r
     \<and> main r' = main r \<and> fault r' = fault r \<and> open_fds r' = open_fds r \<and> endSession r' = endSession r"
  by (induction m cs r rule: write_to_slots.induct) (auto simp: bindE_eq_Inr_iff split: if_splits)

lemma write_to_slots_Inl: "m \<noteq> [] \<Longrightarrow> write_to_slots m cs r = Inl f \<Longrightarrow> f = Diverges"
  by (induction m cs r rule: write_to_slots.induct) (auto simp: frame_of_ok split: if_splits)

text \<open>No descriptor is in two slots.\<close>

fun unique_fds :: "nat option list \<Rightarrow> bool" where
  "unique_fds [] = True"
| "unique_fds (None # cs) = unique_fds cs"
| "unique_fds (Some fd # cs) = (Some fd \<notin> set cs \<and> unique_fds cs)"

lemma unique_fds_update:
  "unique_fds cs \<Longrightarrow> i < length cs \<Longrightarrow> c = None \<or> c \<notin> set cs \<Longrightarrow> unique_fds (cs[i := c])"
proof (induction cs arbitrary: i rule: unique_fds.induct)
  case (2 cs)
  then show ?case by (cases i; cases c) auto
next
  case (3 fd cs)
  then show ?case using set_update_subset_insert [of cs "i - 1" c] by (cases i; cases c) auto
qed simp

lemma write_to_slots_received:
  assumes "m \<noteq> []" and "unique_fds cs" and "write_to_slots m cs r = Inr r'"
  shows "received r' fd = received r fd @ (if Some fd \<in> set cs then [rev (enc_le 4 (length m mod 2 ^ 32)) @ m] else [])"
  using assms
proof (induction m cs r rule: write_to_slots.induct)
  case (3 m g cs r)
  then show ?case by (cases "fd = g") (auto simp: frame_of_ok split: if_splits)
qed auto

section \<open>The table and the threads\<close>

definition room_inv :: "room \<Rightarrow> bool" where
  "room_inv r \<longleftrightarrow> length (clients r) = MAX_CLIENTS
     \<and> clientsCount r = int (length (filter (\<lambda>c. c \<noteq> None) (clients r)))
     \<and> (\<forall>i. threads r i = NoThread \<longleftrightarrow> i < MAX_CLIENTS \<longrightarrow> clients r ! i = None)
     \<and> (main r \<noteq> Accepting \<longrightarrow> clientsCount r < int MAX_CLIENTS)
     \<and> fault r \<in> {None, Some Diverges, Some (ProcessExit 1)}"

lemma room_inv_start: "room_inv room_start"
  by (simp add: room_inv_def room_start_def)

lemma room_invD:
  assumes "room_inv r"
  shows "length (clients r) = MAX_CLIENTS" and "clientsCount r = int (length (filter (\<lambda>c. c \<noteq> None) (clients r)))"
    and "threads r i = NoThread \<longleftrightarrow> i < MAX_CLIENTS \<longrightarrow> clients r ! i = None"
    and "main r \<noteq> Accepting \<Longrightarrow> clientsCount r < int MAX_CLIENTS" and "fault r \<in> {None, Some Diverges, Some (ProcessExit 1)}"
  using assms unfolding room_inv_def by blast+

lemma room_invI:
  assumes "length (clients r) = MAX_CLIENTS" and "clientsCount r = int (length (filter (\<lambda>c. c \<noteq> None) (clients r)))"
    and "\<And>i. threads r i = NoThread \<longleftrightarrow> i < MAX_CLIENTS \<longrightarrow> clients r ! i = None"
    and "main r \<noteq> Accepting \<Longrightarrow> clientsCount r < int MAX_CLIENTS" and "fault r \<in> {None, Some Diverges, Some (ProcessExit 1)}"
  shows "room_inv r"
  using assms unfolding room_inv_def by blast

lemma free_slot_Some: "free_slot cs = Some i \<Longrightarrow> i < length cs \<and> cs ! i = None"
  by (induction cs arbitrary: i) (auto split: if_splits)

lemma free_slot_None: "free_slot cs = None \<Longrightarrow> filter (\<lambda>c. c \<noteq> None) cs = cs"
  by (induction cs) (auto split: if_splits)

lemma filter_update_Some:
  "i < length cs \<Longrightarrow> cs ! i = None \<Longrightarrow>
     length (filter (\<lambda>c. c \<noteq> None) (cs[i := Some x])) = Suc (length (filter (\<lambda>c. c \<noteq> None) cs))"
  by (induction cs arbitrary: i) (auto split: nat.splits)

lemma filter_update_None:
  "i < length cs \<Longrightarrow> cs ! i \<noteq> None \<Longrightarrow>
     Suc (length (filter (\<lambda>c. c \<noteq> None) (cs[i := None]))) = length (filter (\<lambda>c. c \<noteq> None) cs)"
  by (induction cs arbitrary: i) (auto split: nat.splits)

lemma room_inv_threads:
  assumes "room_inv r" and "threads r i \<noteq> NoThread" and "x \<noteq> NoThread"
  shows "room_inv (r\<lparr>threads := (threads r)(i := x)\<rparr>)"
  by (rule room_invI) (use assms room_invD [OF assms(1)] in simp_all)

lemma room_inv_register:
  assumes "room_inv r" and "main r = Accepted fd es"
  shows "room_inv (register_client fd es r)"
proof -
  note D = room_invD [OF assms(1)]
  have "length (filter (\<lambda>c. c \<noteq> None) (clients r)) < MAX_CLIENTS" using D(2,4) assms(2) by simp
  then obtain i where i: "free_slot (clients r) = Some i"
    using free_slot_None [of "clients r"] D(1) by (metis not_less_iff_gr_or_eq option.exhaust)
  then have "i < length (clients r)" "clients r ! i = None" using free_slot_Some by auto
  then show ?thesis
    by (intro room_invI) (use i D filter_update_Some [of i "clients r" fd] in \<open>simp_all add: register_client_def nth_list_update\<close>)
qed

lemma room_inv_close:
  assumes "room_inv r" and "threads r i \<noteq> NoThread"
  shows "room_inv (close_client i r)"
  by (rule room_invI) (use assms(2) room_invD [OF assms(1)] in \<open>simp_all add: close_client_def\<close>)

lemma room_inv_fault: "room_inv r \<Longrightarrow> f \<in> {Diverges, ProcessExit 1} \<Longrightarrow> room_inv (set_fault f r)"
  by (rule room_invI) (use room_invD in \<open>simp_all add: set_fault_def\<close>)

lemma room_inv_round:
  assumes "room_inv r" and "threads r i = Reading es"
  shows "room_inv (client_round i es r)"
proof -
  obtain x es' where rm: "read_message es = Inr (x, es')" "\<forall>m. x = Some m \<longrightarrow> m \<noteq> []" using read_message_total by blast
  show ?thesis
  proof (cases x)
    case None
    then show ?thesis using rm room_inv_close [OF assms(1)] assms(2) by (simp add: client_round_def)
  next
    case (Some m)
    let ?r = "r\<lparr>threads := (threads r)(i := Serving es')\<rparr>"
    have inv: "room_inv ?r" using assms by (intro room_inv_threads) simp_all
    show ?thesis
    proof (cases "write_to_clients m ?r")
      case (Inl f)
      then have "f = Diverges" using write_to_slots_Inl rm(2) Some unfolding write_to_clients_def by blast
      then show ?thesis using room_inv_fault [OF assms(1), of Diverges] rm(1) Some Inl by (simp add: client_round_def)
    next
      case (Inr r')
      then have "room_inv r'"
        using inv write_to_slots_fields [of m "clients ?r" ?r r'] unfolding write_to_clients_def room_inv_def by metis
      then show ?thesis using rm(1) Some Inr by (simp add: client_round_def)
    qed
  qed
qed

lemma room_inv_leave:
  assumes "room_inv r" and "threads r i = Closing"
  shows "room_inv (leave i r)"
proof -
  note D = room_invD [OF assms(1)]
  have i: "i < length (clients r)" "clients r ! i \<noteq> None" using D(1) D(3) [of i] assms(2) by auto
  then show ?thesis
    by (intro room_invI) (use D filter_update_None [OF i] in \<open>simp_all add: leave_def nth_list_update\<close>)
qed

lemma room_inv_step:
  assumes "room_inv r" and "room_step l r = Some r'"
  shows "room_inv r'"
proof (cases l)
  case (Accept fd es)
  then have "r' = r\<lparr>main := Accepted fd es, open_fds := insert fd (open_fds r), received := (received r)(fd := [])\<rparr>"
    and "clientsCount r < int MAX_CLIENTS"
    using assms(2) by (simp_all split: if_splits)
  then show ?thesis by (intro room_invI) (use room_invD [OF assms(1)] in simp_all)
next
  case AcceptFails
  then show ?thesis using assms room_inv_fault [of r "ProcessExit 1"] by (auto split: if_splits)
next
  case Register
  then show ?thesis using assms room_inv_register by (auto split: main_thread.splits if_splits)
next
  case (Test i)
  then obtain es where "threads r i = Serving es" "r' = client_test i es r"
    using assms(2) by (auto split: client_thread.splits if_splits)
  then show ?thesis using assms(1) room_inv_close [of r i] room_inv_threads [of r i] by (simp add: client_test_def)
next
  case (Round i)
  then show ?thesis using assms room_inv_round by (auto split: client_thread.splits if_splits)
next
  case (Leave i)
  then show ?thesis using assms room_inv_leave by (auto split: if_splits)
next
  case Interrupt
  then show ?thesis using assms by (auto simp: room_inv_def)
qed

section \<open>What the clients receive\<close>

text \<open>A run in which \<^verbatim>\<open>accept\<close> never gives a descriptor that is still in the table.\<close>

fun careful_step :: "room_label \<Rightarrow> room \<Rightarrow> room option" where
  "careful_step (Accept fd es) r = (if Some fd \<in> set (clients r) then None else room_step (Accept fd es) r)"
| "careful_step l r = room_step l r"

lemma careful_room_step: "careful_step l r = Some r' \<Longrightarrow> room_step l r = Some r'"
  by (cases l) (simp_all split: if_splits)

definition log_inv :: "string list \<Rightarrow> room \<Rightarrow> bool" where
  "log_inv log r \<longleftrightarrow> unique_fds (clients r)
     \<and> (\<forall>fd. Some fd \<in> set (clients r) \<longrightarrow> (\<exists>before. log = before @ received r fd))
     \<and> (\<forall>fd es. main r = Accepted fd es \<longrightarrow> Some fd \<notin> set (clients r) \<and> received r fd = [])"

lemma log_inv_cong:
  "log_inv log r \<Longrightarrow> clients r' = clients r \<Longrightarrow> received r' = received r \<Longrightarrow> main r' = main r \<Longrightarrow> log_inv log r'"
  by (simp add: log_inv_def)

lemma log_inv_register:
  assumes "room_inv r" and "log_inv log r" and "main r = Accepted fd es"
  shows "log_inv log (register_client fd es r)"
proof (cases "free_slot (clients r)")
  case None
  then show ?thesis using assms(2) by (simp add: register_client_def log_inv_def)
next
  case (Some i)
  then have i: "i < length (clients r)" "clients r ! i = None" using free_slot_Some by auto
  have "unique_fds ((clients r)[i := Some fd])"
    using assms(2,3) i by (intro unique_fds_update) (auto simp: log_inv_def)
  moreover have "\<exists>before. log = before @ received r fd'" if "Some fd' \<in> set ((clients r)[i := Some fd])" for fd'
  proof -
    have "Some fd' \<in> insert (Some fd) (set (clients r))" using that set_update_subset_insert by fast
    then show ?thesis using assms(2,3) by (auto simp: log_inv_def)
  qed
  ultimately show ?thesis using Some by (simp add: register_client_def log_inv_def)
qed

lemma log_inv_broadcast:
  assumes "log_inv log r" and "m \<noteq> []" and "write_to_clients m r = Inr r'"
  shows "log_inv (log @ [rev (enc_le 4 (length m mod 2 ^ 32)) @ m]) r'"
proof -
  have f: "clients r' = clients r" "main r' = main r"
    using write_to_slots_fields assms(3) unfolding write_to_clients_def by blast+
  have "received r' fd = received r fd @ (if Some fd \<in> set (clients r) then [rev (enc_le 4 (length m mod 2 ^ 32)) @ m] else [])" for fd
    using write_to_slots_received [OF assms(2)] assms(1,3) unfolding write_to_clients_def log_inv_def by blast
  then show ?thesis using assms(1) f by (simp add: log_inv_def)
qed

lemma log_inv_leave:
  assumes "room_inv r" and "log_inv log r" and "threads r i = Closing"
  shows "log_inv log (leave i r)"
proof -
  have i: "i < length (clients r)" using room_invD(1) [OF assms(1)] room_invD(3) [OF assms(1), of i] assms(3) by auto
  have sub: "Some fd \<in> set (clients r)" if "Some fd \<in> set ((clients r)[i := None])" for fd
    using that set_update_subset_insert [of "clients r" i None] by blast
  have "unique_fds ((clients r)[i := None])" using assms(2) i by (intro unique_fds_update) (auto simp: log_inv_def)
  then show ?thesis using assms(2) sub by (auto simp: log_inv_def leave_def)
qed

lemma log_inv_step:
  assumes "room_inv r" and "log_inv log r" and "careful_step l r = Some r'"
  shows "\<exists>log'. log_inv log' r'"
proof (cases l)
  case (Accept fd es)
  then have "r' = r\<lparr>main := Accepted fd es, open_fds := insert fd (open_fds r), received := (received r)(fd := [])\<rparr>"
    and "Some fd \<notin> set (clients r)" using assms(3) by (simp_all split: if_splits)
  then have "log_inv log r'" using assms(2) by (auto simp: log_inv_def)
  then show ?thesis ..
next
  case AcceptFails
  then have "r' = set_fault (ProcessExit 1) r" using assms(3) by (simp split: if_splits)
  then have "log_inv log r'" by (intro log_inv_cong [OF assms(2)]) (simp_all add: set_fault_def)
  then show ?thesis ..
next
  case Register
  then obtain fd es where "main r = Accepted fd es" "r' = register_client fd es r"
    using assms(3) by (auto split: main_thread.splits if_splits)
  then show ?thesis using log_inv_register [OF assms(1,2)] by blast
next
  case (Test i)
  then obtain es where "r' = client_test i es r" using assms(3) by (auto split: client_thread.splits if_splits)
  then have "log_inv log r'" by (intro log_inv_cong [OF assms(2)]) (simp_all add: client_test_def close_client_def)
  then show ?thesis ..
next
  case (Round i)
  then obtain es where r': "r' = client_round i es r" using assms(3) by (auto split: client_thread.splits if_splits)
  obtain x es' where rm: "read_message es = Inr (x, es')" "\<forall>m. x = Some m \<longrightarrow> m \<noteq> []" using read_message_total by blast
  show ?thesis
  proof (cases x)
    case None
    then have "log_inv log r'"
      using rm r' by (intro log_inv_cong [OF assms(2)]) (simp_all add: client_round_def close_client_def)
    then show ?thesis ..
  next
    case (Some m)
    let ?r = "r\<lparr>threads := (threads r)(i := Serving es')\<rparr>"
    have inv: "log_inv log ?r" by (intro log_inv_cong [OF assms(2)]) simp_all
    show ?thesis
    proof (cases "write_to_clients m ?r")
      case (Inl f)
      then have "log_inv log r'" using rm r' Some
        by (intro log_inv_cong [OF assms(2)]) (simp_all add: client_round_def set_fault_def)
      then show ?thesis ..
    next
      case (Inr r1)
      then show ?thesis using log_inv_broadcast [OF inv _ Inr] rm r' Some by (auto simp: client_round_def)
    qed
  qed
next
  case (Leave i)
  then show ?thesis using assms log_inv_leave [OF assms(1,2)] by (auto split: if_splits)
next
  case Interrupt
  then have "r' = r\<lparr>endSession := True\<rparr>" using assms(3) by simp
  then have "log_inv log r'" by (intro log_inv_cong [OF assms(2)]) simp_all
  then show ?thesis ..
qed

interpretation chat_room: transition_system room_step "\<lambda>r. r = room_start" room_inv
  by unfold_locales (auto intro: room_inv_step simp: room_inv_start)

interpretation careful_room: transition_system careful_step "\<lambda>r. r = room_start" "\<lambda>r. room_inv r \<and> (\<exists>log. log_inv log r)"
proof
  have "unique_fds (replicate n None)" for n by (induction n) auto
  then have "log_inv [] room_start" by (simp add: log_inv_def room_start_def)
  then show "room_inv s \<and> (\<exists>log. log_inv log s)" if "s = room_start" for s using room_inv_start that by blast
qed (meson careful_room_step log_inv_step room_inv_step)

text \<open>Two clients join; the second one says \<open>hi\<close>, or says it after the first has left.\<close>

definition says_hi :: "read_event list" where
  "says_hi = [Got (rev (enc_le 4 2)), ReadIntr, Got ''hi'']"

definition two_join :: "room_label list" where
  "two_join = [Accept 1 [], Register, Accept 2 says_hi, Register]"

definition two_joined :: room where
  "two_joined = \<lparr>clients = [Some 1, Some 2, None, None, None, None, None, None], clientsCount = 2, endSession = False,
     main = Accepting, threads = (\<lambda>_. NoThread)(0 := Serving [], 1 := Serving says_hi), open_fds = {1, 2},
     received = (\<lambda>_. []), fault = None\<rparr>"

lemma two_join_run: "run careful_step two_join room_start = Some two_joined" "run room_step two_join room_start = Some two_joined"
  by (simp_all add: two_join_def two_joined_def room_start_def register_client_def MAX_CLIENTS_def numeral_eq_Suc fun_upd_idem insert_commute)

lemma says_hi_read: "\<exists>es'. read_message says_hi = Inr (Some ''hi'', es')"
proof -
  have two: "length ''hi'' = 2" by simp
  have ne: "enc_le 4 2 \<noteq> []" by (metis length_enc_le list.size(3) zero_neq_numeral)
  have "patient says_hi" "stream says_hi = rev (enc_le 4 (length ''hi'')) @ ''hi'' @ []"
    unfolding two by (simp_all only: says_hi_def patient.simps stream.simps) (use ne in simp_all)
  moreover have "length ''hi'' < 2 ^ 32" by simp
  ultimately show ?thesis using read_message_ok [of says_hi "''hi''" "[]"] by blast
qed

definition hi_frame :: string where
  "hi_frame = rev (enc_le 4 2) @ ''hi''"

lemma frame_of_hi: "frame_of ''hi'' = Inr hi_frame"
proof -
  have "length ''hi'' mod 2 ^ 32 = 2" by simp
  then show ?thesis using frame_of_ok [of "''hi''"] unfolding hi_frame_def by (simp only: list.distinct not_False_eq_True)
qed

lemma hi_heard: "\<exists>r. run careful_step (two_join @ [Test 1, Round 1]) room_start = Some r \<and> clients r ! 0 = Some 1
    \<and> received r 1 = [hi_frame] \<and> received r 2 = [hi_frame]"
proof -
  obtain es' where "read_message says_hi = Inr (Some ''hi'', es')" using says_hi_read by blast
  then show ?thesis
    unfolding run_append two_join_run
    by (simp add: two_joined_def client_test_def client_round_def write_to_clients_def frame_of_hi)
qed

section \<open>Properties\<close>





text \<open>
  A client's thread closes its connection before it gives up its slot. A message sent in between makes the
  broadcast write to a closed descriptor for ever, with the mutex held; and a client that joins in between with the same
  descriptor receives every message twice.
\<close>

theorem room_leaving_races:
  "(\<exists>r. run room_step (two_join @ [Test 0, Round 0, Test 1, Round 1]) room_start = Some r \<and> fault r = Some Diverges)
   \<and> (\<exists>r. run room_step (two_join @ [Test 0, Round 0, Accept 1 [], Register, Test 1, Round 1]) room_start = Some r
        \<and> received r 1 = [hi_frame, hi_frame])"
proof -
  obtain es' where hi: "read_message says_hi = Inr (Some ''hi'', es')" using says_hi_read by blast
  have none: "read_message [] = Inr (None, [])"
    by (simp add: read_message_def get_message_size_def chat_read_all_def chat_read_loop.simps)
  show ?thesis
    unfolding run_append two_join_run
    by (simp add: two_joined_def client_test_def client_round_def close_client_def none hi write_to_clients_def frame_of_hi
        set_fault_def register_client_def MAX_CLIENTS_def)
qed

end
