(* ===== verification/ChatClient.thy ===== *)
theory ChatClient
  imports ChatServer
begin

text \<open>
  \<^verbatim>\<open>charming_chatroom/client.c\<close>: the two threads of a chat client. What the user types is a list of lines
  (after them \<^verbatim>\<open>read_message_from_screen\<close> gives a null pointer); what the other thread prints is the list of
  its strings. Cancellation and the window are not modelled. The two loops send and read the frames
  of the server (\<open>frame_of\<close> and \<open>read_message\<close> are the same text in both programs).
\<close>

fun write_to_server :: "string \<Rightarrow> string list \<Rightarrow> string res" where
  "write_to_server name [] = Inr []"
| "write_to_server name (buffer # ls) =
     bindE (frame_of (create_message name buffer @ [NUL])) (\<lambda>bytes.
     bindE (write_to_server name ls) (\<lambda>rest. Inr (bytes @ rest)))"

text \<open>At most \<open>fuel\<close> rounds. A message without a terminator is printed past the end of its buffer.\<close>

fun read_from_server :: "nat \<Rightarrow> read_event list \<Rightarrow> string list res option" where
  "read_from_server 0 es = None"
| "read_from_server (Suc fuel) es =
     (case read_message es of
        Inl f \<Rightarrow> Some (Inl f)
      | Inr (None, es') \<Rightarrow> Some (Inr [])
      | Inr (Some buffer, es') \<Rightarrow>
          (case scan_nul buffer of
             Inl f \<Rightarrow> Some (Inl f)
           | Inr n \<Rightarrow> map_option (\<lambda>x. bindE x (\<lambda>ms. Inr (take n buffer # ms))) (read_from_server fuel es')))"

section \<open>Properties\<close>

lemma read_message_end:
  assumes "patient es" and "stream es = []"
  shows "\<exists>es'. read_message es = Inr (None, es')"
  using chat_read_loop_clean [OF assms(1), of "[]" 4] assms(2)
  by (simp add: read_message_def get_message_size_def chat_read_all_def)

text \<open>What a client may type so that its message fits a 32-bit size.\<close>

definition typable :: "string \<Rightarrow> string \<Rightarrow> bool" where
  "typable name l \<longleftrightarrow> NUL \<notin> set name \<and> NUL \<notin> set l \<and> length name + length l + 3 < 2 ^ 32"

lemma write_to_server_Cons:
  assumes "typable name l"
  shows "write_to_server name (l # ls) = bindE (write_to_server name ls) (\<lambda>rest.
    Inr (rev (enc_le 4 (length (create_message name l @ [NUL]))) @ (create_message name l @ [NUL]) @ rest))"
proof -
  let ?m = "create_message name l @ [NUL]"
  have "length ?m mod 2 ^ 32 = length ?m" using assms by (simp add: typable_def create_message_def)
  then have "frame_of ?m = Inr (rev (enc_le 4 (length ?m)) @ ?m)" using frame_of_ok [of ?m] by simp
  then show ?thesis by (simp only: write_to_server.simps bindE_Inr append_assoc)
qed



end
