(* ===== verification/ChatMain.thy ===== *)
theory ChatMain
  imports ChatClient Sockets
begin

text \<open>
  The two programs of \<^verbatim>\<open>charming_chatroom\<close> around their loops: \<^verbatim>\<open>main\<close>, the beginning of \<^verbatim>\<open>run_server\<close> and \<^verbatim>\<open>cleanup\<close> of
  \<^verbatim>\<open>server.c\<close>; \<^verbatim>\<open>main\<close>, the cancellation handler and \<^verbatim>\<open>close_program\<close> of \<^verbatim>\<open>client.c\<close>. The window is a library that is
  not in the repository.
\<close>

section \<open>The server\<close>

text \<open>
  The result is the listening socket and the room. The global \<^verbatim>\<open>serverSocket\<close> is a field of the process and nothing
  assigns it.
\<close>

record chat_process =
  serverSocket :: nat
  listener :: nat
  room_of :: room

definition chat_server_main :: "outcomes \<Rightarrow> bool \<Rightarrow> string list \<Rightarrow> kernel \<Rightarrow> chat_process res \<times> kernel" where
  "chat_server_main oc handler argv k =
     (if length argv \<noteq> 2 then (Inl (ProcessExit 255), k)
      else if \<not> handler then (Inl (ProcessExit 1), k)
      else case start_room_socket oc (argv ! 1) k of
        (Inl f, k') \<Rightarrow> (Inl f, k')
      | (Inr socket_id, k') \<Rightarrow> (Inr \<lparr>serverSocket = 0, listener = socket_id, room_of = room_start\<rparr>, k'))"

definition close_table :: "nat option list \<Rightarrow> kernel \<Rightarrow> kernel" where
  "close_table cs k = fold (\<lambda>c k. case c of None \<Rightarrow> k | Some fd \<Rightarrow> sys_close fd k) cs k"

definition cleanup :: "chat_process \<Rightarrow> kernel \<Rightarrow> kernel" where
  "cleanup p k = close_table (clients (room_of p)) (sys_close (serverSocket p) k)"

lemma fds_close_table: "fds (close_table cs k) fd = (if Some fd \<in> set cs then None else fds k fd)"
proof (induction cs arbitrary: k)
  case (Cons c cs)
  then show ?case by (cases c) (auto simp: close_table_def)
qed (simp add: close_table_def)

lemma fds_cleanup: "fds (cleanup p k) fd = (if fd = serverSocket p \<or> Some fd \<in> set (clients (room_of p)) then None else fds k fd)"
  by (simp add: cleanup_def fds_close_table)

section \<open>The client\<close>

record chat_config =
  username :: string
  output_file :: "string option"
  socket_of :: nat

text \<open>The function that connects, letter for letter that of the nonstop client.\<close>

definition room_connect_to_server :: "outcomes \<Rightarrow> string \<Rightarrow> string \<Rightarrow> kernel \<Rightarrow> nat res \<times> kernel" where
  "room_connect_to_server oc host port k = connect_to_server oc host port k"

definition chat_client_main :: "outcomes \<Rightarrow> string list \<Rightarrow> kernel \<Rightarrow> chat_config res \<times> kernel" where
  "chat_client_main oc argv k =
     (if length argv < 4 \<or> 5 < length argv then (Inl (ProcessExit 1), k)
      else case room_connect_to_server oc (argv ! 1) (argv ! 2) k of
        (Inl f, k') \<Rightarrow> (Inl f, k')
      | (Inr s, k') \<Rightarrow>
          (Inr \<lparr>username = argv ! 3, output_file = (if length argv = 5 then Some (argv ! 4) else None), socket_of = s\<rparr>, k'))"

text \<open>
  The globals of the client, for the handler of SIGINT, which is in place before the connection and the threads are:
  until then \<open>client_socket\<close> is 0 and \<open>thread_ids\<close> are \<open>None\<close>, and cancelling a thread that was never created is undefined.
\<close>

record chat_client =
  client_socket :: nat
  thread_ids :: "nat option list"
  cancelled :: "nat list"
  window_open :: bool

definition client_start :: chat_client where
  "client_start = \<lparr>client_socket = 0, thread_ids = [None, None], cancelled = [], window_open = True\<rparr>"

definition SIGINT :: int where
  "SIGINT = 2"

definition cancel_thread :: "nat \<Rightarrow> chat_client \<Rightarrow> chat_client res" where
  "cancel_thread i c =
     (case thread_ids c ! i of None \<Rightarrow> Inl Uninitialised | Some t \<Rightarrow> Inr (c\<lparr>cancelled := cancelled c @ [t]\<rparr>))"

definition close_server_connection :: "chat_client \<Rightarrow> kernel \<Rightarrow> kernel" where
  "close_server_connection c k = sys_close (client_socket c) k"

definition close_program :: "int \<Rightarrow> chat_client \<Rightarrow> kernel \<Rightarrow> (chat_client \<times> kernel) res" where
  "close_program signal c k =
     (if signal = SIGINT
      then bindE (cancel_thread 0 c) (\<lambda>c. bindE (cancel_thread 1 c) (\<lambda>c.
             let c = c\<lparr>window_open := False\<rparr> in Inr (c, close_server_connection c k)))
      else Inr (c, k))"

lemma close_program_early: "close_program SIGINT client_start k = Inl Uninitialised"
  by (simp add: close_program_def cancel_thread_def client_start_def)

text \<open>Once both threads run, the handler asks both to end and closes the connection, and nothing else.\<close>

lemma close_program_closes:
  fixes t1 t2 :: nat
  assumes "room_connect_to_server oc h p k = (Inr s, k')"
  defines "c \<equiv> client_start\<lparr>client_socket := s, thread_ids := [Some t1, Some t2]\<rparr>"
  shows "\<exists>c' k''. close_program SIGINT c k' = Inr (c', k'') \<and> cancelled c' = [t1, t2] \<and> \<not> window_open c'
    \<and> fds k'' = (fds k)(s := None)"
proof -
  have "fds k' = (fds k)(s := fds k' s)"
    using assms(1) by (auto simp: room_connect_to_server_def connect_to_server_def Let_def fun_eq_iff split: option.splits if_splits)
  then have "(fds k')(s := None) = (fds k)(s := None)" by (metis fun_upd_upd)
  then show ?thesis
    by (simp add: c_def close_program_def cancel_thread_def client_start_def close_server_connection_def Let_def)
qed

text \<open>
  The thread that reads from the server, with its buffer in the store: \<open>AtSize\<close>, \<open>AtRead\<close> and \<open>AtPrint\<close> are the calls in
  which it can be cancelled. \<open>handled\<close>: the cancellation handler has run.
\<close>

datatype reader_place = AtSize | AtRead nat | AtPrint | Returned

record reader =
  rheap :: "char heap"
  rbuffer :: ptr
  place :: reader_place
  handled :: bool

definition reader_start :: "char heap \<Rightarrow> reader" where
  "reader_start h = \<lparr>rheap = h, rbuffer = Null, place = AtSize, handled = False\<rparr>"

text \<open>The handler gets the buffer and, for the other thread, the message.\<close>

definition thread_cancellation_handler :: "ptr \<Rightarrow> ptr option \<Rightarrow> char heap \<Rightarrow> (ptr \<times> ptr option \<times> char heap) res" where
  "thread_cancellation_handler buffer msg h =
     bindE (if buffer \<noteq> Null then bindE (hfree buffer h) (\<lambda>h. Inr (Null, h)) else Inr (buffer, h)) (\<lambda>(buffer, h).
       case msg of
         None \<Rightarrow> Inr (buffer, None, h)
       | Some m \<Rightarrow>
           if m \<noteq> Null then bindE (hfree m h) (\<lambda>h. Inr (buffer, Some Null, h)) else Inr (buffer, Some m, h))"

text \<open>The end of a round frees the buffer; a result that is not positive ends the thread.\<close>

definition free_buffer :: "reader_place \<Rightarrow> reader \<Rightarrow> reader res" where
  "free_buffer p r = bindE (hfree (rbuffer r) (rheap r)) (\<lambda>h. Inr (r\<lparr>rheap := h, rbuffer := Null, place := p\<rparr>))"

datatype reader_event = SizeIs int | ReadIs int | Printed_it | Cancel

fun reader_step :: "reader_event \<Rightarrow> reader \<Rightarrow> reader res option" where
  "reader_step (SizeIs n) r =
     (if place r \<noteq> AtSize then None
      else if 0 < n
      then let (p, h) = halloc (replicate (nat n) NUL) (rheap r)
           in Some (Inr (r\<lparr>rheap := h, rbuffer := p, place := AtRead (nat n)\<rparr>))
      else Some (free_buffer Returned r))"
| "reader_step (ReadIs n) r =
     (case place r of
        AtRead m \<Rightarrow> if 0 < n then Some (Inr (r\<lparr>place := AtPrint\<rparr>)) else Some (free_buffer Returned r)
      | _ \<Rightarrow> None)"
| "reader_step Printed_it r = (if place r = AtPrint then Some (free_buffer AtSize r) else None)"
| "reader_step Cancel r =
     (if place r = Returned then None
      else Some (bindE (thread_cancellation_handler (rbuffer r) None (rheap r)) (\<lambda>(b, _, h).
        Inr (r\<lparr>rheap := h, rbuffer := b, place := Returned, handled := True\<rparr>))))"

text \<open>A run stops at a fault.\<close>

definition reader_next :: "reader_event \<Rightarrow> reader res \<Rightarrow> reader res option" where
  "reader_next e x = (case x of Inl f \<Rightarrow> None | Inr r \<Rightarrow> reader_step e r)"

text \<open>What the thread has allocated is its buffer.\<close>

definition reader_inv :: "char heap \<Rightarrow> reader res \<Rightarrow> bool" where
  "reader_inv h0 x \<longleftrightarrow> (\<exists>r. x = Inr r \<and> heap_ok (rheap r) \<and>
     (case rbuffer r of
        Null \<Rightarrow> blocks (rheap r) = blocks h0 \<and> place r \<in> {AtSize, Returned}
      | Ptr b i \<Rightarrow> i = 0 \<and> blocks h0 b = None \<and> place r \<noteq> Returned
          \<and> (\<exists>cs. blocks (rheap r) = (blocks h0)(b \<mapsto> cs)) \<and> place r \<noteq> AtSize
      | Wild \<Rightarrow> False))"

lemma reader_inv_cases:
  assumes "reader_inv h0 x"
  obtains (idle) r where "x = Inr r" "heap_ok (rheap r)" "rbuffer r = Null" "blocks (rheap r) = blocks h0"
      "place r \<in> {AtSize, Returned}"
  | (busy) r b cs where "x = Inr r" "heap_ok (rheap r)" "rbuffer r = Ptr b 0" "blocks h0 b = None"
      "blocks (rheap r) = (blocks h0)(b \<mapsto> cs)" "place r \<notin> {AtSize, Returned}"
proof -
  obtain r where r: "x = Inr r" using assms by (auto simp: reader_inv_def)
  show thesis
    by (cases "rbuffer r") (use assms r that in \<open>auto simp: reader_inv_def\<close>)
qed

lemma upd_None_same: "m b = None \<Longrightarrow> m(b := None) = m"
  by auto

lemma free_buffer_ok:
  assumes "reader_inv h0 (Inr r)" and "p \<in> {AtSize, Returned}"
  shows "reader_inv h0 (free_buffer p r)"
  using assms(1)
proof (cases rule: reader_inv_cases)
  case (idle r')
  then show ?thesis using assms(2) by (simp add: free_buffer_def reader_inv_def)
next
  case (busy r' b cs)
  then show ?thesis using assms(2) heap_ok_update [of "rheap r" b] by (simp add: free_buffer_def reader_inv_def upd_None_same)
qed

lemma reader_inv_step:
  assumes "reader_inv h0 x" and "reader_next e x = Some x'"
  shows "reader_inv h0 x'"
proof -
  obtain r where x: "x = Inr r" using assms(2) by (auto simp: reader_next_def split: sum.splits)
  then have inv: "reader_inv h0 (Inr r)" and step: "reader_step e r = Some x'" using assms by (simp_all add: reader_next_def)
  note freed = free_buffer_ok [OF inv, of Returned] free_buffer_ok [OF inv, of AtSize]
  show ?thesis
  proof (cases e)
    case (SizeIs n)
    show ?thesis
    proof (cases "0 < n")
      case True
      with inv show ?thesis
      proof (cases rule: reader_inv_cases)
        case (idle r')
        have "heap_ok (snd (halloc (replicate (nat n) NUL) (rheap r)))" using idle(1,2) heap_ok_halloc by blast
        moreover have "blocks h0 (next_block (rheap r)) = None" using idle heap_ok_fresh [of "rheap r"] by simp
        ultimately show ?thesis
          using step SizeIs True idle by (auto simp: reader_inv_def halloc_def split: if_splits)
      qed (use step SizeIs in auto)
    qed (use step SizeIs freed in \<open>auto split: if_splits\<close>)
  next
    case (ReadIs n)
    then obtain m where m: "place r = AtRead m" using step by (auto split: reader_place.splits)
    from inv have "reader_inv h0 (Inr (r\<lparr>place := AtPrint\<rparr>))"
      by (cases rule: reader_inv_cases) (use m in \<open>auto simp: reader_inv_def\<close>)
    then show ?thesis using step ReadIs m freed(1) by (auto split: if_splits)
  next
    case Printed_it
    then show ?thesis using step freed by (auto split: if_splits)
  next
    case Cancel
    with inv show ?thesis
    proof (cases rule: reader_inv_cases)
      case (idle r')
      then show ?thesis using step Cancel by (auto simp: thread_cancellation_handler_def reader_inv_def split: if_splits)
    next
      case (busy r' b cs)
      then show ?thesis
        using step Cancel heap_ok_update [of "rheap r" b] by (auto simp: thread_cancellation_handler_def reader_inv_def upd_None_same split: if_splits)
    qed
  qed
qed

interpretation chat_reader: transition_system reader_next "\<lambda>x. x = Inr (reader_start h0) \<and> heap_ok h0" "reader_inv h0" for h0
  by unfold_locales (simp add: reader_inv_def reader_start_def, rule reader_inv_step)

section \<open>Properties\<close>

text \<open>
  Whatever the server sends and at whatever call the thread is cancelled, the client's reading thread never frees
  twice or what it does not own, and when it has returned or was cancelled the store is what it was before.
\<close>

theorem chat_reader_cancellation:
  assumes "run reader_next es (Inr (reader_start h0)) = Some x" and "heap_ok h0"
  shows "\<exists>r. x = Inr r \<and> (place r = Returned \<longrightarrow> rbuffer r = Null \<and> blocks (rheap r) = blocks h0)"
proof -
  have "reader_inv h0 x" by (rule chat_reader.reachable [OF assms(1)]) (simp add: assms(2))
  then show ?thesis by (cases rule: reader_inv_cases) auto
qed

theorem chat_reader_cancellation_witness:
  "\<exists>r. run reader_next [SizeIs 3, ReadIs 3, Printed_it, SizeIs 2, Cancel] (Inr (reader_start (empty_heap NUL))) = Some (Inr r)
     \<and> place r = Returned \<and> handled r \<and> blocks (rheap r) = Map.empty"
proof -
  obtain r where r: "run reader_next [SizeIs 3, ReadIs 3, Printed_it, SizeIs 2, Cancel] (Inr (reader_start (empty_heap NUL))) = Some (Inr r)"
    "place r = Returned" "handled r"
    by (simp add: reader_next_def reader_start_def free_buffer_def thread_cancellation_handler_def halloc_def empty_heap_def)
  have "blocks (rheap r) = blocks (empty_heap NUL)" using r chat_reader_cancellation [OF r(1) heap_ok_empty] by auto
  then show ?thesis using r by (auto simp: empty_heap_def simp del: run.simps)
qed

text \<open>
  A chat server that has started, whatever its clients did since, ends by closing every client in its table and
  descriptor 0; the listening socket stays open when no client has its number.
\<close>

theorem cleanup_leaves_listener:
  assumes "chat_server_main oc handler argv k = (Inr p, k')" and "fds k 0 \<noteq> None" and "new_socket oc \<noteq> Some 0"
    and "run room_step ls (room_of p) = Some r" and "Some (listener p) \<notin> set (clients r)"
  shows "fds (cleanup (p\<lparr>room_of := r\<rparr>) k') 0 = None
    \<and> fds (cleanup (p\<lparr>room_of := r\<rparr>) k') (listener p) = Some \<lparr>state_of = Listening (argv ! 1) 8, options = {SO_REUSEPORT}\<rparr>
    \<and> (\<forall>fd. Some fd \<in> set (clients r) \<longrightarrow> fds (cleanup (p\<lparr>room_of := r\<rparr>) k') fd = None)"
proof -
  obtain x k1 where x: "start_room_socket oc (argv ! 1) k = (x, k1)" by (cases "start_room_socket oc (argv ! 1) k")
  then obtain s where s: "x = Inr s" "p = \<lparr>serverSocket = 0, listener = s, room_of = room_start\<rparr>" "k' = k1"
    using assms(1) by (auto simp: chat_server_main_def split: if_splits sum.splits)
  have "new_socket oc = Some s" "fds k' s = Some \<lparr>state_of = Listening (argv ! 1) 8, options = {SO_REUSEPORT}\<rparr>"
    using start_room_socket_listens(1,2) [OF x, of s] s by auto
  then show ?thesis using assms(3,5) s(2) by (auto simp: fds_cleanup)
qed

end
