(* ===== verification/CamelCaserTests.thy ===== *)
theory CamelCaserTests
  imports CamelCaser
begin

text \<open>
  \<^verbatim>\<open>extreme_edge_cases/camelCaser_tests.c\<close>: the tests of \<open>CamelCaser\<close>, with the texts and the expected words of the
  file. A test gets the two functions under test as arguments, as in the code; the theorems run it on the model of
  \<^verbatim>\<open>camelCaser.c\<close>.
\<close>

section \<open>Comparing\<close>

text \<open>Whether \<^verbatim>\<open>strcmp\<close> gives 0; it stops at the first difference or at the end of both, and does not read further.\<close>

fun strcmp_0 :: "char list \<Rightarrow> char list \<Rightarrow> bool res" where
  "strcmp_0 (c # cs) (d # ds) = (if c \<noteq> d then Inr False else if c = NUL then Inr True else strcmp_0 cs ds)"
| "strcmp_0 _ _ = Inl OutOfBounds"

text \<open>
  The two arrays from \<open>*first\<close> and \<open>*second\<close> on. The second one is an array of the test: a literal or \<^verbatim>\<open>NULL\<close> in
  every element.
\<close>

fun equals :: "slot list \<Rightarrow> string option list \<Rightarrow> bool res" where
  "equals (NullSlot # first) (None # second) = Inr True"
| "equals (NullSlot # first) (Some w # second) = Inr False"
| "equals (WordBuf b # first) (None # second) = Inr False"
| "equals (WordBuf b # first) (Some w # second) =
     bindE (strcmp_0 b (enc_str w)) (\<lambda>same. if same then equals first second else Inr False)"
| "equals (Indet # first) second = Inl Uninitialised"
| "equals _ _ = Inl OutOfBounds"

section \<open>The tests\<close>

type_synonym camel_fn = "string option \<Rightarrow> slot list option res"
type_synonym destroy_fn = "slot list \<Rightarrow> char list list res"

text \<open>An array declared with \<open>n\<close> elements and an initialiser: the rest is \<^verbatim>\<open>NULL\<close>.\<close>

definition initialised :: "nat \<Rightarrow> string list \<Rightarrow> string option list" where
  "initialised n ws = map Some ws @ replicate (n - length ws) None"

text \<open>What every test does with its array and the result for its text.\<close>

definition check_output :: "destroy_fn \<Rightarrow> string option list \<Rightarrow> slot list option \<Rightarrow> bool res" where
  "check_output destr expected output =
     (case output of None \<Rightarrow> Inl NullDeref
      | Some out \<Rightarrow> bindE (equals out expected) (\<lambda>eq. bindE (destr out) (\<lambda>_. Inr eq)))"

definition test_0 :: "camel_fn \<Rightarrow> destroy_fn \<Rightarrow> bool res" where
  "test_0 camelCaser destr =
     bindE (camelCaser (Some (''Hello baby. I am sexy. owieyfasdlf5543038409348__#@$3this is A TesCta.er.aasdfasfgvb'')))
     (check_output destr (initialised 10
      [''helloBaby'', ''iAmSexy'', ''owieyfasdlf5543038409348'', [], [], [], [], ''3thisIsATescta'',
       ''er'']))"

definition test_1 :: "camel_fn \<Rightarrow> destroy_fn \<Rightarrow> bool res" where
  "test_1 camelCaser destr =
     bindE (camelCaser (Some (''Lick my neck. My back. My pu$$y and my crack. ahe;naeofhaefn9830r1h19p813hdb ipu9cahweb9p7'')))
     (check_output destr (initialised 7
      [''lickMyNeck'', ''myBack'', ''myPu'', [], ''yAndMyCrack'', ''ahe'']))"

definition test_2 :: "camel_fn \<Rightarrow> destroy_fn \<Rightarrow> bool res" where
  "test_2 camelCaser destr =
     bindE (camelCaser (Some (''L'' @ [CHR 0x09] @ ''fuck'' @ [CHR 0x0A] @ ''.blaclhoeand  @@@somethin[g][]8888   J?J????fealnelmao%%%%14 2983ncfaoen'' @ [CHR 0x0A] @ ''!'')))
     (check_output destr (initialised 19
      [''lFuck'', ''blaclhoeand'', [], [], ''somethin'', ''g'', [], [], ''8888J'', ''j'', [], [], [],
       ''fealnelmao'', [], [], [], ''142983Ncfaoen'']))"

definition test_3 :: "camel_fn \<Rightarrow> destroy_fn \<Rightarrow> bool res" where
  "test_3 camelCaser destr =
     bindE (camelCaser (Some ([CHR 0x27] @ ''alne~'' @ [CHR 0x60] @ ''n%lk '' @ [CHR 0x60] @ '' '' @ [CHR 0x0A] @ '' *)&*#@ UOB%oJN8183^# *&(_+? ;;aana::b !@#$%%^&*()_mne {}{[[hello]|| +n12+__=ajne-'' @ [CHR 0x27])))
     (check_output destr (initialised 52
      [[], ''alne'', [], ''n'', ''lk'', [], [], [], [], [], [], ''uob'', ''ojn8183'', [], [], [], [],
       [], [], [], [], [], ''aana'', [], ''b'', [], [], [], [], [], [], [], [], [], [], [], ''mne'',
       [], [], [], [], ''hello'', [], [], [], ''n12'', [], [], [], ''ajne'', []]))"

definition test_4 :: "camel_fn \<Rightarrow> destroy_fn \<Rightarrow> bool res" where
  "test_4 camelCaser destr =
     bindE (camelCaser (Some (''%aq%aljn ea%d%s'' @ [CHR 0x0A] @ ''%anei;a'' @ [CHR 0x09] @ ''n|| na;eoaind @!'' @ [CHR 0x60] @ ''q [][ keja jncz. something like this? <>jjjadsd!?-=972'')))
     (check_output destr (initialised 24
      [[], ''aq'', ''aljnEa'', ''d'', ''s'', ''anei'', ''aN'', [], ''na'', ''eoaind'', [], [], ''q'',
       [], [], ''kejaJncz'', ''somethingLikeThis'', [], [], ''jjjadsd'', [], [], []]))"

definition test_5 :: "camel_fn \<Rightarrow> destroy_fn \<Rightarrow> bool res" where
  "test_5 camelCaser destr =
     bindE (camelCaser (Some (''extra POLAR iCe!!! <grainger> can suck my ass... (uwu) aelnaife polnareff%%%.?1nones'' @ [CHR 0x0A])))
     (check_output destr (initialised 24
      [''extraPolarIce'', [], [], [], ''grainger'', ''canSuckMyAss'', [], [], [], ''uwu'',
       ''aelnaifePolnareff'', [], [], [], []]))"

definition test_6 :: "camel_fn \<Rightarrow> destroy_fn \<Rightarrow> bool res" where
  "test_6 camelCaser destr =
     bindE (camelCaser (Some (''*fuck shit bitch young shack wes is really really rich* mo bamba '' @ [CHR 0x09] @ '' bingo'')))
     (check_output destr (initialised 3
      [[], ''fuckShitBitchYoungShackWesIsReallyReallyRich'']))"

definition test_7 :: "camel_fn \<Rightarrow> destroy_fn \<Rightarrow> bool res" where
  "test_7 camelCaser destr =
     bindE (camelCaser (Some (''this is the end of wakanda. avengers ASSemble! I am inevitable - THANASS'')))
     (check_output destr (initialised 4
      [''thisIsTheEndOfWakanda'', ''avengersAssemble'', ''iAmInevitable'']))"

definition test_8 :: "camel_fn \<Rightarrow> destroy_fn \<Rightarrow> bool res" where
  "test_8 camelCaser destr =
     bindE (camelCaser (Some (''colors weave into a spire of flame ! distant sparks call to a past still unnamed . +'')))
     (check_output destr (initialised 4
      [''colorsWeaveIntoASpireOfFlame'', ''distantSparksCallToAPastStillUnnamed'', []]))"

definition test_9 :: "camel_fn \<Rightarrow> destroy_fn \<Rightarrow> bool res" where
  "test_9 camelCaser destr =
     bindE (camelCaser (Some ([CHR 0x60] @ ''~!QAZxsw2@#EDC VFR$ 5TGB NHY^ 67ujm <KI* 9ol., )P:?/'' @ [CHR 0x27] @ ''[--+_+}{?>:'')))
     (check_output destr (initialised 28
      [[], [], [], ''qazxsw2'', [], ''edcVfr'', ''5tgbNhy'', ''67ujm'', ''ki'', ''9ol'', [], [],
       ''p'', [], [], [], [], [], [], [], [], [], [], [], [], [], []]))"

definition test_10 :: "camel_fn \<Rightarrow> destroy_fn \<Rightarrow> bool res" where
  "test_10 camelCaser destr =
     bindE (camelCaser (Some (''aaa 8888hello.'')))
     (check_output destr (initialised 25
      [''aaa8888Hello'']))"

definition test_11 :: "camel_fn \<Rightarrow> destroy_fn \<Rightarrow> bool res" where
  "test_11 camelCaser destr =
     bindE (camelCaser (Some ([CHR 0x0A] @ ''.'' @ [CHR 0x0C] @ ''.'' @ [CHR 0x0B] @ ''.'' @ [CHR 0x09] @ ''.'' @ [CHR 0x0D])))
     (check_output destr (initialised 5
      [[], [], [], []]))"

definition test_12 :: "camel_fn \<Rightarrow> destroy_fn \<Rightarrow> bool res" where
  "test_12 camelCaser destr =
     bindE (camelCaser (Some ([])))
     (\<lambda>output. if output = None then Inr True else check_output destr (initialised 1 []) output)"

text \<open>The twelfth test is switched off by a comment.\<close>

definition test_camelCaser :: "camel_fn \<Rightarrow> destroy_fn \<Rightarrow> bool res" where
  "test_camelCaser camelCaser destr =
     bindE (test_0 camelCaser destr) (\<lambda>b. if \<not> b then Inr False else
     bindE (test_1 camelCaser destr) (\<lambda>b. if \<not> b then Inr False else
     bindE (test_2 camelCaser destr) (\<lambda>b. if \<not> b then Inr False else
     bindE (test_3 camelCaser destr) (\<lambda>b. if \<not> b then Inr False else
     bindE (test_4 camelCaser destr) (\<lambda>b. if \<not> b then Inr False else
     bindE (test_5 camelCaser destr) (\<lambda>b. if \<not> b then Inr False else
     bindE (test_6 camelCaser destr) (\<lambda>b. if \<not> b then Inr False else
     bindE (test_7 camelCaser destr) (\<lambda>b. if \<not> b then Inr False else
     bindE (test_8 camelCaser destr) (\<lambda>b. if \<not> b then Inr False else
     bindE (test_9 camelCaser destr) (\<lambda>b. if \<not> b then Inr False else
     bindE (test_10 camelCaser destr) (\<lambda>b. if \<not> b then Inr False else
     bindE (test_11 camelCaser destr) (\<lambda>b. if \<not> b then Inr False else
     Inr True))))))))))))"

section \<open>What the tests say\<close>

lemma strcmp_0_scan:
  assumes "scan_nul b = Inr n" and "NUL \<notin> set w"
  shows "strcmp_0 b (enc_str w) = Inr (take n b = w)"
  using assms
proof (induction b arbitrary: n w)
  case (Cons c b)
  show ?case
  proof (cases w)
    case Nil
    then show ?thesis using Cons.prems by (auto simp: enc_str_def bindE_eq_Inr_iff split: if_splits)
  next
    case (Cons d ds)
    then show ?thesis
      using Cons.prems Cons.IH [of _ ds] by (auto simp: enc_str_def bindE_eq_Inr_iff split: if_splits)
  qed
qed simp

text \<open>An array that holds words compares equal to the array of the same words.\<close>

lemma equals_holds_words:
  assumes "holds_words camel ws" and "\<forall>w \<in> set vs. NUL \<notin> set w"
  shows "equals camel (map Some vs @ None # rest) = Inr (ws = vs)"
  using assms
proof (induction ws arbitrary: camel vs)
  case Nil
  then obtain cs where "camel = NullSlot # cs" by (cases camel) (auto simp: holds_words_def)
  then show ?case by (cases vs) simp_all
next
  case (Cons w ws)
  then obtain c cs where camel: "camel = c # cs" by (cases camel) (auto simp: holds_words_def)
  then have c: "slot_string c = Some w" and cs: "holds_words cs ws"
    using Cons.prems(1) by (auto simp: holds_words_def)
  from c obtain b n where b: "c = WordBuf b" "scan_nul b = Inr n" "take n b = w"
    by (cases c) (auto split: sum.splits)
  show ?case
  proof (cases vs)
    case (Cons v us)
    then have "strcmp_0 b (enc_str v) = Inr (w = v)" using strcmp_0_scan [OF b(2)] Cons.prems(2) b(3) by simp
    then show ?thesis using Cons camel b(1) Cons.IH [OF cs, of us] Cons.prems(2) by auto
  qed (simp add: camel b(1))
qed

text \<open>So a test of the scanner passes exactly when the specification gives the expected words.\<close>

lemma check_output_camel_caser:
  assumes "s \<noteq> []" and "NUL \<notin> set s" and "length ws < n" and "\<forall>w \<in> set ws. NUL \<notin> set w"
    and "camel_spec s = ws"
  shows "bindE (camel_caser jk js (Some s)) (check_output destroy (initialised n ws)) = Inr True"
proof -
  have "initialised n ws = map Some ws @ None # replicate (n - length ws - 1) None"
    using assms(3) by (simp add: initialised_def flip: replicate_Suc)
  then show ?thesis
    using camel_caser_ok [OF assms(1,2), of jk js] equals_holds_words [OF _ assms(4)] assms(5)
    by (auto simp: check_output_def)
qed

lemma test_0_passes: "test_0 (camel_caser jk js) destroy = Inr True"
  unfolding test_0_def by (rule check_output_camel_caser; code_simp)

lemma test_1_passes: "test_1 (camel_caser jk js) destroy = Inr True"
  unfolding test_1_def by (rule check_output_camel_caser; code_simp)

lemma test_2_passes: "test_2 (camel_caser jk js) destroy = Inr True"
  unfolding test_2_def by (rule check_output_camel_caser; code_simp)

lemma test_3_passes: "test_3 (camel_caser jk js) destroy = Inr True"
  unfolding test_3_def by (rule check_output_camel_caser; code_simp)

lemma test_4_passes: "test_4 (camel_caser jk js) destroy = Inr True"
  unfolding test_4_def by (rule check_output_camel_caser; code_simp)

lemma test_5_passes: "test_5 (camel_caser jk js) destroy = Inr True"
  unfolding test_5_def by (rule check_output_camel_caser; code_simp)

lemma test_6_passes: "test_6 (camel_caser jk js) destroy = Inr True"
  unfolding test_6_def by (rule check_output_camel_caser; code_simp)

lemma test_7_passes: "test_7 (camel_caser jk js) destroy = Inr True"
  unfolding test_7_def by (rule check_output_camel_caser; code_simp)

lemma test_8_passes: "test_8 (camel_caser jk js) destroy = Inr True"
  unfolding test_8_def by (rule check_output_camel_caser; code_simp)

lemma test_9_passes: "test_9 (camel_caser jk js) destroy = Inr True"
  unfolding test_9_def by (rule check_output_camel_caser; code_simp)

lemma test_10_passes: "test_10 (camel_caser jk js) destroy = Inr True"
  unfolding test_10_def by (rule check_output_camel_caser; code_simp)

lemma test_11_passes: "test_11 (camel_caser jk js) destroy = Inr True"
  unfolding test_11_def by (rule check_output_camel_caser; code_simp)

lemmas tests_pass = test_0_passes test_1_passes test_2_passes test_3_passes test_4_passes test_5_passes
  test_6_passes test_7_passes test_8_passes test_9_passes test_10_passes test_11_passes

text \<open>
  The scanner passes the tests of the repository, whatever its buffers held before; the one test that is switched
  off, with the empty text, reads before the beginning of the text.
\<close>

theorem camel_caser_passes_tests:
  "test_camelCaser (camel_caser jk js) destroy = Inr True
     \<and> test_12 (camel_caser jk js) destroy = Inl OutOfBounds"
  by (simp add: test_camelCaser_def tests_pass test_12_def camel_caser_def sentence_loop.simps put_def)

end
