(* ===== verification/VectorTest.thy ===== *)
theory VectorTest
  imports Vector
begin

text \<open>
  \<^verbatim>\<open>vector/vector_test.c\<close>: a shallow vector of pointers to the test's own variables. The result is what the program
  prints, without the words around the numbers. A cell of the store holds an \<^verbatim>\<open>int\<close> or the code of a \<^verbatim>\<open>char\<close>.
\<close>

datatype printed = Size nat | Capacity nat | Element int

type_synonym test_state = "int vector \<times> int heap \<times> printed list"

text \<open>The variables, one block each: \<^verbatim>\<open>let\<close>, \<^verbatim>\<open>num\<close>, then \<^verbatim>\<open>one\<close> to \<^verbatim>\<open>ten\<close>.\<close>

definition variables :: "int list" where
  "variables = [97, 0, 1, 2, 3, 4, 5, 6, 7, 8, 9, 10]"

definition frame :: "int heap" where
  "frame = \<lparr>blocks = (\<lambda>b. if b < length variables then Some [variables ! b] else None),
     next_block = length variables, junk = (\<lambda>_ _. 0)\<rparr>"

abbreviation let_ptr :: ptr where "let_ptr \<equiv> Ptr 0 0"
abbreviation num_ptr :: ptr where "num_ptr \<equiv> Ptr 1 0"
abbreviation int_ptr :: "nat \<Rightarrow> ptr" where "int_ptr n \<equiv> Ptr (Suc n) 0"

definition changes :: "(int vector \<Rightarrow> int heap \<Rightarrow> (int vector \<times> int heap) res) \<Rightarrow> test_state \<Rightarrow> test_state res" where
  "changes f = (\<lambda>(vec, h, out). bindE (f vec h) (\<lambda>(vec', h'). Inr (vec', h', out)))"

definition print_size :: "test_state \<Rightarrow> test_state res" where
  "print_size = (\<lambda>(vec, h, out). Inr (vec, h, out @ [Size (vector_size vec)]))"

definition print_capacity :: "test_state \<Rightarrow> test_state res" where
  "print_capacity = (\<lambda>(vec, h, out). Inr (vec, h, out @ [Capacity (vector_capacity vec)]))"

definition print_element :: "nat \<Rightarrow> test_state \<Rightarrow> test_state res" where
  "print_element i = (\<lambda>(vec, h, out).
     bindE (vector_get vec i) (\<lambda>p. bindE (hread p h) (\<lambda>x. Inr (vec, h, out @ [Element x]))))"

text \<open>One statement after the other.\<close>

fun statements :: "(test_state \<Rightarrow> test_state res) list \<Rightarrow> test_state \<Rightarrow> test_state res" where
  "statements [] s = Inr s"
| "statements (f # fs) s = bindE (f s) (statements fs)"

abbreviation "push p \<equiv> changes (\<lambda>vec. vector_push_back vec p)"
abbreviation "pop \<equiv> changes vector_pop_back"
abbreviation "print_elements n \<equiv> map print_element [0..<n]"

definition main_body :: "test_state \<Rightarrow> test_state res" where
  "main_body = statements (
     [print_size, print_capacity,
      push Null, print_size, print_capacity,
      pop, print_size, print_capacity,
      push let_ptr, print_element 0, print_size, print_capacity,
      pop, print_size, print_capacity,
      push num_ptr, print_element 0, print_size, print_capacity,
      pop, print_size, print_capacity] @
     map (\<lambda>k. push (int_ptr k)) [1..<9] @ [print_size, print_capacity] @
     print_elements 8 @
     [changes (\<lambda>vec. vector_insert vec 4 (int_ptr 9))] @ print_elements 9 @ [print_size, print_capacity] @
     [changes (\<lambda>vec. vector_set vec 7 (int_ptr 10))] @ print_elements 9 @ [print_size, print_capacity] @
     [changes (\<lambda>vec. vector_erase vec 2)] @ print_elements 8 @ [print_size, print_capacity])"

definition vector_test_main :: "printed list res" where
  "vector_test_main =
     bindE (main_body (vector_create None None None, frame, [])) (\<lambda>(vec, h, out).
     bindE (vector_destroy vec h) (\<lambda>_. Inr out))"

section \<open>What it prints\<close>

declare new_capacity_loop.simps [code]

text \<open>
  The vector keeps its capacity through the pushes and pops up to eight elements; the ninth doubles it, and nothing
  shrinks it again.
\<close>

theorem vector_test_output:
  "vector_test_main = Inr (
     [Size 0, Capacity 8, Size 1, Capacity 8, Size 0, Capacity 8,
      Element 97, Size 1, Capacity 8, Size 0, Capacity 8, Element 0, Size 1, Capacity 8, Size 0, Capacity 8,
      Size 8, Capacity 8] @ map Element [1, 2, 3, 4, 5, 6, 7, 8] @
     map Element [1, 2, 3, 4, 9, 5, 6, 7, 8] @ [Size 9, Capacity 16] @
     map Element [1, 2, 3, 4, 9, 5, 6, 10, 8] @ [Size 9, Capacity 16] @
     map Element [1, 2, 4, 9, 5, 6, 10, 8] @ [Size 8, Capacity 16])"
  by code_simp

end
