(* ===== verification/SchedulerTests.thy ===== *)
theory SchedulerTests
  imports Scheduler "HOL-Library.AList"
begin

text \<open>
  \<^verbatim>\<open>savvy_scheduler/scheduler_test.c\<close>: the tests of \<open>Scheduler\<close>, over the priority queue as a parameter. A job is its
  number, which stands for the pointer the test keeps; \<open>memory\<close> is what the pointer points at. The result is what the
  process returns, or the assertion that fails. The theorem runs them with the list queue.
\<close>

section \<open>The test program's state\<close>

record 'q priqueue_lib =
  lib_offer :: "'q offer_fn"
  lib_poll :: "'q poll_fn"
  lib_empty :: 'q

record 'q tester =
  sched_state :: "'q scheduler"
  memory :: "(int \<times> job) list"
  job_no :: int

definition tester_start :: "'q priqueue_lib \<Rightarrow> 'q tester" where
  "tester_start Q = \<lparr>sched_state = scheduler_zero (lib_empty Q), memory = [], job_no = 1\<rparr>"

definition deref :: "int \<Rightarrow> 'q tester \<Rightarrow> job res" where
  "deref j s = (case map_of (memory s) j of None \<Rightarrow> Inl UseAfterFree | Some x \<Rightarrow> Inr x)"

definition store_job :: "job \<Rightarrow> 'q tester \<Rightarrow> 'q tester" where
  "store_job x s = s\<lparr>memory := AList.update (id_no (metadata x)) x (memory s)\<rparr>"

text \<open>The calls of the scheduler: the jobs it changes are changed where the test's pointers see them.\<close>

definition start_up :: "'q priqueue_lib \<Rightarrow> scheme \<Rightarrow> 'q tester \<Rightarrow> 'q tester res" where
  "start_up Q sc s = bindE (scheduler_start_up (lib_empty Q) sc (sched_state s)) (\<lambda>g. Inr (s\<lparr>sched_state := g\<rparr>))"

definition make_and_schedule_new_job :: "'q priqueue_lib \<Rightarrow> rat \<Rightarrow> int \<Rightarrow> rat \<Rightarrow> 'q tester \<Rightarrow> (int \<times> 'q tester) res" where
  "make_and_schedule_new_job Q runtime prio arrival s =
     (let n = job_no s;
          g = scheduler_new_job (lib_offer Q) n arrival prio runtime (sched_state s)
      in Inr (n, (store_job (new_job_info n arrival prio runtime) s)\<lparr>sched_state := g, job_no := n + 1\<rparr>))"

text \<open>A job that comes out of the queue after it was freed would be used by the scheduler.\<close>

definition quantum_expired :: "'q priqueue_lib \<Rightarrow> int option \<Rightarrow> rat \<Rightarrow> 'q tester \<Rightarrow> (int option \<times> 'q tester) res" where
  "quantum_expired Q evicted time s =
     bindE (case evicted of None \<Rightarrow> Inr None | Some j \<Rightarrow> bindE (deref j s) (\<lambda>x. Inr (Some x))) (\<lambda>ev.
       let (next_job, g) = scheduler_quantum_expired (lib_offer Q) (lib_poll Q) ev time (sched_state s);
           s1 = (case ev of None \<Rightarrow> s
                 | Some x \<Rightarrow> if pqueue_scheme g \<in> {PSRTF, PPRI, RR} then store_job (stop_running time x) s else s)
       in case next_job of
            None \<Rightarrow> Inr (None, s1\<lparr>sched_state := g\<rparr>)
          | Some x \<Rightarrow> bindE (deref (id_no (metadata x)) s1) (\<lambda>_.
              Inr (Some (id_no (metadata x)), (store_job x s1)\<lparr>sched_state := g\<rparr>)))"

definition job_finished :: "int \<Rightarrow> rat \<Rightarrow> 'q tester \<Rightarrow> 'q tester res" where
  "job_finished j time s =
     bindE (deref j s) (\<lambda>x.
       Inr (s\<lparr>sched_state := scheduler_job_finished x time (sched_state s), memory := AList.delete j (memory s)\<rparr>))"

definition compare_jobs :: "(job \<Rightarrow> job \<Rightarrow> int) \<Rightarrow> int \<Rightarrow> int \<Rightarrow> 'q tester \<Rightarrow> int res" where
  "compare_jobs c i j s = bindE (deref i s) (\<lambda>a. bindE (deref j s) (\<lambda>b. Inr (c a b)))"

definition check :: "bool \<Rightarrow> unit res" where
  "check b = guardE b AssertFailed"

definition check_compare :: "(job \<Rightarrow> job \<Rightarrow> int) \<Rightarrow> int \<Rightarrow> int \<Rightarrow> int \<Rightarrow> 'q tester \<Rightarrow> unit res" where
  "check_compare c i j expected s = bindE (compare_jobs c i j s) (\<lambda>r. check (r = expected))"

section \<open>The tests\<close>

definition test_new_job :: "'q priqueue_lib \<Rightarrow> 'q tester \<Rightarrow> int res" where
  "test_new_job Q s0 =
     bindE (start_up Q FCFS s0) (\<lambda>s1.
     bindE (make_and_schedule_new_job Q 12 3 1 s1) (\<lambda>(j, s2).
     bindE (check (map_of (memory s2) j \<noteq> None)) (\<lambda>_.
     bindE (quantum_expired Q None 1 s2) (\<lambda>(_, s3).
     bindE (job_finished j 13 s3) (\<lambda>s4. Inr 0)))))"

definition test_comparer_fcfs :: "'q priqueue_lib \<Rightarrow> 'q tester \<Rightarrow> int res" where
  "test_comparer_fcfs Q s0 =
     bindE (start_up Q FCFS s0) (\<lambda>s1.
     bindE (make_and_schedule_new_job Q 10 1 1 s1) (\<lambda>(j1, s2).
     bindE (quantum_expired Q None 1 s2) (\<lambda>(_, s3).
     bindE (make_and_schedule_new_job Q 10 1 3 s3) (\<lambda>(j2, s4).
     bindE (check_compare comparer_fcfs j1 j2 (-1) s4) (\<lambda>_.
     bindE (check_compare comparer_fcfs j2 j1 1 s4) (\<lambda>_.
     bindE (job_finished j1 11 s4) (\<lambda>s5.
     bindE (quantum_expired Q None 11 s5) (\<lambda>(_, s6).
     bindE (job_finished j2 21 s6) (\<lambda>s7. Inr 0)))))))))"

definition test_comparer_sjf :: "'q priqueue_lib \<Rightarrow> 'q tester \<Rightarrow> int res" where
  "test_comparer_sjf Q s0 =
     bindE (start_up Q SJF s0) (\<lambda>s1.
     bindE (make_and_schedule_new_job Q 1 1 1 s1) (\<lambda>(j1, s2).
     bindE (quantum_expired Q None 1 s2) (\<lambda>(_, s3).
     bindE (make_and_schedule_new_job Q 3 1 2 s3) (\<lambda>(j2, s4).
     bindE (quantum_expired Q None 2 s4) (\<lambda>(_, s5).
     bindE (make_and_schedule_new_job Q 3 1 3 s5) (\<lambda>(j3, s6).
     bindE (check_compare comparer_sjf j1 j2 (-1) s6) (\<lambda>_.
     bindE (check_compare comparer_sjf j2 j1 1 s6) (\<lambda>_.
     bindE (check_compare comparer_sjf j2 j3 (-1) s6) (\<lambda>_.
     bindE (job_finished j1 2 s6) (\<lambda>s7.
     bindE (job_finished j2 5 s7) (\<lambda>s8.
     bindE (quantum_expired Q None 5 s8) (\<lambda>(_, s9).
     bindE (job_finished j3 8 s9) (\<lambda>s10. Inr 0)))))))))))))"

definition test_comparer_pri :: "'q priqueue_lib \<Rightarrow> 'q tester \<Rightarrow> int res" where
  "test_comparer_pri Q s0 =
     bindE (start_up Q PRI s0) (\<lambda>s1.
     bindE (make_and_schedule_new_job Q 10 1 0 s1) (\<lambda>(j1, s2).
     bindE (quantum_expired Q None 0 s2) (\<lambda>(_, s3).
     bindE (make_and_schedule_new_job Q 10 2 1 s3) (\<lambda>(j2, s4).
     bindE (make_and_schedule_new_job Q 10 2 2 s4) (\<lambda>(j3, s5).
     bindE (check_compare comparer_pri j1 j2 (-1) s5) (\<lambda>_.
     bindE (check_compare comparer_pri j2 j1 1 s5) (\<lambda>_.
     bindE (check_compare comparer_pri j2 j3 (-1) s5) (\<lambda>_.
     bindE (job_finished j1 10 s5) (\<lambda>s6.
     bindE (quantum_expired Q None 10 s6) (\<lambda>(_, s7).
     bindE (job_finished j2 20 s7) (\<lambda>s8.
     bindE (quantum_expired Q None 20 s8) (\<lambda>(_, s9).
     bindE (job_finished j3 30 s9) (\<lambda>s10. Inr 0)))))))))))))"

definition test_comparer_ppri :: "'q priqueue_lib \<Rightarrow> 'q tester \<Rightarrow> int res" where
  "test_comparer_ppri Q s0 =
     bindE (start_up Q PPRI s0) (\<lambda>s1.
     bindE (make_and_schedule_new_job Q 10 2 0 s1) (\<lambda>(j1, s2).
     bindE (quantum_expired Q None 0 s2) (\<lambda>(j_to_run, s3).
     bindE (check (j_to_run = Some j1)) (\<lambda>_.
     bindE (make_and_schedule_new_job Q 10 1 1 s3) (\<lambda>(j2, s4).
     bindE (quantum_expired Q j_to_run 1 s4) (\<lambda>(j_to_run, s5).
     bindE (check (j_to_run = Some j2)) (\<lambda>_.
     bindE (make_and_schedule_new_job Q 10 1 2 s5) (\<lambda>(j3, s6).
     bindE (quantum_expired Q j_to_run 2 s6) (\<lambda>(j_to_run, s7).
     bindE (check (j_to_run = Some j2)) (\<lambda>_.
     bindE (job_finished j2 11 s7) (\<lambda>s8.
     bindE (quantum_expired Q None 11 s8) (\<lambda>(j_to_run, s9).
     bindE (check (j_to_run = Some j3)) (\<lambda>_.
     bindE (job_finished j3 21 s9) (\<lambda>s10.
     bindE (quantum_expired Q None 21 s10) (\<lambda>(j_to_run, s11).
     bindE (check (j_to_run = Some j1)) (\<lambda>_.
     bindE (job_finished j1 30 s11) (\<lambda>s12. Inr 0)))))))))))))))))"

definition test_comparer_psrtf :: "'q priqueue_lib \<Rightarrow> 'q tester \<Rightarrow> int res" where
  "test_comparer_psrtf Q s0 =
     bindE (start_up Q PSRTF s0) (\<lambda>s1.
     bindE (make_and_schedule_new_job Q 10 1 0 s1) (\<lambda>(j1, s2).
     bindE (quantum_expired Q None 0 s2) (\<lambda>(_, s3).
     bindE (make_and_schedule_new_job Q 3 1 1 s3) (\<lambda>(j2, s4).
     bindE (make_and_schedule_new_job Q 9 1 2 s4) (\<lambda>(j3, s5).
     bindE (quantum_expired Q (Some j1) 1 s5) (\<lambda>(_, s6).
     bindE (check_compare comparer_psrtf j1 j2 1 s6) (\<lambda>_.
     bindE (check_compare comparer_psrtf j2 j1 (-1) s6) (\<lambda>_.
     bindE (check_compare comparer_psrtf j1 j3 (-1) s6) (\<lambda>_.
     bindE (job_finished j2 4 s6) (\<lambda>s7.
     bindE (quantum_expired Q None 4 s7) (\<lambda>(_, s8).
     bindE (job_finished j1 13 s8) (\<lambda>s9.
     bindE (quantum_expired Q None 13 s9) (\<lambda>(_, s10).
     bindE (job_finished j3 22 s10) (\<lambda>s11. Inr 0))))))))))))))"

definition test_rr :: "'q priqueue_lib \<Rightarrow> 'q tester \<Rightarrow> int res" where
  "test_rr Q s0 =
     bindE (start_up Q RR s0) (\<lambda>s1.
     bindE (make_and_schedule_new_job Q 10 1 0 s1) (\<lambda>(j1, s2).
     bindE (quantum_expired Q None 0 s2) (\<lambda>(j_to_run, s3).
     bindE (check (j_to_run = Some j1)) (\<lambda>_.
     bindE (make_and_schedule_new_job Q 1 2 1 s3) (\<lambda>(j2, s4).
     bindE (quantum_expired Q (Some j1) 1 s4) (\<lambda>(j_to_run, s5).
     bindE (check (j_to_run = Some j2)) (\<lambda>_.
     bindE (job_finished j2 2 s5) (\<lambda>s6.
     bindE (quantum_expired Q None 2 s6) (\<lambda>(j_to_run, s7).
     bindE (check (j_to_run = Some j1)) (\<lambda>_.
     bindE (quantum_expired Q (Some j1) 2 s7) (\<lambda>(j_to_run, s8).
     bindE (check (j_to_run = Some j1)) (\<lambda>_.
     bindE (job_finished j1 11 s8) (\<lambda>s9. Inr 0)))))))))))))"

text \<open>The loop of \<^verbatim>\<open>test_avg_wait_time\<close>: every unit of time a quantum ends; at 20 the first job finishes.\<close>

fun wait_time_loop :: "'q priqueue_lib \<Rightarrow> int \<Rightarrow> nat list \<Rightarrow> int option \<Rightarrow> 'q tester \<Rightarrow> 'q tester res" where
  "wait_time_loop Q j1 [] j s = Inr s"
| "wait_time_loop Q j1 (i # is) j s =
     bindE (if i = 20 then job_finished j1 20 s else Inr s) (\<lambda>s'.
     bindE (quantum_expired Q (if i = 20 \<and> j = Some j1 then None else j) (of_nat i) s') (\<lambda>(j', s'').
     wait_time_loop Q j1 is j' s''))"

definition test_avg_wait_time :: "'q priqueue_lib \<Rightarrow> 'q tester \<Rightarrow> int res" where
  "test_avg_wait_time Q s0 =
     bindE (start_up Q RR s0) (\<lambda>s1.
     bindE (make_and_schedule_new_job Q 10 1 1 s1) (\<lambda>(j1, s2).
     bindE (make_and_schedule_new_job Q 10 1 1 s2) (\<lambda>(j2, s3).
     bindE (quantum_expired Q None 1 s3) (\<lambda>(j, s4).
     bindE (wait_time_loop Q j1 [2..<22] j s4) (\<lambda>s5.
     bindE (job_finished j2 22 s5) (\<lambda>s6.
     bindE (check (scheduler_average_waiting_time (sched_state s6) = Some 10)) (\<lambda>_.
     bindE (make_and_schedule_new_job Q 10 1 24 s6) (\<lambda>(j3, s7).
     bindE (quantum_expired Q None 24 s7) (\<lambda>(j, s8).
     bindE (quantum_expired Q j 34 s8) (\<lambda>(_, s9).
     bindE (job_finished j3 34 s9) (\<lambda>s10.
     bindE (check (scheduler_average_waiting_time (sched_state s10) = Some (20 / 3))) (\<lambda>_. Inr 0))))))))))))"

fun quanta :: "'q priqueue_lib \<Rightarrow> nat list \<Rightarrow> int option \<Rightarrow> 'q tester \<Rightarrow> 'q tester res" where
  "quanta Q [] j s = Inr s"
| "quanta Q (t # ts) j s = bindE (quantum_expired Q j (of_nat t) s) (\<lambda>(j', s'). quanta Q ts j' s')"

definition psrtf_simulation :: "'q priqueue_lib \<Rightarrow> 'q tester \<Rightarrow> 'q tester res" where
  "psrtf_simulation Q s0 =
     bindE (start_up Q PSRTF s0) (\<lambda>s1.
     bindE (make_and_schedule_new_job Q 10 1 1 s1) (\<lambda>(j1, s2).
     bindE (make_and_schedule_new_job Q 5 1 1 s2) (\<lambda>(j2, s3).
     bindE (quanta Q (map (\<lambda>i. 1 + i) [0..<6]) None s3) (\<lambda>s4.
     bindE (job_finished j2 6 s4) (\<lambda>s5.
     bindE (quanta Q (map (\<lambda>i. i + 6) [0..<11]) None s5) (\<lambda>s6.
     job_finished j1 17 s6))))))"

definition test_avg_turn_time :: "'q priqueue_lib \<Rightarrow> 'q tester \<Rightarrow> int res" where
  "test_avg_turn_time Q s0 =
     bindE (psrtf_simulation Q s0) (\<lambda>s.
     bindE (check (scheduler_average_turnaround_time (sched_state s) = Some (21 / 2))) (\<lambda>_. Inr 0))"

definition test_avg_resp_time :: "'q priqueue_lib \<Rightarrow> 'q tester \<Rightarrow> int res" where
  "test_avg_resp_time Q s0 =
     bindE (psrtf_simulation Q s0) (\<lambda>s.
     bindE (check (scheduler_average_response_time (sched_state s) = Some (5 / 2))) (\<lambda>_. Inr 0))"

definition usage :: "int res" where
  "usage = Inl (ProcessExit 13)"

definition scheduler_test_main :: "'q priqueue_lib \<Rightarrow> string list \<Rightarrow> int res" where
  "scheduler_test_main Q argv =
     (if length argv \<le> 1 then usage
      else let n = atoi (argv ! 1); s = tester_start Q in
           if n = 1 then test_new_job Q s
           else if n = 2 then test_comparer_fcfs Q s
           else if n = 3 then test_comparer_sjf Q s
           else if n = 4 then test_comparer_pri Q s
           else if n = 5 then test_comparer_ppri Q s
           else if n = 6 then test_comparer_psrtf Q s
           else if n = 7 then test_rr Q s
           else if n = 8 then test_avg_wait_time Q s
           else if n = 9 then test_avg_turn_time Q s
           else if n = 10 then test_avg_resp_time Q s
           else usage)"

section \<open>They pass\<close>

definition list_priqueue :: "job list priqueue_lib" where
  "list_priqueue = \<lparr>lib_offer = list_offer, lib_poll = list_poll, lib_empty = []\<rparr>"

lemma scheduler_tests_pass: "map (\<lambda>n. scheduler_test_main list_priqueue [''test'', n])
   [''1'', ''2'', ''3'', ''4'', ''5'', ''6'', ''7'', ''8'', ''9'', ''10'', ''11''] = replicate 10 (Inr 0) @ [usage]"
  by code_simp

end
