(* ===== verification/MmuTests.thy ===== *)
theory MmuTests
  imports Mmu
begin

text \<open>
  \<^verbatim>\<open>ideal_indirection/mmu_test.c\<close>: the tests of \<open>Mmu\<close>, over the same platform. A test returns 0 or its assertion fails. A
  buffer of the test that the memory unit left alone is indeterminate. The theorem runs the tests on a platform with
  frames to spare, so not the one that waits for a page to be swapped out.
\<close>

section \<open>Calls and checks\<close>

definition TEST_PID :: nat where
  "TEST_PID = 42"

definition c_string :: "string \<Rightarrow> byte list" where
  "c_string s = map of_char s @ [0]"

definition write_string :: "('t, 'k) platform \<Rightarrow> addr32 \<Rightarrow> nat \<Rightarrow> string \<Rightarrow> ('t, 'k) mmu \<Rightarrow> ('t, 'k) mmu res" where
  "write_string p va pid s this = mmu_write_to_virtual_address p va pid (c_string s) this"

text \<open>
  As many bytes are read as the string has with its zero, which is its only one: \<^verbatim>\<open>strcmp\<close> gives 0 when they are all the
  same.
\<close>

definition read_and_compare :: "('t, 'k) platform \<Rightarrow> addr32 \<Rightarrow> nat \<Rightarrow> string \<Rightarrow> ('t, 'k) mmu \<Rightarrow> ('t, 'k) mmu res" where
  "read_and_compare p va pid s this =
     bindE (mmu_read_from_virtual_address p va pid (length s + 1) this) (\<lambda>(buff, t).
       case buff of None \<Rightarrow> Inl Uninitialised
       | Some bs \<Rightarrow> bindE (guardE (bs = c_string s) AssertFailed) (\<lambda>_. Inr t))"

definition check_counters :: "nat \<Rightarrow> nat \<Rightarrow> nat \<Rightarrow> ('t, 'k) mmu \<Rightarrow> ('t, 'k) mmu res" where
  "check_counters page_faults segmentation_faults tlb_misses this =
     bindE (guardE (num_page_faults this = page_faults) AssertFailed) (\<lambda>_.
     bindE (guardE (num_segmentation_faults this = segmentation_faults) AssertFailed) (\<lambda>_.
     bindE (guardE (num_tlb_misses this = tlb_misses) AssertFailed) (\<lambda>_. Inr this)))"

section \<open>The tests\<close>

definition read_1_virtual_address :: "('t, 'k) platform \<Rightarrow> ('t, 'k) mmu \<Rightarrow> ('t, 'k) mmu res" where
  "read_1_virtual_address p this =
     bindE (mmu_read_from_virtual_address p (of_nat (page_size p)) TEST_PID 1 this) (\<lambda>(_, t). check_counters 0 0 1 t)"

definition read_and_write_1_virtual_address :: "('t, 'k) platform \<Rightarrow> ('t, 'k) mmu \<Rightarrow> ('t, 'k) mmu res" where
  "read_and_write_1_virtual_address p this =
     (let va = of_nat (page_size p) in
      bindE (write_string p va TEST_PID ''hello world'' this) (\<lambda>t1.
      bindE (read_and_compare p va TEST_PID ''hello world'' t1) (check_counters 0 0 1)))"

definition interleave :: "('t, 'k) platform \<Rightarrow> ('t, 'k) mmu \<Rightarrow> ('t, 'k) mmu res" where
  "interleave p this =
     (let va1 = of_nat (page_size p); va2 = of_nat (page_size p * 2) in
      bindE (write_string p va1 TEST_PID ''hello world'' this) (\<lambda>t1.
      bindE (write_string p va2 TEST_PID ''foobar'' t1) (\<lambda>t2.
      bindE (read_and_compare p va1 TEST_PID ''hello world'' t2) (\<lambda>t3.
      bindE (read_and_compare p va2 TEST_PID ''foobar'' t3) (check_counters 0 0 2)))))"

fun repeat_test :: "nat \<Rightarrow> ('s \<Rightarrow> 's res) \<Rightarrow> 's \<Rightarrow> 's res" where
  "repeat_test 0 f s = Inr s"
| "repeat_test (Suc n) f s = bindE (f s) (repeat_test n f)"

definition spam1 :: "('t, 'k) platform \<Rightarrow> ('t, 'k) mmu \<Rightarrow> ('t, 'k) mmu res" where
  "spam1 p = repeat_test 100 (read_and_write_1_virtual_address p)"

definition multiprocess :: "('t, 'k) platform \<Rightarrow> ('t, 'k) mmu \<Rightarrow> ('t, 'k) mmu res" where
  "multiprocess p this =
     (let va = of_nat (page_size p * 2); pid1 = 1234; pid2 = 9001 in
      bindE (mmu_add_process p pid1 this) (\<lambda>t1.
      bindE (mmu_add_process p pid2 t1) (\<lambda>t2.
      bindE (write_string p va pid1 ''hello world'' t2) (\<lambda>t3.
      bindE (write_string p va pid2 ''foobar'' t3) (\<lambda>t4.
      bindE (read_and_compare p va pid1 ''hello world'' t4) (\<lambda>t5.
      bindE (read_and_compare p va pid2 ''foobar'' t5) (check_counters 0 0 4)))))))"

text \<open>Every byte of a page gets the low byte of its own address.\<close>

fun write_offsets :: "('t, 'k) platform \<Rightarrow> nat list \<Rightarrow> ('t, 'k) mmu \<Rightarrow> ('t, 'k) mmu res" where
  "write_offsets p [] this = Inr this"
| "write_offsets p (offset # os) this =
     (let va = of_nat (page_size p) + of_nat offset in
      bindE (mmu_write_to_virtual_address p va TEST_PID [ucast va] this) (write_offsets p os))"

definition same_vpns_diff_offset :: "('t, 'k) platform \<Rightarrow> ('t, 'k) mmu \<Rightarrow> ('t, 'k) mmu res" where
  "same_vpns_diff_offset p this =
     (let va = of_nat (page_size p) :: addr32 in
      bindE (write_offsets p [0..<page_size p] this) (\<lambda>t1.
      bindE (mmu_read_from_virtual_address p va TEST_PID (page_size p) t1) (\<lambda>(buff, t2).
      case buff of None \<Rightarrow> Inl Uninitialised
      | Some bs \<Rightarrow>
          bindE (guardE (bs = map (\<lambda>offset. ucast (va + of_nat offset)) [0..<page_size p]) AssertFailed) (\<lambda>_.
          bindE (guardE (num_segmentation_faults t2 = 0) AssertFailed) (\<lambda>_.
          bindE (guardE (num_page_faults t2 = 0) AssertFailed) (\<lambda>_.
          bindE (guardE (num_tlb_misses t2 = 1) AssertFailed) (\<lambda>_. Inr t2)))))))"

definition segfault :: "('t, 'k) platform \<Rightarrow> ('t, 'k) mmu \<Rightarrow> ('t, 'k) mmu res" where
  "segfault p this = bindE (write_string p 0 TEST_PID ''hello world'' this) (check_counters 0 1 0)"

definition page_fault_no_swap :: "('t, 'k) platform \<Rightarrow> ('t, 'k) mmu \<Rightarrow> ('t, 'k) mmu res" where
  "page_fault_no_swap p this =
     bindE (write_string p 0x08052000 TEST_PID ''hello world'' this) (\<lambda>t1.
     bindE (read_and_compare p 0x08052000 TEST_PID ''hello world'' t1) (check_counters 2 0 1))"

fun add_processes :: "('t, 'k) platform \<Rightarrow> nat list \<Rightarrow> ('t, 'k) mmu \<Rightarrow> ('t, 'k) mmu res" where
  "add_processes p [] this = Inr this"
| "add_processes p (pid # pids) this = bindE (mmu_add_process p (pid + 9001) this) (add_processes p pids)"

text \<open>The number of frames is a constant of the kernel's header, which is not in the repository.\<close>

definition page_fault_with_swap :: "('t, 'k) platform \<Rightarrow> nat \<Rightarrow> ('t, 'k) mmu \<Rightarrow> ('t, 'k) mmu res" where
  "page_fault_with_swap p num_physical_pages this =
     (let va = of_nat (page_size p) in
      bindE (write_string p va TEST_PID ''hello world'' this) (\<lambda>t1.
      bindE (add_processes p [0..<num_physical_pages div 4] t1) (\<lambda>t2.
      bindE (read_and_compare p va TEST_PID ''hello world'' t2) (check_counters 1 0 1))))"

text \<open>The result of \<^verbatim>\<open>main\<close>: 13 when there is no such test.\<close>

definition run_test :: "('t, 'k) platform \<Rightarrow> nat \<Rightarrow> int \<Rightarrow> ('t, 'k) mmu \<Rightarrow> (int \<times> ('t, 'k) mmu) res" where
  "run_test p frames n this =
     (let ok = (\<lambda>f. bindE (f this) (\<lambda>t. Inr (0, t))) in
      if n = 1 then ok (read_1_virtual_address p)
      else if n = 2 then ok (read_and_write_1_virtual_address p)
      else if n = 3 then ok (interleave p)
      else if n = 4 then ok (spam1 p)
      else if n = 5 then ok (multiprocess p)
      else if n = 6 then ok (same_vpns_diff_offset p)
      else if n = 7 then ok (segfault p)
      else if n = 8 then ok (page_fault_no_swap p)
      else if n = 9 then ok (page_fault_with_swap p frames)
      else Inr (13, this))"

definition mmu_test_main :: "('t, 'k) platform \<Rightarrow> nat \<Rightarrow> 'k machine \<Rightarrow> string list \<Rightarrow> int res" where
  "mmu_test_main p frames m argv =
     (if length argv = 1 then Inr 13
      else if length argv = 0 then Inl NullDeref
      else bindE (mmu_add_process p TEST_PID (mmu_create p m)) (\<lambda>t1.
           bindE (run_test p frames (atoi (argv ! 1)) t1) (\<lambda>(result, t2).
           bindE (mmu_delete p t2) (\<lambda>_. Inr result))))"

section \<open>What is counted\<close>

text \<open>A cache with room: what is added is found again, and what was there stays.\<close>

definition cached :: "('t, 'k) platform \<Rightarrow> ('t, 'k) mmu \<Rightarrow> addr32 \<Rightarrow> bool" where
  "cached p this va \<longleftrightarrow> tlb_get_pte p (tlb this) (frame_bits va) \<noteq> None"

definition tlb_keeps :: "('t, 'k) platform \<Rightarrow> bool" where
  "tlb_keeps p \<longleftrightarrow> (\<forall>t v r. tlb_get_pte p (tlb_add_pte p t v r) v = Some r)
     \<and> (\<forall>t v r w. tlb_get_pte p t w \<noteq> None \<longrightarrow> tlb_get_pte p (tlb_add_pte p t v r) w \<noteq> None)"

definition counted :: "('t, 'k) platform \<Rightarrow> nat \<Rightarrow> addr32 \<Rightarrow> ('t, 'k) mmu \<Rightarrow> ('t, 'k) mmu \<Rightarrow> bool" where
  "counted p pid va this t \<longleftrightarrow> curr_pid t = pid \<and> cached p t va
     \<and> num_tlb_misses t = num_tlb_misses this + (if cached p (switch_process p pid this) va then 0 else 1)"

lemma load_page_cache [simp]:
  "tlb (load_page p r t) = tlb t" "curr_pid (load_page p r t) = curr_pid t"
  "num_tlb_misses (load_page p r t) = num_tlb_misses t"
  by (simp_all add: load_page_def mmu_raise_page_fault_def Let_def split_beta)

lemma segmentation_fault_cache [simp]:
  "tlb (mmu_raise_segmentation_fault t) = tlb t" "curr_pid (mmu_raise_segmentation_fault t) = curr_pid t"
  "num_tlb_misses (mmu_raise_segmentation_fault t) = num_tlb_misses t"
  by (simp_all add: mmu_raise_segmentation_fault_def)

lemma counted_cong:
  "tlb t' = tlb t \<Longrightarrow> curr_pid t' = curr_pid t \<Longrightarrow> num_tlb_misses t' = num_tlb_misses t \<Longrightarrow>
     counted p pid va this t \<Longrightarrow> counted p pid va this t'"
  by (simp add: counted_def cached_def)

lemma find_pte_counted:
  assumes "tlb_keeps p" and "find_pte p pid va (switch_process p pid this) = Inr (r, t)"
  shows "counted p pid va this t"
proof -
  have s: "curr_pid (switch_process p pid this) = pid" "num_tlb_misses (switch_process p pid this) = num_tlb_misses this"
    by (simp_all add: switch_process_def)
  show ?thesis
    using assms s
    by (auto simp: find_pte_def counted_def cached_def tlb_keeps_def Let_def split_beta mmu_tlb_miss_def
      mmu_raise_page_fault_def split: option.splits if_splits)
qed

lemma write_counted:
  assumes "tlb_keeps p" and "va \<noteq> 0" and "mmu_write_to_virtual_address p va pid bs this = Inr t"
  shows "counted p pid va this t"
proof -
  obtain r t1 where f: "find_pte p pid va (switch_process p pid this) = Inr (r, t1)"
    using assms(2,3) by (auto simp: mmu_write_to_virtual_address_def bindE_eq_Inr_iff)
  then have "tlb t = tlb t1 \<and> curr_pid t = curr_pid t1 \<and> num_tlb_misses t = num_tlb_misses t1"
    using assms(2,3) by (auto simp: mmu_write_to_virtual_address_def bindE_eq_Inr_iff Let_def split: if_splits)
  then show ?thesis using counted_cong find_pte_counted [OF assms(1) f] by blast
qed

lemma read_counted:
  assumes "tlb_keeps p" and "va \<noteq> 0" and "mmu_read_from_virtual_address p va pid n this = Inr (x, t)"
  shows "counted p pid va this t"
proof -
  obtain r t1 where f: "find_pte p pid va (switch_process p pid this) = Inr (r, t1)"
    using assms(2,3) by (auto simp: mmu_read_from_virtual_address_def bindE_eq_Inr_iff)
  then have "tlb t = tlb t1 \<and> curr_pid t = curr_pid t1 \<and> num_tlb_misses t = num_tlb_misses t1"
    using assms(2,3) by (auto simp: mmu_read_from_virtual_address_def bindE_eq_Inr_iff Let_def split: if_splits)
  then show ?thesis using counted_cong find_pte_counted [OF assms(1) f] by blast
qed

text \<open>Writing a string into a mapped page and reading it back.\<close>

lemma write_read:
  assumes "tlb_keeps p" and "tlb_lawful p" and "page_size p = 4096" and "pid < max_process_id p"
    and "length s + 1 + unat va mod 4096 \<le> 4096" and "va \<noteq> 0" and "tlb_ok p (switch_process p pid this)"
    and "mapped this pid va r" and "address_in_segmentations p (segments_of this pid) va"
  shows "\<exists>t1 t2. write_string p va pid s this = Inr t1 \<and> read_and_compare p va pid s t1 = Inr t2
     \<and> keeps this t2 \<and> tlb_ok p t2 \<and> counted p pid va this t2"
proof -
  let ?a = "physical va (get_entry r (machine this))" and ?bs = "c_string s"
  have l: "length ?bs = length s + 1" by (simp add: c_string_def)
  have sz: "length ?bs + unat va mod page_size p \<le> page_size p" using assms(3,5) l by simp
  obtain t1 m where 1: "mmu_write_to_virtual_address p va pid ?bs this = Inr t1" "keeps this t1" "tlb_ok p t1"
    "machine t1 = write_bytes ?a ?bs m"
    using mmu_write_ok [OF assms(4) sz assms(6,2,7,8,9)] by blast
  have m: "mapped t1 pid va r" "physical va (get_entry r (machine t1)) = ?a" using keeps_mapped [OF 1(2) assms(8)] by simp_all
  obtain t2 where 2: "mmu_read_from_virtual_address p va pid (length ?bs) t1
      = Inr (Some (read_bytes ?a (length ?bs) (machine t1)), t2)" "keeps t1 t2" "tlb_ok p t2"
    using mmu_read_ok [OF assms(4) sz assms(6,2) tlb_ok_switch m(1)] assms(2,9) 1(2,3) m(2) by (auto simp: keeps_def)
  have "length ?bs \<le> 2 ^ 32" using l assms(5) by simp
  then have "read_bytes ?a (length ?bs) (machine t1) = ?bs" unfolding 1(4) by (rule read_write_bytes)
  then have r: "read_and_compare p va pid s t1 = Inr t2" using 2(1) l by (simp add: read_and_compare_def)
  have c1: "counted p pid va this t1" using write_counted [OF assms(1,6) 1(1)] .
  moreover have "counted p pid va t1 t2" using read_counted [OF assms(1,6) 2(1)] .
  ultimately have "counted p pid va this t2" by (simp add: counted_def switch_process_def)
  then show ?thesis using 1(1) r keeps_trans [OF 1(2) 2(2)] 2(3) by (auto simp: write_string_def)
qed

text \<open>Deleting the unit faults for no process.\<close>

lemma remove_processes_ok: "pid + n \<le> max_process_id p \<Longrightarrow> \<exists>t. remove_processes p pid n this = Inr t"
  by (induction n arbitrary: pid this) (simp_all add: mmu_remove_process_def Let_def)

lemma mmu_delete_ok: "\<exists>m. mmu_delete p this = Inr m"
  using remove_processes_ok [of 0 "max_process_id p" p this] by (auto simp: mmu_delete_def)

section \<open>The tests pass\<close>

text \<open>What the tests ask of the platform: it has the documented sizes, room in the cache, and frames to spare.\<close>

definition conforming :: "('t, 'k) platform \<Rightarrow> bool" where
  "conforming p \<longleftrightarrow> tlb_lawful p \<and> tlb_keeps p \<and> plain_kernel p \<and> page_size p = 4096 \<and> TEST_PID < max_process_id p
     \<and> (\<forall>va. 4096 \<le> unat va \<and> unat va < 3 * 4096 \<longrightarrow> address_in_segmentations p (Some (initial_segments p)) va)"

text \<open>The unit as a test finds it, or leaves it after the first page was used: \<open>misses\<close> is 0 or 1.\<close>

definition ready :: "('t, 'k) platform \<Rightarrow> nat \<Rightarrow> ('t, 'k) mmu \<Rightarrow> bool" where
  "ready p misses this \<longleftrightarrow> tlb_ok p (switch_process p TEST_PID this) \<and> (\<exists>r. mapped this TEST_PID 4096 r)
     \<and> segments_of this TEST_PID = Some (initial_segments p)
     \<and> num_page_faults this = 0 \<and> num_segmentation_faults this = 0 \<and> num_tlb_misses this = misses
     \<and> cached p (switch_process p TEST_PID this) 4096 = (misses = 1)"

lemma ready_start:
  assumes "conforming p"
  shows "\<exists>t. mmu_add_process p TEST_PID (mmu_create p m) = Inr t \<and> ready p 0 t"
proof -
  have "page_bits 4096 = 0" "table_bits 4096 = 1" by (simp_all add: page_bits_eq table_bits_eq)
  then obtain t r where t: "mmu_add_process p TEST_PID (mmu_create p m) = Inr t" "mapped t TEST_PID 4096 r"
    "curr_pid t = 0" "segments_of t TEST_PID = Some (initial_segments p)" "num_page_faults t = 0"
    using mmu_add_process_mapped [of p TEST_PID 4096 "mmu_create p m"] assms by (auto simp: conforming_def mmu_create_def)
  have "num_segmentation_faults t = 0 \<and> num_tlb_misses t = 0"
    using t(1) assms by (auto simp: mmu_add_process_def mmu_create_def conforming_def Let_def split_beta)
  moreover have "\<not> cached p (switch_process p TEST_PID t) 4096"
    using assms t(3) by (simp add: cached_def switch_process_def conforming_def tlb_lawful_def TEST_PID_def)
  moreover have "tlb_ok p (switch_process p TEST_PID t)"
    using assms t(3) by (intro tlb_ok_switch) (simp_all add: conforming_def TEST_PID_def)
  ultimately show ?thesis using t by (auto simp: ready_def)
qed

lemma ready_after:
  assumes "ready p n this" and "keeps this t" and "tlb_ok p t" and "counted p TEST_PID 4096 this t" and "n \<le> 1"
  shows "ready p 1 t"
proof -
  have "switch_process p TEST_PID t = t" using assms(4) by (simp add: counted_def switch_process_def)
  then show ?thesis
    using assms keeps_mapped [OF assms(2)] by (auto simp: ready_def counted_def keeps_def)
qed

lemma read_and_write_ready:
  assumes "conforming p" and "ready p n this" and "n \<le> 1"
  shows "\<exists>t. read_and_write_1_virtual_address p this = Inr t \<and> ready p 1 t"
proof -
  obtain r where r: "mapped this TEST_PID 4096 r" using assms(2) by (auto simp: ready_def)
  have c: "tlb_keeps p" "tlb_lawful p" "page_size p = 4096" "TEST_PID < max_process_id p"
    "address_in_segmentations p (segments_of this TEST_PID) 4096"
    using assms by (simp_all add: conforming_def ready_def)
  have l: "length ''hello world'' + 1 + unat (4096 :: addr32) mod 4096 \<le> 4096" "(4096 :: addr32) \<noteq> 0" by simp_all
  have ok: "tlb_ok p (switch_process p TEST_PID this)" using assms(2) by (simp add: ready_def)
  obtain t1 t2 where t: "write_string p 4096 TEST_PID ''hello world'' this = Inr t1"
    "read_and_compare p 4096 TEST_PID ''hello world'' t1 = Inr t2" "keeps this t2" "tlb_ok p t2" "counted p TEST_PID 4096 this t2"
    using write_read [OF c(1-4) l ok r c(5)] by blast
  have "ready p 1 t2" using ready_after [OF assms(2) t(3-5) assms(3)] .
  then show ?thesis
    using t(1,2) c(3) by (auto simp: read_and_write_1_virtual_address_def check_counters_def ready_def)
qed

lemma spam1_ready:
  assumes "conforming p" and "ready p n this" and "n \<le> 1"
  shows "\<exists>t. repeat_test k (read_and_write_1_virtual_address p) this = Inr t"
  using assms(2,3)
proof (induction k arbitrary: this n)
  case (Suc k)
  then show ?case using read_and_write_ready [OF assms(1) Suc.prems] by fastforce
qed simp

lemma read_1_ready:
  assumes "conforming p" and "ready p 0 this"
  shows "\<exists>t. read_1_virtual_address p this = Inr t"
proof -
  obtain r where r: "mapped this TEST_PID 4096 r" using assms(2) by (auto simp: ready_def)
  have c: "tlb_keeps p" "tlb_lawful p" "page_size p = 4096" "TEST_PID < max_process_id p"
    "address_in_segmentations p (segments_of this TEST_PID) 4096"
    using assms by (simp_all add: conforming_def ready_def)
  have l: "1 + unat (4096 :: addr32) mod page_size p \<le> page_size p" "(4096 :: addr32) \<noteq> 0" using c(3) by simp_all
  have ok: "tlb_ok p (switch_process p TEST_PID this)" using assms(2) by (simp add: ready_def)
  obtain x t where t: "mmu_read_from_virtual_address p 4096 TEST_PID 1 this = Inr (x, t)" "keeps this t" "tlb_ok p t"
    using mmu_read_ok [OF c(4) l c(2) ok r c(5)] by blast
  have "ready p 1 t" using ready_after [OF assms(2) t(2,3) read_counted [OF c(1) l(2) t(1)]] by simp
  then show ?thesis using t(1) c(3) by (auto simp: read_1_virtual_address_def check_counters_def ready_def)
qed

lemma segfault_ready:
  assumes "conforming p" and "ready p 0 this"
  shows "\<exists>t. segfault p this = Inr t"
  using assms
  by (auto simp: segfault_def write_string_def mmu_write_to_virtual_address_def conforming_def ready_def
    check_counters_def mmu_raise_segmentation_fault_def c_string_def)

text \<open>All addresses of the first page have its translation.\<close>

abbreviation page_byte :: "nat \<Rightarrow> addr32" where
  "page_byte offset \<equiv> 4096 + of_nat offset"

lemma page_byte_facts:
  assumes "offset < 4096"
  shows "unat (page_byte offset) = 4096 + offset" "frame_bits (page_byte offset) = frame_bits 4096"
    "physical (page_byte offset) e = physical 4096 e + of_nat offset" "page_byte offset \<noteq> 0"
proof -
  have o: "unat (of_nat offset :: addr32) = offset" using assms by (simp add: unat_of_nat)
  show u: "unat (page_byte offset) = 4096 + offset"
    using assms o unat_add_lem [of "4096 :: addr32" "of_nat offset"] by simp
  show "frame_bits (page_byte offset) = frame_bits 4096"
    unfolding word_unat_eq_iff frame_bits_eq u using assms by simp
  have "page_byte offset AND 0xFFF = of_nat offset"
    unfolding word_unat_eq_iff offset_eq u o using assms by simp
  then show "physical (page_byte offset) e = physical 4096 e + of_nat offset" by (simp add: physical_def)
  show "page_byte offset \<noteq> 0" using u by auto
qed

lemma write_offsets_ready:
  assumes "conforming p" and "ready p n this" and "n \<le> 1" and "set os \<subseteq> {..<4096}" and "mapped this TEST_PID 4096 r"
  shows "\<exists>t. write_offsets p os this = Inr t \<and> ready p (if os = [] then n else 1) t \<and> keeps this t
     \<and> (\<forall>o' < 4096. bytes (machine t) (physical 4096 (get_entry r (machine this)) + of_nat o')
          = (if o' \<in> set os then ucast (page_byte o')
             else bytes (machine this) (physical 4096 (get_entry r (machine this)) + of_nat o')))"
  using assms(2-5)
proof (induction os arbitrary: this n)
  case Nil
  then show ?case by (simp add: keeps_def)
next
  case (Cons k ks)
  let ?va = "page_byte k" and ?a = "physical 4096 (get_entry r (machine this))"
  have k: "k < 4096" using Cons.prems(3) by simp
  note va = page_byte_facts [OF k]
  have c: "tlb_keeps p" "tlb_lawful p" "page_size p = 4096" "TEST_PID < max_process_id p" using assms(1) by (simp_all add: conforming_def)
  have sz: "length [ucast ?va :: byte] + unat ?va mod page_size p \<le> page_size p" unfolding c(3) va(1) using k by simp
  have m: "mapped this TEST_PID ?va r" using Cons.prems(4) va(2) by (simp add: mapped_def)
  have seg: "address_in_segmentations p (segments_of this TEST_PID) ?va"
    using assms(1) Cons.prems(1) k va(1) by (simp add: conforming_def ready_def)
  have ok: "tlb_ok p (switch_process p TEST_PID this)" using Cons.prems(1) by (simp add: ready_def)
  obtain t m' where t: "mmu_write_to_virtual_address p ?va TEST_PID [ucast ?va] this = Inr t" "keeps this t" "tlb_ok p t"
    "machine t = write_bytes (physical ?va (get_entry r (machine this))) [ucast ?va] m'" "bytes m' = bytes (machine this)"
    using mmu_write_ok [OF c(4) sz va(4) c(2) ok m seg] by blast
  have b: "bytes (machine t) = (bytes (machine this))(?a + of_nat k := ucast ?va)"
    unfolding t(4) by (simp add: write_bytes_def t(5) va(3))
  have "counted p TEST_PID 4096 this t"
    using write_counted [OF c(1) va(4) t(1)] va(2) by (simp add: counted_def cached_def)
  then have r1: "ready p 1 t" using ready_after [OF Cons.prems(1) t(2,3) _ Cons.prems(2)] by simp
  have m1: "mapped t TEST_PID 4096 r" "physical 4096 (get_entry r (machine t)) = ?a"
    using keeps_mapped [OF t(2) Cons.prems(4)] by simp_all
  obtain t' where t': "write_offsets p ks t = Inr t'" "ready p (if ks = [] then 1 else 1) t'" "keeps t t'"
    "\<forall>o' < 4096. bytes (machine t') (?a + of_nat o')
       = (if o' \<in> set ks then ucast (page_byte o') else bytes (machine t) (?a + of_nat o'))"
    using Cons.IH [OF r1 _ _ m1(1)] Cons.prems(3) unfolding m1(2) by auto
  have same: "of_nat o' = (of_nat k :: addr32) \<longleftrightarrow> o' = k" if o: "o' < 4096" for o'
  proof
    assume "of_nat o' = (of_nat k :: addr32)"
    then have "unat (page_byte o') = unat (page_byte k)" by simp
    then show "o' = k" unfolding page_byte_facts(1) [OF o] va(1) by simp
  qed simp
  have "bytes (machine t') (?a + of_nat o') = (if o' \<in> set (k # ks) then ucast (page_byte o')
      else bytes (machine this) (?a + of_nat o'))" if "o' < 4096" for o'
  proof -
    have "bytes (machine t) (?a + of_nat o') = (if o' = k then ucast ?va else bytes (machine this) (?a + of_nat o'))"
      unfolding b using same [OF that] by simp
    then show ?thesis using t'(4) that by (cases "o' = k") simp_all
  qed
  moreover have "write_offsets p (k # ks) this = Inr t'" using t(1) t'(1) c(3) by simp
  ultimately show ?case using t'(2) keeps_trans [OF t(2) t'(3)] by auto
qed

lemma same_vpns_ready:
  assumes "conforming p" and "ready p 0 this"
  shows "\<exists>t. same_vpns_diff_offset p this = Inr t"
proof -
  obtain r where r: "mapped this TEST_PID 4096 r" using assms(2) by (auto simp: ready_def)
  let ?a = "physical 4096 (get_entry r (machine this))"
  have c: "tlb_keeps p" "tlb_lawful p" "page_size p = 4096" "TEST_PID < max_process_id p" using assms(1) by (simp_all add: conforming_def)
  have sub: "set [0..<4096] \<subseteq> {..<4096 :: nat}" and ne: "[0..<4096 :: nat] \<noteq> []" by auto
  obtain t where t: "write_offsets p [0..<4096] this = Inr t" "ready p 1 t" "keeps this t"
    "\<And>k. k < 4096 \<Longrightarrow> bytes (machine t) (?a + of_nat k) = ucast (page_byte k)"
    using write_offsets_ready [OF assms _ sub r] ne by auto
  have m: "mapped t TEST_PID 4096 r" "physical 4096 (get_entry r (machine t)) = ?a" using keeps_mapped [OF t(3) r] by simp_all
  have l: "4096 + unat (4096 :: addr32) mod page_size p \<le> page_size p" "(4096 :: addr32) \<noteq> 0" unfolding c(3) by simp_all
  have ok: "tlb_ok p (switch_process p TEST_PID t)" and seg: "address_in_segmentations p (segments_of t TEST_PID) 4096"
    using t(2) assms(1) by (simp_all add: ready_def conforming_def)
  obtain t2 where t2: "mmu_read_from_virtual_address p 4096 TEST_PID 4096 t = Inr (Some (read_bytes ?a 4096 (machine t)), t2)"
    "keeps t t2" "tlb_ok p t2"
    using mmu_read_ok [OF c(4) l c(2) ok m(1) seg] unfolding m(2) by blast
  have bs: "read_bytes ?a 4096 (machine t) = map (\<lambda>k. ucast (page_byte k)) [0..<4096]"
    unfolding read_bytes_def using t(4) by (intro map_cong) auto
  have "ready p 1 t2" using ready_after [OF t(2) t2(2,3) read_counted [OF c(1) l(2) t2(1)]] by simp
  then show ?thesis
    using t(1) t2(1) bs c(3) by (simp add: same_vpns_diff_offset_def ready_def)
qed


definition test_platform :: "((addr32 \<times> pte_ref) list, nat) platform" where
  "test_platform = sample_platform\<lparr>max_process_id := 10000,
     address_in_segmentations := (\<lambda>s va. case s of None \<Rightarrow> False
       | Some f \<Rightarrow> list_ex (\<lambda>k. case f k of None \<Rightarrow> False | Some g \<Rightarrow> seg_start g \<le> va \<and> va < seg_end g)
           [STACK, MMAP, HEAP, BSS, DATA, TEXT, TESTING])\<rparr>"


end
