(* ===== verification/BarrierTests.thy ===== *)
theory BarrierTests
  imports Sync
begin

text \<open>
  \<^verbatim>\<open>critical_concurrency/barrier_tests.c\<close>: five threads that use the barrier of \<open>Sync\<close> once, then five that use it six
  times. A thread function is the list of its statements that touch what is shared; the sleeps only delay. A schedule
  is the list of the threads that go on; every schedule is bounded and can be completed. There are no spurious wake-ups:
  \<open>barrier_spurious_wakeup\<close> shows what one does to the barrier.
\<close>

section \<open>The program\<close>

datatype statement = Count | Wait | Check | Return

definition NUM_THREADS :: nat where
  "NUM_THREADS = 5"

definition thread_func_throwaway :: "statement list" where
  "thread_func_throwaway = [Count, Wait, Return]"

definition thread_func_reusable :: "statement list" where
  "thread_func_reusable = concat (replicate 3 [Count, Wait, Check, Wait]) @ [Return]"

text \<open>The globals, and where each thread is; \<open>rets\<close> is what the threads returned.\<close>

record barrier_test =
  bar :: barrier
  counter :: int     \<comment> \<open>the global \<^verbatim>\<open>count\<close>\<close>
  pass2 :: bool
  pc :: "nat \<Rightarrow> nat"
  rets :: "nat \<Rightarrow> int option"

definition test_start :: barrier_test where
  "test_start = \<lparr>bar = barrier_init (of_nat NUM_THREADS), counter = 0, pass2 = True, pc = (\<lambda>_. 0), rets = Map.empty\<rparr>"

text \<open>One statement of a thread; a call of \<^verbatim>\<open>barrier_wait\<close> is its steps.\<close>

definition thread_go :: "statement list \<Rightarrow> nat \<Rightarrow> barrier_test \<Rightarrow> barrier_test option" where
  "thread_go P t s =
     (if \<not> (t < NUM_THREADS \<and> pc s t < length P) then None
      else let next_pc = (pc s)(t := Suc (pc s t)) in
        case P ! pc s t of
          Count \<Rightarrow> Some (s\<lparr>counter := counter s + 1, pc := next_pc\<rparr>)
        | Check \<Rightarrow> Some (s\<lparr>pc := next_pc, pass2 := (if counter s mod 5 \<noteq> 0 then False else pass2 s)\<rparr>)
        | Return \<Rightarrow> Some (s\<lparr>pc := next_pc, rets := (rets s)(t \<mapsto> counter s)\<rparr>)
        | Wait \<Rightarrow>
            (case bar_do (if bar_at (bar s) t = Outside then BarCall t else BarGo t) (bar s) of
               None \<Rightarrow> None
             | Some b \<Rightarrow> Some (s\<lparr>bar := b, pc := (if bar_at b t = Outside then next_pc else pc s)\<rparr>)))"

definition all_joined :: "statement list \<Rightarrow> barrier_test \<Rightarrow> bool" where
  "all_joined P s \<longleftrightarrow> list_all (\<lambda>t. pc s t = length P) [0..<NUM_THREADS]"

text \<open>\<^verbatim>\<open>main\<close> joins the threads of the first test before it creates those of the second and destroys the barrier after them; the result is what
  passed.\<close>

definition barrier_tests_main :: "nat list \<Rightarrow> nat list \<Rightarrow> (bool \<times> bool) option" where
  "barrier_tests_main schedule1 schedule2 =
     (case run (thread_go thread_func_throwaway) schedule1 test_start of
        None \<Rightarrow> None
      | Some s1 \<Rightarrow>
          if \<not> all_joined thread_func_throwaway s1 then None
          else let pass1 = list_all (\<lambda>t. rets s1 t = Some 5) [0..<NUM_THREADS] in
            case run (thread_go thread_func_reusable) schedule2 (s1\<lparr>pc := (\<lambda>_. 0), rets := Map.empty\<rparr>) of
              None \<Rightarrow> None
            | Some s2 \<Rightarrow>
                if \<not> all_joined thread_func_reusable s2 then None
                else (case barrier_destroy [0..<NUM_THREADS] (bar s2) of
                        None \<Rightarrow> None
                      | Some err \<Rightarrow> Some (pass1, pass2 s2)))"

section \<open>Rounds\<close>

text \<open>How many waits and how many counts a thread has behind it.\<close>

definition waits_done :: "statement list \<Rightarrow> nat \<Rightarrow> nat" where
  "waits_done P k = count_list (take k P) Wait"

definition counts_done :: "statement list \<Rightarrow> nat \<Rightarrow> nat" where
  "counts_done P k = count_list (take k P) Count"

lemma done_Suc:
  "k < length P \<Longrightarrow> waits_done P (Suc k) = waits_done P k + (if P ! k = Wait then 1 else 0)"
  "k < length P \<Longrightarrow> counts_done P (Suc k) = counts_done P k + (if P ! k = Count then 1 else 0)"
  by (simp_all add: waits_done_def counts_done_def take_Suc_conv_app_nth)

lemma waits_done_le: "k < length P \<Longrightarrow> P ! k = Wait \<Longrightarrow> waits_done P k < waits_done P (length P)"
  by (subst (2) id_take_nth_drop [of k P]) (simp_all add: waits_done_def)

text \<open>The barriers a thread has arrived at: those it has left, and the one it is in after its arrival.\<close>

definition waiting :: "bar_place \<Rightarrow> bool" where
  "waiting p = (case p of BarWaiting g \<Rightarrow> True | _ \<Rightarrow> False)"

definition inside :: "bar_place \<Rightarrow> bool" where
  "inside p = (case p of BarWaiting g \<Rightarrow> True | BarWoken g \<Rightarrow> True | _ \<Rightarrow> False)"

definition arrived :: "statement list \<Rightarrow> nat \<Rightarrow> barrier_test \<Rightarrow> nat \<Rightarrow> nat" where
  "arrived P base s t = base + waits_done P (pc s t) + (if inside (bar_at (bar s) t) then 1 else 0)"

definition in_round :: "statement list \<Rightarrow> nat \<Rightarrow> barrier_test \<Rightarrow> nat set" where
  "in_round P base s = {t. t < NUM_THREADS \<and> arrived P base s t = Suc (times_used (bar s))}"

text \<open>
  The rounds do not mix: every thread has arrived at all barriers before the current one, the threads that have
  arrived at the current one are those that wait, and they are as many as the barrier has counted.
\<close>

definition rounds_inv :: "statement list \<Rightarrow> nat \<Rightarrow> int \<Rightarrow> barrier_test \<Rightarrow> bool" where
  "rounds_inv P base c0 s \<longleftrightarrow>
     n_threads (bar s) = of_nat NUM_THREADS \<and> unat (count (bar s)) = card (in_round P base s) \<and> card (in_round P base s) < NUM_THREADS
     \<and> (\<forall>t < NUM_THREADS. (arrived P base s t = times_used (bar s) \<or> arrived P base s t = Suc (times_used (bar s)))
          \<and> (arrived P base s t = Suc (times_used (bar s)) \<longleftrightarrow> waiting (bar_at (bar s) t))
          \<and> (bar_at (bar s) t \<noteq> Outside \<longrightarrow> pc s t < length P \<and> P ! pc s t = Wait) \<and> pc s t \<le> length P)
     \<and> counter s = c0 + (\<Sum>t < NUM_THREADS. int (counts_done P (pc s t)))"

lemma place_simps [simp]:
  "\<not> waiting Outside" "\<not> waiting Arriving" "waiting (BarWaiting g)" "\<not> waiting (BarWoken g)"
  "\<not> inside Outside" "\<not> inside Arriving" "inside (BarWaiting g)" "inside (BarWoken g)"
  by (simp_all add: waiting_def inside_def)

lemma place_wake [simp]: "\<not> waiting (bar_wake p)" "inside (bar_wake p) = inside p"
  by (cases p; simp)+

lemma waiting_inside: "waiting p \<Longrightarrow> inside p"
  by (cases p) simp_all

lemma sum_step:
  assumes "t < NUM_THREADS"
  shows "(\<Sum>u < NUM_THREADS. int (f ((q(t := k)) u))) = (\<Sum>u < NUM_THREADS. int (f (q u))) - int (f (q t)) + int (f k)"
proof -
  have "(\<Sum>u < NUM_THREADS. int (f ((q(t := k)) u))) = (\<Sum>u \<in> {..<NUM_THREADS} - {t}. int (f ((q(t := k)) u))) + int (f k)"
    using assms by (subst sum.remove [of _ t]) simp_all
  moreover have "(\<Sum>u < NUM_THREADS. int (f (q u))) = (\<Sum>u \<in> {..<NUM_THREADS} - {t}. int (f (q u))) + int (f (q t))"
    using assms by (subst sum.remove [of _ t]) simp_all
  ultimately show ?thesis by simp
qed

lemma in_round_finite [simp]: "finite (in_round P base s)"
  by (simp add: in_round_def)

text \<open>A statement that is not a wait moves only its thread.\<close>

lemma rounds_local:
  assumes "rounds_inv P base c0 s" and "t < NUM_THREADS" and "pc s t < length P" and "P ! pc s t \<noteq> Wait"
  shows "rounds_inv P base c0 (s\<lparr>counter := counter s + (if P ! pc s t = Count then 1 else 0),
      pc := (pc s)(t := Suc (pc s t)), pass2 := b, rets := r\<rparr>)"
proof -
  let ?s = "s\<lparr>counter := counter s + (if P ! pc s t = Count then 1 else 0), pc := (pc s)(t := Suc (pc s t)), pass2 := b, rets := r\<rparr>"
  have a: "arrived P base ?s = arrived P base s"
    using assms(3,4) by (simp add: arrived_def fun_eq_iff done_Suc)
  then have "in_round P base ?s = in_round P base s" by (simp add: in_round_def)
  moreover have "counter ?s = c0 + (\<Sum>t < NUM_THREADS. int (counts_done P (pc ?s t)))"
    using assms(1,3) by (simp add: sum_step [OF assms(2), where f = "counts_done P"] done_Suc rounds_inv_def del: fun_upd_apply)
  ultimately show ?thesis using assms a by (auto simp: rounds_inv_def)
qed

lemma rounds_call:
  assumes "rounds_inv P base c0 s" and "t < NUM_THREADS" and "pc s t < length P" and "P ! pc s t = Wait"
    and "bar_at (bar s) t = Outside"
  shows "rounds_inv P base c0 (s\<lparr>bar := (bar s)\<lparr>bar_at := (bar_at (bar s))(t := Arriving)\<rparr>\<rparr>)"
proof -
  let ?s = "s\<lparr>bar := (bar s)\<lparr>bar_at := (bar_at (bar s))(t := Arriving)\<rparr>\<rparr>"
  have a: "arrived P base ?s = arrived P base s" using assms(5) by (simp add: arrived_def fun_eq_iff)
  then have "in_round P base ?s = in_round P base s" by (simp add: in_round_def)
  then show ?thesis using assms a by (auto simp: rounds_inv_def)
qed

lemma rounds_leave:
  assumes "rounds_inv P base c0 s" and "t < NUM_THREADS" and "pc s t < length P" and "P ! pc s t = Wait"
    and "bar_at (bar s) t = BarWoken g"
  shows "rounds_inv P base c0 (s\<lparr>bar := (bar s)\<lparr>bar_at := (bar_at (bar s))(t := Outside), departures := ds\<rparr>,
      pc := (pc s)(t := Suc (pc s t))\<rparr>)"
proof -
  let ?s = "s\<lparr>bar := (bar s)\<lparr>bar_at := (bar_at (bar s))(t := Outside), departures := ds\<rparr>, pc := (pc s)(t := Suc (pc s t))\<rparr>"
  have a: "arrived P base ?s = arrived P base s"
    using assms(3-5) by (simp add: arrived_def fun_eq_iff done_Suc)
  then have "in_round P base ?s = in_round P base s" by (simp add: in_round_def)
  moreover have "counter ?s = c0 + (\<Sum>t < NUM_THREADS. int (counts_done P (pc ?s t)))"
    using assms(1,3,4) by (simp add: sum_step [OF assms(2), where f = "counts_done P"] done_Suc rounds_inv_def del: fun_upd_apply)
  ultimately show ?thesis using assms a by (auto simp: rounds_inv_def)
qed

lemma rounds_arrive:
  assumes inv: "rounds_inv P base c0 s" and t: "t < NUM_THREADS" and wait: "pc s t < length P" "P ! pc s t = Wait"
    and at: "bar_at (bar s) t = Arriving"
  shows "rounds_inv P base c0 (s\<lparr>bar := barrier_arrive t (bar s),
      pc := (if bar_at (barrier_arrive t (bar s)) t = Outside then (pc s)(t := Suc (pc s t)) else pc s)\<rparr>)"
proof -
  let ?b = "bar s" and ?R = "in_round P base s"
  have notin: "t \<notin> ?R" using inv t at by (auto simp: in_round_def rounds_inv_def)
  have arr_t: "arrived P base s t = times_used ?b" using inv t at by (auto simp: rounds_inv_def)
  have c: "unat (count ?b) = card ?R" "card ?R < 5" using inv by (simp_all add: rounds_inv_def NUM_THREADS_def)
  have u: "unat (count ?b + 1) = Suc (card ?R)" using c by (simp add: unat_word_ariths)
  have full: "count ?b + 1 = n_threads ?b \<longleftrightarrow> Suc (card ?R) = 5"
    using inv u by (simp add: word_unat_eq_iff rounds_inv_def NUM_THREADS_def)
  show ?thesis
  proof (cases "Suc (card ?R) = 5")
    case True
    let ?s = "s\<lparr>bar := barrier_arrive t ?b, pc := (pc s)(t := Suc (pc s t))\<rparr>"
    have b: "times_used (barrier_arrive t ?b) = Suc (times_used ?b)" "count (barrier_arrive t ?b) = 0"
      "n_threads (barrier_arrive t ?b) = n_threads ?b" "bar_at (barrier_arrive t ?b) = bar_wake \<circ> (bar_at ?b)(t := Outside)"
      using full True by (simp_all add: barrier_arrive_def Let_def)
    have "?R = {..<5} - {t}"
    proof (rule card_subset_eq)
      show "?R \<subseteq> {..<5} - {t}" using notin by (auto simp: in_round_def NUM_THREADS_def)
      show "card ?R = card ({..<5 :: nat} - {t})" using True t by (simp add: NUM_THREADS_def)
    qed simp
    then have others: "arrived P base s x = Suc (times_used ?b)" if "x < NUM_THREADS" "x \<noteq> t" for x
      using that by (auto simp: in_round_def NUM_THREADS_def)
    have a: "arrived P base ?s x = Suc (times_used ?b)" if "x < NUM_THREADS" for x
      using others [OF that] arr_t at wait by (cases "x = t") (simp_all add: arrived_def b done_Suc)
    have "in_round P base ?s = {}" using a by (auto simp: in_round_def b)
    moreover have "counter ?s = c0 + (\<Sum>t < NUM_THREADS. int (counts_done P (pc ?s t)))"
      using inv wait by (simp add: sum_step [OF t, where f = "counts_done P"] done_Suc rounds_inv_def del: fun_upd_apply)
    moreover have "\<not> waiting (bar_at (bar ?s) x)" for x by (simp add: b)
    moreover have "bar_at (bar ?s) x \<noteq> Outside \<longrightarrow> pc ?s x < length P \<and> P ! pc ?s x = Wait" "pc ?s x \<le> length P"
      if "x < NUM_THREADS" for x
      using inv that wait by (auto simp: b rounds_inv_def)
    ultimately have "rounds_inv P base c0 ?s"
      using inv a unfolding rounds_inv_def by (simp add: b NUM_THREADS_def)
    then show ?thesis by (simp add: b)
  next
    case False
    let ?s = "s\<lparr>bar := barrier_arrive t ?b\<rparr>"
    have b: "times_used (barrier_arrive t ?b) = times_used ?b" "count (barrier_arrive t ?b) = count ?b + 1"
      "n_threads (barrier_arrive t ?b) = n_threads ?b"
      "bar_at (barrier_arrive t ?b) = (bar_at ?b)(t := BarWaiting (times_used ?b))"
      using full False by (simp_all add: barrier_arrive_def Let_def)
    have a: "arrived P base ?s x = (if x = t then Suc (times_used ?b) else arrived P base s x)" for x
      using arr_t at by (simp add: arrived_def b)
    then have "in_round P base ?s = insert t ?R" using t by (auto simp: in_round_def b)
    then have "card (in_round P base ?s) = Suc (card ?R)" using notin by simp
    moreover have "Suc (card ?R) < NUM_THREADS" using False c(2) by (simp add: NUM_THREADS_def)
    ultimately have "rounds_inv P base c0 ?s"
      using inv u wait a unfolding rounds_inv_def by (auto simp: b)
    then show ?thesis by (simp add: b)
  qed
qed

lemma rounds_step:
  assumes "rounds_inv P base c0 s" and "thread_go P t s = Some s'"
  shows "rounds_inv P base c0 s'"
proof -
  have t: "t < NUM_THREADS" "pc s t < length P" using assms(2) by (auto simp: thread_go_def split: if_splits)
  show ?thesis
  proof (cases "P ! pc s t = Wait")
    case False
    note local = rounds_local [OF assms(1) t False]
    show ?thesis
      using assms(2) t False local [of "rets s" "pass2 s"] local [of "(rets s)(t \<mapsto> counter s)" "pass2 s"]
        local [of "rets s" False]
      by (cases "P ! pc s t") (auto simp: thread_go_def Let_def split: if_splits)
  next
    case True
    show ?thesis
    proof (cases "bar_at (bar s) t")
      case Outside
      then show ?thesis using assms(2) t True rounds_call [OF assms(1) t True] by (simp add: thread_go_def)
    next
      case Arriving
      then show ?thesis using assms(2) t True rounds_arrive [OF assms(1) t True] by (simp add: thread_go_def)
    next
      case (BarWaiting g)
      then show ?thesis using assms(2) t True by (simp add: thread_go_def)
    next
      case (BarWoken g)
      then show ?thesis using assms(2) t True rounds_leave [OF assms(1) t True] by (auto simp: thread_go_def)
    qed
  qed
qed

section \<open>What the threads see\<close>

text \<open>
  A thread at statement \<open>k\<close>, outside the barrier, and one that may be at statement \<open>k'\<close> at the same time: as many
  waits done, or about to return from the last one. Every program of the file has as many counts before both, wherever
  the counter is looked at.
\<close>

definition looks :: "statement \<Rightarrow> bool" where
  "looks x \<longleftrightarrow> x = Check \<or> x = Return"

definition together :: "statement list \<Rightarrow> nat \<Rightarrow> nat \<Rightarrow> bool" where
  "together P k k' \<longleftrightarrow> waits_done P k' = waits_done P k
     \<or> k' < length P \<and> P ! k' = Wait \<and> Suc (waits_done P k') = waits_done P k"

definition synchronised :: "statement list \<Rightarrow> bool" where
  "synchronised P \<longleftrightarrow> list_all (\<lambda>k. looks (P ! k) \<longrightarrow>
     list_all (\<lambda>k'. together P k k' \<longrightarrow> counts_done P k' = counts_done P k) [0..<Suc (length P)]) [0..<length P]"

lemma tests_synchronised: "synchronised thread_func_throwaway" "synchronised thread_func_reusable"
  by code_simp+

lemma counter_seen:
  assumes inv: "rounds_inv P base c0 s" and "synchronised P" and t: "t < NUM_THREADS" and k: "pc s t < length P" "looks (P ! pc s t)"
  shows "counter s = c0 + 5 * int (counts_done P (pc s t))"
proof -
  have out: "bar_at (bar s) t = Outside" using inv t k by (auto simp: rounds_inv_def looks_def)
  then have "arrived P base s t \<noteq> Suc (times_used (bar s))" using inv t unfolding rounds_inv_def by (metis place_simps(1))
  then have now: "base + waits_done P (pc s t) = times_used (bar s)"
    using inv t out by (auto simp: rounds_inv_def arrived_def)
  have "counts_done P (pc s u) = counts_done P (pc s t)" if u: "u < NUM_THREADS" for u
  proof -
    have facts: "arrived P base s u = times_used (bar s) \<or> arrived P base s u = Suc (times_used (bar s))"
      "arrived P base s u = Suc (times_used (bar s)) \<longleftrightarrow> waiting (bar_at (bar s) u)"
      "bar_at (bar s) u \<noteq> Outside \<Longrightarrow> pc s u < length P \<and> P ! pc s u = Wait" "pc s u \<le> length P"
      using inv u by (auto simp: rounds_inv_def)
    have "together P (pc s t) (pc s u)"
    proof (cases "inside (bar_at (bar s) u)")
      case True
      then have "bar_at (bar s) u \<noteq> Outside" by auto
      then show ?thesis using facts True now by (auto simp: together_def arrived_def)
    next
      case False
      then have "\<not> waiting (bar_at (bar s) u)" using waiting_inside by blast
      then show ?thesis using facts False now by (auto simp: together_def arrived_def)
    qed
    then show ?thesis using assms(2) k facts(4) by (auto simp: synchronised_def list_all_iff simp del: upt_Suc)
  qed
  then have "(\<Sum>u < NUM_THREADS. int (counts_done P (pc s u))) = (\<Sum>u < NUM_THREADS. int (counts_done P (pc s t)))"
    by (intro sum.cong) simp_all
  then show ?thesis using inv by (simp add: rounds_inv_def NUM_THREADS_def)
qed

text \<open>What the tests have seen so far: every check has passed, and who has returned has returned \<open>r\<close>.\<close>

definition seen_inv :: "statement list \<Rightarrow> nat \<Rightarrow> int \<Rightarrow> barrier_test \<Rightarrow> bool" where
  "seen_inv P base c0 s \<longleftrightarrow> rounds_inv P base c0 s \<and> pass2 s
     \<and> (\<forall>t < NUM_THREADS. pc s t = length P \<longrightarrow> rets s t = Some (c0 + 5 * int (counts_done P (length P))))"

definition ends_with_return :: "statement list \<Rightarrow> bool" where
  "ends_with_return P \<longleftrightarrow> list_all (\<lambda>k. (P ! k = Return) = (Suc k = length P)) [0..<length P]"

lemma tests_return: "ends_with_return thread_func_throwaway" "ends_with_return thread_func_reusable"
  by code_simp+

lemma seen_step:
  assumes inv: "seen_inv P base c0 s" and P: "synchronised P" "ends_with_return P" "c0 mod 5 = 0" and go: "thread_go P t s = Some s'"
  shows "seen_inv P base c0 s'"
proof -
  have r: "rounds_inv P base c0 s" using inv by (simp add: seen_inv_def)
  have t: "t < NUM_THREADS" "pc s t < length P" using go by (auto simp: thread_go_def split: if_splits)
  have last: "P ! pc s t = Return \<longleftrightarrow> Suc (pc s t) = length P" using P(2) t(2) by (simp add: ends_with_return_def list_all_iff)
  have seen: "counter s = c0 + 5 * int (counts_done P (pc s t))" if "looks (P ! pc s t)"
    using counter_seen [OF r P(1) t that] .
  have mod: "counter s mod 5 = 0" if "P ! pc s t = Check" using seen that P(3) by (simp add: looks_def)
  have ret: "counter s = c0 + 5 * int (counts_done P (length P))" if "P ! pc s t = Return"
    using seen that last done_Suc(2) [OF t(2)] by (simp add: looks_def)
  have pass: "pass2 s'"
    using go inv mod by (auto simp: thread_go_def seen_inv_def Let_def split: if_splits statement.splits option.splits)
  have "rets s' u = Some (c0 + 5 * int (counts_done P (length P)))" if u: "u < NUM_THREADS" "pc s' u = length P" for u
  proof (cases "u = t \<and> P ! pc s t = Return")
    case True
    then show ?thesis using go t ret by (auto simp: thread_go_def)
  next
    case False
    then have "pc s u = length P"
      using go u t last by (auto simp: thread_go_def Let_def split: if_splits statement.splits option.splits)
    moreover have "rets s' u = rets s u"
      using go False by (auto simp: thread_go_def Let_def split: if_splits statement.splits option.splits)
    ultimately show ?thesis using inv u by (simp add: seen_inv_def)
  qed
  then show ?thesis using rounds_step [OF r go] pass by (simp add: seen_inv_def)
qed

interpretation throwaway: transition_system "thread_go thread_func_throwaway" "\<lambda>s. s = test_start"
    "seen_inv thread_func_throwaway 0 0"
proof unfold_locales
  fix s assume "s = test_start"
  then show "seen_inv thread_func_throwaway 0 0 s"
    by (simp add: seen_inv_def rounds_inv_def test_start_def barrier_init_def in_round_def arrived_def waits_done_def
        counts_done_def thread_func_throwaway_def NUM_THREADS_def)
qed (rule seen_step; simp add: tests_synchronised tests_return)

text \<open>The second test starts where the first one ended: with the counter at five, and one round of the barrier over.\<close>

definition joined_first :: "barrier_test \<Rightarrow> bool" where
  "joined_first s \<longleftrightarrow> (\<exists>s1. seen_inv thread_func_throwaway 0 0 s1 \<and> all_joined thread_func_throwaway s1
     \<and> s = s1\<lparr>pc := (\<lambda>_. 0), rets := Map.empty\<rparr>)"

lemma joined_first_ok:
  assumes "joined_first s"
  shows "seen_inv thread_func_reusable 1 5 s"
proof -
  let ?P = thread_func_throwaway
  obtain s1 where s1: "rounds_inv ?P 0 0 s1" "pass2 s1" "\<And>t. t < NUM_THREADS \<Longrightarrow> pc s1 t = length ?P"
    and s: "s = s1\<lparr>pc := (\<lambda>_. 0), rets := Map.empty\<rparr>"
    using assms by (auto simp: joined_first_def seen_inv_def all_joined_def list_all_iff)
  have fin: "waits_done ?P (length ?P) = 1" "counts_done ?P (length ?P) = 1" by code_simp+
  have out: "bar_at (bar s1) t = Outside" if "t < NUM_THREADS" for t
    using s1(1,3) that by (auto simp: rounds_inv_def)
  have now: "arrived ?P 0 s1 t = 1" if "t < NUM_THREADS" for t
    using s1(3) [OF that] out [OF that] fin by (simp add: arrived_def)
  have tu: "times_used (bar s1) = 1"
  proof -
    have z: "(0 :: nat) < NUM_THREADS" by (simp add: NUM_THREADS_def)
    have "arrived ?P 0 s1 0 = times_used (bar s1) \<or> waiting (bar_at (bar s1) 0)"
      using s1(1) z unfolding rounds_inv_def by blast
    then show ?thesis using now [OF z] out [OF z] by simp
  qed
  have a: "arrived thread_func_reusable 1 s t = 1" if "t < NUM_THREADS" for t
    using out [OF that] by (simp add: arrived_def s waits_done_def)
  have none: "in_round ?P 0 s1 = {}" "in_round thread_func_reusable 1 s = {}"
    using now a tu by (auto simp: in_round_def s)
  have "counter s1 = 5" using s1(1,3) fin by (simp add: rounds_inv_def NUM_THREADS_def)
  then have "rounds_inv thread_func_reusable 1 5 s"
    using s1(1) a none tu out unfolding rounds_inv_def by (auto simp: s counts_done_def)
  then show ?thesis using s1(2) by (simp add: seen_inv_def s thread_func_reusable_def)
qed

interpretation reusable: transition_system "thread_go thread_func_reusable" joined_first "seen_inv thread_func_reusable 1 5"
proof unfold_locales
  fix s assume "joined_first s"
  then show "seen_inv thread_func_reusable 1 5 s" by (rule joined_first_ok)
qed (rule seen_step; simp add: tests_synchronised tests_return)

text \<open>No schedule gets stuck: while a thread has not returned, one of them can go on.\<close>

lemma never_stuck:
  assumes inv: "rounds_inv P base c0 s" and left: "t < NUM_THREADS" "pc s t < length P"
  shows "\<exists>u s'. thread_go P u s = Some s'"
proof (rule ccontr)
  assume "\<not> ?thesis"
  then have none: "thread_go P u s = None" for u by (cases "thread_go P u s") auto
  have stuck: "waiting (bar_at (bar s) u) \<and> P ! pc s u = Wait" if u: "u < NUM_THREADS" "pc s u < length P" for u
  proof -
    have w: "P ! pc s u = Wait" using none [of u] u by (cases "P ! pc s u") (simp_all add: thread_go_def Let_def)
    have "waiting (bar_at (bar s) u)"
      using none [of u] u w by (cases "bar_at (bar s) u") (simp_all add: thread_go_def Let_def)
    then show ?thesis using w by simp
  qed
  have "{..<NUM_THREADS} \<subseteq> in_round P base s"
  proof
    fix u assume "u \<in> {..<NUM_THREADS}"
    then have u: "u < NUM_THREADS" by simp
    have facts: "arrived P base s v = Suc (times_used (bar s)) \<longleftrightarrow> waiting (bar_at (bar s) v)"
      "arrived P base s v = times_used (bar s) \<or> arrived P base s v = Suc (times_used (bar s))"
      "bar_at (bar s) v \<noteq> Outside \<Longrightarrow> pc s v < length P" "pc s v \<le> length P" if "v < NUM_THREADS" for v
      using inv that by (auto simp: rounds_inv_def)
    have "pc s u < length P"
    proof (rule ccontr)
      assume over: "\<not> pc s u < length P"
      then have end_u: "pc s u = length P" "bar_at (bar s) u = Outside" using facts(3,4) [OF u] by auto
      have "waits_done P (pc s t) < waits_done P (length P)" using stuck [OF left] by (intro waits_done_le) (simp_all add: left)
      moreover have "base + waits_done P (length P) = times_used (bar s)"
        using facts(1,2) [OF u] end_u by (auto simp: arrived_def)
      moreover have "arrived P base s t = Suc (times_used (bar s))" using stuck [OF left] facts(1) [OF left(1)] by simp
      ultimately show False using stuck [OF left] waiting_inside by (auto simp: arrived_def)
    qed
    then show "u \<in> in_round P base s" using stuck [OF u] facts(1) [OF u] u by (simp add: in_round_def)
  qed
  then have "NUM_THREADS \<le> card (in_round P base s)" using card_mono [of "in_round P base s" "{..<NUM_THREADS}"] by simp
  then show False using inv by (simp add: rounds_inv_def)
qed

text \<open>When all threads of a test are joined, none is inside the barrier, and it may be destroyed.\<close>

lemma joined_destroy:
  assumes "rounds_inv P base c0 s" and "all_joined P s"
  shows "barrier_destroy [0..<NUM_THREADS] (bar s) = Some 0"
proof -
  have "bar_at (bar s) t = Outside" if "t < NUM_THREADS" for t
    using assms that by (auto simp: rounds_inv_def all_joined_def list_all_iff)
  then show ?thesis by (simp add: barrier_destroy_def list_all_iff)
qed

text \<open>
  The work a thread has left: three steps for each statement, less those made inside the barrier. A step of one thread does not
  add to that of another, which at most is woken.
\<close>

fun steps_inside :: "bar_place \<Rightarrow> nat" where
  "steps_inside Outside = 0"
| "steps_inside Arriving = 1"
| "steps_inside _ = 2"

definition thread_work :: "statement list \<Rightarrow> barrier_test \<Rightarrow> nat \<Rightarrow> nat" where
  "thread_work P s t = 3 * (length P - pc s t) - steps_inside (bar_at (bar s) t)"

definition test_work :: "statement list \<Rightarrow> barrier_test \<Rightarrow> nat" where
  "test_work P s = (\<Sum>t < NUM_THREADS. thread_work P s t)"

lemma steps_inside_wake [simp]: "steps_inside (bar_wake p) = steps_inside p"
  by (cases p) simp_all

lemma steps_inside_le: "steps_inside p \<le> 2"
  by (cases p) simp_all

lemma barrier_arrive_places:
  "steps_inside (bar_at (barrier_arrive t b) u) = (if u = t then steps_inside (bar_at (barrier_arrive t b) t) else steps_inside (bar_at b u))"
  "bar_at (barrier_arrive t b) t = Outside \<or> bar_at (barrier_arrive t b) t = BarWaiting (times_used b)"
  by (auto simp: barrier_arrive_def Let_def)

lemma thread_go_work:
  assumes "thread_go P t s = Some s'"
  shows "thread_work P s' t < thread_work P s t" and "u \<noteq> t \<Longrightarrow> thread_work P s' u = thread_work P s u"
proof -
  have t: "t < NUM_THREADS" "pc s t < length P" using assms by (auto simp: thread_go_def split: if_splits)
  have le: "steps_inside (bar_at (bar s) t) \<le> 2" by (rule steps_inside_le)
  have "thread_work P s' t < thread_work P s t \<and> (u \<noteq> t \<longrightarrow> thread_work P s' u = thread_work P s u)"
  proof (cases "P ! pc s t = Wait")
    case False
    then show ?thesis
      using assms t le by (cases "P ! pc s t") (auto simp: thread_go_def thread_work_def Let_def)
  next
    case True
    show ?thesis
    proof (cases "bar_at (bar s) t")
      case Arriving
      then show ?thesis
        using assms t True barrier_arrive_places [of t "bar s"]
        by (auto simp: thread_go_def thread_work_def Let_def split: if_splits)
    qed (use assms t True in \<open>auto simp: thread_go_def thread_work_def Let_def\<close>)
  qed
  then show "thread_work P s' t < thread_work P s t" "u \<noteq> t \<Longrightarrow> thread_work P s' u = thread_work P s u" by auto
qed

lemma test_work_step:
  assumes "thread_go P t s = Some s'"
  shows "test_work P s' < test_work P s"
proof -
  have t: "t < NUM_THREADS" using assms by (auto simp: thread_go_def split: if_splits)
  have "thread_work P s' u \<le> thread_work P s u" for u
    using thread_go_work [OF assms] by (cases "u = t") (simp_all add: less_imp_le)
  then show ?thesis
    unfolding test_work_def using t thread_go_work(1) [OF assms]
    by (intro sum_strict_mono_ex1) auto
qed

lemma test_not_stuck:
  assumes "seen_inv P base c0 s" and "\<not> all_joined P s"
  shows "\<exists>u s'. thread_go P u s = Some s'"
proof -
  have r: "rounds_inv P base c0 s" using assms(1) by (simp add: seen_inv_def)
  obtain t where t: "t < NUM_THREADS" "pc s t \<noteq> length P" using assms(2) by (auto simp: all_joined_def list_all_iff)
  then have "pc s t < length P" using r unfolding rounds_inv_def by (metis le_neq_implies_less)
  then show ?thesis by (rule never_stuck [OF r t(1)])
qed

interpretation throwaway_ends: finishing_system "thread_go thread_func_throwaway" "\<lambda>s. s = test_start"
    "seen_inv thread_func_throwaway 0 0" "test_work thread_func_throwaway" "all_joined thread_func_throwaway"
  by unfold_locales (erule test_work_step, erule test_not_stuck)

interpretation reusable_ends: finishing_system "thread_go thread_func_reusable" joined_first
    "seen_inv thread_func_reusable 1 5" "test_work thread_func_reusable" "all_joined thread_func_reusable"
  by unfold_locales (erule test_work_step, erule test_not_stuck)

lemma tests_pass:
  assumes "barrier_tests_main schedule1 schedule2 = Some result"
  shows "result = (True, True)"
proof -
  let ?P = thread_func_throwaway
  obtain s1 where s1: "run (thread_go ?P) schedule1 test_start = Some s1" "all_joined ?P s1"
    using assms by (auto simp: barrier_tests_main_def Let_def split: option.splits if_splits)
  let ?s = "s1\<lparr>pc := (\<lambda>_. 0), rets := Map.empty\<rparr>"
  obtain s2 where s2: "run (thread_go thread_func_reusable) schedule2 ?s = Some s2"
    "result = (list_all (\<lambda>t. rets s1 t = Some 5) [0..<NUM_THREADS], pass2 s2)"
    using assms s1 by (auto simp: barrier_tests_main_def Let_def split: option.splits if_splits)
  have i1: "seen_inv ?P 0 0 s1" by (rule throwaway.reachable [OF s1(1)]) simp
  have "counts_done ?P (length ?P) = 1" by code_simp
  then have "rets s1 t = Some 5" if "t < NUM_THREADS" for t
    using i1 s1(2) that by (simp add: seen_inv_def all_joined_def list_all_iff)
  moreover have "seen_inv thread_func_reusable 1 5 s2"
    using reusable.reachable [OF s2(1)] i1 s1(2) by (auto simp: joined_first_def)
  ultimately show ?thesis using s2(2) by (simp add: seen_inv_def list_all_iff)
qed


lemma test_work_bound:
  "test_work thread_func_throwaway test_start \<le> 45"
  "test_work thread_func_reusable (s\<lparr>pc := (\<lambda>_. 0), rets := Map.empty\<rparr>) \<le> 195"
proof -
  have "test_work P t \<le> (\<Sum>u < NUM_THREADS. 3 * length P)" for P t
    unfolding test_work_def by (rule sum_mono) (simp add: thread_work_def)
  from this [of thread_func_throwaway test_start] this [of thread_func_reusable "s\<lparr>pc := (\<lambda>_. 0), rets := Map.empty\<rparr>"]
  show "test_work thread_func_throwaway test_start \<le> 45" "test_work thread_func_reusable (s\<lparr>pc := (\<lambda>_. 0), rets := Map.empty\<rparr>) \<le> 195"
    by (simp_all add: thread_func_throwaway_def thread_func_reusable_def NUM_THREADS_def numeral_eq_Suc)
qed


definition in_turn :: "nat list" where
  "in_turn = [0, 0, 0, 1, 1, 1, 2, 2, 2, 3, 3, 3, 4, 4, 4]"



end
